(* ===== verification/Prelude.thy ===== *)
theory Prelude
  imports Main "HOL-Library.Word" "HOL-Library.Monad_Syntax" "HOL-Library.Signed_Division"
begin

text \<open>
  Shared vocabulary of the development: the C integer types and their conversions, bytes and
  32-bit words in a little-endian host's memory, byte-addressed buffers with checked loads and
  stores, and the error codes of \<^verbatim>\<open>src/src/include/pcp/pmapi.h\<close>.

  A buffer is the list of its bytes. A load or store that is not inside the buffer is
  \<^const>\<open>None\<close>: the C program has then left the object it was given, which is undefined
  behaviour. A C function that returns a status is modelled with result type
  \<open>(int + 'a) option\<close>: \<^const>\<open>None\<close> is such a fault, \<^term>\<open>Some (Inl e)\<close> is the
  return of the negative status \<open>e\<close>, and \<^term>\<open>Some (Inr v)\<close> is success with the
  output parameters \<open>v\<close>.
\<close>

unbundle bit_operations_syntax

section \<open>Machine types\<close>

type_synonym byte = "8 word"
type_synonym u32 = "32 word"
type_synonym mem = "byte list"
type_synonym 'a c_result = "(int + 'a) option"

text \<open>
  Conversions between the C types: \<open>s32\<close> is the conversion of an integer value to \<open>int\<close>,
  \<open>u64\<close> the conversion to \<open>size_t\<close> that a comparison with a \<open>sizeof\<close> performs.
\<close>

definition s32 :: "int \<Rightarrow> int" where
  "s32 x = sint (word_of_int x :: u32)"

definition u64 :: "int \<Rightarrow> int" where
  "u64 x = take_bit 64 x"

definition is_int32 :: "int \<Rightarrow> bool" where
  "is_int32 x \<longleftrightarrow> - (2 ^ 31) \<le> x \<and> x < 2 ^ 31"

definition INT_MAX :: int where
  "INT_MAX = 2147483647"

named_theorems mem_simps "loads and stores on buffers"
named_theorems layout_simps "byte layouts of PDUs and their lengths"

lemma s32_id [simp]: "is_int32 x \<Longrightarrow> s32 x = x"
  by (simp add: s32_def is_int32_def sint_sbintrunc' signed_take_bit_int_eq_self)

lemma is_int32_sint [simp]: "is_int32 (sint (w :: u32))"
  using sint_greater_eq [of w] sint_less [of w] by (simp add: is_int32_def)

lemma is_int32_s32 [simp]: "is_int32 (s32 x)"
  by (simp add: s32_def)

lemma sint_word_of_int [simp]: "is_int32 x \<Longrightarrow> sint (word_of_int x :: u32) = x"
  using s32_id [of x] by (simp add: s32_def)

lemma u64_id [simp]: "0 \<le> x \<Longrightarrow> x < 2 ^ 64 \<Longrightarrow> u64 x = x"
  by (simp add: u64_def take_bit_int_eq_self)

lemma u64_nonneg [simp]: "0 \<le> u64 x"
  by (simp add: u64_def)

lemma u64_negative: "x < 0 \<Longrightarrow> - (2 ^ 63) \<le> x \<Longrightarrow> 2 ^ 63 \<le> u64 x"
proof -
  assume neg: "x < 0" and lo: "- (2 ^ 63) \<le> x"
  have "u64 x = (x + 2 ^ 64) mod 2 ^ 64"
    by (simp add: u64_def take_bit_eq_mod)
  also have "\<dots> = x + 2 ^ 64"
    using neg lo by (intro mod_pos_pos_trivial) auto
  finally show ?thesis using lo by simp
qed

lemma int32_cases:
  assumes "is_int32 x"
  obtains "0 \<le> x" "u64 x = x" | "x < 0" "2 ^ 63 \<le> u64 x"
  using assms u64_negative [of x] by (cases "0 \<le> x") (auto simp: is_int32_def)

section \<open>Bytes and words\<close>

text \<open>The bytes of a 32-bit integer in the memory of a little-endian host, least byte first.\<close>

definition w2b :: "u32 \<Rightarrow> byte list" where
  "w2b w = [ucast w, ucast (drop_bit 8 w), ucast (drop_bit 16 w), ucast (drop_bit 24 w)]"

fun b2w :: "byte list \<Rightarrow> u32" where
  "b2w [a, b, c, d] =
     ucast a OR push_bit 8 (ucast b) OR push_bit 16 (ucast c) OR push_bit 24 (ucast d)"
| "b2w _ = 0"

text \<open>\<open>htonl\<close> reverses the bytes on such a host, and \<open>ntohl\<close> is the same function.\<close>

definition htonl :: "u32 \<Rightarrow> u32" where
  "htonl w = b2w (rev (w2b w))"

abbreviation ntohl :: "u32 \<Rightarrow> u32" where
  "ntohl \<equiv> htonl"

lemma length_w2b [simp, layout_simps]: "length (w2b w) = 4"
  by (simp add: w2b_def)

lemma b2w_w2b [simp]: "b2w (w2b w) = w"
proof (rule bit_word_eqI)
  fix n
  assume "n < LENGTH(32)"
  then consider "n < 8" | "8 \<le> n" "n < 16" | "16 \<le> n" "n < 24" | "24 \<le> n" "n < 32"
    by fastforce
  then show "bit (b2w (w2b w)) n = bit w n"
    by cases (auto simp: w2b_def bit_simps)
qed

lemma byte_bit_out [simp]: "8 \<le> n \<Longrightarrow> \<not> bit (b :: byte) n"
  using bit_imp_le_length [of b n] by auto

lemma w2b_b2w_list: "w2b (b2w [a, b, c, d]) = [a, b, c, d]"
  by (auto simp: w2b_def bit_simps intro!: bit_word_eqI)

lemma w2b_b2w [simp]: "length bs = 4 \<Longrightarrow> w2b (b2w bs) = bs"
proof -
  assume "length bs = 4"
  then obtain a b c d where "bs = [a, b, c, d]"
    by (auto simp: numeral_eq_Suc length_Suc_conv)
  then show ?thesis by (simp only: w2b_b2w_list)
qed

lemma w2b_htonl: "w2b (htonl w) = rev (w2b w)"
  by (simp add: htonl_def)

lemma htonl_htonl [simp]: "htonl (htonl w) = w"
  unfolding htonl_def [of "htonl w"] by (simp add: w2b_htonl)

lemma w2b_inject: "w2b v = w2b w \<longleftrightarrow> v = w"
  by (metis b2w_w2b)

lemma htonl_inject: "htonl v = htonl w \<longleftrightarrow> v = w"
  by (metis htonl_htonl)

section \<open>Buffers\<close>

definition ld :: "mem \<Rightarrow> nat \<Rightarrow> nat \<Rightarrow> byte list option" where
  "ld m a n = (if a + n \<le> length m then Some (take n (drop a m)) else None)"

definition upd :: "mem \<Rightarrow> nat \<Rightarrow> byte list \<Rightarrow> mem" where
  "upd m a bs = take a m @ bs @ drop (a + length bs) m"

definition st :: "mem \<Rightarrow> nat \<Rightarrow> byte list \<Rightarrow> mem option" where
  "st m a bs = (if a + length bs \<le> length m then Some (upd m a bs) else None)"

definition ld32 :: "mem \<Rightarrow> nat \<Rightarrow> u32 option" where
  "ld32 m a = map_option b2w (ld m a 4)"

definition st32 :: "mem \<Rightarrow> nat \<Rightarrow> u32 \<Rightarrow> mem option" where
  "st32 m a w = st m a (w2b w)"

text \<open>The field of a PDU at offset \<open>a\<close> that the wire carries in network byte order.\<close>

definition ldn :: "mem \<Rightarrow> nat \<Rightarrow> u32 option" where
  "ldn m a = map_option ntohl (ld32 m a)"

definition stn :: "mem \<Rightarrow> nat \<Rightarrow> u32 \<Rightarrow> mem option" where
  "stn m a w = st32 m a (htonl w)"

text \<open>Loops over consecutive network-order words.\<close>

fun ldns :: "mem \<Rightarrow> nat \<Rightarrow> nat \<Rightarrow> u32 list option" where
  "ldns m a 0 = Some []"
| "ldns m a (Suc n) = do { w \<leftarrow> ldn m a; ws \<leftarrow> ldns m (a + 4) n; Some (w # ws) }"

fun stns :: "mem \<Rightarrow> nat \<Rightarrow> u32 list \<Rightarrow> mem option" where
  "stns m a [] = Some m"
| "stns m a (w # ws) = do { m' \<leftarrow> stn m a w; stns m' (a + 4) ws }"

definition n2b :: "u32 \<Rightarrow> byte list" where
  "n2b w = w2b (htonl w)"

lemma length_n2b [simp, layout_simps]: "length (n2b w) = 4"
  by (simp add: n2b_def)

text \<open>\<open>bytes_at m a bs\<close>: the buffer \<open>m\<close> holds the bytes \<open>bs\<close> at offset \<open>a\<close>.\<close>

definition bytes_at :: "mem \<Rightarrow> nat \<Rightarrow> byte list \<Rightarrow> bool" where
  "bytes_at m a bs \<longleftrightarrow> ld m a (length bs) = Some bs"

lemma length_upd [simp]: "a + length bs \<le> length m \<Longrightarrow> length (upd m a bs) = length m"
  by (simp add: upd_def)

lemma st_Some [mem_simps]: "a + length bs \<le> length m \<Longrightarrow> st m a bs = Some (upd m a bs)"
  by (simp add: st_def)

lemma st32_Some [mem_simps]: "a + 4 \<le> length m \<Longrightarrow> st32 m a w = Some (upd m a (w2b w))"
  by (simp add: st32_def mem_simps)

lemma stn_Some [mem_simps]: "a + 4 \<le> length m \<Longrightarrow> stn m a w = Some (upd m a (n2b w))"
  by (simp add: stn_def n2b_def mem_simps)

lemma st_length: "st m a bs = Some m' \<Longrightarrow> length m' = length m"
  by (auto simp: st_def split: if_splits)

lemma ld_Some_iff: "(\<exists>bs. ld m a n = Some bs) \<longleftrightarrow> a + n \<le> length m"
  by (simp add: ld_def)

lemma ld_None_iff [simp]: "ld m a n = None \<longleftrightarrow> length m < a + n"
  by (auto simp: ld_def)

lemma ld32_None_iff [simp]: "ld32 m a = None \<longleftrightarrow> length m < a + 4"
  by (auto simp: ld32_def)

lemma ldn_None_iff [simp]: "ldn m a = None \<longleftrightarrow> length m < a + 4"
  by (auto simp: ldn_def)

lemma ldns_None_iff: "ldns m a n = None \<longleftrightarrow> 0 < n \<and> length m < a + 4 * n"
proof (induction n arbitrary: a)
  case 0
  show ?case by simp
next
  case (Suc n)
  show ?case using Suc.IH [of "a + 4"] ldn_None_iff [of m a]
    by (cases "ldn m a") (auto simp: bind_eq_None_conv)
qed

lemma length_ld: "ld m a n = Some bs \<Longrightarrow> length bs = n"
  by (auto simp: ld_def split: if_splits)

lemma length_ldns: "ldns m a n = Some ws \<Longrightarrow> length ws = n"
  by (induction n arbitrary: a ws) (auto simp: bind_eq_Some_conv)

lemma ld_obtain:
  assumes "a + 4 \<le> length m"
  obtains w where "ldn m a = Some w"
  using assms by (cases "ldn m a") auto

lemma bind_None_iff:
  "Option.bind x f = None \<longleftrightarrow> x = None \<or> (\<exists>y. x = Some y \<and> f y = None)"
  by (cases x) auto

lemma bytes_at_bound: "bytes_at m a bs \<Longrightarrow> a + length bs \<le> length m"
  by (auto simp: bytes_at_def ld_def split: if_splits)

lemma bytes_at_some:
  assumes "a + n \<le> length m"
  obtains bs where "bytes_at m a bs" "length bs = n"
proof -
  have "bytes_at m a (take n (drop a m))" "length (take n (drop a m)) = n"
    using assms by (simp_all add: bytes_at_def ld_def)
  then show thesis by (rule that)
qed

lemma bytes_at_append: "bytes_at m a (xs @ ys) \<longleftrightarrow> bytes_at m a xs \<and> bytes_at m (a + length xs) ys"
proof -
  have "take (length xs + length ys) (drop a m) =
      take (length xs) (drop a m) @ take (length ys) (drop (a + length xs) m)"
    by (simp add: take_add add.commute)
  then show ?thesis
    by (auto simp: bytes_at_def ld_def append_eq_append_conv split: if_splits)
qed

lemma bytes_at_Nil [simp]: "bytes_at m a [] \<longleftrightarrow> a \<le> length m"
  by (auto simp: bytes_at_def ld_def)

lemma bytes_at_upd_same [simp]: "a + length bs \<le> length m \<Longrightarrow> bytes_at (upd m a bs) a bs"
  by (simp add: bytes_at_def ld_def upd_def)

lemma ld_upd_disjoint:
  assumes "a + length bs \<le> length m" and "b + n \<le> a \<or> a + length bs \<le> b"
  shows "ld (upd m a bs) b n = ld m b n"
proof (cases "b + n \<le> a")
  case True
  then have "take n (drop b (take a m)) = take n (drop b m)"
    by (simp add: drop_take min_def)
  with True assms(1) show ?thesis by (simp add: ld_def upd_def)
next
  case False
  with assms show ?thesis by (auto simp: ld_def upd_def)
qed

lemma ld32_upd_frame [mem_simps]:
  "a + length bs \<le> length m \<Longrightarrow> b + 4 \<le> a \<or> a + length bs \<le> b \<Longrightarrow>
   ld32 (upd m a bs) b = ld32 m b"
  by (simp add: ld32_def ld_upd_disjoint)

lemma ldn_upd_frame [mem_simps]:
  "a + length bs \<le> length m \<Longrightarrow> b + 4 \<le> a \<or> a + length bs \<le> b \<Longrightarrow>
   ldn (upd m a bs) b = ldn m b"
  by (simp add: ldn_def ld32_upd_frame)

lemma bytes_at_upd_frame:
  assumes "bytes_at m b xs" and "a + length bs \<le> length m" and "b + length xs \<le> a \<or> a + length bs \<le> b"
  shows "bytes_at (upd m a bs) b xs"
  using assms by (simp add: bytes_at_def ld_upd_disjoint)

lemma bytes_at_upd_other [mem_simps]:
  "a + length bs \<le> length m \<Longrightarrow> b + length xs \<le> a \<or> a + length bs \<le> b \<Longrightarrow>
   bytes_at (upd m a bs) b xs = bytes_at m b xs"
  by (simp add: bytes_at_def ld_upd_disjoint)

lemma bytes_at_append':
  "b = a + length xs \<Longrightarrow> bytes_at m a xs \<Longrightarrow> bytes_at m b ys \<Longrightarrow> bytes_at m a (xs @ ys)"
  by (simp add: bytes_at_append)

lemma bytes_at_upd_append:
  assumes "bytes_at m a xs" and "a + length xs + length bs \<le> length m" and "b = a + length xs"
  shows "bytes_at (upd m b bs) a (xs @ bs)"
  using assms by (simp add: bytes_at_append bytes_at_upd_frame)

lemma bytes_at_ld: "bytes_at m a bs \<Longrightarrow> n = length bs \<Longrightarrow> ld m a n = Some bs"
  by (simp add: bytes_at_def)

lemma bytes_at_ld32: "bytes_at m a (w2b w) \<Longrightarrow> ld32 m a = Some w"
  by (simp add: bytes_at_def ld32_def)

lemma bytes_at_ldn: "bytes_at m a (n2b w) \<Longrightarrow> ldn m a = Some w"
  by (simp add: n2b_def ldn_def bytes_at_ld32)

lemma ld32_upd_same [mem_simps]: "a + 4 \<le> length m \<Longrightarrow> ld32 (upd m a (w2b w)) a = Some w"
  by (simp add: bytes_at_ld32)

lemma ldn_upd_same [mem_simps]: "a + 4 \<le> length m \<Longrightarrow> ldn (upd m a (n2b w)) a = Some w"
  by (simp add: bytes_at_ldn)

lemma stns_Some [mem_simps]:
  "a + 4 * length ws \<le> length m \<Longrightarrow> stns m a ws = Some (upd m a (concat (map n2b ws)))"
proof (induction ws arbitrary: m a)
  case Nil
  show ?case by (simp add: upd_def)
next
  case (Cons w ws)
  have len: "length (concat (map n2b vs)) = 4 * length vs" for vs
    by (induction vs) auto
  have "upd (upd m a (n2b w)) (a + 4) (concat (map n2b ws)) = upd m a (concat (map n2b (w # ws)))"
    using Cons.prems by (simp add: upd_def len ac_simps)
  with Cons show ?case by (simp add: mem_simps)
qed

lemma length_concat_n2b [simp, layout_simps]: "length (concat (map n2b ws)) = 4 * length ws"
  by (induction ws) auto

lemma bytes_at_ldns: "bytes_at m a (concat (map n2b ws)) \<Longrightarrow> n = length ws \<Longrightarrow> ldns m a n = Some ws"
  by (induction ws arbitrary: a n) (auto simp: bytes_at_append bytes_at_ldn)

lemma bytes_at_split:
  "bytes_at m a bs \<longleftrightarrow> (\<exists>pre post. m = pre @ bs @ post \<and> length pre = a)"
proof
  assume at: "bytes_at m a bs"
  then have len: "a + length bs \<le> length m" and tk: "take (length bs) (drop a m) = bs"
    by (auto simp: bytes_at_def ld_def split: if_splits)
  have "m = take a m @ take (length bs) (drop a m) @ drop (length bs) (drop a m)"
    by (simp only: append_take_drop_id)
  with tk len show "\<exists>pre post. m = pre @ bs @ post \<and> length pre = a"
    by (intro exI [of _ "take a m"] exI [of _ "drop (length bs) (drop a m)"]) auto
next
  assume "\<exists>pre post. m = pre @ bs @ post \<and> length pre = a"
  then show "bytes_at m a bs" by (auto simp: bytes_at_def ld_def)
qed

lemma upd_split: "length xs = length bs \<Longrightarrow> upd (pre @ bs @ post) (length pre) xs = pre @ xs @ post"
  by (simp add: upd_def)

lemma upd_upd_append:
  "a + length xs + length ys \<le> length m \<Longrightarrow> b = a + length xs \<Longrightarrow>
   upd (upd m a xs) b ys = upd m a (xs @ ys)"
  by (simp add: upd_def ac_simps)

lemma upd_upd_prepend:
  "a + length xs + length ys \<le> length m \<Longrightarrow> b = a + length xs \<Longrightarrow>
   upd (upd m b ys) a xs = upd m a (xs @ ys)"
  by (simp add: upd_def ac_simps)

lemma upd_upd_same: "length xs = length ys \<Longrightarrow> a + length xs \<le> length m \<Longrightarrow>
   upd (upd m a xs) a ys = upd m a ys"
  by (simp add: upd_def)

lemma upd_prefix:
  "bytes_at m a (xs @ ys) \<Longrightarrow> length zs = length xs \<Longrightarrow> upd m a zs = upd m a (zs @ ys)"
  by (auto simp: bytes_at_split upd_def)

lemma upd_bytes_at: "bytes_at m a bs \<Longrightarrow> upd m a bs = m"
  by (auto simp: bytes_at_split upd_split)

lemma upd_Nil [simp]: "upd m a [] = m"
  by (simp add: upd_def)

lemma upd_comm:
  assumes "a + length xs \<le> b" "b + length ys \<le> length m"
  shows "upd (upd m b ys) a xs = upd (upd m a xs) b ys"
proof -
  have "take a m @ take (b - a) (drop a m) @ drop (b - a) (drop a m) = m" by (simp only: append_take_drop_id)
  then obtain p q r where m: "m = p @ q @ r" and "length p = a" "length q = b - a"
    using assms by (intro that [of "take a m" "take (b - a) (drop a m)" "drop (b - a) (drop a m)"]) auto
  then show ?thesis using assms by (simp add: upd_def)
qed

text \<open>Two regions of a buffer that are filled in turn.\<close>

lemma upd_interleave:
  assumes "vl + length h + length t \<le> vb" "vb + length x + length y \<le> length m"
    "vl' = vl + length h" "vb' = vb + length x"
  shows "upd (upd (upd (upd m vl h) vb x) vl' t) vb' y = upd (upd m vl (h @ t)) vb (x @ y)"
proof -
  have "upd (upd (upd m vl h) vb x) vl' t = upd (upd (upd m vl h) vl' t) vb x"
    using assms by (intro upd_comm) auto
  also have "upd (upd m vl h) vl' t = upd m vl (h @ t)"
    using assms by (intro upd_upd_append) auto
  finally show ?thesis using assms by (simp add: upd_upd_append)
qed

section \<open>Walks over packed items\<close>

text \<open>
  A loop that rewrites the items of a packed array in place: one turn replaces the bytes
  \<open>src x\<close> of the item at \<open>base\<close> by \<open>dst x\<close> and goes on after them. Then the whole loop
  replaces the concatenation of the items.
\<close>

locale buffer_walk =
  fixes walk :: "nat \<Rightarrow> nat \<Rightarrow> mem \<Rightarrow> 'r"
    and src dst :: "'x \<Rightarrow> byte list"
    and wf :: "'x \<Rightarrow> bool"
  assumes step: "bytes_at m base (src x) \<Longrightarrow> wf x \<Longrightarrow>
      walk (Suc n) base m = walk n (base + length (src x)) (upd m base (dst x))"
    and length_dst: "length (dst x) = length (src x)"
begin

lemma length_dsts: "length (concat (map dst xs)) = length (concat (map src xs))"
  by (simp add: length_concat comp_def length_dst)

lemma walk_all:
  "bytes_at m base (concat (map src xs)) \<Longrightarrow> list_all wf xs \<Longrightarrow>
   walk (length xs) base m =
     walk 0 (base + length (concat (map src xs))) (upd m base (concat (map dst xs)))"
proof (induction xs arbitrary: m base)
  case Nil
  then show ?case by (simp add: upd_def)
next
  case (Cons x xs)
  let ?m = "upd m base (dst x)" and ?b = "base + length (src x)"
  from Cons.prems have at: "bytes_at m base (src x)"
    and rest: "bytes_at m ?b (concat (map src xs))"
    by (auto simp: bytes_at_append)
  have bnd: "?b + length (concat (map src xs)) \<le> length m"
    using bytes_at_bound [OF rest] .
  have "bytes_at ?m ?b (concat (map src xs))"
    using rest bnd by (intro bytes_at_upd_frame) (auto simp: length_dst)
  then have "walk (length xs) ?b ?m =
      walk 0 (?b + length (concat (map src xs))) (upd ?m ?b (concat (map dst xs)))"
    using Cons by simp
  moreover have "upd ?m ?b (concat (map dst xs)) = upd m base (concat (map dst (x # xs)))"
    using bnd by (simp add: upd_upd_append length_dst length_dsts)
  ultimately show ?case
    using step [OF at, of "length xs"] Cons.prems(2) by (simp add: add.assoc)
qed

end

section \<open>Error codes and sizes\<close>

definition PM_ERR_BASE2 :: int where "PM_ERR_BASE2 = 12345"
definition PM_ERR_GENERIC :: int where "PM_ERR_GENERIC = - PM_ERR_BASE2 - 0"
definition PM_ERR_TIMEOUT :: int where "PM_ERR_TIMEOUT = - PM_ERR_BASE2 - 8"
definition PM_ERR_INDOM :: int where "PM_ERR_INDOM = - PM_ERR_BASE2 - 14"
definition PM_ERR_INST :: int where "PM_ERR_INST = - PM_ERR_BASE2 - 15"
definition PM_ERR_CONV :: int where "PM_ERR_CONV = - PM_ERR_BASE2 - 17"
definition PM_ERR_IPC :: int where "PM_ERR_IPC = - PM_ERR_BASE2 - 21"
definition PM_ERR_NOCONTEXT :: int where "PM_ERR_NOCONTEXT = - PM_ERR_BASE2 - 31"
definition PM_ERR_PROFILESPEC :: int where "PM_ERR_PROFILESPEC = - PM_ERR_BASE2 - 32"
definition PM_ERR_PERMISSION :: int where "PM_ERR_PERMISSION = - PM_ERR_BASE2 - 42"
definition PM_ERR_CONNLIMIT :: int where "PM_ERR_CONNLIMIT = - PM_ERR_BASE2 - 43"
definition PM_ERR_TYPE :: int where "PM_ERR_TYPE = - PM_ERR_BASE2 - 52"
definition PM_ERR_TOOSMALL :: int where "PM_ERR_TOOSMALL = - PM_ERR_BASE2 - 98"
definition PM_ERR_TOOBIG :: int where "PM_ERR_TOOBIG = - PM_ERR_BASE2 - 99"

text \<open>The value of \<open>oserror()\<close> after an allocation failed, and other \<open>errno\<close> values used.\<close>

definition ENOMEM :: int where "ENOMEM = 12"
definition EINVAL :: int where "EINVAL = 22"
definition ESRCH :: int where "ESRCH = 3"
definition EEXIST :: int where "EEXIST = 17"
definition EHOSTDOWN :: int where "EHOSTDOWN = 112"
definition EHOSTUNREACH :: int where "EHOSTUNREACH = 113"
definition EOPNOTSUPP :: int where "EOPNOTSUPP = 95"

definition PM_INDOM_NULL :: u32 where "PM_INDOM_NULL = 0xffffffff"
definition PM_IN_NULL :: u32 where "PM_IN_NULL = 0xffffffff"

text \<open>\<open>PM_PDU_SIZE\<close> and \<open>PM_PDU_SIZE_BYTES\<close>: sizes rounded up to whole \<open>__pmPDU\<close> words.\<close>

definition PM_PDU_SIZE :: "nat \<Rightarrow> nat" where
  "PM_PDU_SIZE x = (x + 4 - 1) div 4"

definition PM_PDU_SIZE_BYTES :: "nat \<Rightarrow> nat" where
  "PM_PDU_SIZE_BYTES x = 4 * PM_PDU_SIZE x"

text \<open>\<open>'~'\<close>, with which the encoders fill the last word of a string.\<close>

definition pad_bytes :: "nat \<Rightarrow> byte list" where
  "pad_bytes n = replicate (if n mod 4 = 0 then 0 else 4 - n mod 4) 126"

lemma PM_PDU_SIZE_BYTES_bounds:
  "x \<le> PM_PDU_SIZE_BYTES x" "PM_PDU_SIZE_BYTES x < x + 4" "4 dvd PM_PDU_SIZE_BYTES x"
  by (auto simp: PM_PDU_SIZE_BYTES_def PM_PDU_SIZE_def)


lemma PM_PDU_SIZE_BYTES_dvd [simp]: "4 dvd PM_PDU_SIZE_BYTES n"
  by (simp add: PM_PDU_SIZE_BYTES_def)

lemma length_pad_bytes [simp]: "length (pad_bytes n) = PM_PDU_SIZE_BYTES n - n"
proof -
  have "4 * ((n + 3) div 4) - n = (if n mod 4 = 0 then 0 else 4 - n mod 4)"
    by presburger
  then show ?thesis
    by (auto simp: pad_bytes_def PM_PDU_SIZE_BYTES_def PM_PDU_SIZE_def add.commute split: if_splits)
qed

lemma length_padded [simp]: "n + (PM_PDU_SIZE_BYTES n - n) = PM_PDU_SIZE_BYTES n"
  using PM_PDU_SIZE_BYTES_bounds [of n] by simp

lemma PM_PDU_SIZE_BYTES_least: "n \<le> k \<Longrightarrow> 4 dvd k \<Longrightarrow> PM_PDU_SIZE_BYTES n \<le> k"
  unfolding PM_PDU_SIZE_BYTES_def PM_PDU_SIZE_def by presburger

end
