(* ===== verification/Endian.thy ===== *)
theory Endian
  imports Prelude
begin

text \<open>
  \<^verbatim>\<open>src/src/libpcp/src/endian.c\<close>: byte-order conversion of the structures a PDU or an archive
  holds, in place in a buffer. The host is little-endian (on a big-endian host these routines
  are macros that do nothing, \<^verbatim>\<open>impl.h\<close> lines 1174-1198).
\<close>

section \<open>Bit-field structures that are one word\<close>

type_synonym pmUnits = u32
type_synonym pmCred = u32
type_synonym pmPDUInfo = u32

definition pm_htonpmUnits :: "pmUnits \<Rightarrow> pmUnits" where
  "pm_htonpmUnits units = htonl units"

definition pm_ntohpmUnits :: "pmUnits \<Rightarrow> pmUnits" where
  "pm_ntohpmUnits units = ntohl units"

definition pm_htonpmPDUInfo :: "pmPDUInfo \<Rightarrow> pmPDUInfo" where
  "pm_htonpmPDUInfo info = htonl info"

definition pm_ntohpmPDUInfo :: "pmPDUInfo \<Rightarrow> pmPDUInfo" where
  "pm_ntohpmPDUInfo info = ntohl info"

definition pm_htonpmCred :: "pmCred \<Rightarrow> pmCred" where
  "pm_htonpmCred cred = htonl cred"

definition pm_ntohpmCred :: "pmCred \<Rightarrow> pmCred" where
  "pm_ntohpmCred cred = ntohl cred"

section \<open>Floats, doubles and 64-bit integers\<close>

definition swap_bytes :: "mem \<Rightarrow> nat \<Rightarrow> nat \<Rightarrow> mem option" where
  "swap_bytes m a b = do {
     x \<leftarrow> ld m a 1;
     y \<leftarrow> ld m b 1;
     m \<leftarrow> st m a y;
     st m b x
   }"

fun swab_loop :: "nat \<Rightarrow> nat \<Rightarrow> nat list \<Rightarrow> mem \<Rightarrow> mem option" where
  "swab_loop p hi [] m = Some m"
| "swab_loop p hi (i # js) m = do {
     m \<leftarrow> swap_bytes m (p + i) (p + (hi - i));
     swab_loop p hi js m
   }"

definition pm_htonf :: "nat \<Rightarrow> mem \<Rightarrow> mem option" where
  "pm_htonf p m = swab_loop p 3 [0..<2] m"

definition pm_htonll :: "nat \<Rightarrow> mem \<Rightarrow> mem option" where
  "pm_htonll p m = swab_loop p 7 [0..<4] m"

section \<open>Value blocks and packed event arrays\<close>

definition PM_TYPE_32 :: int where "PM_TYPE_32 = 0"
definition PM_TYPE_U32 :: int where "PM_TYPE_U32 = 1"
definition PM_TYPE_64 :: int where "PM_TYPE_64 = 2"
definition PM_TYPE_U64 :: int where "PM_TYPE_U64 = 3"
definition PM_TYPE_FLOAT :: int where "PM_TYPE_FLOAT = 4"
definition PM_TYPE_DOUBLE :: int where "PM_TYPE_DOUBLE = 5"
definition PM_TYPE_STRING :: int where "PM_TYPE_STRING = 6"
definition PM_TYPE_AGGREGATE :: int where "PM_TYPE_AGGREGATE = 7"
definition PM_TYPE_AGGREGATE_STATIC :: int where "PM_TYPE_AGGREGATE_STATIC = 8"
definition PM_TYPE_EVENT :: int where "PM_TYPE_EVENT = 9"

lemmas PM_TYPE_defs = PM_TYPE_32_def PM_TYPE_U32_def PM_TYPE_64_def PM_TYPE_U64_def
  PM_TYPE_FLOAT_def PM_TYPE_DOUBLE_def PM_TYPE_STRING_def PM_TYPE_AGGREGATE_def
  PM_TYPE_AGGREGATE_STATIC_def PM_TYPE_EVENT_def

text \<open>
  The first word of a \<open>pmValueBlock\<close>, a \<open>pmEventArray\<close> and (at offset 4) a
  \<open>pmEventParameter\<close> is a pair of bit-fields: the length in the low 24 bits, the type in the
  high 8 bits.
\<close>

definition vb_vlen :: "u32 \<Rightarrow> nat" where
  "vb_vlen w = unat (take_bit 24 w)"

definition vb_vtype :: "u32 \<Rightarrow> int" where
  "vb_vtype w = uint (drop_bit 24 w)"

definition PM_EVENT_FLAG_MISSED :: u32 where
  "PM_EVENT_FLAG_MISSED = push_bit 31 1"

text \<open>The \<open>switch\<close> on the type of one event parameter; \<open>tp\<close> is the offset of its value.\<close>

definition swab_param_value :: "int \<Rightarrow> nat \<Rightarrow> mem \<Rightarrow> mem option" where
  "swab_param_value vtype tp m =
     (if vtype = PM_TYPE_32 \<or> vtype = PM_TYPE_U32 then
        do { w \<leftarrow> ld32 m tp; st32 m tp (htonl w) }
      else if vtype = PM_TYPE_64 \<or> vtype = PM_TYPE_U64 then pm_htonll tp m
      else if vtype = PM_TYPE_DOUBLE then pm_htonll tp m
      else if vtype = PM_TYPE_FLOAT then pm_htonf tp m
      else Some m)"

definition event_nparams :: "u32 \<Rightarrow> u32 \<Rightarrow> nat" where
  "event_nparams flags nparams =
     (if flags AND PM_EVENT_FLAG_MISSED \<noteq> 0 then 0 else nat (sint nparams))"

fun hton_params :: "nat \<Rightarrow> nat \<Rightarrow> mem \<Rightarrow> (nat \<times> mem) option" where
  "hton_params 0 base m = Some (base, m)"
| "hton_params (Suc n) base m = do {
     pmid \<leftarrow> ld32 m base;
     m \<leftarrow> st32 m base (htonl pmid);
     tl \<leftarrow> ld32 m (base + 4);
     m \<leftarrow> st32 m (base + 4) (htonl tl);
     m \<leftarrow> swab_param_value (vb_vtype tl) (base + 8) m;
     hton_params n (base + 4 + PM_PDU_SIZE_BYTES (vb_vlen tl)) m
   }"

fun hton_records :: "nat \<Rightarrow> nat \<Rightarrow> mem \<Rightarrow> mem option" where
  "hton_records 0 base m = Some m"
| "hton_records (Suc n) base m = do {
     sec \<leftarrow> ld32 m base;
     m \<leftarrow> st32 m base (htonl sec);
     usec \<leftarrow> ld32 m (base + 4);
     m \<leftarrow> st32 m (base + 4) (htonl usec);
     flags \<leftarrow> ld32 m (base + 8);
     np \<leftarrow> ld32 m (base + 12);
     m \<leftarrow> st32 m (base + 8) (htonl flags);
     m \<leftarrow> st32 m (base + 12) (htonl np);
     (base', m) \<leftarrow> hton_params (event_nparams flags np) (base + 16) m;
     hton_records n base' m
   }"

definition htonEventArray :: "nat \<Rightarrow> mem \<Rightarrow> mem option" where
  "htonEventArray vb m = do {
     nr \<leftarrow> ld32 m (vb + 4);
     m \<leftarrow> hton_records (nat (sint nr)) (vb + 8) m;
     st32 m (vb + 4) (htonl nr)
   }"

definition pm_htonpmValueBlock :: "nat \<Rightarrow> mem \<Rightarrow> mem option" where
  "pm_htonpmValueBlock vb m = do {
     w \<leftarrow> ld32 m vb;
     m \<leftarrow> (if vb_vtype w = PM_TYPE_U64 \<or> vb_vtype w = PM_TYPE_64 then pm_htonll (vb + 4) m
          else if vb_vtype w = PM_TYPE_DOUBLE then pm_htonll (vb + 4) m
          else if vb_vtype w = PM_TYPE_FLOAT then pm_htonf (vb + 4) m
          else if vb_vtype w = PM_TYPE_EVENT then htonEventArray vb m
          else Some m);
     st32 m vb (htonl w)
   }"

fun ntoh_params :: "nat \<Rightarrow> nat \<Rightarrow> mem \<Rightarrow> (nat \<times> mem) option" where
  "ntoh_params 0 base m = Some (base, m)"
| "ntoh_params (Suc n) base m = do {
     pmid \<leftarrow> ld32 m base;
     m \<leftarrow> st32 m base (ntohl pmid);
     tl \<leftarrow> ld32 m (base + 4);
     m \<leftarrow> st32 m (base + 4) (ntohl tl);
     m \<leftarrow> swab_param_value (vb_vtype (ntohl tl)) (base + 8) m;
     ntoh_params n (base + 4 + PM_PDU_SIZE_BYTES (vb_vlen (ntohl tl))) m
   }"

fun ntoh_records :: "nat \<Rightarrow> nat \<Rightarrow> mem \<Rightarrow> mem option" where
  "ntoh_records 0 base m = Some m"
| "ntoh_records (Suc n) base m = do {
     sec \<leftarrow> ld32 m base;
     m \<leftarrow> st32 m base (ntohl sec);
     usec \<leftarrow> ld32 m (base + 4);
     m \<leftarrow> st32 m (base + 4) (ntohl usec);
     flags \<leftarrow> ld32 m (base + 8);
     m \<leftarrow> st32 m (base + 8) (ntohl flags);
     np \<leftarrow> ld32 m (base + 12);
     m \<leftarrow> st32 m (base + 12) (ntohl np);
     (base', m) \<leftarrow> ntoh_params (event_nparams (ntohl flags) (ntohl np)) (base + 16) m;
     ntoh_records n base' m
   }"

definition ntohEventArray :: "nat \<Rightarrow> mem \<Rightarrow> mem option" where
  "ntohEventArray vb m = do {
     nr \<leftarrow> ld32 m (vb + 4);
     m \<leftarrow> st32 m (vb + 4) (ntohl nr);
     ntoh_records (nat (sint (ntohl nr))) (vb + 8) m
   }"

definition pm_ntohpmValueBlock :: "nat \<Rightarrow> mem \<Rightarrow> mem option" where
  "pm_ntohpmValueBlock vb m = do {
     w \<leftarrow> ld32 m vb;
     m \<leftarrow> st32 m vb (ntohl w);
     (if vb_vtype (ntohl w) = PM_TYPE_U64 \<or> vb_vtype (ntohl w) = PM_TYPE_64
      then pm_htonll (vb + 4) m
      else if vb_vtype (ntohl w) = PM_TYPE_DOUBLE then pm_htonll (vb + 4) m
      else if vb_vtype (ntohl w) = PM_TYPE_FLOAT then pm_htonf (vb + 4) m
      else if vb_vtype (ntohl w) = PM_TYPE_EVENT then ntohEventArray vb m
      else Some m)
   }"


section \<open>What the conversions do to the bytes\<close>

lemma swap_bytes_spec:
  assumes "a < b" "b < length m"
  shows "swap_bytes m a b = Some (m[a := m ! b, b := m ! a])"
  using assms
  by (auto simp: swap_bytes_def ld_def mem_simps upd_def upd_conv_take_nth_drop
      take_Suc_conv_app_nth Cons_nth_drop_Suc [symmetric] nth_append intro!: nth_equalityI)

lemma pm_htonf_spec:
  assumes "bytes_at m p bs" and "length bs = 4"
  shows "pm_htonf p m = Some (upd m p (rev bs))"
proof -
  obtain b0 b1 b2 b3 where bs: "bs = [b0, b1, b2, b3]"
    using assms(2) by (auto simp: numeral_eq_Suc length_Suc_conv)
  from assms(1) obtain pre post where m: "m = pre @ bs @ post" and p: "length pre = p"
    by (auto simp: bytes_at_split)
  show ?thesis
    using upd_split [of "rev bs" bs pre post]
    by (simp add: pm_htonf_def upt_rec swap_bytes_spec m bs p [symmetric] nth_append
        list_update_append numeral_eq_Suc)
qed

lemma pm_htonll_spec:
  assumes "bytes_at m p bs" and "length bs = 8"
  shows "pm_htonll p m = Some (upd m p (rev bs))"
proof -
  obtain b0 b1 b2 b3 b4 b5 b6 b7 where bs: "bs = [b0, b1, b2, b3, b4, b5, b6, b7]"
    using assms(2) by (auto simp: numeral_eq_Suc length_Suc_conv)
  from assms(1) obtain pre post where m: "m = pre @ bs @ post" and p: "length pre = p"
    by (auto simp: bytes_at_split)
  show ?thesis
    using upd_split [of "rev bs" bs pre post]
    by (simp add: pm_htonll_def upt_rec swap_bytes_spec m bs p [symmetric] nth_append
        list_update_append numeral_eq_Suc)
qed


text \<open>
  The logical content of a packed event array. A parameter is a metric identifier, a type/length
  word and the value bytes up to the next word boundary; a record is a timestamp, flags, a count
  and its parameters. \<open>host_*\<close> are the bytes in host order, \<open>net_*\<close> in network order.
\<close>

record event_param =
  p_pmid :: u32
  p_typelen :: u32
  p_vbuf :: "byte list"

record event_record =
  r_sec :: u32
  r_usec :: u32
  r_flags :: u32
  r_nparams :: u32
  r_params :: "event_param list"

definition swab_value :: "int \<Rightarrow> byte list \<Rightarrow> byte list" where
  "swab_value t v =
     (if t \<in> {PM_TYPE_32, PM_TYPE_U32, PM_TYPE_FLOAT} then rev (take 4 v) @ drop 4 v
      else if t \<in> {PM_TYPE_64, PM_TYPE_U64, PM_TYPE_DOUBLE} then rev (take 8 v) @ drop 8 v
      else v)"

definition value_size :: "int \<Rightarrow> nat" where
  "value_size t =
     (if t \<in> {PM_TYPE_32, PM_TYPE_U32, PM_TYPE_FLOAT} then 4
      else if t \<in> {PM_TYPE_64, PM_TYPE_U64, PM_TYPE_DOUBLE} then 8 else 0)"

definition wf_param :: "event_param \<Rightarrow> bool" where
  "wf_param p \<longleftrightarrow>
     4 + length (p_vbuf p) = PM_PDU_SIZE_BYTES (vb_vlen (p_typelen p)) \<and>
     value_size (vb_vtype (p_typelen p)) \<le> length (p_vbuf p)"

definition host_param :: "event_param \<Rightarrow> byte list" where
  "host_param p = w2b (p_pmid p) @ w2b (p_typelen p) @ p_vbuf p"

definition net_param :: "event_param \<Rightarrow> byte list" where
  "net_param p = n2b (p_pmid p) @ n2b (p_typelen p) @
     swab_value (vb_vtype (p_typelen p)) (p_vbuf p)"

definition wf_record :: "event_record \<Rightarrow> bool" where
  "wf_record r \<longleftrightarrow> event_nparams (r_flags r) (r_nparams r) = length (r_params r) \<and>
     list_all wf_param (r_params r)"

definition host_record :: "event_record \<Rightarrow> byte list" where
  "host_record r = w2b (r_sec r) @ w2b (r_usec r) @ w2b (r_flags r) @ w2b (r_nparams r) @
     concat (map host_param (r_params r))"

definition net_record :: "event_record \<Rightarrow> byte list" where
  "net_record r = n2b (r_sec r) @ n2b (r_usec r) @ n2b (r_flags r) @ n2b (r_nparams r) @
     concat (map net_param (r_params r))"

lemma length_swab_value [simp]: "length (swab_value t v) = length v"
  by (auto simp: swab_value_def)

lemma swab_value_inv: "value_size t \<le> length v \<Longrightarrow> swab_value t (swab_value t v) = v"
  by (auto simp: swab_value_def value_size_def split: if_splits)

lemma pm_htonf_prefix:
  "bytes_at m p v \<Longrightarrow> 4 \<le> length v \<Longrightarrow> pm_htonf p m = Some (upd m p (rev (take 4 v) @ drop 4 v))"
  using pm_htonf_spec [of m p "take 4 v"] upd_prefix [of m p "take 4 v" "drop 4 v" "rev (take 4 v)"]
    bytes_at_append [of m p "take 4 v" "drop 4 v"] by simp

lemma pm_htonll_prefix:
  "bytes_at m p v \<Longrightarrow> 8 \<le> length v \<Longrightarrow> pm_htonll p m = Some (upd m p (rev (take 8 v) @ drop 8 v))"
  using pm_htonll_spec [of m p "take 8 v"] upd_prefix [of m p "take 8 v" "drop 8 v" "rev (take 8 v)"]
    bytes_at_append [of m p "take 8 v" "drop 8 v"] by simp

lemma htonl_word_prefix:
  assumes "bytes_at m p v" and "4 \<le> length v"
  shows "do { w \<leftarrow> ld32 m p; st32 m p (htonl w) } = Some (upd m p (rev (take 4 v) @ drop 4 v))"
proof -
  have "bytes_at m p (take 4 v)"
    using assms(1) bytes_at_append [of m p "take 4 v" "drop 4 v"] by simp
  moreover from this have "p + 4 \<le> length m"
    using assms(2) bytes_at_bound by fastforce
  moreover have "upd m p (rev (take 4 v)) = upd m p (rev (take 4 v) @ drop 4 v)"
    using assms upd_prefix [of m p "take 4 v" "drop 4 v" "rev (take 4 v)"] by simp
  ultimately show ?thesis
    using assms(2) by (simp add: ld32_def bytes_at_def htonl_def st32_Some)
qed

lemma swab_param_value_spec:
  "bytes_at m tp v \<Longrightarrow> value_size t \<le> length v \<Longrightarrow>
   swab_param_value t tp m = Some (upd m tp (swab_value t v))"
  unfolding swab_param_value_def swab_value_def value_size_def
  by (auto simp: htonl_word_prefix pm_htonf_prefix pm_htonll_prefix upd_bytes_at PM_TYPE_defs
      simp del: bind.simps split: if_splits)

lemma length_host_param: "length (host_param p) = 8 + length (p_vbuf p)"
  by (simp add: host_param_def)

lemma length_net_param [simp]: "length (net_param p) = length (host_param p)"
  by (simp add: host_param_def net_param_def)

text \<open>
  One event parameter: both directions convert the identifier, the type/length word and the
  value, and advance to the next parameter.
\<close>

lemma swab_param_facts:
  assumes at: "bytes_at m base (w2b x @ w2b y @ v)" and size: "value_size t \<le> length v"
  obtains m1 m2 where "ld32 m base = Some x" "st32 m base (htonl x) = Some m1"
    "ld32 m1 (base + 4) = Some y" "st32 m1 (base + 4) (htonl y) = Some m2"
    "swab_param_value t (base + 8) m2 = Some (upd m base (n2b x @ n2b y @ swab_value t v))"
proof -
  have bnd: "base + 8 + length v \<le> length m"
    using bytes_at_bound [OF at] by simp
  have a0: "bytes_at m base (w2b x)" and a1: "bytes_at m (base + 4) (w2b y)"
    and a2: "bytes_at m (base + 8) v"
    using at by (auto simp: bytes_at_append add.assoc)
  define m1 where "m1 = upd m base (n2b x)"
  define m2 where "m2 = upd m1 (base + 4) (n2b y)"
  have len1: "length m1 = length m" using bnd by (simp add: m1_def)
  have at2: "bytes_at m2 (base + 8) v"
    unfolding m2_def m1_def using a2 bnd by (intro bytes_at_upd_frame) auto
  have "swab_param_value t (base + 8) m2 = Some (upd m2 (base + 8) (swab_value t v))"
    by (intro swab_param_value_spec at2 size)
  moreover have "upd m2 (base + 8) (swab_value t v) = upd m base (n2b x @ n2b y @ swab_value t v)"
    using bnd by (simp add: m2_def m1_def upd_upd_append)
  moreover have "ld32 m base = Some x"
    using a0 by (rule bytes_at_ld32)
  moreover have "ld32 m1 (base + 4) = Some y"
    unfolding m1_def using a1 bnd by (intro bytes_at_ld32 bytes_at_upd_frame) auto
  moreover have "st32 m base (htonl x) = Some m1"
    using bnd by (simp add: st32_Some m1_def n2b_def)
  moreover have "st32 m1 (base + 4) (htonl y) = Some m2"
    using bnd len1 by (simp add: st32_Some m2_def n2b_def)
  ultimately show ?thesis using that by simp
qed

lemma hton_params_step:
  assumes at: "bytes_at m base (host_param p)" and wf: "wf_param p"
  shows "hton_params (Suc n) base m =
    hton_params n (base + length (host_param p)) (upd m base (net_param p))"
proof -
  have "value_size (vb_vtype (p_typelen p)) \<le> length (p_vbuf p)"
    and len: "4 + PM_PDU_SIZE_BYTES (vb_vlen (p_typelen p)) = length (host_param p)"
    using wf by (auto simp: wf_param_def length_host_param)
  from swab_param_facts [OF at [unfolded host_param_def] this(1)] obtain m1 m2 where
    "ld32 m base = Some (p_pmid p)" "st32 m base (htonl (p_pmid p)) = Some m1"
    "ld32 m1 (base + 4) = Some (p_typelen p)" "st32 m1 (base + 4) (htonl (p_typelen p)) = Some m2"
    "swab_param_value (vb_vtype (p_typelen p)) (base + 8) m2 = Some (upd m base (net_param p))"
    unfolding net_param_def .
  with len show ?thesis by (simp add: add.assoc)
qed

lemma ntoh_params_step:
  assumes at: "bytes_at m base (net_param p)" and wf: "wf_param p"
  shows "ntoh_params (Suc n) base m =
    ntoh_params n (base + length (host_param p)) (upd m base (host_param p))"
proof -
  let ?t = "vb_vtype (p_typelen p)"
  have size: "value_size ?t \<le> length (p_vbuf p)"
    and len: "4 + PM_PDU_SIZE_BYTES (vb_vlen (p_typelen p)) = length (host_param p)"
    using wf by (auto simp: wf_param_def length_host_param)
  have "value_size ?t \<le> length (swab_value ?t (p_vbuf p))"
    using size by simp
  from swab_param_facts [OF at [unfolded net_param_def n2b_def] this] obtain m1 m2 where
    "ld32 m base = Some (htonl (p_pmid p))" "st32 m base (p_pmid p) = Some m1"
    "ld32 m1 (base + 4) = Some (htonl (p_typelen p))" "st32 m1 (base + 4) (p_typelen p) = Some m2"
    "swab_param_value ?t (base + 8) m2 = Some (upd m base (host_param p))"
    by (auto simp: host_param_def n2b_def swab_value_inv [OF size])
  with len show ?thesis by (simp add: add.assoc)
qed

interpretation hton_params: buffer_walk hton_params host_param net_param wf_param
  by unfold_locales (auto intro: hton_params_step simp del: hton_params.simps)

interpretation ntoh_params: buffer_walk ntoh_params net_param host_param wf_param
  by unfold_locales (auto simp: ntoh_params_step simp del: ntoh_params.simps)

lemmas [simp] = hton_params.length_dsts

lemma length_net_record [simp]: "length (net_record r) = length (host_record r)"
  by (simp add: host_record_def net_record_def)

lemma hton_records_step:
  assumes at: "bytes_at m base (host_record r)" and wf: "wf_record r"
  shows "hton_records (Suc n) base m =
    hton_records n (base + length (host_record r)) (upd m base (net_record r))"
proof -
  let ?h = "n2b (r_sec r) @ n2b (r_usec r) @ n2b (r_flags r) @ n2b (r_nparams r)"
  have bnd: "base + 16 + length (concat (map host_param (r_params r))) \<le> length m"
    using bytes_at_bound [OF at] by (simp add: host_record_def)
  have lds: "ld32 m base = Some (r_sec r)" "ld32 m (base + 4) = Some (r_usec r)"
    "ld32 m (base + 8) = Some (r_flags r)" "ld32 m (base + 12) = Some (r_nparams r)"
    and ps: "bytes_at m (base + 16) (concat (map host_param (r_params r)))"
    using at by (auto simp: host_record_def bytes_at_append add.assoc intro: bytes_at_ld32)
  have at2: "bytes_at (upd m base ?h) (base + 16) (concat (map host_param (r_params r)))"
    using ps bnd by (intro bytes_at_upd_frame) auto
  have np: "event_nparams (r_flags r) (r_nparams r) = length (r_params r)"
    and wfp: "list_all wf_param (r_params r)"
    using wf by (auto simp: wf_record_def)
  have fin: "upd (upd m base ?h) (base + 16) (concat (map net_param (r_params r))) =
      upd m base (net_record r)"
    using bnd by (simp add: upd_upd_append net_record_def)
  show ?thesis
    using bnd hton_params.walk_all [OF at2 wfp] fin
    by (simp add: lds mem_simps n2b_def [symmetric] upd_upd_append np host_record_def ac_simps)
qed


lemma ntoh_records_step:
  assumes at: "bytes_at m base (net_record r)" and wf: "wf_record r"
  shows "ntoh_records (Suc n) base m =
    ntoh_records n (base + length (net_record r)) (upd m base (host_record r))"
proof -
  let ?h = "w2b (r_sec r) @ w2b (r_usec r) @ w2b (r_flags r) @ w2b (r_nparams r)"
  have bnd: "base + 16 + length (concat (map host_param (r_params r))) \<le> length m"
    using bytes_at_bound [OF at] by (simp add: host_record_def)
  have lds: "ld32 m base = Some (htonl (r_sec r))" "ld32 m (base + 4) = Some (htonl (r_usec r))"
    "ld32 m (base + 8) = Some (htonl (r_flags r))" "ld32 m (base + 12) = Some (htonl (r_nparams r))"
    and ps: "bytes_at m (base + 16) (concat (map net_param (r_params r)))"
    using at by (auto simp: net_record_def n2b_def bytes_at_append add.assoc intro: bytes_at_ld32)
  have at2: "bytes_at (upd m base ?h) (base + 16) (concat (map net_param (r_params r)))"
    using ps bnd by (intro bytes_at_upd_frame) auto
  have np: "event_nparams (r_flags r) (r_nparams r) = length (r_params r)"
    and wfp: "list_all wf_param (r_params r)"
    using wf by (auto simp: wf_record_def)
  have fin: "upd (upd m base ?h) (base + 16) (concat (map host_param (r_params r))) =
      upd m base (host_record r)"
    using bnd by (simp add: upd_upd_append host_record_def)
  show ?thesis
    using bnd ntoh_params.walk_all [OF at2 wfp] fin
    by (simp add: lds mem_simps upd_upd_append np host_record_def ac_simps)
qed

interpretation hton_records: buffer_walk hton_records host_record net_record wf_record
  by unfold_locales (auto intro: hton_records_step simp del: hton_records.simps)

interpretation ntoh_records: buffer_walk ntoh_records net_record host_record wf_record
  by unfold_locales (auto simp: ntoh_records_step simp del: ntoh_records.simps)

lemmas [simp] = hton_records.length_dsts

text \<open>
  A value block: a type/length word with value bytes, or an event array with its records.
\<close>

datatype value_block =
    Plain (vb_word: u32) (vb_vbuf: "byte list")
  | Events (vb_word: u32) (vb_records: "event_record list")

definition swab_block_value :: "int \<Rightarrow> byte list \<Rightarrow> byte list" where
  "swab_block_value t v =
     (if t = PM_TYPE_FLOAT then rev (take 4 v) @ drop 4 v
      else if t \<in> {PM_TYPE_64, PM_TYPE_U64, PM_TYPE_DOUBLE} then rev (take 8 v) @ drop 8 v
      else v)"

definition block_value_size :: "int \<Rightarrow> nat" where
  "block_value_size t =
     (if t = PM_TYPE_FLOAT then 4
      else if t \<in> {PM_TYPE_64, PM_TYPE_U64, PM_TYPE_DOUBLE} then 8 else 0)"

fun wf_block :: "value_block \<Rightarrow> bool" where
  "wf_block (Plain w v) \<longleftrightarrow> vb_vtype w \<noteq> PM_TYPE_EVENT \<and> block_value_size (vb_vtype w) \<le> length v"
| "wf_block (Events w rs) \<longleftrightarrow> vb_vtype w = PM_TYPE_EVENT \<and> length rs < 2 ^ 31 \<and> list_all wf_record rs"

fun host_block :: "value_block \<Rightarrow> byte list" where
  "host_block (Plain w v) = w2b w @ v"
| "host_block (Events w rs) = w2b w @ w2b (word_of_nat (length rs)) @ concat (map host_record rs)"

fun net_block :: "value_block \<Rightarrow> byte list" where
  "net_block (Plain w v) = n2b w @ swab_block_value (vb_vtype w) v"
| "net_block (Events w rs) = n2b w @ n2b (word_of_nat (length rs)) @ concat (map net_record rs)"

lemma length_net_block [simp]: "length (net_block b) = length (host_block b)"
  by (cases b) (auto simp: swab_block_value_def)


lemma swab_block_value_spec:
  assumes "bytes_at m p v" and "block_value_size t \<le> length v" and "t \<noteq> PM_TYPE_EVENT"
  shows "(if t = PM_TYPE_U64 \<or> t = PM_TYPE_64 then pm_htonll p m
          else if t = PM_TYPE_DOUBLE then pm_htonll p m
          else if t = PM_TYPE_FLOAT then pm_htonf p m
          else if t = PM_TYPE_EVENT then e else Some m) = Some (upd m p (swab_block_value t v))"
  using assms unfolding swab_block_value_def block_value_size_def
  by (auto simp: pm_htonf_prefix pm_htonll_prefix upd_bytes_at PM_TYPE_defs split: if_splits)

lemma swab_block_value_inv:
  "block_value_size t \<le> length v \<Longrightarrow> swab_block_value t (swab_block_value t v) = v"
  by (auto simp: swab_block_value_def block_value_size_def split: if_splits)

lemma length_swab_block_value [simp]: "length (swab_block_value t v) = length v"
  by (auto simp: swab_block_value_def)

lemma sint_length: "n < 2 ^ 31 \<Longrightarrow> sint (word_of_nat n :: u32) = int n"
  using sint_word_of_int [of "int n"] by (simp add: is_int32_def)

lemma htonEventArray_spec:
  assumes at: "bytes_at m a (w2b w @ w2b (word_of_nat (length rs)) @ concat (map host_record rs))"
    and n: "length rs < 2 ^ 31" and wf: "list_all wf_record rs"
  shows "htonEventArray a m =
    Some (upd m (a + 4) (n2b (word_of_nat (length rs)) @ concat (map net_record rs)))"
proof -
  have at4: "ld32 m (a + 4) = Some (word_of_nat (length rs))"
    and rs: "bytes_at m (a + 8) (concat (map host_record rs))"
    using at by (auto simp: bytes_at_append add.assoc intro: bytes_at_ld32)
  have bnd: "a + 8 + length (concat (map host_record rs)) \<le> length m"
    using bytes_at_bound [OF rs] .
  have "upd (upd m (a + 8) (concat (map net_record rs))) (a + 4) (n2b (word_of_nat (length rs))) =
      upd m (a + 4) (n2b (word_of_nat (length rs)) @ concat (map net_record rs))"
    using bnd by (simp add: upd_def min_def ac_simps)
  then show ?thesis
    using bnd hton_records.walk_all [OF rs wf]
    by (simp add: htonEventArray_def at4 sint_length [OF n] st32_Some n2b_def)
qed

lemma ntohEventArray_spec:
  assumes at: "bytes_at m a (w2b w @ n2b (word_of_nat (length rs)) @ concat (map net_record rs))"
    and n: "length rs < 2 ^ 31" and wf: "list_all wf_record rs"
  shows "ntohEventArray a m =
    Some (upd m (a + 4) (w2b (word_of_nat (length rs)) @ concat (map host_record rs)))"
proof -
  let ?n = "word_of_nat (length rs) :: u32"
  have at4: "ld32 m (a + 4) = Some (htonl ?n)"
    and rs: "bytes_at m (a + 8) (concat (map net_record rs))"
    using at by (auto simp: bytes_at_append n2b_def add.assoc intro: bytes_at_ld32)
  have bnd: "a + 8 + length (concat (map host_record rs)) \<le> length m"
    using bytes_at_bound [OF rs] by simp
  have rs': "bytes_at (upd m (a + 4) (w2b ?n)) (a + 8) (concat (map net_record rs))"
    using rs bnd by (intro bytes_at_upd_frame) auto
  show ?thesis
    using bnd ntoh_records.walk_all [OF rs' wf]
    by (simp add: ntohEventArray_def at4 sint_length [OF n] st32_Some upd_upd_append)
qed


lemma pm_htonpmValueBlock_spec:
  assumes at: "bytes_at m a (host_block b)" and wf: "wf_block b"
  shows "pm_htonpmValueBlock a m = Some (upd m a (net_block b))"
proof (cases b)
  case (Plain w v)
  have w: "ld32 m a = Some w" and v: "bytes_at m (a + 4) v"
    using at Plain by (auto simp: bytes_at_append intro: bytes_at_ld32)
  have bnd: "a + 4 + length v \<le> length m"
    using bytes_at_bound [OF v] .
  have "upd (upd m (a + 4) x) a (n2b w) = upd m a (n2b w @ x)" if "length x = length v" for x
    using bnd that by (simp add: upd_def min_def ac_simps)
  moreover have "block_value_size (vb_vtype w) \<le> length v" "vb_vtype w \<noteq> PM_TYPE_EVENT"
    using wf Plain by auto
  ultimately show ?thesis
    using bnd Plain
    by (simp add: pm_htonpmValueBlock_def w swab_block_value_spec [OF v] st32_Some n2b_def)
next
  case (Events w rs)
  have w: "ld32 m a = Some w" and n: "length rs < 2 ^ 31" and rs: "list_all wf_record rs"
    and t: "vb_vtype w = PM_TYPE_EVENT"
    and at': "bytes_at m a (w2b w @ w2b (word_of_nat (length rs)) @ concat (map host_record rs))"
    using at wf Events by (auto simp: bytes_at_append intro: bytes_at_ld32)
  have bnd: "a + 8 + length (concat (map host_record rs)) \<le> length m"
    using bytes_at_bound [OF at'] by simp
  have "upd (upd m (a + 4) x) a (n2b w) = upd m a (n2b w @ x)"
    if "length x = 4 + length (concat (map host_record rs))" for x
    using bnd that by (simp add: upd_def min_def ac_simps)
  then show ?thesis
    using bnd Events htonEventArray_spec [OF at' n rs]
    by (simp add: pm_htonpmValueBlock_def w t PM_TYPE_defs st32_Some n2b_def)
qed

lemma pm_ntohpmValueBlock_spec:
  assumes at: "bytes_at m a (net_block b)" and wf: "wf_block b"
  shows "pm_ntohpmValueBlock a m = Some (upd m a (host_block b))"
proof (cases b)
  case (Plain w v)
  let ?v = "swab_block_value (vb_vtype w) v"
  have w: "ld32 m a = Some (htonl w)" and v: "bytes_at m (a + 4) ?v"
    using at Plain by (auto simp: bytes_at_append n2b_def intro: bytes_at_ld32)
  have bnd: "a + 4 + length v \<le> length m"
    using bytes_at_bound [OF v] by simp
  have v': "bytes_at (upd m a (w2b w)) (a + 4) ?v"
    using v bnd by (intro bytes_at_upd_frame) auto
  have size: "block_value_size (vb_vtype w) \<le> length v" "vb_vtype w \<noteq> PM_TYPE_EVENT"
    using wf Plain by auto
  have "block_value_size (vb_vtype w) \<le> length ?v"
    using size by simp
  note sw = swab_block_value_spec [OF v' this size(2)]
  show ?thesis
    using bnd Plain
    by (simp add: pm_ntohpmValueBlock_def w st32_Some sw swab_block_value_inv [OF size(1)]
        upd_upd_append cong: if_cong)
next
  case (Events w rs)
  have w: "ld32 m a = Some (htonl w)" and n: "length rs < 2 ^ 31" and rs: "list_all wf_record rs"
    and t: "vb_vtype w = PM_TYPE_EVENT"
    and at4: "bytes_at m (a + 4) (n2b (word_of_nat (length rs)) @ concat (map net_record rs))"
    using at wf Events by (auto simp: bytes_at_append n2b_def intro: bytes_at_ld32)
  have bnd: "a + 8 + length (concat (map host_record rs)) \<le> length m"
    using bytes_at_bound [OF at4] by simp
  let ?m = "upd m a (w2b w)"
  have "bytes_at ?m a (w2b w)" "bytes_at ?m (a + 4) (n2b (word_of_nat (length rs)) @ concat (map net_record rs))"
    using bnd at4 by (auto intro!: bytes_at_upd_frame)
  then have "bytes_at ?m a (w2b w @ n2b (word_of_nat (length rs)) @ concat (map net_record rs))"
    by (simp add: bytes_at_append)
  from ntohEventArray_spec [OF this n rs] show ?thesis
    using bnd Events
    by (simp add: pm_ntohpmValueBlock_def w t PM_TYPE_defs st32_Some upd_upd_append)
qed

section \<open>Properties\<close>

lemma value_block_restored:
  assumes "bytes_at m a (host_block b)" and "wf_block b"
  shows "do { m' \<leftarrow> pm_htonpmValueBlock a m; pm_ntohpmValueBlock a m' } = Some m"
proof -
  have bnd: "a + length (host_block b) \<le> length m"
    using assms(1) by (rule bytes_at_bound)
  then have "bytes_at (upd m a (net_block b)) a (net_block b)"
    by simp
  from pm_ntohpmValueBlock_spec [OF this assms(2)] show ?thesis
    using bnd assms
    by (simp add: pm_htonpmValueBlock_spec upd_upd_same upd_bytes_at)
qed

text \<open>C22: converting a well-formed value block of a buffer to network order with
  \<open>__htonpmValueBlock\<close> and back with \<open>__ntohpmValueBlock\<close> restores the whole buffer, for
  every type of block, packed arrays of event records included.\<close>

corollary value_block_roundtrip:
  assumes "bytes_at m a (host_block b)" and "wf_block b"
  shows "do { m' \<leftarrow> pm_htonpmValueBlock a m; pm_ntohpmValueBlock a m' } = Some m"
  using assms by (rule value_block_restored)

definition sample_events :: value_block where
  "sample_events = Events 0x09000024
     [\<lparr>r_sec = 1, r_usec = 2, r_flags = 0, r_nparams = 1,
       r_params = [\<lparr>p_pmid = 7, p_typelen = 0x01000008, p_vbuf = [1, 2, 3, 4]\<rparr>]\<rparr>,
      \<lparr>r_sec = 3, r_usec = 4, r_flags = PM_EVENT_FLAG_MISSED, r_nparams = 5, r_params = []\<rparr>]"

lemma wf_sample_events: "wf_block sample_events"
  by (simp add: sample_events_def vb_vtype_def vb_vlen_def PM_TYPE_defs wf_record_def wf_param_def
      event_nparams_def PM_EVENT_FLAG_MISSED_def value_size_def PM_PDU_SIZE_BYTES_def PM_PDU_SIZE_def)

lemma value_block_roundtrip_witness:
  "wf_block sample_events \<and>
   do { m' \<leftarrow> pm_htonpmValueBlock 0 (host_block sample_events); pm_ntohpmValueBlock 0 m' } =
     Some (host_block sample_events)"
  using value_block_roundtrip [of "host_block sample_events" 0 sample_events] wf_sample_events
  by (simp add: bytes_at_def ld_def)

end
