(* ===== verification/Pdubuf.thy ===== *)
theory Pdubuf
  imports Prelude
begin

text \<open>
  \<^verbatim>\<open>src/src/libpcp/src/pdubuf.c\<close>: the pool of reference-counted PDU buffers. The two linked
  lists of control blocks are lists; a control block is identified by the address of its buffer.
  \<open>PM_LOCK\<close> is a recursive mutex, modelled by its depth. What the C library's allocator
  answers is an argument: whether \<open>malloc\<close> succeeds, and the address \<open>valloc\<close> returns. The size of a
  new buffer is computed in 32 bits; a pin count is an \<open>int\<close> too, and incrementing it beyond the range,
  which is undefined, is a fault.
\<close>

section \<open>State\<close>

record bufctl =
  bc_size :: int
  bc_pincnt :: int
  bc_buf :: int
  bc_bufend :: int

record pool =
  buf_free :: "bufctl list"
  buf_pin :: "bufctl list"
  buf_pin_tail :: "int option"
  lock_depth :: nat

definition PDU_CHUNK :: int where
  "PDU_CHUNK = 1024"

definition empty_pool :: pool where
  "empty_pool = \<lparr>buf_free = [], buf_pin = [], buf_pin_tail = None, lock_depth = 0\<rparr>"

abbreviation PM_LOCK :: "pool \<Rightarrow> pool" where
  "PM_LOCK p \<equiv> p\<lparr>lock_depth := Suc (lock_depth p)\<rparr>"

abbreviation PM_UNLOCK :: "pool \<Rightarrow> pool" where
  "PM_UNLOCK p \<equiv> p\<lparr>lock_depth := lock_depth p - 1\<rparr>"

section \<open>Operations\<close>

definition in_buf :: "int \<Rightarrow> bufctl \<Rightarrow> bool" where
  "in_buf handle b \<longleftrightarrow> bc_buf b \<le> handle \<and> handle < bc_bufend b"

text \<open>\<open>buf_pin_tail->bc_next = pcp\<close>: the list is cut after the tail block and continues with \<open>x\<close>.\<close>

definition link_tail :: "int option \<Rightarrow> bufctl \<Rightarrow> bufctl list \<Rightarrow> bufctl list" where
  "link_tail tail x bs =
     (case tail of
        None \<Rightarrow> bs
      | Some t \<Rightarrow> takeWhile (\<lambda>b. bc_buf b \<noteq> t) bs @
          (case dropWhile (\<lambda>b. bc_buf b \<noteq> t) bs of [] \<Rightarrow> [] | b # _ \<Rightarrow> [b, x]))"

text \<open>The first block of a list that satisfies \<open>P\<close>, with the blocks before and after it.\<close>

definition first_that :: "('a \<Rightarrow> bool) \<Rightarrow> 'a list \<Rightarrow> ('a list \<times> 'a \<times> 'a list) option" where
  "first_that P bs =
     (case dropWhile (\<lambda>b. \<not> P b) bs of
        [] \<Rightarrow> None
      | b # rest \<Rightarrow> Some (takeWhile (\<lambda>b. \<not> P b) bs, b, rest))"

text \<open>\<^const>\<open>None\<close> is the failed \<open>assert\<close> on the alignment of the handle, or the overflow of the count.\<close>

definition pmPinPDUBuf :: "int \<Rightarrow> pool \<Rightarrow> pool option" where
  "pmPinPDUBuf handle p0 =
     (if handle mod 4 \<noteq> 0 then None
      else let p = PM_LOCK p0 in
        case first_that (in_buf handle) (buf_free p) of
          Some (before, pcp, after) \<Rightarrow>
            (let pcp' = pcp\<lparr>bc_pincnt := 1\<rparr>;
                 pin = link_tail (buf_pin_tail p) pcp' (buf_pin p)
             in Some (PM_UNLOCK (p\<lparr>buf_free := before @ after,
                   buf_pin_tail := Some (bc_buf pcp),
                   buf_pin := (if buf_pin p = [] then [pcp'] else pin)\<rparr>)))
        | None \<Rightarrow>
            (case first_that (in_buf handle) (buf_pin p) of
               Some (before, pcp, after) \<Rightarrow>
                 (if INT_MAX \<le> bc_pincnt pcp then None
                  else Some (PM_UNLOCK (p\<lparr>buf_pin :=
                    before @ pcp\<lparr>bc_pincnt := bc_pincnt pcp + 1\<rparr> # after\<rparr>)))
             | None \<Rightarrow> Some (PM_UNLOCK p)))"

definition pmFindPDUBuf :: "bool \<Rightarrow> int option \<Rightarrow> int \<Rightarrow> pool \<Rightarrow> (int option \<times> pool) option" where
  "pmFindPDUBuf ctl_ok va need p0 =
     (let p = PM_LOCK p0;
          finish = (\<lambda>a p. do { p \<leftarrow> pmPinPDUBuf a p; Some (Some a, PM_UNLOCK p) })
      in case first_that (\<lambda>b. need \<le> bc_size b) (buf_free p) of
           Some (_, pcp, _) \<Rightarrow> finish (bc_buf pcp) p
         | None \<Rightarrow>
             (if \<not> ctl_ok then Some (None, p)
              else let size = s32 (PDU_CHUNK * (1 + need sdiv PDU_CHUNK)) in
                case va of
                  None \<Rightarrow> Some (None, p)
                | Some a \<Rightarrow>
                    (let pcp = \<lparr>bc_size = size, bc_pincnt = 0, bc_buf = a, bc_bufend = a + size\<rparr>
                     in finish a (p\<lparr>buf_free := pcp # buf_free p\<rparr>))))"

definition pmUnpinPDUBuf :: "int \<Rightarrow> pool \<Rightarrow> (int \<times> pool) option" where
  "pmUnpinPDUBuf handle p0 =
     (if handle mod 4 \<noteq> 0 then None
      else let p = PM_LOCK p0 in
        case first_that (\<lambda>b. bc_buf b \<le> handle \<and> handle < bc_buf b + bc_size b) (buf_pin p) of
          None \<Rightarrow> Some (0, PM_UNLOCK p)
        | Some (before, pcp, after) \<Rightarrow>
            (let pcp' = pcp\<lparr>bc_pincnt := bc_pincnt pcp - 1\<rparr> in
             if bc_pincnt pcp' = 0 then
               Some (1, PM_UNLOCK (p\<lparr>buf_pin := before @ after,
                 buf_pin_tail := (if buf_pin_tail p = Some (bc_buf pcp)
                   then (if before = [] then None else Some (bc_buf (last before)))
                   else buf_pin_tail p),
                 buf_free := pcp' # buf_free p\<rparr>))
             else Some (1, PM_UNLOCK (p\<lparr>buf_pin := before @ pcp' # after\<rparr>))))"

definition pmCountPDUBuf :: "int \<Rightarrow> pool \<Rightarrow> int \<times> int" where
  "pmCountPDUBuf need p =
     (let pinned = length (filter (\<lambda>b. need \<le> bc_size b) (buf_pin p));
          free = length (filter (\<lambda>b. need \<le> bc_size b) (buf_free p))
      in (int pinned + int free, int free))"

section \<open>Invariant\<close>

definition disjoint_bufs :: "bufctl \<Rightarrow> bufctl \<Rightarrow> bool" where
  "disjoint_bufs b c \<longleftrightarrow> bc_bufend b \<le> bc_buf c \<or> bc_bufend c \<le> bc_buf b"

definition wf_bufctl :: "bufctl \<Rightarrow> bool" where
  "wf_bufctl b \<longleftrightarrow> bc_bufend b = bc_buf b + bc_size b \<and> 0 < bc_size b \<and> bc_buf b mod 4 = 0"

definition pool_inv :: "pool \<Rightarrow> bool" where
  "pool_inv p \<longleftrightarrow>
     (\<forall>b \<in> set (buf_free p @ buf_pin p). wf_bufctl b) \<and>
     sorted_wrt disjoint_bufs (buf_free p @ buf_pin p) \<and>
     (\<forall>b \<in> set (buf_free p). bc_pincnt b = 0) \<and>
     (\<forall>b \<in> set (buf_pin p). 1 \<le> bc_pincnt b \<and> bc_pincnt b \<le> INT_MAX) \<and>
     buf_pin_tail p = (if buf_pin p = [] then None else Some (bc_buf (last (buf_pin p))))"

text \<open>The contract of \<open>valloc\<close>: aligned memory that overlaps no buffer of the pool.\<close>

definition valloc_ok :: "pool \<Rightarrow> int \<Rightarrow> int \<Rightarrow> bool" where
  "valloc_ok p a sz \<longleftrightarrow> 0 < sz \<and> a mod 4 = 0 \<and>
     (\<forall>b \<in> set (buf_free p @ buf_pin p). bc_bufend b \<le> a \<or> a + sz \<le> bc_buf b)"

text \<open>What a client sees: the pin count and the size of every buffer, by address.\<close>

definition buf_field :: "(bufctl \<Rightarrow> int) \<Rightarrow> pool \<Rightarrow> int \<rightharpoonup> int" where
  "buf_field f p = map_of (map (\<lambda>b. (bc_buf b, f b)) (buf_free p @ buf_pin p))"

definition pinmap :: "pool \<Rightarrow> int \<rightharpoonup> int" where
  "pinmap = buf_field bc_pincnt"

definition sizemap :: "pool \<Rightarrow> int \<rightharpoonup> int" where
  "sizemap = buf_field bc_size"

lemma first_that_Some:
  "first_that P bs = Some (xs, b, ys) \<longleftrightarrow> bs = xs @ b # ys \<and> P b \<and> (\<forall>x \<in> set xs. \<not> P x)"
proof
  assume "first_that P bs = Some (xs, b, ys)"
  then have d: "dropWhile (\<lambda>b. \<not> P b) bs = b # ys" and t: "takeWhile (\<lambda>b. \<not> P b) bs = xs"
    by (auto simp: first_that_def split: list.splits)
  have "P b" using d by (auto simp: dropWhile_eq_Cons_conv)
  with d t show "bs = xs @ b # ys \<and> P b \<and> (\<forall>x \<in> set xs. \<not> P x)"
    by (metis set_takeWhileD takeWhile_dropWhile_id)
next
  assume "bs = xs @ b # ys \<and> P b \<and> (\<forall>x \<in> set xs. \<not> P x)"
  then show "first_that P bs = Some (xs, b, ys)"
    by (simp add: first_that_def takeWhile_append2 dropWhile_append2)
qed

lemma first_that_None: "first_that P bs = None \<longleftrightarrow> (\<forall>b \<in> set bs. \<not> P b)"
proof (cases "first_that P bs")
  case None
  then show ?thesis
    by (auto simp: first_that_def dropWhile_eq_Nil_conv split: list.splits)
next
  case (Some r)
  then obtain xs b ys where "first_that P bs = Some (xs, b, ys)" by (cases r) auto
  then show ?thesis by (auto simp: first_that_Some)
qed


lemma disjoint_bufs_sym: "disjoint_bufs b c \<longleftrightarrow> disjoint_bufs c b"
  by (auto simp: disjoint_bufs_def)

lemma disjoint_bufs_pincnt [simp]:
  "disjoint_bufs (b\<lparr>bc_pincnt := n\<rparr>) c = disjoint_bufs b c"
  "disjoint_bufs c (b\<lparr>bc_pincnt := n\<rparr>) = disjoint_bufs c b"
  by (auto simp: disjoint_bufs_def)

lemma wf_bufctl_pincnt [simp]: "wf_bufctl (b\<lparr>bc_pincnt := n\<rparr>) = wf_bufctl b"
  by (simp add: wf_bufctl_def)

lemma disjoint_not_in: "disjoint_bufs b c \<Longrightarrow> in_buf h b \<Longrightarrow> \<not> in_buf h c"
  by (auto simp: disjoint_bufs_def in_buf_def)

lemma wf_in_buf: "wf_bufctl b \<Longrightarrow> in_buf (bc_buf b) b"
  by (auto simp: wf_bufctl_def in_buf_def)

lemma wf_in_buf_size:
  "wf_bufctl b \<Longrightarrow> bc_buf b \<le> h \<and> h < bc_buf b + bc_size b \<longleftrightarrow> in_buf h b"
  by (auto simp: wf_bufctl_def in_buf_def)

lemma disjoint_bufs_neq:
  "disjoint_bufs b c \<Longrightarrow> wf_bufctl b \<Longrightarrow> wf_bufctl c \<Longrightarrow> bc_buf b \<noteq> bc_buf c"
  by (auto simp: disjoint_bufs_def wf_bufctl_def)

lemma sorted_wrt_disjoint_distinct:
  "sorted_wrt disjoint_bufs bs \<Longrightarrow> \<forall>b \<in> set bs. wf_bufctl b \<Longrightarrow> distinct (map bc_buf bs)"
  by (induction bs) (auto dest: disjoint_bufs_neq)

lemma link_tail_last:
  assumes "bs \<noteq> []" and "distinct (map bc_buf bs)"
  shows "link_tail (Some (bc_buf (last bs))) x bs = bs @ [x]"
proof -
  obtain cs c where bs: "bs = cs @ [c]" using assms(1) by (cases bs rule: rev_cases) auto
  with assms(2) have "bc_buf c \<notin> bc_buf ` set cs" by simp
  then have "bc_buf b \<noteq> bc_buf c" if "b \<in> set cs" for b
    using that by (metis imageI)
  then have "takeWhile (\<lambda>b. bc_buf b \<noteq> bc_buf c) (cs @ [c]) = cs"
    and "dropWhile (\<lambda>b. bc_buf b \<noteq> bc_buf c) (cs @ [c]) = [c]"
    by (auto simp: takeWhile_append2 dropWhile_append2)
  with bs show ?thesis by (simp add: link_tail_def)
qed

lemma pool_invD:
  assumes "pool_inv p"
  shows "\<forall>b \<in> set (buf_free p). wf_bufctl b" "\<forall>b \<in> set (buf_pin p). wf_bufctl b"
    "sorted_wrt disjoint_bufs (buf_free p)" "sorted_wrt disjoint_bufs (buf_pin p)"
    "\<forall>b \<in> set (buf_free p). \<forall>c \<in> set (buf_pin p). disjoint_bufs b c"
    "\<forall>b \<in> set (buf_free p). bc_pincnt b = 0" "\<forall>b \<in> set (buf_pin p). 1 \<le> bc_pincnt b \<and> bc_pincnt b \<le> INT_MAX"
    "buf_pin_tail p = (if buf_pin p = [] then None else Some (bc_buf (last (buf_pin p))))"
  using assms by (auto simp: pool_inv_def sorted_wrt_append)

lemma buf_field_Some:
  assumes "pool_inv p"
  shows "buf_field f p a = Some n \<longleftrightarrow>
    (\<exists>b \<in> set (buf_free p) \<union> set (buf_pin p). bc_buf b = a \<and> f b = n)"
proof -
  have "distinct (map bc_buf (buf_free p @ buf_pin p))"
    using assms by (intro sorted_wrt_disjoint_distinct) (auto simp: pool_inv_def)
  then have "distinct (map fst (map (\<lambda>b. (bc_buf b, f b)) (buf_free p @ buf_pin p)))"
    by (simp add: comp_def)
  then show ?thesis
    unfolding buf_field_def by (subst map_of_eq_Some_iff) auto
qed

lemmas pinmap_Some = buf_field_Some [of _ bc_pincnt, folded pinmap_def]
lemmas sizemap_Some = buf_field_Some [of _ bc_size, folded sizemap_def]

lemma buf_field_eqI:
  assumes "pool_inv p"
    and "\<And>a n. (\<exists>b \<in> set (buf_free p) \<union> set (buf_pin p). bc_buf b = a \<and> f b = n) \<longleftrightarrow> g a = Some n"
  shows "buf_field f p = g"
proof
  fix a
  show "buf_field f p a = g a"
    using buf_field_Some [OF assms(1)] assms(2) by (metis not_None_eq)
qed

lemma pin_free_inv:
  assumes inv: "pool_inv p" and fr: "buf_free p = xs @ b # ys"
  shows "pool_inv (p\<lparr>buf_free := xs @ ys, buf_pin_tail := Some (bc_buf b),
    buf_pin := buf_pin p @ [b\<lparr>bc_pincnt := 1\<rparr>]\<rparr>)"
  using pool_invD [OF inv] unfolding fr
  by (auto simp: pool_inv_def sorted_wrt_append disjoint_bufs_sym INT_MAX_def)


lemma pin_pinned_inv:
  assumes inv: "pool_inv p" and pin: "buf_pin p = xs @ b # ys" and n: "1 \<le> n" "n \<le> INT_MAX"
  shows "pool_inv (p\<lparr>buf_pin := xs @ b\<lparr>bc_pincnt := n\<rparr> # ys\<rparr>)"
  using pool_invD [OF inv] n unfolding pin
  by (auto simp: pool_inv_def sorted_wrt_append pin)

lemma unpin_last_inv:
  assumes inv: "pool_inv p" and pin: "buf_pin p = xs @ b # ys"
  shows "pool_inv (p\<lparr>buf_pin := xs @ ys,
    buf_pin_tail := (if buf_pin_tail p = Some (bc_buf b)
      then (if xs = [] then None else Some (bc_buf (last xs))) else buf_pin_tail p),
    buf_free := b\<lparr>bc_pincnt := 0\<rparr> # buf_free p\<rparr>)"
proof -
  note D = pool_invD [OF inv]
  have tail: "buf_pin_tail p = Some (bc_buf b) \<longleftrightarrow> ys = []"
  proof (cases ys rule: rev_cases)
    case Nil
    then show ?thesis using D(8) pin by simp
  next
    case (snoc zs z)
    then have "disjoint_bufs b z" "wf_bufctl b" "wf_bufctl z"
      using D(2,4) pin by (auto simp: sorted_wrt_append)
    then show ?thesis using D(8) pin snoc disjoint_bufs_neq by fastforce
  qed
  show ?thesis
  proof (cases "ys = []")
    case True
    with tail show ?thesis
      using D unfolding pool_inv_def pin by (auto simp: sorted_wrt_append disjoint_bufs_sym)
  next
    case False
    with tail have "buf_pin_tail p \<noteq> Some (bc_buf b)" by simp
    with False show ?thesis
      using D unfolding pool_inv_def pin by (auto simp: sorted_wrt_append disjoint_bufs_sym)
  qed
qed

lemma not_in_other:
  assumes inv: "pool_inv p" and b: "b \<in> set (buf_pin p)" and h: "in_buf h b"
  shows "\<forall>c \<in> set (buf_free p). \<not> in_buf h c"
  using pool_invD(5) [OF inv] b h by (auto dest: disjoint_not_in simp: disjoint_bufs_sym)

lemma pmPinPDUBuf_free:
  assumes inv: "pool_inv p" and fr: "buf_free p = xs @ b # ys" and h: "in_buf h b" "h mod 4 = 0"
  shows "pmPinPDUBuf h p = Some (p\<lparr>buf_free := xs @ ys, buf_pin_tail := Some (bc_buf b),
    buf_pin := buf_pin p @ [b\<lparr>bc_pincnt := 1\<rparr>]\<rparr>)"
proof -
  note D = pool_invD [OF inv]
  have "\<forall>x \<in> set xs. \<not> in_buf h x"
    using D(3) h fr by (auto simp: sorted_wrt_append dest: disjoint_not_in)
  then have f: "first_that (in_buf h) (buf_free p) = Some (xs, b, ys)"
    using fr h by (simp add: first_that_Some)
  have "link_tail (buf_pin_tail p) c (buf_pin p) = buf_pin p @ [c]" if "buf_pin p \<noteq> []" for c
    using that D(2,4,8) by (simp add: link_tail_last sorted_wrt_disjoint_distinct)
  with f h show ?thesis
    by (cases "buf_pin p = []") (auto simp: pmPinPDUBuf_def)
qed

lemma pmPinPDUBuf_pinned:
  assumes inv: "pool_inv p" and pin: "buf_pin p = xs @ b # ys" and h: "in_buf h b" "h mod 4 = 0" and n: "bc_pincnt b < INT_MAX"
  shows "pmPinPDUBuf h p = Some (p\<lparr>buf_pin := xs @ b\<lparr>bc_pincnt := bc_pincnt b + 1\<rparr> # ys\<rparr>)"
proof -
  note D = pool_invD [OF inv]
  have "\<forall>x \<in> set xs. \<not> in_buf h x"
    using D(4) h pin by (auto simp: sorted_wrt_append dest: disjoint_not_in)
  then have f: "first_that (in_buf h) (buf_pin p) = Some (xs, b, ys)"
    using pin h by (simp add: first_that_Some)
  have g: "first_that (in_buf h) (buf_free p) = None"
    using not_in_other [OF inv _ h(1)] pin by (simp add: first_that_None)
  from f g h n show ?thesis by (simp add: pmPinPDUBuf_def)
qed

lemma pmUnpinPDUBuf_pinned:
  assumes inv: "pool_inv p" and pin: "buf_pin p = xs @ b # ys" and h: "in_buf h b" "h mod 4 = 0"
  shows "pmUnpinPDUBuf h p = Some (1,
    if bc_pincnt b = 1 then p\<lparr>buf_pin := xs @ ys,
      buf_pin_tail := (if buf_pin_tail p = Some (bc_buf b)
        then (if xs = [] then None else Some (bc_buf (last xs))) else buf_pin_tail p),
      buf_free := b\<lparr>bc_pincnt := 0\<rparr> # buf_free p\<rparr>
    else p\<lparr>buf_pin := xs @ b\<lparr>bc_pincnt := bc_pincnt b - 1\<rparr> # ys\<rparr>)"
proof -
  note D = pool_invD [OF inv]
  have "\<forall>x \<in> set xs. \<not> in_buf h x"
    using D(4) h pin by (auto simp: sorted_wrt_append dest: disjoint_not_in)
  then have "first_that (\<lambda>b. bc_buf b \<le> h \<and> h < bc_buf b + bc_size b) (buf_pin p) = Some (xs, b, ys)"
    using pin h D(2) wf_in_buf_size by (auto simp: first_that_Some)
  with h show ?thesis by (auto simp: pmUnpinPDUBuf_def Let_def)
qed


section \<open>Pin counts\<close>

lemma buf_field_buf:
  assumes "pool_inv p" "b \<in> set (buf_free p) \<union> set (buf_pin p)"
  shows "pinmap p (bc_buf b) = Some (bc_pincnt b)" "sizemap p (bc_buf b) = Some (bc_size b)"
  using assms by (auto simp: pinmap_Some sizemap_Some)

lemma bc_buf_inj:
  assumes inv: "pool_inv p" and "b \<in> set (buf_free p) \<union> set (buf_pin p)"
    and "c \<in> set (buf_free p) \<union> set (buf_pin p)" and "bc_buf c = bc_buf b"
  shows "c = b"
proof -
  have "distinct (map bc_buf (buf_free p @ buf_pin p))"
    using inv by (intro sorted_wrt_disjoint_distinct) (auto simp: pool_inv_def)
  then have "inj_on bc_buf (set (buf_free p @ buf_pin p))"
    unfolding distinct_map by (rule conjunct2)
  with assms show ?thesis by (auto dest: inj_onD)
qed

lemma buf_move:
  assumes inv: "pool_inv p" and inv': "pool_inv q"
    and b: "b \<in> set (buf_free p) \<union> set (buf_pin p)"
    and sets: "set (buf_free q) \<union> set (buf_pin q) =
      insert (b\<lparr>bc_pincnt := n\<rparr>) (set (buf_free p) \<union> set (buf_pin p) - {b})"
  shows "pinmap q = (pinmap p)(bc_buf b \<mapsto> n) \<and> sizemap q = sizemap p"
proof
  have other: "bc_buf c \<noteq> bc_buf b" if "c \<in> set (buf_free p) \<union> set (buf_pin p)" "c \<noteq> b" for c
    using bc_buf_inj [OF inv b that(1)] that(2) by blast
  show "pinmap q = (pinmap p)(bc_buf b \<mapsto> n)"
    unfolding pinmap_def
  proof (rule buf_field_eqI [OF inv'])
    fix a k
    show "(\<exists>c \<in> set (buf_free q) \<union> set (buf_pin q). bc_buf c = a \<and> bc_pincnt c = k) \<longleftrightarrow>
        ((buf_field bc_pincnt p)(bc_buf b \<mapsto> n)) a = Some k"
      unfolding sets using other buf_field_Some [OF inv, of bc_pincnt a k] by auto
  qed
  show "sizemap q = sizemap p"
    unfolding sizemap_def
  proof (rule buf_field_eqI [OF inv'])
    fix a k
    show "(\<exists>c \<in> set (buf_free q) \<union> set (buf_pin q). bc_buf c = a \<and> bc_size c = k) \<longleftrightarrow>
        buf_field bc_size p a = Some k"
      unfolding sets using b buf_field_Some [OF inv, of bc_size a k] by auto
  qed
qed

lemma not_in_rest:
  assumes "sorted_wrt disjoint_bufs (xs @ b # ys)" and "wf_bufctl b"
  shows "b \<notin> set xs" "b \<notin> set ys"
  using assms disjoint_bufs_neq [of b b] by (auto simp: sorted_wrt_append)

lemma pmPinPDUBuf_effect:
  assumes inv: "pool_inv p" and b: "b \<in> set (buf_free p) \<union> set (buf_pin p)"
    and h: "in_buf h b" "h mod 4 = 0" and k: "bc_pincnt b < INT_MAX"
  shows "\<exists>q. pmPinPDUBuf h p = Some q \<and> pool_inv q \<and>
    pinmap q = (pinmap p)(bc_buf b \<mapsto> bc_pincnt b + 1) \<and> sizemap q = sizemap p \<and>
    lock_depth q = lock_depth p \<and>
    (\<exists>c \<in> set (buf_pin q). c = b\<lparr>bc_pincnt := bc_pincnt b + 1\<rparr>)"
proof -
  note D = pool_invD [OF inv]
  show ?thesis
  proof (cases "b \<in> set (buf_free p)")
    case True
    then obtain xs ys where fr: "buf_free p = xs @ b # ys" by (auto simp: in_set_conv_decomp)
    have n: "bc_pincnt b = 0" using D(6) True by simp
    have nb: "b \<notin> set xs" "b \<notin> set ys" "b \<notin> set (buf_pin p)"
      using not_in_rest [OF D(3) [unfolded fr]] D(1,7) True n by force+
    let ?q = "p\<lparr>buf_free := xs @ ys, buf_pin_tail := Some (bc_buf b),
      buf_pin := buf_pin p @ [b\<lparr>bc_pincnt := 1\<rparr>]\<rparr>"
    have "pool_inv ?q" by (rule pin_free_inv [OF inv fr])
    moreover have "pinmap ?q = (pinmap p)(bc_buf b \<mapsto> 1) \<and> sizemap ?q = sizemap p"
      using nb by (intro buf_move [OF inv calculation b]) (auto simp: fr)
    ultimately show ?thesis
      using pmPinPDUBuf_free [OF inv fr h] n by auto
  next
    case False
    with b have bp: "b \<in> set (buf_pin p)" by simp
    then obtain xs ys where pin: "buf_pin p = xs @ b # ys" by (auto simp: in_set_conv_decomp)
    have nb: "b \<notin> set xs" "b \<notin> set ys"
      using not_in_rest [OF D(4) [unfolded pin]] D(2) bp by auto
    let ?q = "p\<lparr>buf_pin := xs @ b\<lparr>bc_pincnt := bc_pincnt b + 1\<rparr> # ys\<rparr>"
    have "1 \<le> bc_pincnt b + 1" "bc_pincnt b + 1 \<le> INT_MAX" using D(7) bp k by force+
    then have "pool_inv ?q" by (rule pin_pinned_inv [OF inv pin])
    moreover have "pinmap ?q = (pinmap p)(bc_buf b \<mapsto> bc_pincnt b + 1) \<and> sizemap ?q = sizemap p"
      using nb False by (intro buf_move [OF inv calculation b]) (auto simp: pin)
    ultimately show ?thesis
      using pmPinPDUBuf_pinned [OF inv pin h k] by auto
  qed
qed

lemma pmUnpinPDUBuf_effect:
  assumes inv: "pool_inv p" and bp: "b \<in> set (buf_pin p)" and h: "in_buf h b" "h mod 4 = 0"
  shows "\<exists>q. pmUnpinPDUBuf h p = Some (1, q) \<and> pool_inv q \<and>
    pinmap q = (pinmap p)(bc_buf b \<mapsto> bc_pincnt b - 1) \<and> sizemap q = sizemap p \<and>
    lock_depth q = lock_depth p"
proof -
  note D = pool_invD [OF inv]
  obtain xs ys where pin: "buf_pin p = xs @ b # ys"
    using bp by (auto simp: in_set_conv_decomp)
  have nb: "b \<notin> set xs" "b \<notin> set ys" "b \<notin> set (buf_free p)"
    using not_in_rest [OF D(4) [unfolded pin]] D(2,6,7) bp by force+
  have b: "b \<in> set (buf_free p) \<union> set (buf_pin p)" using bp by simp
  show ?thesis
  proof (cases "bc_pincnt b = 1")
    case True
    let ?q = "p\<lparr>buf_pin := xs @ ys,
      buf_pin_tail := (if buf_pin_tail p = Some (bc_buf b)
        then (if xs = [] then None else Some (bc_buf (last xs))) else buf_pin_tail p),
      buf_free := b\<lparr>bc_pincnt := 0\<rparr> # buf_free p\<rparr>"
    have "pool_inv ?q" by (rule unpin_last_inv [OF inv pin])
    moreover have "pinmap ?q = (pinmap p)(bc_buf b \<mapsto> 0) \<and> sizemap ?q = sizemap p"
      using nb by (intro buf_move [OF inv calculation b]) (auto simp: pin)
    ultimately show ?thesis
      using pmUnpinPDUBuf_pinned [OF inv pin h] True by auto
  next
    case False
    let ?q = "p\<lparr>buf_pin := xs @ b\<lparr>bc_pincnt := bc_pincnt b - 1\<rparr> # ys\<rparr>"
    have "1 \<le> bc_pincnt b - 1" "bc_pincnt b - 1 \<le> INT_MAX" using D(7) bp False by force+
    then have "pool_inv ?q" by (rule pin_pinned_inv [OF inv pin])
    moreover have "pinmap ?q = (pinmap p)(bc_buf b \<mapsto> bc_pincnt b - 1) \<and> sizemap ?q = sizemap p"
      using nb by (intro buf_move [OF inv calculation b]) (auto simp: pin)
    ultimately show ?thesis
      using pmUnpinPDUBuf_pinned [OF inv pin h] False by auto
  qed
qed

lemma pmUnpinPDUBuf_unknown:
  assumes inv: "pool_inv p" and h: "\<forall>b \<in> set (buf_pin p). \<not> in_buf h b" "h mod 4 = 0"
  shows "pmUnpinPDUBuf h p = Some (0, p)"
proof -
  have "first_that (\<lambda>b. bc_buf b \<le> h \<and> h < bc_buf b + bc_size b) (buf_pin p) = None"
    using h pool_invD(2) [OF inv] by (auto simp: first_that_None wf_in_buf_size)
  with h show ?thesis by (simp add: pmUnpinPDUBuf_def)
qed

lemma pmPinPDUBuf_unknown:
  assumes h: "\<forall>b \<in> set (buf_free p) \<union> set (buf_pin p). \<not> in_buf h b" "h mod 4 = 0"
  shows "pmPinPDUBuf h p = Some p"
proof -
  have "first_that (in_buf h) (buf_pin p) = None" "first_that (in_buf h) (buf_free p) = None"
    using h by (auto simp: first_that_None)
  with h show ?thesis by (simp add: pmPinPDUBuf_def)
qed


lemma pmPinPDUBuf_overflow:
  assumes inv: "pool_inv p" and pin: "buf_pin p = xs @ b # ys" and h: "in_buf h b" and n: "INT_MAX \<le> bc_pincnt b"
  shows "pmPinPDUBuf h p = None"
proof -
  have "\<forall>x \<in> set xs. \<not> in_buf h x"
    using pool_invD(4) [OF inv] h pin by (auto simp: sorted_wrt_append dest: disjoint_not_in)
  then have "first_that (in_buf h) (buf_pin p) = Some (xs, b, ys)" using pin h by (simp add: first_that_Some)
  moreover have "first_that (in_buf h) (buf_free p) = None"
    using not_in_other [OF inv _ h] pin by (simp add: first_that_None)
  ultimately show ?thesis using n by (simp add: pmPinPDUBuf_def)
qed

section \<open>Finding a buffer\<close>

definition new_size :: "int \<Rightarrow> int" where
  "new_size need = s32 (PDU_CHUNK * (1 + need sdiv PDU_CHUNK))"

lemma new_size_bounds:
  assumes "0 \<le> need" "need \<le> INT_MAX - PDU_CHUNK"
  shows "need < new_size need" "new_size need \<le> need + PDU_CHUNK"
proof -
  have "need sdiv PDU_CHUNK = need div PDU_CHUNK"
    using assms by (auto simp: signed_divide_int_def PDU_CHUNK_def sgn_if)
  moreover have "is_int32 (PDU_CHUNK * (1 + need div PDU_CHUNK))"
    using assms by (simp add: is_int32_def INT_MAX_def PDU_CHUNK_def)
  ultimately show "need < new_size need" "new_size need \<le> need + PDU_CHUNK"
    by (simp_all add: new_size_def s32_id PDU_CHUNK_def)
qed

lemma pool_inv_lock [simp]: "pool_inv (p\<lparr>lock_depth := n\<rparr>) = pool_inv p"
  by (simp add: pool_inv_def)

lemma buf_field_lock [simp]:
  "pinmap (p\<lparr>lock_depth := n\<rparr>) = pinmap p" "sizemap (p\<lparr>lock_depth := n\<rparr>) = sizemap p"
  by (simp_all add: pinmap_def sizemap_def buf_field_def)

lemma pmFindPDUBuf_reuse:
  assumes inv: "pool_inv p" and f: "first_that (\<lambda>b. need \<le> bc_size b) (buf_free p) = Some (xs, b, ys)"
  shows "\<exists>q. pmFindPDUBuf ctl_ok va need p = Some (Some (bc_buf b), q) \<and> pool_inv q \<and>
    pinmap q = (pinmap p)(bc_buf b \<mapsto> 1) \<and> sizemap q = sizemap p \<and> lock_depth q = lock_depth p \<and>
    (\<exists>k \<ge> need. sizemap p (bc_buf b) = Some k) \<and>
    (\<exists>c \<in> set (buf_pin q). bc_buf c = bc_buf b \<and> need \<le> bc_size c \<and>
      (\<forall>d \<in> set (buf_pin p). disjoint_bufs c d)) \<and>
    pinmap p (bc_buf b) = Some 0"
proof -
  let ?p = "PM_LOCK p"
  have b: "b \<in> set (buf_free p)" and sz: "need \<le> bc_size b"
    using f by (auto simp: first_that_Some)
  then have wf: "wf_bufctl b" "bc_pincnt b = 0" using pool_invD(1,6) [OF inv] by auto
  obtain q where q: "pmPinPDUBuf (bc_buf b) ?p = Some q" "pool_inv q"
      "pinmap q = (pinmap ?p)(bc_buf b \<mapsto> bc_pincnt b + 1)" "lock_depth q = lock_depth ?p"
      "sizemap q = sizemap ?p"
      "\<exists>c \<in> set (buf_pin q). c = b\<lparr>bc_pincnt := bc_pincnt b + 1\<rparr>"
    using pmPinPDUBuf_effect [of ?p b "bc_buf b"] inv b wf wf_in_buf
    by (auto simp: wf_bufctl_def INT_MAX_def)
  moreover have "pinmap p (bc_buf b) = Some 0" "sizemap p (bc_buf b) = Some (bc_size b)"
    using buf_field_buf [OF inv, of b] b wf by simp_all
  ultimately show ?thesis
    using f sz wf pool_invD(5) [OF inv] b by (auto simp: pmFindPDUBuf_def intro!: bexI [of _ "b\<lparr>bc_pincnt := 1\<rparr>"])
qed

lemma pmFindPDUBuf_first:
  assumes inv: "pool_inv p" and fr: "buf_free p = b # bs" and n: "need \<le> bc_size b"
  obtains q where "pmFindPDUBuf ctl_ok va need p = Some (Some (bc_buf b), q)" "buf_free q = bs" "pool_inv q" "sizemap q = sizemap p"
proof -
  have f: "first_that (\<lambda>b. need \<le> bc_size b) (buf_free p) = Some ([], b, bs)" using fr n by (simp add: first_that_Some)
  obtain q where q: "pmFindPDUBuf ctl_ok va need p = Some (Some (bc_buf b), q)" "pool_inv q" "sizemap q = sizemap p"
    using pmFindPDUBuf_reuse [OF inv f] by blast
  have wf: "wf_bufctl b" using pool_invD(1) [OF inv] fr by simp
  have "pmPinPDUBuf (bc_buf b) (PM_LOCK p) = Some ((PM_LOCK p)\<lparr>buf_free := [] @ bs, buf_pin_tail := Some (bc_buf b),
      buf_pin := buf_pin p @ [b\<lparr>bc_pincnt := 1\<rparr>]\<rparr>)"
    using pmPinPDUBuf_free [of "PM_LOCK p" "[]" b bs "bc_buf b"] inv fr wf wf_in_buf [OF wf] by (simp add: wf_bufctl_def)
  then have "buf_free q = bs" using q(1) f by (auto simp: pmFindPDUBuf_def)
  then show thesis using that q by blast
qed

lemma pmFindPDUBuf_new:
  assumes inv: "pool_inv p" and f: "first_that (\<lambda>b. need \<le> bc_size b) (buf_free p) = None"
    and va: "valloc_ok p a (new_size need)"
  shows "\<exists>q. pmFindPDUBuf True (Some a) need p = Some (Some a, q) \<and> pool_inv q \<and>
    pinmap q = (pinmap p)(a \<mapsto> 1) \<and> sizemap q = (sizemap p)(a \<mapsto> new_size need) \<and>
    lock_depth q = lock_depth p \<and>
    (\<exists>c \<in> set (buf_pin q). bc_buf c = a \<and> bc_size c = new_size need \<and>
      (\<forall>d \<in> set (buf_pin p). disjoint_bufs c d)) \<and>
    pinmap p a = None \<and> sizemap p a = None"
proof -
  let ?b = "\<lparr>bc_size = new_size need, bc_pincnt = 0, bc_buf = a, bc_bufend = a + new_size need\<rparr>"
  let ?p = "(PM_LOCK p)\<lparr>buf_free := ?b # buf_free p\<rparr>"
  have wf: "wf_bufctl ?b" using va by (simp add: wf_bufctl_def valloc_ok_def)
  have dis: "disjoint_bufs ?b c" if "c \<in> set (buf_free p @ buf_pin p)" for c
    using va that by (auto simp: valloc_ok_def disjoint_bufs_def)
  have inv': "pool_inv ?p"
    using inv wf dis by (auto simp: pool_inv_def)
  have fresh: "buf_field f p a = None" for f
    using buf_field_Some [OF inv, of f a] disjoint_bufs_neq [OF dis wf] pool_invD(1,2) [OF inv]
    by (cases "buf_field f p a") force+
  have pm: "pinmap ?p = (pinmap p)(a \<mapsto> 0)" "sizemap ?p = (sizemap p)(a \<mapsto> new_size need)"
    by (simp_all add: pinmap_def sizemap_def buf_field_def)
  obtain q where q: "pmPinPDUBuf a ?p = Some q" "pool_inv q"
      "pinmap q = (pinmap ?p)(a \<mapsto> 1)" "lock_depth q = lock_depth ?p" "sizemap q = sizemap ?p"
      "\<exists>c \<in> set (buf_pin q). c = ?b\<lparr>bc_pincnt := 1\<rparr>"
    using pmPinPDUBuf_effect [OF inv', of ?b a] wf wf_in_buf [OF wf] va
    by (auto simp: valloc_ok_def INT_MAX_def)
  moreover have "\<forall>d \<in> set (buf_pin p). disjoint_bufs (?b\<lparr>bc_pincnt := 1\<rparr>) d"
    using dis [unfolded disjoint_bufs_def] by (fastforce simp: disjoint_bufs_def)
  ultimately show ?thesis
    using f fresh [of bc_pincnt] fresh [of bc_size] pm
    by (auto simp: pmFindPDUBuf_def new_size_def [symmetric] pinmap_def [symmetric]
        sizemap_def [symmetric] intro!: bexI [of _ "?b\<lparr>bc_pincnt := 1\<rparr>"])
qed

lemma pmFindPDUBuf_fails:
  assumes "first_that (\<lambda>b. need \<le> bc_size b) (buf_free p) = None" and "\<not> ctl_ok \<or> va = None"
  shows "pmFindPDUBuf ctl_ok va need p = Some (None, PM_LOCK p)"
  using assms by (auto simp: pmFindPDUBuf_def Let_def split: option.splits)


text \<open>
  What the allocator may answer when the pool asks for a new buffer: no memory, or memory as \<open>valloc\<close>
  promises it. A request whose rounded size is no \<open>int\<close> asks for more than the address space,
  and so there is no address that meets the contract.
\<close>

definition alloc_ok :: "bool \<times> int option \<Rightarrow> int \<Rightarrow> pool \<Rightarrow> bool" where
  "alloc_ok e need p \<longleftrightarrow> (\<forall>a. snd e = Some a \<longrightarrow> valloc_ok p a (new_size need))"

definition request_ok :: "bool \<times> int option \<Rightarrow> int \<Rightarrow> pool \<Rightarrow> bool" where
  "request_ok e need p \<longleftrightarrow> need \<le> INT_MAX \<and> alloc_ok e need p"

lemma new_size_enough:
  assumes "need \<le> INT_MAX" "0 < new_size need"
  shows "need < new_size need"
proof (cases "0 \<le> need")
  case True
  show ?thesis
  proof (cases "need \<le> INT_MAX - PDU_CHUNK")
    case False
    then have "need sdiv PDU_CHUNK = 2097151"
      using assms(1) True by (auto simp: signed_divide_int_def PDU_CHUNK_def INT_MAX_def sgn_if)
    then have "new_size need = s32 (2 ^ 31)" by (simp add: new_size_def PDU_CHUNK_def)
    then show ?thesis using assms(2) by (simp add: s32_def)
  qed (use True new_size_bounds in blast)
qed (use assms(2) in simp)

definition find_buf :: "bool \<times> int option \<Rightarrow> int \<Rightarrow> pool \<Rightarrow> (int option \<times> pool) option" where
  "find_buf e = pmFindPDUBuf (fst e) (snd e)"

lemma find_buf_effect:
  assumes inv: "pool_inv p" and e: "request_ok e need p"
  shows "(\<exists>a q. find_buf e need p = Some (Some a, q) \<and> pool_inv q \<and>
      pinmap q = (pinmap p)(a \<mapsto> 1) \<and> lock_depth q = lock_depth p \<and>
      (\<exists>k \<ge> need. sizemap q = (sizemap p)(a \<mapsto> k) \<and>
        (sizemap p a = Some k \<or> sizemap p a = None \<and> e = (True, Some a) \<and> k = new_size need)) \<and>
      (\<exists>c \<in> set (buf_pin q). bc_buf c = a \<and> need \<le> bc_size c \<and>
        (\<forall>d \<in> set (buf_pin p). disjoint_bufs c d)) \<and>
      (pinmap p a = None \<or> pinmap p a = Some 0)) \<or>
    find_buf e need p = Some (None, PM_LOCK p) \<and> (\<forall>b \<in> set (buf_free p). bc_size b < need) \<and> (\<not> fst e \<or> snd e = None)"
proof (cases "first_that (\<lambda>b. need \<le> bc_size b) (buf_free p)")
  case None
  show ?thesis
  proof (cases "fst e \<and> snd e \<noteq> None")
    case True
    then obtain a where a: "e = (True, Some a)" by (cases e) auto
    then have v: "valloc_ok p a (new_size need)" "need \<le> INT_MAX" using e by (auto simp: request_ok_def alloc_ok_def)
    then have "need < new_size need" by (intro new_size_enough) (auto simp: valloc_ok_def)
    with pmFindPDUBuf_new [OF inv None v(1)] a show ?thesis
      unfolding find_buf_def by fastforce
  next
    case False
    with pmFindPDUBuf_fails [OF None] None show ?thesis by (auto simp: find_buf_def first_that_None)
  qed
next
  case (Some r)
  then obtain xs b ys where "first_that (\<lambda>b. need \<le> bc_size b) (buf_free p) = Some (xs, b, ys)"
    by (cases r) auto
  from pmFindPDUBuf_reuse [OF inv this, of "fst e" "snd e"]
  obtain q k where "sizemap p (bc_buf b) = Some k" "need \<le> k"
      "find_buf e need p = Some (Some (bc_buf b), q)" "pool_inv q" "sizemap q = sizemap p"
      "pinmap q = (pinmap p)(bc_buf b \<mapsto> 1)" "lock_depth q = lock_depth p"
      "\<exists>c \<in> set (buf_pin q). bc_buf c = bc_buf b \<and> need \<le> bc_size c \<and>
        (\<forall>d \<in> set (buf_pin p). disjoint_bufs c d)"
      "pinmap p (bc_buf b) = Some 0"
    unfolding find_buf_def by blast
  moreover have "sizemap q = (sizemap p)(bc_buf b \<mapsto> k)"
    using calculation by (auto simp: fun_upd_idem)
  ultimately show ?thesis by blast
qed

lemma find_buf_free:
  assumes inv: "pool_inv p" and b: "pinmap p b = Some 0" "sizemap p b = Some k" "n \<le> k"
  shows "\<exists>a q. find_buf e n p = Some (Some a, q)"
proof -
  obtain c where c: "c \<in> set (buf_free p) \<union> set (buf_pin p)" "bc_buf c = b" "bc_pincnt c = 0"
    using b(1) inv by (auto simp: pinmap_Some)
  then have "c \<in> set (buf_free p)" using pool_invD(7) [OF inv] by force
  moreover have "bc_size c = k" using buf_field_buf(2) [OF inv c(1)] b(2) c(2) by simp
  ultimately have "first_that (\<lambda>b. n \<le> bc_size b) (buf_free p) \<noteq> None" using b(3) first_that_None [of "\<lambda>b. n \<le> bc_size b" "buf_free p"] by auto
  then obtain xs d ys where "first_that (\<lambda>b. n \<le> bc_size b) (buf_free p) = Some (xs, d, ys)" by auto
  from pmFindPDUBuf_reuse [OF inv this, of "fst e" "snd e"] show ?thesis unfolding find_buf_def by blast
qed

section \<open>The interface its clients rely on\<close>

text \<open>How many pins are held on an address; an address outside the pool has none.\<close>

definition held :: "(int \<rightharpoonup> int) \<Rightarrow> int \<Rightarrow> int" where
  "held pins a = (case pins a of None \<Rightarrow> 0 | Some k \<Rightarrow> k)"

text \<open>The bytes behind the buffers, as a client keeps them: each as long as its buffer.\<close>

definition backed :: "(int \<Rightarrow> 'c list) \<Rightarrow> (int \<rightharpoonup> int) \<Rightarrow> bool" where
  "backed h sizes \<longleftrightarrow> (\<forall>a k. sizes a = Some k \<longrightarrow> int (length (h a)) = k)"

locale buffer_pool =
  fixes inv :: "'p \<Rightarrow> bool"
    and pins sizes :: "'p \<Rightarrow> int \<Rightarrow> int option"
    and env_ok :: "'e \<Rightarrow> int \<Rightarrow> 'p \<Rightarrow> bool"
    and env_new :: "'e \<Rightarrow> int \<Rightarrow> int \<Rightarrow> int \<Rightarrow> bool"
    and find :: "'e \<Rightarrow> int \<Rightarrow> 'p \<Rightarrow> (int option \<times> 'p) option"
    and pin :: "int \<Rightarrow> 'p \<Rightarrow> 'p option"
    and unpin :: "int \<Rightarrow> 'p \<Rightarrow> (int \<times> 'p) option"
  assumes find_law: "inv p \<Longrightarrow> env_ok e n p \<Longrightarrow> find e n p = Some (Some a, q) \<Longrightarrow>
      inv q \<and> pins q = (pins p)(a \<mapsto> 1) \<and> (pins p a = None \<or> pins p a = Some 0) \<and>
      (\<exists>k \<ge> n. sizes q = (sizes p)(a \<mapsto> k) \<and> (sizes p a = Some k \<or> sizes p a = None \<and> env_new e n a k))"
    and find_free_law: "inv p \<Longrightarrow> env_ok e n p \<Longrightarrow> pins p b = Some 0 \<Longrightarrow> sizes p b = Some k \<Longrightarrow> n \<le> k \<Longrightarrow>
      \<exists>a q. find e n p = Some (Some a, q)"
    and find_fail_law: "inv p \<Longrightarrow> env_ok e n p \<Longrightarrow> find e n p = Some (None, q) \<Longrightarrow>
      inv q \<and> pins q = pins p \<and> sizes q = sizes p"
    and find_total: "inv p \<Longrightarrow> env_ok e n p \<Longrightarrow> find e n p \<noteq> None"
    and pin_law: "inv p \<Longrightarrow> pins p a = Some k \<Longrightarrow> k < INT_MAX \<Longrightarrow>
      \<exists>q. pin a p = Some q \<and> inv q \<and> pins q = (pins p)(a \<mapsto> k + 1) \<and> sizes q = sizes p"
    and unpin_law: "inv p \<Longrightarrow> pins p a = Some k \<Longrightarrow> 1 \<le> k \<Longrightarrow>
      \<exists>q. unpin a p = Some (1, q) \<and> inv q \<and> pins q = (pins p)(a \<mapsto> k - 1) \<and> sizes q = sizes p"
begin

lemma find_held:
  assumes "inv p" "env_ok e n p" "find e n p = Some (Some a, q)"
    and "backed h (sizes p)" and "\<And>k. env_new e n a k \<Longrightarrow> int (length (h a)) = k"
  shows "inv q" "held (pins q) = (held (pins p))(a := 1)" "held (pins p) a = 0" "backed h (sizes q)" "n \<le> int (length (h a))"
    "pins q a = Some 1"
  using find_law [OF assms(1-3)] assms(4,5)
  by (auto simp: held_def fun_eq_iff backed_def split: if_splits)

lemma backed_upd: "backed h (sizes p) \<Longrightarrow> length m = length (h a) \<Longrightarrow> backed (h(a := m)) (sizes p)"
  by (simp add: backed_def)

lemma find_fail_held:
  assumes "inv p" "env_ok e n p" "find e n p = Some (None, q)" "backed h (sizes p)"
  shows "inv q" "held (pins q) = held (pins p)" "backed h (sizes q)"
  using find_fail_law [OF assms(1-3)] assms(4) by (auto simp: held_def fun_eq_iff backed_def)

lemma pin_again:
  assumes "inv p" "held (pins p) a = k" "0 < k" "k < INT_MAX"
  obtains q where "pin a p = Some q" "inv q" "held (pins q) = (held (pins p))(a := k + 1)" "sizes q = sizes p"
proof -
  have "pins p a = Some k" using assms(2,3) by (auto simp: held_def split: option.splits)
  from pin_law [OF assms(1) this assms(4)] show thesis by (auto simp: held_def fun_eq_iff intro!: that)
qed

lemma unpin_held:
  assumes "inv p" "pins p a = Some 1" "backed h (sizes p)"
  obtains q where "unpin a p = Some (1, q)" "inv q" "held (pins q) = (held (pins p))(a := 0)" "backed h (sizes q)"
    "sizes q = sizes p"
  using unpin_law [OF assms(1,2)] assms(3) by (auto simp: held_def fun_eq_iff backed_def)

end

definition valloc_new :: "bool \<times> int option \<Rightarrow> int \<Rightarrow> int \<Rightarrow> int \<Rightarrow> bool" where
  "valloc_new e need a k \<longleftrightarrow> e = (True, Some a) \<and> k = new_size need"

interpretation pdubuf: buffer_pool pool_inv pinmap sizemap request_ok valloc_new find_buf pmPinPDUBuf pmUnpinPDUBuf
proof
  fix p e n a q
  assume "pool_inv p" "request_ok e n p" "find_buf e n p = Some (Some a, q)"
  then show "pool_inv q \<and> pinmap q = (pinmap p)(a \<mapsto> 1) \<and> (pinmap p a = None \<or> pinmap p a = Some 0) \<and>
      (\<exists>k \<ge> n. sizemap q = (sizemap p)(a \<mapsto> k) \<and> (sizemap p a = Some k \<or> sizemap p a = None \<and> valloc_new e n a k))"
    using find_buf_effect [of p e n] by (auto simp: valloc_new_def)
next
  fix p e n b k
  assume inv: "pool_inv p" and e: "request_ok e n p" and b: "pinmap p b = Some 0" "sizemap p b = Some k" "n \<le> k"
  show "\<exists>a q. find_buf e n p = Some (Some a, q)"
    by (rule find_buf_free [OF inv b])
next
  fix p e n q
  assume "pool_inv p" "request_ok e n p" "find_buf e n p = Some (None, q)"
  then show "pool_inv q \<and> pinmap q = pinmap p \<and> sizemap q = sizemap p"
    using find_buf_effect [of p e n] by auto
next
  fix p e n
  assume "pool_inv p" "request_ok e n p"
  then show "find_buf e n p \<noteq> None"
    using find_buf_effect [of p e n] by auto
next
  fix p a k
  assume inv: "pool_inv p" and k: "pinmap p a = Some k" "k < INT_MAX"
  then obtain b where b: "b \<in> set (buf_free p) \<union> set (buf_pin p)" "bc_buf b = a" "bc_pincnt b = k"
    by (auto simp: pinmap_Some)
  then have "wf_bufctl b" using pool_invD(1,2) [OF inv] by auto
  then show "\<exists>q. pmPinPDUBuf a p = Some q \<and> pool_inv q \<and> pinmap q = (pinmap p)(a \<mapsto> k + 1) \<and>
      sizemap q = sizemap p"
    using pmPinPDUBuf_effect [OF inv b(1), of a] wf_in_buf b k(2) by (auto simp: wf_bufctl_def)
next
  fix p a k
  assume inv: "pool_inv p" and k: "pinmap p a = Some k" "1 \<le> k"
  then obtain b where b: "b \<in> set (buf_free p) \<union> set (buf_pin p)" "bc_buf b = a" "bc_pincnt b = k"
    by (auto simp: pinmap_Some)
  with pool_invD(1,2,6) [OF inv] k have "b \<in> set (buf_pin p)" "wf_bufctl b" by auto
  then show "\<exists>q. pmUnpinPDUBuf a p = Some (1, q) \<and> pool_inv q \<and> pinmap q = (pinmap p)(a \<mapsto> k - 1) \<and>
      sizemap q = sizemap p"
    using pmUnpinPDUBuf_effect [OF inv, of b a] wf_in_buf b by (auto simp: wf_bufctl_def)
qed

section \<open>Runs of the pool\<close>

inductive pool_step :: "pool \<Rightarrow> pool \<Rightarrow> bool" where
  find: "0 \<le> need \<Longrightarrow> request_ok e need p \<Longrightarrow> find_buf e need p = Some (r, q) \<Longrightarrow> pool_step p q"
| pin: "pmPinPDUBuf h p = Some q \<Longrightarrow> pool_step p q"
| unpin: "pmUnpinPDUBuf h p = Some (n, q) \<Longrightarrow> pool_step p q"

inductive pool_reachable :: "pool \<Rightarrow> bool" where
  init: "pool_reachable empty_pool"
| step: "pool_reachable p \<Longrightarrow> pool_step p q \<Longrightarrow> pool_reachable q"

lemma pmPinPDUBuf_inv:
  assumes inv: "pool_inv p" and q: "pmPinPDUBuf h p = Some q"
  shows "pool_inv q \<and> lock_depth q = lock_depth p"
proof -
  have al: "h mod 4 = 0" using q by (auto simp: pmPinPDUBuf_def split: if_splits)
  show ?thesis
  proof (cases "\<exists>b \<in> set (buf_free p) \<union> set (buf_pin p). in_buf h b")
    case True
    then obtain b where b: "b \<in> set (buf_free p) \<union> set (buf_pin p)" "in_buf h b" by blast
    have "bc_pincnt b < INT_MAX"
    proof (cases "b \<in> set (buf_free p)")
      case True
      then show ?thesis using pool_invD(6) [OF inv] by (simp add: INT_MAX_def)
    next
      case False
      then obtain xs ys where pin: "buf_pin p = xs @ b # ys" using b(1) by (auto simp: in_set_conv_decomp)
      show ?thesis using pmPinPDUBuf_overflow [OF inv pin b(2)] q by force
    qed
    with pmPinPDUBuf_effect [OF inv b al] q show ?thesis by fastforce
  next
    case False
    with pmPinPDUBuf_unknown [of p h] al q inv show ?thesis by auto
  qed
qed

lemma pmUnpinPDUBuf_inv:
  assumes inv: "pool_inv p" and q: "pmUnpinPDUBuf h p = Some (n, q)"
  shows "pool_inv q \<and> lock_depth q = lock_depth p"
proof -
  have al: "h mod 4 = 0" using q by (auto simp: pmUnpinPDUBuf_def split: if_splits)
  show ?thesis
  proof (cases "\<exists>b \<in> set (buf_pin p). in_buf h b")
    case True
    with pmUnpinPDUBuf_effect [OF inv _ _ al] q show ?thesis by fastforce
  next
    case False
    with pmUnpinPDUBuf_unknown [OF inv, of h] al q inv show ?thesis by auto
  qed
qed

lemma pool_step_inv: "pool_step p q \<Longrightarrow> pool_inv p \<Longrightarrow> pool_inv q"
proof (induction rule: pool_step.induct)
  case (find need e p r q)
  then show ?case by (cases r) (auto dest: pdubuf.find_law pdubuf.find_fail_law)
qed (auto dest: pmPinPDUBuf_inv pmUnpinPDUBuf_inv)

lemma pool_reachable_inv: "pool_reachable p \<Longrightarrow> pool_inv p"
proof (induction rule: pool_reachable.induct)
  case init
  show ?case by (simp add: pool_inv_def empty_pool_def)
qed (auto dest: pool_step_inv)


section \<open>Properties\<close>

text \<open>C3: in every state the pool can reach, for a request of at most \<open>INT_MAX\<close> bytes and an allocator that may fail but gives only memory
  that is not in use, \<open>__pmFindPDUBuf(need)\<close> returns. Either it pins a
  buffer of at least \<open>need\<close> bytes that was not pinned and overlaps none of the buffers that were already pinned,
  and leaves the lock as it found it; or no free buffer is large enough and the allocator has failed, and it returns NULL
  with the pool unchanged and the lock still held, once more than before.\<close>

theorem pdubuf_find_exclusive:
  assumes "pool_reachable p" and "0 \<le> need" "need \<le> INT_MAX" and "alloc_ok (ctl_ok, va) need p"
  shows "\<exists>r q. pmFindPDUBuf ctl_ok va need p = Some (r, q) \<and> (case r of
      Some a \<Rightarrow> pinmap q = (pinmap p)(a \<mapsto> 1) \<and> lock_depth q = lock_depth p \<and> (pinmap p a = None \<or> pinmap p a = Some 0) \<and>
        (\<exists>c \<in> set (buf_pin q). bc_buf c = a \<and> need \<le> bc_size c \<and> (\<forall>d \<in> set (buf_pin p). disjoint_bufs c d))
    | None \<Rightarrow> (\<forall>b \<in> set (buf_free p). bc_size b < need) \<and> (\<not> ctl_ok \<or> va = None) \<and> q = p\<lparr>lock_depth := Suc (lock_depth p)\<rparr>)"
  using find_buf_effect [OF pool_reachable_inv [OF assms(1)], of "(ctl_ok, va)" need] assms(3,4)
  by (fastforce simp: find_buf_def request_ok_def)

text \<open>C27: every state reachable by finding, pinning and unpinning, with allocations that succeed or fail, keeps the two lists
  of the pool disjoint, free blocks unpinned, pinned blocks with a count between one and the largest \<open>int\<close>, and the tail
  pointer at the last pinned block. Pinning a block with the largest count overflows, and no state follows.\<close>

theorem pdubuf_invariant: "pool_reachable p \<Longrightarrow> pool_inv p"
  by (rule pool_reachable_inv)

text \<open>\<open>__pmPinPDUBuf\<close> adds one to the count of the buffer its handle points into, wherever
  in the buffer that is, and a following \<open>__pmUnpinPDUBuf\<close> of the same handle restores every count.\<close>

theorem pdubuf_pin_unpin:
  assumes inv: "pool_inv p" and b: "b \<in> set (buf_free p) \<union> set (buf_pin p)"
    and h: "in_buf h b" "h mod 4 = 0" and k: "bc_pincnt b < INT_MAX"
  shows "\<exists>q r. pmPinPDUBuf h p = Some q \<and> pinmap q = (pinmap p)(bc_buf b \<mapsto> bc_pincnt b + 1) \<and>
    pmUnpinPDUBuf h q = Some (1, r) \<and> pinmap r = pinmap p \<and> pool_inv r"
proof -
  obtain q c where q: "pmPinPDUBuf h p = Some q" "pool_inv q"
      "pinmap q = (pinmap p)(bc_buf b \<mapsto> bc_pincnt b + 1)"
      "c \<in> set (buf_pin q)" "c = b\<lparr>bc_pincnt := bc_pincnt b + 1\<rparr>"
    using pmPinPDUBuf_effect [OF inv b h k] by blast
  then have "in_buf h c" using h by (simp add: in_buf_def)
  then show ?thesis
    using pmUnpinPDUBuf_effect [OF q(2,4) _ h(2)] q buf_field_buf [OF inv b] by fastforce
qed

text \<open>when no free buffer is large enough and \<open>malloc\<close> or \<open>valloc\<close> fails,
  \<open>__pmFindPDUBuf\<close> returns NULL with the library lock still held once more than before.\<close>

theorem pdubuf_failed_alloc_keeps_lock:
  assumes "\<forall>b \<in> set (buf_free p). bc_size b < need" and "\<not> ctl_ok \<or> va = None"
  shows "\<exists>q. pmFindPDUBuf ctl_ok va need p = Some (None, q) \<and> lock_depth q = Suc (lock_depth p)"
proof -
  have "first_that (\<lambda>b. need \<le> bc_size b) (buf_free p) = None"
    using assms(1) by (force simp: first_that_None)
  from pmFindPDUBuf_fails [OF this assms(2)] show ?thesis by simp
qed

definition sample_pool :: pool where
  "sample_pool = \<lparr>buf_free = [\<lparr>bc_size = 1024, bc_pincnt = 0, bc_buf = 4096, bc_bufend = 5120\<rparr>],
     buf_pin = [\<lparr>bc_size = 2048, bc_pincnt = 1, bc_buf = 8192, bc_bufend = 10240\<rparr>],
     buf_pin_tail = Some 8192, lock_depth = 0\<rparr>"

lemmas pool_eval = first_that_def link_tail_def in_buf_def PDU_CHUNK_def new_size_def
  alloc_ok_def valloc_ok_def s32_def signed_take_bit_eq_take_bit_shift take_bit_eq_mod signed_divide_int_def sgn_if

text \<open>Two buffers are found and the first is pinned again; then the second is given back.\<close>

definition run_pool1 :: pool where
  "run_pool1 = \<lparr>buf_free = [], buf_pin = [\<lparr>bc_size = 1024, bc_pincnt = 1, bc_buf = 4096, bc_bufend = 5120\<rparr>],
     buf_pin_tail = Some 4096, lock_depth = 0\<rparr>"

definition run_pool2 :: pool where
  "run_pool2 = \<lparr>buf_free = [], buf_pin = [\<lparr>bc_size = 1024, bc_pincnt = 2, bc_buf = 4096, bc_bufend = 5120\<rparr>,
       \<lparr>bc_size = 4096, bc_pincnt = 1, bc_buf = 8192, bc_bufend = 12288\<rparr>],
     buf_pin_tail = Some 8192, lock_depth = 0\<rparr>"

definition run_pool3 :: pool where
  "run_pool3 = \<lparr>buf_free = [\<lparr>bc_size = 4096, bc_pincnt = 0, bc_buf = 8192, bc_bufend = 12288\<rparr>],
     buf_pin = [\<lparr>bc_size = 1024, bc_pincnt = 2, bc_buf = 4096, bc_bufend = 5120\<rparr>],
     buf_pin_tail = Some 4096, lock_depth = 0\<rparr>"

lemma run_pools: "pool_reachable run_pool1" "pool_reachable run_pool2" "pool_reachable run_pool3"
proof -
  have "find_buf (True, Some 4096) 100 empty_pool = Some (Some 4096, run_pool1)" "request_ok (True, Some 4096) 100 empty_pool"
    by (simp_all add: find_buf_def pmFindPDUBuf_def pmPinPDUBuf_def request_ok_def INT_MAX_def pool_eval empty_pool_def run_pool1_def)
  then have "pool_step empty_pool run_pool1" by (intro pool_step.find [of 100 "(True, Some 4096)"]) simp_all
  then show 1: "pool_reachable run_pool1" by (rule pool_reachable.step [OF pool_reachable.init])
  let ?p = "run_pool1\<lparr>buf_pin := [\<lparr>bc_size = 1024, bc_pincnt = 2, bc_buf = 4096, bc_bufend = 5120\<rparr>]\<rparr>"
  have "pmPinPDUBuf 4100 run_pool1 = Some ?p" by (simp add: pmPinPDUBuf_def INT_MAX_def pool_eval run_pool1_def)
  then have p: "pool_reachable ?p" using 1 pool_step.pin pool_reachable.step by blast
  have "find_buf (True, Some 8192) 4000 ?p = Some (Some 8192, run_pool2)" "request_ok (True, Some 8192) 4000 ?p"
    by (simp_all add: find_buf_def pmFindPDUBuf_def pmPinPDUBuf_def request_ok_def INT_MAX_def pool_eval run_pool1_def run_pool2_def)
  then have "pool_step ?p run_pool2" by (intro pool_step.find [of 4000 "(True, Some 8192)"]) simp_all
  then show 2: "pool_reachable run_pool2" by (rule pool_reachable.step [OF p])
  have "pmUnpinPDUBuf 8200 run_pool2 = Some (1, run_pool3)" by (simp add: pmUnpinPDUBuf_def Let_def pool_eval run_pool2_def run_pool3_def)
  then show "pool_reachable run_pool3" using 2 pool_step.unpin pool_reachable.step by blast
qed

lemma pdubuf_find_exclusive_witness:
  "\<exists>q. pmFindPDUBuf True (Some 16384) 5000 run_pool3 = Some (Some 16384, q) \<and> pinmap q = (pinmap run_pool3)(16384 \<mapsto> 1) \<and>
    (\<exists>c \<in> set (buf_pin q). bc_buf c = 16384 \<and> 5000 \<le> bc_size c \<and>
      disjoint_bufs c \<lparr>bc_size = 1024, bc_pincnt = 2, bc_buf = 4096, bc_bufend = 5120\<rparr>)"
proof -
  have e: "alloc_ok (True, Some 16384) 5000 run_pool3" by (simp add: pool_eval run_pool3_def)
  have "\<exists>q. pmFindPDUBuf True (Some 16384) 5000 run_pool3 = Some (Some 16384, q)"
    by (simp add: pmFindPDUBuf_def pmPinPDUBuf_def pool_eval run_pool3_def)
  moreover have "\<lparr>bc_size = 1024, bc_pincnt = 2, bc_buf = 4096, bc_bufend = 5120\<rparr> \<in> set (buf_pin run_pool3)" by (simp add: run_pool3_def)
  ultimately show ?thesis using pdubuf_find_exclusive [OF run_pools(3) _ _ e] by (fastforce simp: INT_MAX_def)
qed

lemma pdubuf_invariant_witness:
  "pool_inv run_pool3 \<and> pool_inv run_pool2 \<and> length (buf_free run_pool3) = 1 \<and> length (buf_pin run_pool2) = 2"
  using pdubuf_invariant [OF run_pools(2)] pdubuf_invariant [OF run_pools(3)] by (simp add: run_pool2_def run_pool3_def)

lemma pdubuf_pin_unpin_witness:
  "\<exists>q r. pmPinPDUBuf 8204 sample_pool = Some q \<and> pinmap q 8192 = Some 2 \<and>
    pmUnpinPDUBuf 8204 q = Some (1, r) \<and> pinmap r = pinmap sample_pool \<and> pool_inv r"
proof -
  have "pool_inv sample_pool"
    by (simp add: sample_pool_def pool_inv_def wf_bufctl_def disjoint_bufs_def INT_MAX_def)
  from pdubuf_pin_unpin [OF this, of "last (buf_pin sample_pool)" 8204]
  show ?thesis by (simp add: sample_pool_def in_buf_def INT_MAX_def) (metis fun_upd_same)
qed

lemma pdubuf_failed_alloc_keeps_lock_witness:
  "\<exists>q. pmFindPDUBuf True None 3000 sample_pool = Some (None, q) \<and> lock_depth q = 1"
  using pdubuf_failed_alloc_keeps_lock [of sample_pool 3000 True None]
  by (simp add: sample_pool_def)

end
