(* ===== verification/Pdu.thy ===== *)
theory Pdu
  imports Pdubuf
begin

text \<open>
  \<^verbatim>\<open>src/src/libpcp/src/pdu.c\<close>: sending and receiving one PDU over a byte stream.

  What the operating system answers is an argument of the functions. For a reader it is the list
  of what arrives, one entry for each turn of the loop of \<open>pduread\<close>; when the list is used up
  the peer has closed the connection. For a writer it is the list of the results of
  \<open>write\<close>; when it is used up \<open>write\<close> fails. The bytes of the PDU buffers are a map from the
  addresses of the pool.
\<close>

section \<open>Constants and state\<close>

definition TIMEOUT_NEVER :: int where "TIMEOUT_NEVER = 0"
definition TIMEOUT_DEFAULT :: int where "TIMEOUT_DEFAULT = - 1"
definition TIMEOUT_ASYNC :: int where "TIMEOUT_ASYNC = - 2"
definition ANY_SIZE :: int where "ANY_SIZE = 0"
definition LIMIT_SIZE :: int where "LIMIT_SIZE = 2"
definition sizeof_pmPDUHdr :: int where "sizeof_pmPDUHdr = 12"

definition PDU_START :: int where "PDU_START = 0x7000"
definition PDU_ERROR :: int where "PDU_ERROR = 0x7000"
definition PDU_RESULT :: int where "PDU_RESULT = 0x7001"
definition PDU_PROFILE :: int where "PDU_PROFILE = 0x7002"
definition PDU_FETCH :: int where "PDU_FETCH = 0x7003"
definition PDU_DESC_REQ :: int where "PDU_DESC_REQ = 0x7004"
definition PDU_DESC :: int where "PDU_DESC = 0x7005"
definition PDU_INSTANCE_REQ :: int where "PDU_INSTANCE_REQ = 0x7006"
definition PDU_INSTANCE :: int where "PDU_INSTANCE = 0x7007"
definition PDU_TEXT_REQ :: int where "PDU_TEXT_REQ = 0x7008"
definition PDU_TEXT :: int where "PDU_TEXT = 0x7009"
definition PDU_CONTROL_REQ :: int where "PDU_CONTROL_REQ = 0x700a"
definition PDU_CREDS :: int where "PDU_CREDS = 0x700c"
definition PDU_PMNS_IDS :: int where "PDU_PMNS_IDS = 0x700d"
definition PDU_PMNS_NAMES :: int where "PDU_PMNS_NAMES = 0x700e"
definition PDU_PMNS_CHILD :: int where "PDU_PMNS_CHILD = 0x700f"
definition PDU_PMNS_TRAVERSE :: int where "PDU_PMNS_TRAVERSE = 0x7010"
definition PDU_USER_AUTH :: int where "PDU_USER_AUTH = 0x7011"
definition PDU_FINISH :: int where "PDU_FINISH = 0x7011"
definition PDU_MAX :: int where "PDU_MAX = PDU_FINISH - PDU_START"
definition PDU_LOG_CONTROL :: int where "PDU_LOG_CONTROL = 0x8000"
definition PDU_LOG_STATUS :: int where "PDU_LOG_STATUS = 0x8001"
definition PDU_LOG_REQUEST :: int where "PDU_LOG_REQUEST = 0x8002"

lemmas PDU_defs = PDU_START_def PDU_ERROR_def PDU_RESULT_def PDU_PROFILE_def PDU_FETCH_def
  PDU_DESC_REQ_def PDU_DESC_def PDU_INSTANCE_REQ_def PDU_INSTANCE_def PDU_TEXT_REQ_def
  PDU_TEXT_def PDU_CONTROL_REQ_def PDU_CREDS_def PDU_PMNS_IDS_def PDU_PMNS_NAMES_def
  PDU_PMNS_CHILD_def PDU_PMNS_TRAVERSE_def PDU_USER_AUTH_def PDU_FINISH_def
  PDU_LOG_CONTROL_def PDU_LOG_STATUS_def PDU_LOG_REQUEST_def

type_synonym timeval = "int \<times> int"

record io =
  io_pool :: pool
  heap :: "int \<Rightarrow> mem"
  maxsize :: int
  ceiling :: int
  pmPDUCntIn :: "u32 list"
  pmPDUCntOut :: "u32 list"
  def_wait :: timeval

text \<open>One turn of the reader: bytes or a failed \<open>recv\<close> with the time of the check that follows
  \<open>select\<close>, a \<open>select\<close> that timed out, or one that failed.\<close>

datatype trip =
    Chunk timeval mem
  | Recv_fail timeval int
  | Sel_idle
  | Sel_fail int

section \<open>Counters, names, ceiling\<close>

text \<open>The arrays have an entry for each type, those that are declared and those that a client sets.\<close>

definition count_pdu :: "int \<Rightarrow> u32 list \<Rightarrow> u32 list" where
  "count_pdu type cnt =
     (if PDU_START \<le> type \<and> type \<le> PDU_FINISH
      then cnt[nat (type - PDU_START) := cnt ! nat (type - PDU_START) + 1] else cnt)"

definition pmGetPDUCeiling :: "io \<Rightarrow> int" where
  "pmGetPDUCeiling s = ceiling s"

definition pmSetPDUCeiling :: "int \<Rightarrow> io \<Rightarrow> int \<times> io" where
  "pmSetPDUCeiling newceiling s =
     (if newceiling > 0 then (newceiling, s\<lparr>ceiling := newceiling\<rparr>) else (ceiling s, s))"

definition pmSetPDUCntBuf :: "u32 list \<Rightarrow> u32 list \<Rightarrow> io \<Rightarrow> io" where
  "pmSetPDUCntBuf cin cout s = s\<lparr>pmPDUCntIn := cin, pmPDUCntOut := cout\<rparr>"

fun digits :: "nat \<Rightarrow> string" where
  "digits n = (if n < 10 then [char_of (48 + n)] else digits (n div 10) @ [char_of (48 + n mod 10)])"

definition int_string :: "int \<Rightarrow> string" where
  "int_string n = (if n < 0 then CHR ''-'' # digits (nat (- n)) else digits (nat n))"

text \<open>\<open>snprintf(buf, buflen, ...)\<close> keeps at most \<open>buflen - 1\<close> characters.\<close>

definition pmPDUTypeStr_r :: "int \<Rightarrow> nat \<Rightarrow> string" where
  "pmPDUTypeStr_r type buflen = take (buflen - 1)
     (if type = PDU_ERROR then ''ERROR''
      else if type = PDU_RESULT then ''RESULT''
      else if type = PDU_PROFILE then ''PROFILE''
      else if type = PDU_FETCH then ''FETCH''
      else if type = PDU_DESC_REQ then ''DESC_REQ''
      else if type = PDU_DESC then ''DESC''
      else if type = PDU_INSTANCE_REQ then ''INSTANCE_REQ''
      else if type = PDU_INSTANCE then ''INSTANCE''
      else if type = PDU_TEXT_REQ then ''TEXT_REQ''
      else if type = PDU_TEXT then ''TEXT''
      else if type = PDU_CONTROL_REQ then ''CONTROL_REQ''
      else if type = PDU_CREDS then ''CREDS''
      else if type = PDU_PMNS_IDS then ''PMNS_IDS''
      else if type = PDU_PMNS_NAMES then ''PMNS_NAMES''
      else if type = PDU_PMNS_CHILD then ''PMNS_CHILD''
      else if type = PDU_PMNS_TRAVERSE then ''PMNS_TRAVERSE''
      else if type = PDU_LOG_CONTROL then ''LOG_CONTROL''
      else if type = PDU_LOG_STATUS then ''LOG_STATUS''
      else if type = PDU_LOG_REQUEST then ''LOG_REQUEST''
      else if type = PDU_USER_AUTH then ''USER_AUTH''
      else ''TYPE-'' @ int_string type @ ''?'')"

definition pmPDUTypeStr :: "int \<Rightarrow> string" where
  "pmPDUTypeStr type = pmPDUTypeStr_r type 20"

section \<open>Reading\<close>

definition tv_add :: "timeval \<Rightarrow> timeval \<Rightarrow> timeval" where
  "tv_add t w = (let us = snd t + snd w in
     (fst t + fst w + (if 1000000 \<le> us then us div 1000000 else 0),
      if 1000000 \<le> us then us mod 1000000 else us))"

definition tv_late :: "timeval \<Rightarrow> timeval \<Rightarrow> bool" where
  "tv_late now dead_hand \<longleftrightarrow> fst now > fst dead_hand \<or>
     (fst now = fst dead_hand \<and> snd now > snd dead_hand)"

text \<open>
  The \<open>while (len)\<close> loop. \<open>never\<close> is \<open>timeout == TIMEOUT_NEVER\<close>, when \<open>select\<close> is not
  called. \<open>recv\<close> delivers at most \<open>len\<close> bytes of what has arrived and leaves the rest.
\<close>

function pduread_loop ::
  "bool \<Rightarrow> timeval \<Rightarrow> trip list \<Rightarrow> nat \<Rightarrow> nat \<Rightarrow> nat \<Rightarrow> mem \<Rightarrow> (int \<times> mem \<times> trip list) option" where
  "pduread_loop never dead_hand trips buf have_n len m =
     (if len = 0 then Some (int have_n, m, trips)
      else case trips of
        [] \<Rightarrow> Some (int have_n, m, [])
      | Sel_idle # ts \<Rightarrow>
          if never then pduread_loop never dead_hand ts buf have_n len m
          else Some (PM_ERR_TIMEOUT, m, ts)
      | Sel_fail e # ts \<Rightarrow>
          if never then pduread_loop never dead_hand ts buf have_n len m
          else Some (e, m, ts)
      | Recv_fail now e # ts \<Rightarrow>
          if \<not> never \<and> tv_late now dead_hand then Some (PM_ERR_TIMEOUT, m, trips)
          else Some (e, m, ts)
      | Chunk now bs # ts \<Rightarrow>
          if \<not> never \<and> tv_late now dead_hand then Some (PM_ERR_TIMEOUT, m, trips)
          else if bs = [] then Some (int have_n, m, ts)
          else do {
            m \<leftarrow> st m buf (take len bs);
            pduread_loop never dead_hand (if len < length bs then Chunk now (drop len bs) # ts else ts)
              (buf + length (take len bs)) (have_n + length (take len bs))
              (len - length (take len bs)) m
          })"
  by pat_completeness auto
termination
  by (relation "measure (\<lambda>(_, _, ts, _, _, len, _). length ts + len)") (auto simp: min_def)

declare pduread_loop.simps [simp del]

definition pduread :: "timeval \<Rightarrow> timeval \<Rightarrow> int \<Rightarrow> trip list \<Rightarrow> nat \<Rightarrow> nat \<Rightarrow> mem \<Rightarrow>
    (int \<times> mem \<times> trip list) option" where
  "pduread dwait now timeout trips buf len m =
     (if timeout = TIMEOUT_ASYNC then Some (- EOPNOTSUPP, m, trips)
      else let wait = (if timeout > 0 then (timeout, 0) else dwait)
        in pduread_loop (timeout = TIMEOUT_NEVER) (tv_add now wait) trips buf 0 len m)"

text \<open>What the system answers to one \<open>__pmGetPDU\<close>: the allocations of its two buffers (the
  answers to \<open>malloc\<close> and \<open>valloc\<close> for the size asked for), the
  time at the start of its two reads, and the error state of the socket.\<close>

record get_env =
  g_alloc1 :: "int \<Rightarrow> bool \<times> int option"
  g_alloc2 :: "int \<Rightarrow> bool \<times> int option"
  g_now1 :: timeval
  g_now2 :: timeval
  g_closed :: bool
  g_oserror :: int

type_synonym get_result = "((int \<times> int option) \<times> trip list \<times> io) option"

definition get_fail :: "int \<Rightarrow> int option \<Rightarrow> int \<Rightarrow> trip list \<Rightarrow> io \<Rightarrow> get_result" where
  "get_fail sts res pdubuf trips s = do {
     (_, p) \<leftarrow> pmUnpinPDUBuf pdubuf (io_pool s);
     Some ((sts, res), trips, s\<lparr>io_pool := p\<rparr>)
   }"

text \<open>From \<open>*result = php\<close> to the end.\<close>

definition get_finish :: "int \<Rightarrow> trip list \<Rightarrow> io \<Rightarrow> get_result" where
  "get_finish pdubuf trips s = do {
     type \<leftarrow> ldn (heap s pdubuf) 4;
     m \<leftarrow> st32 (heap s pdubuf) 4 type;
     let s = s\<lparr>heap := (heap s)(pdubuf := m)\<rparr>;
     (if sint type < 0 then get_fail PM_ERR_IPC (Some pdubuf) pdubuf trips s
      else do {
        fr \<leftarrow> ldn m 8;
        m \<leftarrow> st32 m 8 fr;
        Some ((sint type, Some pdubuf), trips,
          s\<lparr>heap := (heap s)(pdubuf := m), pmPDUCntIn := count_pdu (sint type) (pmPDUCntIn s)\<rparr>)
      })
   }"

text \<open>\<open>if (len < php->len)\<close>: choose the size of a buffer large enough, move what has been read
  into it and read the rest.\<close>

definition get_tmpsize :: "int \<Rightarrow> io \<Rightarrow> int \<times> io" where
  "get_tmpsize plen s =
     (if plen > maxsize s
      then let tmpsize = s32 (PDU_CHUNK * (1 + plen sdiv PDU_CHUNK)) in (tmpsize, s\<lparr>maxsize := tmpsize\<rparr>)
      else (maxsize s, s))"

definition get_rest :: "get_env \<Rightarrow> int \<Rightarrow> int \<Rightarrow> int \<Rightarrow> nat \<Rightarrow> int \<Rightarrow> trip list \<Rightarrow> io \<Rightarrow> get_result" where
  "get_rest g timeout php pdubuf len plen trips s = do {
     bs \<leftarrow> ld (heap s php) 0 len;
     m \<leftarrow> st (heap s pdubuf) 0 bs;
     (_, p) \<leftarrow> pmUnpinPDUBuf php (io_pool s);
     (n, m, trips) \<leftarrow> pduread (def_wait s) (g_now2 g) timeout trips len (nat (plen - int len)) m;
     let s = s\<lparr>io_pool := p, heap := (heap s)(pdubuf := m)\<rparr>;
     (if n \<noteq> plen - int len then
        get_fail (if n = PM_ERR_TIMEOUT then PM_ERR_TIMEOUT else PM_ERR_IPC) None pdubuf trips s
      else get_finish pdubuf trips s)
   }"

definition get_body :: "get_env \<Rightarrow> int \<Rightarrow> int \<Rightarrow> nat \<Rightarrow> int \<Rightarrow> trip list \<Rightarrow> io \<Rightarrow> get_result" where
  "get_body g timeout php len plen trips s0 =
     (let (tmpsize, s) = get_tmpsize plen s0 in do {
        (r, p) \<leftarrow> find_buf (g_alloc2 g tmpsize) tmpsize (io_pool s);
        (case r of
           None \<Rightarrow> get_fail (- g_oserror g) None php trips (s\<lparr>io_pool := p\<rparr>)
         | Some pdubuf \<Rightarrow> get_rest g timeout php pdubuf len plen trips (s\<lparr>io_pool := p\<rparr>))
      })"

text \<open>\<open>check_read_len\<close>: the length in the header is checked before it is used.\<close>

definition get_check_len :: "get_env \<Rightarrow> int \<Rightarrow> int \<Rightarrow> int \<Rightarrow> nat \<Rightarrow> trip list \<Rightarrow> io \<Rightarrow> get_result" where
  "get_check_len g mode timeout pdubuf len trips s = do {
     w \<leftarrow> ldn (heap s pdubuf) 0;
     m \<leftarrow> st32 (heap s pdubuf) 0 w;
     let s = s\<lparr>heap := (heap s)(pdubuf := m)\<rparr>;
     (if sint w < sizeof_pmPDUHdr then get_fail PM_ERR_IPC None pdubuf trips s
      else if mode = LIMIT_SIZE \<and> sint w > ceiling s then get_fail PM_ERR_TOOBIG None pdubuf trips s
      else if int len < sint w then get_body g timeout pdubuf len (sint w) trips s
      else get_finish pdubuf trips s)
   }"

definition pmGetPDU :: "get_env \<Rightarrow> int \<Rightarrow> int \<Rightarrow> trip list \<Rightarrow> io \<Rightarrow> get_result" where
  "pmGetPDU g mode timeout trips s = do {
     (r, p) \<leftarrow> find_buf (g_alloc1 g (maxsize s)) (maxsize s) (io_pool s);
     let s = s\<lparr>io_pool := p\<rparr>;
     (case r of
        None \<Rightarrow> Some ((- g_oserror g, None), trips, s)
      | Some pdubuf \<Rightarrow> do {
          (len, m, trips) \<leftarrow> pduread (def_wait s) (g_now1 g) timeout trips 0 (nat sizeof_pmPDUHdr) (heap s pdubuf);
          let s = s\<lparr>heap := (heap s)(pdubuf := m)\<rparr>;
          (if len < sizeof_pmPDUHdr then
             (if len = - 1 then get_fail 0 None pdubuf trips s
              else if len \<ge> 4 then get_check_len g mode timeout pdubuf (nat len) trips s
              else if len = PM_ERR_TIMEOUT then get_fail PM_ERR_TIMEOUT None pdubuf trips s
              else if len < 0 then get_fail PM_ERR_IPC None pdubuf trips s
              else if len > 0 then get_fail PM_ERR_IPC None pdubuf trips s
              else get_fail 0 None pdubuf trips s)
           else get_check_len g mode timeout pdubuf (nat len) trips s)
        })
   }"

section \<open>Writing\<close>

record xmit_env =
  x_socketipc :: bool
  x_closed :: bool
  x_neterror :: int
  x_oserror :: int

text \<open>The loop \<open>while (off < len)\<close>: the offset reached and the bytes handed to the socket.\<close>

fun xmit_loop :: "int list \<Rightarrow> nat \<Rightarrow> nat \<Rightarrow> mem \<Rightarrow> (nat \<times> mem) option" where
  "xmit_loop [] off len m = Some (off, [])"
| "xmit_loop (n # ns) off len m =
     (if off < len then do {
        p \<leftarrow> ld m off (len - off);
        (if n < 0 then Some (off, [])
         else do {
           (off', sent) \<leftarrow> xmit_loop ns (off + length (take (nat n) p)) len m;
           Some (off', take (nat n) p @ sent)
         })
      }
      else Some (off, []))"

definition swap_hdr :: "mem \<Rightarrow> mem option" where
  "swap_hdr m = do {
     len \<leftarrow> ldn m 0; m \<leftarrow> st32 m 0 len;
     fr \<leftarrow> ldn m 8; m \<leftarrow> st32 m 8 fr;
     type \<leftarrow> ldn m 4; st32 m 4 type
   }"

definition pmXmitPDU :: "xmit_env \<Rightarrow> int list \<Rightarrow> int \<Rightarrow> io \<Rightarrow> (int \<times> mem \<times> io) option" where
  "pmXmitPDU x writes pdubuf s = do {
     len \<leftarrow> ld32 (heap s pdubuf) 0;
     m \<leftarrow> swap_hdr (heap s pdubuf);
     (off, sent) \<leftarrow> xmit_loop writes 0 (nat (sint len)) m;
     m \<leftarrow> swap_hdr m;
     let s = s\<lparr>heap := (heap s)(pdubuf := m)\<rparr>;
     (if int off \<noteq> sint len then
        Some (if x_socketipc x then
                (if x_closed x then PM_ERR_IPC
                 else if x_neterror x \<noteq> 0 then - x_neterror x else PM_ERR_IPC)
              else (if x_oserror x \<noteq> 0 then - x_oserror x else PM_ERR_IPC), sent, s)
      else do {
        type \<leftarrow> ld32 m 4;
        Some (int off, sent, s\<lparr>pmPDUCntOut := count_pdu (sint type) (pmPDUCntOut s)\<rparr>)
      })
   }"

text \<open>
  The shape of every \<open>__pmSend...\<close>: find a buffer of \<open>need\<close> bytes, fill it, transmit it and
  unpin it. \<open>build\<close> is the part that fills the buffer.
\<close>

definition pdu_send :: "(int \<Rightarrow> bool \<times> int option) \<Rightarrow> xmit_env \<Rightarrow> int list \<Rightarrow> int \<Rightarrow> (mem \<Rightarrow> mem option) \<Rightarrow> io \<Rightarrow>
    (int \<times> mem \<times> io) option" where
  "pdu_send e x writes need build s = do {
     (r, p) \<leftarrow> find_buf (e need) need (io_pool s);
     let s = s\<lparr>io_pool := p\<rparr>;
     (case r of
        None \<Rightarrow> Some (- ENOMEM, [], s)
      | Some pdubuf \<Rightarrow> do {
          m \<leftarrow> build (heap s pdubuf);
          (sts, sent, s) \<leftarrow> pmXmitPDU x writes pdubuf (s\<lparr>heap := (heap s)(pdubuf := m)\<rparr>);
          (_, p) \<leftarrow> pmUnpinPDUBuf pdubuf (io_pool s);
          Some (sts, sent, s\<lparr>io_pool := p\<rparr>)
        })
   }"


section \<open>The read loop\<close>

fun trip_bytes :: "trip \<Rightarrow> mem" where
  "trip_bytes (Chunk _ bs) = bs"
| "trip_bytes _ = []"

definition stream :: "trip list \<Rightarrow> mem" where
  "stream trips = concat (map trip_bytes trips)"

text \<open>A turn that delivers bytes in time, and a turn whose failures have a negative status.\<close>

fun timely :: "bool \<Rightarrow> timeval \<Rightarrow> trip \<Rightarrow> bool" where
  "timely never dead_hand (Chunk now bs) \<longleftrightarrow> bs \<noteq> [] \<and> (never \<or> \<not> tv_late now dead_hand)"
| "timely _ _ _ \<longleftrightarrow> False"

fun wf_trip :: "trip \<Rightarrow> bool" where
  "wf_trip (Recv_fail _ e) \<longleftrightarrow> e < 0"
| "wf_trip (Sel_fail e) \<longleftrightarrow> e < 0"
| "wf_trip _ \<longleftrightarrow> True"

lemma stream_simps [simp]:
  "stream [] = []" "stream (t # ts) = trip_bytes t @ stream ts"
  by (simp_all add: stream_def)

lemma pduread_loop_stream:
  assumes "list_all (timely never dead) trips" and "buf + len \<le> length m"
  shows "\<exists>rest. pduread_loop never dead trips buf have_n len m =
      Some (int (have_n + min len (length (stream trips))), upd m buf (take len (stream trips)), rest) \<and>
    stream rest = drop len (stream trips) \<and> list_all (timely never dead) rest"
  using assms
proof (induction never dead trips buf have_n len m rule: pduread_loop.induct)
  case (1 never dead trips buf have_n len m)
  show ?case
  proof (cases "len = 0 \<or> trips = []")
    case True
    with 1(4) show ?thesis
      by (subst pduread_loop.simps) (auto simp: upd_def)
  next
    case False
    then obtain t ts where trips: "trips = t # ts" by (cases trips) auto
    with 1(4) obtain now bs where t: "t = Chunk now bs" "bs \<noteq> []" "never \<or> \<not> tv_late now dead"
      by (cases t) auto
    let ?bs = "take len bs"
    let ?ts = "if len < length bs then Chunk now (drop len bs) # ts else ts"
    have st: "st m buf ?bs = Some (upd m buf ?bs)" and bnd: "buf + length ?bs \<le> length m"
      using 1(5) by (auto simp: st_def)
    have "list_all (timely never dead) ?ts" using 1(4) t trips by auto
    moreover have "buf + length ?bs + (len - length ?bs) \<le> length (upd m buf ?bs)"
      using 1(5) bnd by simp
    ultimately obtain rest where rest:
      "pduread_loop never dead ?ts (buf + length ?bs) (have_n + length ?bs) (len - length ?bs) (upd m buf ?bs) =
        Some (int (have_n + length ?bs + min (len - length ?bs) (length (stream ?ts))),
          upd (upd m buf ?bs) (buf + length ?bs) (take (len - length ?bs) (stream ?ts)), rest)"
      "stream rest = drop (len - length ?bs) (stream ?ts)" "list_all (timely never dead) rest"
      using 1(1) [OF _ trips t(1), of "upd m buf ?bs"] False t st by auto
    have "upd (upd m buf ?bs) (buf + length ?bs) (take (len - length ?bs) (stream ?ts)) =
        upd m buf (?bs @ take (len - length ?bs) (stream ?ts))"
      using 1(5) by (intro upd_upd_append) auto
    moreover have "?bs @ take (len - length ?bs) (stream ?ts) = take len (stream trips)"
      "drop (len - length ?bs) (stream ?ts) = drop len (stream trips)"
      "length ?bs + min (len - length ?bs) (length (stream ?ts)) = min len (length (stream trips))"
      by (auto simp: trips t min_def)
    ultimately show ?thesis
      using rest False t st trips
      by (subst pduread_loop.simps) (auto simp: add.assoc)
  qed
qed

lemma pduread_loop_total:
  assumes "list_all wf_trip trips" and "buf + len \<le> length m"
  shows "\<exists>n m' ts. pduread_loop never dead trips buf have_n len m = Some (n, m', ts) \<and>
    length m' = length m \<and> take buf m' = take buf m \<and> n \<le> int (have_n + len) \<and> list_all wf_trip ts"
  using assms
proof (induction never dead trips buf have_n len m rule: pduread_loop.induct)
  case (1 never dead trips buf have_n len m)
  show ?case
  proof (cases "len = 0 \<or> trips = []")
    case True
    with 1(4) show ?thesis by (subst pduread_loop.simps) auto
  next
    case False
    then obtain t ts where trips: "trips = t # ts" by (cases trips) auto
    show ?thesis
    proof (cases t)
      case (Chunk now bs)
      let ?bs = "take len bs"
      let ?m = "upd m buf ?bs"
      let ?ts = "if len < length bs then Chunk now (drop len bs) # ts else ts"
      let ?stop = "\<not> never \<and> tv_late now dead \<or> bs = []"
      have st: "st m buf ?bs = Some ?m" and bnd: "buf + length ?bs \<le> length m"
        using 1(5) by (auto simp: st_def)
      show ?thesis
      proof (cases ?stop)
        case True
        with False 1(4) trips Chunk show ?thesis
          by (subst pduread_loop.simps) (auto simp: PM_ERR_TIMEOUT_def PM_ERR_BASE2_def)
      next
        case go: False
        have ts: "list_all wf_trip ?ts" using 1(4) Chunk trips by auto
        have fits: "buf + length ?bs + (len - length ?bs) \<le> length ?m"
          using 1(5) bnd by simp
        have c: "len \<noteq> 0" "\<not> (\<not> never \<and> tv_late now dead)" "bs \<noteq> []"
          using False go by auto
        obtain n m' rest where ih:
          "pduread_loop never dead ?ts (buf + length ?bs) (have_n + length ?bs) (len - length ?bs) ?m = Some (n, m', rest)"
          "length m' = length ?m" "take (buf + length ?bs) m' = take (buf + length ?bs) ?m"
          "n \<le> int (have_n + length ?bs + (len - length ?bs))" "list_all wf_trip rest"
          using 1(1) [OF c(1) trips Chunk c(2,3) st ts fits] by (elim exE conjE)
        have "take buf m' = take buf (take (buf + length ?bs) m')" by simp
        also have "\<dots> = take buf m" unfolding ih(3) using 1(5) by (simp add: upd_def)
        finally have "take buf m' = take buf m" .
        moreover have "pduread_loop never dead trips buf have_n len m = Some (n, m', rest)"
          using ih(1) False go trips Chunk st by (subst pduread_loop.simps) auto
        ultimately show ?thesis using ih bnd by auto
      qed
    next
      case Sel_idle
      then show ?thesis
        using 1(2) [OF _ trips] False trips 1(4,5)
        by (subst pduread_loop.simps) (auto simp: PM_ERR_TIMEOUT_def PM_ERR_BASE2_def)
    next
      case (Sel_fail e)
      then show ?thesis
        using 1(3) [OF _ trips] False trips 1(4,5)
        by (subst pduread_loop.simps) auto
    next
      case (Recv_fail now e)
      then show ?thesis
        using False trips 1(4,5)
        by (subst pduread_loop.simps) (auto simp: PM_ERR_TIMEOUT_def PM_ERR_BASE2_def)
    qed
  qed
qed


lemma pduread_loop_keeps:
  assumes "pduread_loop never dead trips buf have_n len m = Some (n, m', rest)"
    and "list_all (timely never' dead') trips"
  shows "list_all (timely never' dead') rest"
  using assms
proof (induction never dead trips buf have_n len m rule: pduread_loop.induct)
  case (1 never dead trips buf have_n len m)
  show ?case
  proof (cases "len = 0 \<or> trips = []")
    case True
    with 1(4,5) show ?thesis by (subst (asm) pduread_loop.simps) (auto split: if_splits)
  next
    case False
    then obtain t ts where trips: "trips = t # ts" by (cases trips) auto
    with 1(5) obtain now bs where t: "t = Chunk now bs" "bs \<noteq> []" by (cases t) auto
    let ?ts = "if len < length bs then Chunk now (drop len bs) # ts else ts"
    have ts: "list_all (timely never' dead') ?ts" using 1(5) t trips by auto
    show ?thesis
    proof (cases "\<not> never \<and> tv_late now dead")
      case True
      with 1(4,5) False t trips show ?thesis by (subst (asm) pduread_loop.simps) auto
    next
      case go: False
      with 1(4) False t trips obtain m1 where m1: "st m buf (take len bs) = Some m1"
          "pduread_loop never dead ?ts (buf + length (take len bs)) (have_n + length (take len bs))
            (len - length (take len bs)) m1 = Some (n, m', rest)"
        by (subst (asm) pduread_loop.simps) (auto simp: bind_eq_Some_conv)
      have "len \<noteq> 0" using False by simp
      from 1(1) [OF this trips t(1) go t(2) m1(1,2) ts] show ?thesis .
    qed
  qed
qed

section \<open>Receiving is safe\<close>

definition pin_held :: "io \<Rightarrow> int \<Rightarrow> int" where
  "pin_held s = held (pinmap (io_pool s))"

text \<open>The pool has not lost a buffer.\<close>

definition sizes_kept :: "pool \<Rightarrow> pool \<Rightarrow> bool" where
  "sizes_kept p q \<longleftrightarrow> sizemap p \<subseteq>\<^sub>m sizemap q"

lemma sizes_kept_trans: "sizes_kept p q \<Longrightarrow> sizes_kept q r \<Longrightarrow> sizes_kept p r"
  unfolding sizes_kept_def by (rule map_le_trans)

definition io_ok :: "io \<Rightarrow> bool" where
  "io_ok s \<longleftrightarrow> pool_inv (io_pool s) \<and> backed (heap s) (sizemap (io_pool s)) \<and>
     PDU_CHUNK \<le> maxsize s \<and> maxsize s \<le> INT_MAX - PDU_CHUNK"

text \<open>The allocator's contract for a request of \<open>n\<close> bytes.\<close>

definition env_ok :: "(int \<Rightarrow> bool \<times> int option) \<Rightarrow> int \<Rightarrow> io \<Rightarrow> bool" where
  "env_ok e n s \<longleftrightarrow> request_ok (e n) n (io_pool s) \<and>
     (\<forall>a k. valloc_new (e n) n a k \<longrightarrow> int (length (heap s a)) = k)"

definition get_env_ok :: "get_env \<Rightarrow> io \<Rightarrow> bool" where
  "get_env_ok g s \<longleftrightarrow> env_ok (g_alloc1 g) (maxsize s) s \<and>
     (\<forall>r p n. find_buf (g_alloc1 g (maxsize s)) (maxsize s) (io_pool s) = Some (r, p) \<longrightarrow>
        PDU_CHUNK \<le> n \<longrightarrow> n \<le> INT_MAX - PDU_CHUNK \<longrightarrow> env_ok (g_alloc2 g) n (s\<lparr>io_pool := p\<rparr>))"

text \<open>
  What a call of \<open>__pmGetPDU\<close> may do when \<open>h\<close> are the pins held before it: it returns, and
  either it delivers a pinned buffer that was not pinned and holds a PDU of a length between the
  header's and \<open>mx\<close>, or it has changed no pin.
\<close>

definition get_good :: "int \<Rightarrow> (int \<Rightarrow> int) \<Rightarrow> get_result \<Rightarrow> bool" where
  "get_good mx h r \<longleftrightarrow> (\<exists>sts res trips s. r = Some ((sts, res), trips, s) \<and> io_ok s \<and>
     (if 0 \<le> sts \<and> res \<noteq> None then
        h (the res) = 0 \<and> pin_held s = h(the res := 1) \<and>
        (\<exists>L. ld32 (heap s (the res)) 0 = Some L \<and> sizeof_pmPDUHdr \<le> sint L \<and> sint L \<le> mx \<and>
          sint L \<le> int (length (heap s (the res))))
      else pin_held s = h))"

lemma io_ok_heap [simp]: "io_ok s \<Longrightarrow> length m = length (heap s a) \<Longrightarrow> io_ok (s\<lparr>heap := (heap s)(a := m)\<rparr>)"
  by (auto simp: io_ok_def intro: pdubuf.backed_upd)

lemma pin_held_simps [simp]:
  "pin_held (s\<lparr>heap := x\<rparr>) = pin_held s" "pin_held (s\<lparr>pmPDUCntIn := y\<rparr>) = pin_held s"
  "pin_held (s\<lparr>maxsize := z\<rparr>) = pin_held s"
  by (simp_all add: pin_held_def)

lemma io_ok_counters [simp]: "io_ok (s\<lparr>pmPDUCntIn := y\<rparr>) = io_ok s"
  by (simp add: io_ok_def)

lemma get_fail_good:
  assumes ok: "io_ok s" and pin: "pinmap (io_pool s) a = Some 1"
    and h: "pin_held s = h(a := 1)" "h a = 0" and sts: "sts < 0 \<or> res = None"
  shows "get_good mx h (get_fail sts res a trips s)"
proof -
  obtain q where q: "pmUnpinPDUBuf a (io_pool s) = Some (1, q)" "pool_inv q"
      "held (pinmap q) = (held (pinmap (io_pool s)))(a := 0)" "backed (heap s) (sizemap q)"
    using ok pin pdubuf.unpin_held [of "io_pool s" a "heap s"] unfolding io_ok_def by metis
  have "held (pinmap q) = h" using q(3) h by (auto simp: pin_held_def)
  with q ok sts show ?thesis
    by (auto simp: get_good_def get_fail_def io_ok_def pin_held_def)
qed

lemma get_finish_good:
  assumes ok: "io_ok s" and pin: "pinmap (io_pool s) a = Some 1"
    and h: "pin_held s = h(a := 1)" "h a = 0"
    and L: "ld32 (heap s a) 0 = Some L" "sizeof_pmPDUHdr \<le> sint L" "sint L \<le> mx"
      "sint L \<le> int (length (heap s a))"
  shows "get_good mx h (get_finish a trips s)"
proof -
  have len: "12 \<le> length (heap s a)" using L by (simp add: sizeof_pmPDUHdr_def)
  obtain ty where ty: "ldn (heap s a) 4 = Some ty" using len ld_obtain [of 4 "heap s a"] by auto
  let ?m = "upd (heap s a) 4 (w2b ty)"
  have m: "st32 (heap s a) 4 ty = Some ?m" "length ?m = length (heap s a)"
    using len by (simp_all add: mem_simps)
  obtain fr where fr: "ldn ?m 8 = Some fr" using len m ld_obtain [of 8 ?m] by auto
  let ?m2 = "upd ?m 8 (w2b fr)"
  have m2: "st32 ?m 8 fr = Some ?m2" "length ?m2 = length (heap s a)"
    using len by (simp_all add: mem_simps)
  have L2: "ld32 ?m2 0 = Some L" using L(1) len by (simp add: mem_simps)
  have fail: "get_good mx h (get_fail PM_ERR_IPC (Some a) a trips (s\<lparr>heap := (heap s)(a := ?m)\<rparr>))"
    using ok pin h m by (intro get_fail_good) (auto simp: PM_ERR_IPC_def PM_ERR_BASE2_def)
  show ?thesis
  proof (cases "sint ty < 0")
    case True
    with fail ty m show ?thesis by (simp add: get_finish_def)
  next
    case False
    with ty m fr m2 L L2 ok h show ?thesis
      by (auto simp: get_finish_def get_good_def)
  qed
qed


lemma env_ok_find:
  assumes ok: "io_ok s" and e: "env_ok e n s"
  shows "(\<exists>a p. find_buf (e n) n (io_pool s) = Some (Some a, p) \<and> io_ok (s\<lparr>io_pool := p\<rparr>) \<and>
      pin_held (s\<lparr>io_pool := p\<rparr>) = (pin_held s)(a := 1) \<and> pin_held s a = 0 \<and>
      pinmap p a = Some 1 \<and> (\<forall>b. b \<noteq> a \<longrightarrow> pinmap p b = pinmap (io_pool s) b) \<and>
      n \<le> int (length (heap s a)) \<and> sizes_kept (io_pool s) p) \<or>
    (\<exists>p. find_buf (e n) n (io_pool s) = Some (None, p) \<and> io_ok (s\<lparr>io_pool := p\<rparr>) \<and>
      pinmap p = pinmap (io_pool s))"
proof -
  note I = ok [unfolded io_ok_def] e [unfolded env_ok_def]
  obtain r p where f: "find_buf (e n) n (io_pool s) = Some (r, p)"
    using pdubuf.find_total [of "io_pool s" "e n" n] I by auto
  show ?thesis
  proof (cases r)
    case None
    with pdubuf.find_fail_law [of "io_pool s" "e n" n p] f I show ?thesis
      by (auto simp: io_ok_def)
  next
    case (Some a)
    note f = f [unfolded Some]
    from pdubuf.find_held [of "io_pool s" "e n" n a p "heap s"]
      pdubuf.find_law [of "io_pool s" "e n" n a p] f I
    show ?thesis by (auto simp: io_ok_def pin_held_def sizes_kept_def map_le_def)
  qed
qed

lemma pduread_total:
  assumes "list_all wf_trip trips" and "buf + len \<le> length m"
  shows "\<exists>n m' ts. pduread dwait now timeout trips buf len m = Some (n, m', ts) \<and>
    length m' = length m \<and> take buf m' = take buf m \<and> n \<le> int len \<and> list_all wf_trip ts"
  using assms pduread_loop_total [OF assms, of _ _ 0]
  by (auto simp: pduread_def Let_def EOPNOTSUPP_def)


lemma ld32_take:
  assumes "take n m' = take n m" "length m' = length m" "a + 4 \<le> n"
  shows "ld32 m' a = ld32 m a"
proof -
  have "take 4 (drop a k) = take 4 (drop a (take n k))" for k :: mem
    using assms(3) by (simp add: drop_take min_def)
  with assms show ?thesis by (metis ld32_def ld_def)
qed

lemma get_tmpsize_ok:
  assumes "io_ok s" "0 \<le> plen" "plen \<le> INT_MAX - 2 * PDU_CHUNK" "get_tmpsize plen s = (t, s1)"
  shows "PDU_CHUNK \<le> t" "t \<le> INT_MAX - PDU_CHUNK" "plen \<le> t" "io_ok s1"
    "io_pool s1 = io_pool s" "heap s1 = heap s" "pin_held s1 = pin_held s"
  using new_size_bounds [of plen] assms
  by (auto simp: new_size_def PDU_CHUNK_def io_ok_def get_tmpsize_def Let_def pin_held_def split: if_splits)

lemma get_rest_good:
  assumes ok: "io_ok s" and pins: "pinmap (io_pool s) a = Some 1" "pinmap (io_pool s) b = Some 1"
    and h: "pin_held s = h(a := 1, b := 1)" "h a = 0" "h b = 0" "a \<noteq> b"
    and L: "ld32 (heap s a) 0 = Some L" "sizeof_pmPDUHdr \<le> sint L" "sint L \<le> mx"
      "sint L \<le> int (length (heap s b))"
    and len: "4 \<le> len" "len \<le> 12" "int len < sint L" "12 \<le> length (heap s a)"
    and tr: "list_all wf_trip trips"
  shows "get_good mx h (get_rest g timeout a b len (sint L) trips s)"
proof -
  obtain q where q: "pmUnpinPDUBuf a (io_pool s) = Some (1, q)" "pool_inv q"
      "pinmap q = (pinmap (io_pool s))(a \<mapsto> 0)" "sizemap q = sizemap (io_pool s)"
    using pdubuf.unpin_law [of "io_pool s" a 1] pins(1) ok by (auto simp: io_ok_def)
  have ok1: "io_ok (s\<lparr>io_pool := q\<rparr>)" using ok q by (simp add: io_ok_def)
  have held1: "held (pinmap q) = h(b := 1)"
    using h q(3) by (auto simp: pin_held_def held_def fun_eq_iff)
  obtain bs where bs: "ld (heap s a) 0 len = Some bs" using len by (auto simp: ld_def)
  then have lbs: "length bs = len" by (rule length_ld)
  let ?m = "upd (heap s b) 0 bs"
  have st: "st (heap s b) 0 bs = Some ?m" and lm: "length ?m = length (heap s b)"
    using L(4) len lbs by (simp_all add: mem_simps)
  have L0: "ld32 ?m 0 = Some L"
    using L(1) bs len(1) by (auto simp: ld32_def ld_def upd_def min_def split: if_splits)
  have fits: "len + nat (sint L - int len) \<le> length ?m" using L(4) len lm by simp
  obtain n m' ts where rd: "pduread (def_wait s) (g_now2 g) timeout trips len (nat (sint L - int len)) ?m =
        Some (n, m', ts)" "length m' = length ?m" "take len m' = take len ?m"
    using pduread_total [OF tr fits] by metis
  let ?s = "s\<lparr>io_pool := q, heap := (heap s)(b := m')\<rparr>"
  have ok2: "io_ok ?s" using io_ok_heap [OF ok1, of m' b] rd(2) lm by simp
  have p2: "pinmap (io_pool ?s) b = Some 1" using q(3) pins(2) h(4) by simp
  have h2: "pin_held ?s = h(b := 1)" using held1 by (simp add: pin_held_def)
  have "ld32 m' 0 = Some L" using ld32_take [OF rd(3,2)] len(1) L0 by simp
  then have fin: "get_good mx h (get_finish b ts ?s)"
    using L fits rd(2) lm by (intro get_finish_good [OF ok2 p2 h2 h(3)]) auto
  have fail: "get_good mx h (get_fail (if n = PM_ERR_TIMEOUT then PM_ERR_TIMEOUT else PM_ERR_IPC) None b ts ?s)"
    by (intro get_fail_good [OF ok2 p2 h2 h(3)]) simp
  show ?thesis
    using fin fail by (auto simp: get_rest_def bs st q(1) rd(1) Let_def)
qed

lemma get_body_good:
  assumes ok: "io_ok s" and pin: "pinmap (io_pool s) a = Some 1"
    and h: "pin_held s = h(a := 1)" "h a = 0"
    and L: "ld32 (heap s a) 0 = Some L" "sizeof_pmPDUHdr \<le> sint L" "sint L \<le> mx"
      "sint L \<le> INT_MAX - 2 * PDU_CHUNK"
    and len: "4 \<le> len" "len \<le> 12" "int len < sint L" "12 \<le> length (heap s a)"
    and e: "\<forall>n. PDU_CHUNK \<le> n \<longrightarrow> n \<le> INT_MAX - PDU_CHUNK \<longrightarrow> env_ok (g_alloc2 g) n s"
    and tr: "list_all wf_trip trips"
  shows "get_good mx h (get_body g timeout a len (sint L) trips s)"
proof -
  obtain t s1 where ts: "get_tmpsize (sint L) s = (t, s1)" by (cases "get_tmpsize (sint L) s")
  have "0 \<le> sint L" using L(2) by (simp add: sizeof_pmPDUHdr_def)
  note t = get_tmpsize_ok [OF ok this L(4) ts]
  have e1: "env_ok (g_alloc2 g) t s1" using e t by (simp add: env_ok_def)
  from env_ok_find [OF t(4) e1] show ?thesis
  proof (elim disjE exE conjE)
    fix p
    assume f: "find_buf (g_alloc2 g t) t (io_pool s1) = Some (None, p)"
      and ok2: "io_ok (s1\<lparr>io_pool := p\<rparr>)" and pm: "pinmap p = pinmap (io_pool s1)"
    have "pin_held (s1\<lparr>io_pool := p\<rparr>) = pin_held s" using pm t by (simp add: pin_held_def)
    then have "get_good mx h (get_fail (- g_oserror g) None a trips (s1\<lparr>io_pool := p\<rparr>))"
      using pm pin h t by (intro get_fail_good [OF ok2]) auto
    with f ts show ?thesis by (simp add: get_body_def)
  next
    fix b p
    assume f: "find_buf (g_alloc2 g t) t (io_pool s1) = Some (Some b, p)"
      and ok2: "io_ok (s1\<lparr>io_pool := p\<rparr>)"
      and held2: "pin_held (s1\<lparr>io_pool := p\<rparr>) = (pin_held s1)(b := 1)"
      and b: "pin_held s1 b = 0" "pinmap p b = Some 1" "t \<le> int (length (heap s1 b))"
      and others: "\<forall>c. c \<noteq> b \<longrightarrow> pinmap p c = pinmap (io_pool s1) c"
    have ab: "a \<noteq> b" using b(1) h t by auto
    have hb: "h b = 0" using b(1) h ab t by (auto simp: fun_eq_iff split: if_splits)
    have "get_good mx h (get_rest g timeout a b len (sint L) trips (s1\<lparr>io_pool := p\<rparr>))"
    proof (rule get_rest_good [OF ok2])
      show "pinmap (io_pool (s1\<lparr>io_pool := p\<rparr>)) a = Some 1" using others ab pin t by simp
      show "pin_held (s1\<lparr>io_pool := p\<rparr>) = h(a := 1, b := 1)" using held2 h t by simp
      show "sint L \<le> int (length (heap (s1\<lparr>io_pool := p\<rparr>) b))" using b(3) t(3) by simp
    qed (use b(2) h(2) hb ab L(1-3) len tr t(6) in simp_all)
    with f ts show ?thesis by (simp add: get_body_def)
  qed
qed

lemma get_check_len_good:
  assumes ok: "io_ok s" and pin: "pinmap (io_pool s) a = Some 1"
    and h: "pin_held s = h(a := 1)" "h a = 0"
    and len: "4 \<le> len" "len \<le> 12" "12 \<le> length (heap s a)"
    and mx: "mode = LIMIT_SIZE" "ceiling s \<le> INT_MAX - 2 * PDU_CHUNK"
    and e: "\<forall>n. PDU_CHUNK \<le> n \<longrightarrow> n \<le> INT_MAX - PDU_CHUNK \<longrightarrow> env_ok (g_alloc2 g) n s"
    and tr: "list_all wf_trip trips"
  shows "get_good (ceiling s) h (get_check_len g mode timeout a len trips s)"
proof -
  obtain w where w: "ldn (heap s a) 0 = Some w" using len(3) ld_obtain [of 0 "heap s a"] by auto
  let ?m = "upd (heap s a) 0 (w2b w)"
  let ?s = "s\<lparr>heap := (heap s)(a := ?m)\<rparr>"
  have m: "st32 (heap s a) 0 w = Some ?m" "length ?m = length (heap s a)" "ld32 ?m 0 = Some w"
    using len(3) by (simp_all add: mem_simps bytes_at_ld32)
  have ok1: "io_ok ?s" using ok m by simp
  have e1: "\<forall>n. PDU_CHUNK \<le> n \<longrightarrow> n \<le> INT_MAX - PDU_CHUNK \<longrightarrow> env_ok (g_alloc2 g) n ?s"
    using e m(2) by (simp add: env_ok_def)
  note fail = get_fail_good [OF ok1, of a h _ None] 
  show ?thesis
  proof (cases "sint w < sizeof_pmPDUHdr \<or> ceiling s < sint w")
    case True
    with fail pin h w m mx show ?thesis by (auto simp: get_check_len_def Let_def)
  next
    case False
    then have "sizeof_pmPDUHdr \<le> sint w" "sint w \<le> ceiling s" by auto
    moreover have "get_good (ceiling s) h (get_body g timeout a len (sint w) trips ?s)"
      if "int len < sint w"
    proof (rule get_body_good [OF ok1 _ _ _ _ _ _ _ len(1,2) that _ e1 tr])
    qed (use False pin h m len(3) mx in simp_all)
    moreover have "get_good (ceiling s) h (get_finish a trips ?s)" if "\<not> int len < sint w"
    proof (rule get_finish_good [OF ok1, where L = w])
    qed (use that False pin h m len mx in simp_all)
    ultimately show ?thesis
      using False w m(1) by (cases "int len < sint w") (simp_all add: get_check_len_def Let_def)
  qed
qed


lemma pmGetPDU_good:
  assumes ok: "io_ok s" and g: "get_env_ok g s" and tr: "list_all wf_trip trips"
    and ceil: "ceiling s \<le> INT_MAX - 2 * PDU_CHUNK"
  shows "get_good (ceiling s) (pin_held s) (pmGetPDU g LIMIT_SIZE timeout trips s)"
proof -
  let ?n = "maxsize s"
  have e: "env_ok (g_alloc1 g) ?n s" using g by (simp add: get_env_ok_def)
  from env_ok_find [OF ok e] show ?thesis
  proof (elim disjE exE conjE)
    fix p
    assume "find_buf (g_alloc1 g ?n) ?n (io_pool s) = Some (None, p)" "io_ok (s\<lparr>io_pool := p\<rparr>)"
      "pinmap p = pinmap (io_pool s)"
    then show ?thesis by (auto simp: pmGetPDU_def get_good_def pin_held_def)
  next
    fix a p
    assume f: "find_buf (g_alloc1 g ?n) ?n (io_pool s) = Some (Some a, p)"
      and ok1: "io_ok (s\<lparr>io_pool := p\<rparr>)"
      and h1: "pin_held (s\<lparr>io_pool := p\<rparr>) = (pin_held s)(a := 1)" "pin_held s a = 0"
      and a: "pinmap p a = Some 1" "?n \<le> int (length (heap s a))"
    have len: "12 \<le> length (heap s a)" using a(2) ok by (simp add: io_ok_def PDU_CHUNK_def)
    then have fits: "0 + nat sizeof_pmPDUHdr \<le> length (heap s a)" by (simp add: sizeof_pmPDUHdr_def)
    obtain n m ts where rd: "pduread (def_wait s) (g_now1 g) timeout trips 0 (nat sizeof_pmPDUHdr) (heap s a) =
        Some (n, m, ts)" "length m = length (heap s a)" "n \<le> 12" "list_all wf_trip ts"
      using pduread_total [OF tr fits, of "def_wait s" "g_now1 g" timeout] by (auto simp: sizeof_pmPDUHdr_def)
    let ?s = "s\<lparr>io_pool := p, heap := (heap s)(a := m)\<rparr>"
    have ok2: "io_ok ?s" using io_ok_heap [OF ok1, of m a] rd(2) by simp
    have h2: "pin_held ?s = (pin_held s)(a := 1)" using h1(1) by (simp add: pin_held_def)
    have e2: "\<forall>n. PDU_CHUNK \<le> n \<longrightarrow> n \<le> INT_MAX - PDU_CHUNK \<longrightarrow> env_ok (g_alloc2 g) n ?s"
      using g f rd(2) by (simp add: get_env_ok_def env_ok_def)
    have fail: "get_good mx (pin_held s) (get_fail sts None a ts ?s)" for sts mx
      using a(1) h2 h1(2) by (intro get_fail_good [OF ok2]) simp_all
    have chk: "get_good (ceiling s) (pin_held s) (get_check_len g LIMIT_SIZE timeout a (nat n) ts ?s)" if "4 \<le> n"
      using get_check_len_good [OF ok2, of a "pin_held s" "nat n" LIMIT_SIZE g ts timeout]
        a(1) h2 h1(2) that rd(2-4) len ceil e2 by simp
    show ?thesis
      using fail chk f rd(1) by (simp add: pmGetPDU_def Let_def sizeof_pmPDUHdr_def)
  qed
qed

section \<open>A PDU that arrives is delivered\<close>

definition wait_of :: "int \<Rightarrow> io \<Rightarrow> timeval" where
  "wait_of timeout s = (if timeout > 0 then (timeout, 0) else def_wait s)"

text \<open>The bytes arrive before both reads give up.\<close>

definition in_time :: "get_env \<Rightarrow> int \<Rightarrow> io \<Rightarrow> trip \<Rightarrow> bool" where
  "in_time g timeout s t \<longleftrightarrow>
     timely (timeout = TIMEOUT_NEVER) (tv_add (g_now1 g) (wait_of timeout s)) t \<and>
     timely (timeout = TIMEOUT_NEVER) (tv_add (g_now2 g) (wait_of timeout s)) t"

lemma list_all_in_time:
  "list_all (in_time g timeout s) ts \<longleftrightarrow>
   list_all (timely (timeout = TIMEOUT_NEVER) (tv_add (g_now1 g) (wait_of timeout s))) ts \<and>
   list_all (timely (timeout = TIMEOUT_NEVER) (tv_add (g_now2 g) (wait_of timeout s))) ts"
  by (auto simp: in_time_def list_all_iff)

text \<open>Both requests for a buffer of a call that reads a PDU of \<open>plen\<close> bytes are met.\<close>

definition bufs_found :: "get_env \<Rightarrow> int \<Rightarrow> io \<Rightarrow> bool" where
  "bufs_found g plen s \<longleftrightarrow> (\<exists>a p b q. find_buf (g_alloc1 g (maxsize s)) (maxsize s) (io_pool s) = Some (Some a, p) \<and>
     (let n = fst (get_tmpsize plen s) in find_buf (g_alloc2 g n) n p = Some (Some b, q)))"

definition wire :: "u32 \<Rightarrow> u32 \<Rightarrow> u32 \<Rightarrow> mem \<Rightarrow> mem" where
  "wire L ty fr body = n2b L @ n2b ty @ n2b fr @ body"

definition pdu :: "u32 \<Rightarrow> u32 \<Rightarrow> u32 \<Rightarrow> mem \<Rightarrow> mem" where
  "pdu L ty fr body = w2b L @ w2b ty @ w2b fr @ body"

lemma length_wire [simp]: "length (wire L ty fr body) = 12 + length body"
  by (simp add: wire_def)

lemma length_pdu [simp, layout_simps]: "length (pdu L ty fr body) = 12 + length body"
  by (simp add: pdu_def)

lemma bytes_at_upd_word:
  assumes "bytes_at m a (xs @ ys @ zs)" "length ys = length ys'" "b = a + length xs"
  shows "bytes_at (upd m b ys') a (xs @ ys' @ zs)"
  using assms bytes_at_bound [OF assms(1)]
  by (auto simp: bytes_at_append intro!: bytes_at_upd_frame)

lemma get_finish_delivers:
  assumes at: "bytes_at (heap s a) 0 (w2b L @ n2b ty @ n2b fr @ body)" and ty: "0 \<le> sint ty"
  shows "\<exists>m. get_finish a trips s = Some ((sint ty, Some a), trips,
      s\<lparr>heap := (heap s)(a := m), pmPDUCntIn := count_pdu (sint ty) (pmPDUCntIn s)\<rparr>) \<and>
    bytes_at m 0 (pdu L ty fr body) \<and> length m = length (heap s a)"
proof -
  let ?m = "upd (heap s a) 4 (w2b ty)"
  let ?m2 = "upd ?m 8 (w2b fr)"
  have t: "ldn (heap s a) 4 = Some ty" using at by (auto simp: bytes_at_append intro: bytes_at_ldn)
  have len: "12 \<le> length (heap s a)" using bytes_at_bound [OF at] by simp
  have "bytes_at ?m 0 (w2b L @ w2b ty @ n2b fr @ body)"
    using at by (rule bytes_at_upd_word) simp_all
  then have at1: "bytes_at ?m 0 ((w2b L @ w2b ty) @ n2b fr @ body)" by simp
  then have f: "ldn ?m 8 = Some fr" by (auto simp: bytes_at_append intro: bytes_at_ldn)
  have "bytes_at ?m2 0 ((w2b L @ w2b ty) @ w2b fr @ body)"
    using at1 by (rule bytes_at_upd_word) simp_all
  then show ?thesis
    using t f ty len by (auto simp: get_finish_def pdu_def mem_simps)
qed


lemma pduread_delivers:
  assumes "list_all (timely (timeout = TIMEOUT_NEVER) (tv_add now (if timeout > 0 then (timeout, 0) else dwait))) trips"
    and "buf + len \<le> length m" and "len \<le> length (stream trips)" and "timeout \<noteq> TIMEOUT_ASYNC"
  shows "\<exists>rest. pduread dwait now timeout trips buf len m = Some (int len, upd m buf (take len (stream trips)), rest) \<and>
    stream rest = drop len (stream trips) \<and>
    (\<forall>never dead. list_all (timely never dead) trips \<longrightarrow> list_all (timely never dead) rest)"
proof -
  obtain rest where rest: "pduread dwait now timeout trips buf len m =
      Some (int len, upd m buf (take len (stream trips)), rest)" "stream rest = drop len (stream trips)"
    using pduread_loop_stream [OF assms(1,2), of 0] assms(3,4) by (auto simp: pduread_def Let_def min_def)
  moreover have "list_all (timely never dead) rest" if "list_all (timely never dead) trips" for never dead
    using rest(1) pduread_loop_keeps [OF _ that] assms(4) by (auto simp: pduread_def Let_def split: if_splits)
  ultimately show ?thesis by blast
qed


lemma get_rest_delivers:
  assumes ok: "pool_inv (io_pool s)" and pins: "pinmap (io_pool s) a = Some 1"
    and at: "bytes_at (heap s a) 0 (w2b L @ n2b ty @ n2b fr)"
    and L: "sint L = 12 + int (length body)" "sint L \<le> int (length (heap s b))"
    and ty: "0 \<le> sint ty" and tr: "list_all (in_time g timeout s) trips" "timeout \<noteq> TIMEOUT_ASYNC"
    and str: "stream trips = body @ rest"
  shows "\<exists>m q ts. get_rest g timeout a b 12 (sint L) trips s = Some ((sint ty, Some b), ts,
      s\<lparr>io_pool := q, heap := (heap s)(b := m), pmPDUCntIn := count_pdu (sint ty) (pmPDUCntIn s)\<rparr>) \<and>
    bytes_at m 0 (pdu L ty fr body) \<and> stream ts = rest \<and>
    pinmap q = (pinmap (io_pool s))(a \<mapsto> 0) \<and> pool_inv q \<and> sizemap q = sizemap (io_pool s) \<and>
    length m = length (heap s b)"
proof -
  let ?hd = "w2b L @ n2b ty @ n2b fr"
  let ?m = "upd (heap s b) 0 ?hd" and ?n = "length body"
  obtain q where q: "pmUnpinPDUBuf a (io_pool s) = Some (1, q)" "pinmap q = (pinmap (io_pool s))(a \<mapsto> 0)" "pool_inv q"
      "sizemap q = sizemap (io_pool s)"
    using pdubuf.unpin_law [OF ok pins] by auto
  have bs: "ld (heap s a) 0 12 = Some ?hd" using at by (simp add: bytes_at_def)
  have st: "st (heap s b) 0 ?hd = Some ?m" and fits: "12 + ?n \<le> length ?m"
    using L by (simp_all add: mem_simps)
  have "list_all (timely (timeout = TIMEOUT_NEVER) (tv_add (g_now2 g) (if timeout > 0 then (timeout, 0) else def_wait s))) trips"
    using tr(1) by (auto simp: in_time_def wait_of_def list_all_iff)
  from pduread_delivers [OF this fits _ tr(2)] str obtain ts where
    rd: "pduread (def_wait s) (g_now2 g) timeout trips 12 ?n ?m = Some (int ?n, upd ?m 12 body, ts)" "stream ts = rest"
    by auto
  let ?s = "s\<lparr>io_pool := q, heap := (heap s)(b := upd ?m 12 body)\<rparr>"
  have "upd ?m 12 body = upd (heap s b) 0 (?hd @ body)"
    using L by (intro upd_upd_append) simp_all
  then have "bytes_at (heap ?s b) 0 (w2b L @ n2b ty @ n2b fr @ body)"
    using L bytes_at_upd_same [of 0 "?hd @ body" "heap s b"] by simp
  moreover have "length (heap ?s b) = length (heap s b)" using L by simp
  ultimately show ?thesis
    using get_finish_delivers [of ?s b L ty fr body ts] ty bs st q rd L(1) by (fastforce simp: get_rest_def)
qed

lemma pmGetPDU_delivers:
  assumes ok: "io_ok s" and g: "get_env_ok g s" and found: "bufs_found g (sint L) s"
    and L: "sint L = 12 + int (length body)" "sint L \<le> INT_MAX - 2 * PDU_CHUNK"
      "mode \<noteq> LIMIT_SIZE \<or> sint L \<le> ceiling s"
    and ty: "0 \<le> sint ty" and tr: "list_all (in_time g timeout s) trips" "timeout \<noteq> TIMEOUT_ASYNC"
    and str: "stream trips = wire L ty fr body @ rest"
  shows "\<exists>a ts s'. pmGetPDU g mode timeout trips s = Some ((sint ty, Some a), ts, s') \<and>
    bytes_at (heap s' a) 0 (pdu L ty fr body) \<and> stream ts = rest \<and>
    pin_held s a = 0 \<and> pin_held s' = (pin_held s)(a := 1) \<and>
    pmPDUCntIn s' = count_pdu (sint ty) (pmPDUCntIn s) \<and> io_ok s' \<and> sizes_kept (io_pool s) (io_pool s')"
proof -
  let ?n = "maxsize s"
  have e: "env_ok (g_alloc1 g) ?n s" using g by (simp add: get_env_ok_def)
  obtain a p b q where f: "find_buf (g_alloc1 g ?n) ?n (io_pool s) = Some (Some a, p)"
      and f2: "find_buf (g_alloc2 g (fst (get_tmpsize (sint L) s))) (fst (get_tmpsize (sint L) s)) p = Some (Some b, q)"
    using found by (auto simp: bufs_found_def Let_def)
  from env_ok_find [OF ok e] f have ok1: "io_ok (s\<lparr>io_pool := p\<rparr>)"
      and h1: "pin_held (s\<lparr>io_pool := p\<rparr>) = (pin_held s)(a := 1)" "pin_held s a = 0"
      and a: "pinmap p a = Some 1" "?n \<le> int (length (heap s a))" and k1: "sizes_kept (io_pool s) p" by auto
  have len: "12 \<le> length (heap s a)" using a(2) ok by (simp add: io_ok_def PDU_CHUNK_def)
  let ?hd = "n2b L @ n2b ty @ n2b fr"
  have "list_all (timely (timeout = TIMEOUT_NEVER) (tv_add (g_now1 g) (if timeout > 0 then (timeout, 0) else def_wait s))) trips"
    using tr(1) by (auto simp: in_time_def wait_of_def list_all_iff)
  from pduread_delivers [OF this, of 0 12 "heap s a"] str tr(2) len obtain ts where
    rd0: "pduread (def_wait s) (g_now1 g) timeout trips 0 12 (heap s a) = Some (12, upd (heap s a) 0 ?hd, ts)"
      "stream ts = body @ rest"
      "\<forall>never dead. list_all (timely never dead) trips \<longrightarrow> list_all (timely never dead) ts"
    by (auto simp: wire_def)
  have "list_all (in_time g timeout s) ts" using rd0(3) tr(1) unfolding list_all_in_time by blast
  note rd = rd0(1,2) this
  let ?m = "upd (heap s a) 0 ?hd"
  let ?m1 = "upd ?m 0 (w2b L)"
  let ?s = "s\<lparr>io_pool := p, heap := (heap s)(a := ?m1)\<rparr>"
  have lm: "length ?m = length (heap s a)" "length ?m1 = length (heap s a)" using len by simp_all
  have at: "bytes_at ?m 0 ?hd" using len by simp
  then have w: "ldn ?m 0 = Some L" by (auto simp: bytes_at_append intro: bytes_at_ldn)
  have at1: "bytes_at ?m1 0 (w2b L @ n2b ty @ n2b fr)"
    using bytes_at_upd_word [of ?m 0 "[]" "n2b L" "n2b ty @ n2b fr" "w2b L" 0] at by simp
  have st1: "st32 ?m 0 L = Some ?m1" using len by (simp add: mem_simps)
  have ok2: "io_ok ?s" using io_ok_heap [OF ok1, of ?m1 a] lm by simp
  have h2: "pin_held ?s = (pin_held s)(a := 1)" using h1(1) by (simp add: pin_held_def)
  have chk: "pmGetPDU g mode timeout trips s =
      (if 12 < sint L then get_body g timeout a 12 (sint L) ts ?s else get_finish a ts ?s)"
  proof -
    have "\<not> (mode = LIMIT_SIZE \<and> ceiling s < sint L)" "\<not> sint L < 12" using L by auto
    with f rd(1) w st1 show ?thesis
      by (auto simp: pmGetPDU_def get_check_len_def sizeof_pmPDUHdr_def Let_def)
  qed
  show ?thesis
  proof (cases "body = []")
    case True
    then have "bytes_at (heap ?s a) 0 (w2b L @ n2b ty @ n2b fr @ body)" using at1 by simp
    from get_finish_delivers [OF this ty, of ts] show ?thesis
      using True chk L rd(2) h2 h1(2) ok2 k1 lm by (fastforce simp: io_ok_def backed_def)
  next
    case False
    obtain t s1 where t: "get_tmpsize (sint L) ?s = (t, s1)" by (cases "get_tmpsize (sint L) ?s")
    have tt: "fst (get_tmpsize (sint L) s) = t" using t by (auto simp: get_tmpsize_def Let_def split: if_splits)
    have "0 \<le> sint L" using L by simp
    note T = get_tmpsize_ok [OF ok2 this L(2) t]
    have "env_ok (g_alloc2 g) t s1"
      using g f T lm by (simp add: get_env_ok_def env_ok_def)
    from env_ok_find [OF T(4) this] f2 tt T have ok3: "io_ok (s1\<lparr>io_pool := q\<rparr>)"
      and h3: "pin_held (s1\<lparr>io_pool := q\<rparr>) = (pin_held s)(a := 1, b := 1)"
        "pin_held s1 b = 0" "pinmap q b = Some 1" "t \<le> int (length (heap s1 b))"
      and others: "\<forall>c. c \<noteq> b \<longrightarrow> pinmap q c = pinmap p c" and k2: "sizes_kept p q"
      using h2 by auto
    have ab: "a \<noteq> b" using h3(2) T h2 by auto
    have hb: "pin_held s b = 0" using h3(2) T h2 ab by (auto simp: fun_eq_iff split: if_splits)
    have dw: "def_wait s1 = def_wait s" and cnt: "pmPDUCntIn s1 = pmPDUCntIn s"
      using t by (auto simp: get_tmpsize_def Let_def split: if_splits)
    have tr1: "list_all (in_time g timeout (s1\<lparr>io_pool := q\<rparr>)) ts"
    proof -
      have "in_time g timeout (s1\<lparr>io_pool := q\<rparr>) = in_time g timeout s"
        using dw by (simp add: fun_eq_iff in_time_def wait_of_def)
      with rd(3) show ?thesis by simp
    qed
    have "\<exists>m r us. get_rest g timeout a b 12 (sint L) ts (s1\<lparr>io_pool := q\<rparr>) = Some ((sint ty, Some b), us,
        s1\<lparr>io_pool := r, heap := (heap s1)(b := m), pmPDUCntIn := count_pdu (sint ty) (pmPDUCntIn s1)\<rparr>) \<and>
      bytes_at m 0 (pdu L ty fr body) \<and> stream us = rest \<and> pinmap r = (pinmap q)(a \<mapsto> 0) \<and> pool_inv r \<and>
      sizemap r = sizemap q \<and> length m = length (heap s1 b)"
      using get_rest_delivers [of "s1\<lparr>io_pool := q\<rparr>" a L ty fr body b g timeout ts rest]
        ok3 others ab a(1) at1 T L(1) h3(4) ty tr1 tr(2) rd(2) by (simp add: io_ok_def)
    then obtain m r us where R: "get_rest g timeout a b 12 (sint L) ts (s1\<lparr>io_pool := q\<rparr>) = Some ((sint ty, Some b), us,
        s1\<lparr>io_pool := r, heap := (heap s1)(b := m), pmPDUCntIn := count_pdu (sint ty) (pmPDUCntIn s1)\<rparr>)"
      "bytes_at m 0 (pdu L ty fr body)" "stream us = rest" "pinmap r = (pinmap q)(a \<mapsto> 0)" "pool_inv r"
      "sizemap r = sizemap q" "length m = length (heap s1 b)" by blast
    have "held (pinmap r) = (pin_held s)(b := 1)"
      using h3(1) R(4) h1(2) ab by (auto simp: pin_held_def held_def fun_eq_iff)
    moreover have "io_ok (s1\<lparr>io_pool := r, heap := (heap s1)(b := m), pmPDUCntIn := count_pdu (sint ty) (pmPDUCntIn s1)\<rparr>)"
      using ok3 R(5-7) by (simp add: io_ok_def backed_def)
    moreover have "sizes_kept (io_pool s) r"
      using sizes_kept_trans [OF k1 k2] R(6) by (simp add: sizes_kept_def)
    ultimately show ?thesis
      using R hb chk False L(1) t f2 tt T(5) cnt by (simp add: get_body_def pin_held_def)
  qed
qed


section \<open>Transmitting\<close>

lemma swap_hdr_spec:
  assumes "bytes_at m 0 (w2b L @ w2b ty @ w2b fr)"
  shows "swap_hdr m = Some (upd m 0 (n2b L @ n2b ty @ n2b fr))"
proof -
  have at: "bytes_at m 0 (w2b L)" "bytes_at m 4 (w2b ty)" "bytes_at m 8 (w2b fr)"
    using assms by (auto simp: bytes_at_append)
  then have ld: "ldn m 0 = Some (htonl L)" "ldn m 4 = Some (htonl ty)" "ldn m 8 = Some (htonl fr)"
    by (simp_all add: ldn_def bytes_at_ld32)
  have len: "12 \<le> length m" using bytes_at_bound [OF assms] by simp
  have "upd (upd (upd m 0 (n2b L)) 8 (n2b fr)) 4 (n2b ty) = upd m 0 (n2b L @ n2b ty @ n2b fr)"
    using len by (simp add: upd_def min_def)
  with ld len show ?thesis
    by (simp add: swap_hdr_def mem_simps n2b_def)
qed

lemma xmit_loop_spec:
  assumes "off \<le> len" "len \<le> length m"
  shows "\<exists>k \<ge> off. k \<le> len \<and> xmit_loop ns off len m = Some (k, take (k - off) (drop off m))"
  using assms
proof (induction ns arbitrary: off)
  case Nil
  then show ?case by (auto intro!: exI [of _ off])
next
  case (Cons n ns)
  show ?case
  proof (cases "off < len \<and> 0 \<le> n")
    case False
    with Cons.prems show ?thesis by (auto intro!: exI [of _ off] simp: ld_def)
  next
    case True
    let ?p = "take (nat n) (take (len - off) (drop off m))"
    have "off + length ?p \<le> len" using True by auto
    then obtain k where k: "off + length ?p \<le> k" "k \<le> len"
        "xmit_loop ns (off + length ?p) len m = Some (k, take (k - (off + length ?p)) (drop (off + length ?p) m))"
      using Cons.IH [of "off + length ?p"] Cons.prems(2) by blast
    have "length ?p = min (nat n) (len - off)" using Cons.prems by simp
    then have "?p = take (length ?p) (drop off m)" by simp
    moreover have "take (k - off) (drop off m) =
        take (length ?p) (drop off m) @ take (k - (off + length ?p)) (drop (off + length ?p) m)"
      using k(1) take_add [of "length ?p" "k - (off + length ?p)" "drop off m"]
      by (simp del: length_take add: add.commute)
    ultimately have "?p @ take (k - (off + length ?p)) (drop (off + length ?p) m) = take (k - off) (drop off m)"
      by simp
    with k True Cons.prems show ?thesis
      by (auto simp: ld_def min.commute intro!: exI [of _ k])
  qed
qed

text \<open>The results of \<open>write\<close> with which \<open>n\<close> bytes are accepted.\<close>

fun drains :: "int list \<Rightarrow> nat \<Rightarrow> bool" where
  "drains [] n \<longleftrightarrow> n = 0"
| "drains (k # ks) n \<longleftrightarrow> n = 0 \<or> 0 \<le> k \<and> drains ks (n - nat k)"

lemma xmit_loop_drains:
  assumes "off \<le> len" "len \<le> length m" "drains ns (len - off)" "xmit_loop ns off len m = Some (k, bs)"
  shows "k = len"
  using assms
proof (induction ns arbitrary: off k bs)
  case (Cons n ns)
  show ?case
  proof (cases "off < len")
    case True
    let ?o = "off + min (nat n) (len - off)"
    have "length (take (nat n) (take (len - off) (drop off m))) = min (nat n) (len - off)"
      using True Cons.prems(2) by simp
    with True Cons.prems obtain sent where "xmit_loop ns ?o len m = Some (k, sent)" "0 \<le> n"
      "drains ns (len - off - nat n)"
      by (auto simp: ld_def bind_eq_Some_conv simp del: length_take split: if_splits)
    moreover have "len - ?o = len - off - nat n" by (auto simp: min_def)
    ultimately show ?thesis using Cons.IH [of ?o k sent] True Cons.prems(2) by simp
  next
    case False
    with Cons.prems show ?thesis by auto
  qed
qed auto

text \<open>What \<open>__pmXmitPDU\<close> reports when not everything was accepted.\<close>

definition xmit_error :: "xmit_env \<Rightarrow> int" where
  "xmit_error x = (if x_socketipc x then
        (if x_closed x then PM_ERR_IPC else if x_neterror x \<noteq> 0 then - x_neterror x else PM_ERR_IPC)
      else (if x_oserror x \<noteq> 0 then - x_oserror x else PM_ERR_IPC))"

lemma pmXmitPDU_spec:
  assumes at: "bytes_at (heap s a) 0 (pdu L ty fr body)" and L: "sint L = 12 + int (length body)"
  shows "\<exists>k \<le> 12 + length body. pmXmitPDU x writes a s =
    Some (if k = 12 + length body then int k else xmit_error x, take k (wire L ty fr body),
      if k = 12 + length body then s\<lparr>pmPDUCntOut := count_pdu (sint ty) (pmPDUCntOut s)\<rparr> else s) \<and>
    (drains writes (12 + length body) \<longrightarrow> k = 12 + length body)"
proof -
  let ?m = "heap s a" and ?n = "12 + length body"
  let ?w = "upd ?m 0 (n2b L @ n2b ty @ n2b fr)"
  have hd: "bytes_at ?m 0 (w2b L @ w2b ty @ w2b fr)" and l: "ld32 ?m 0 = Some L" and t: "ld32 ?m 4 = Some ty"
    and body: "bytes_at ?m 12 body"
    using at by (auto simp: pdu_def bytes_at_append intro: bytes_at_ld32)
  have len: "?n \<le> length ?m" using bytes_at_bound [OF at] by simp
  have w: "swap_hdr ?m = Some ?w" by (rule swap_hdr_spec [OF hd])
  have "bytes_at ?w 0 (n2b L @ n2b ty @ n2b fr)" using len by simp
  then have "bytes_at ?w 0 (w2b (htonl L) @ w2b (htonl ty) @ w2b (htonl fr))" by (simp add: n2b_def)
  from swap_hdr_spec [OF this] have "swap_hdr ?w = Some (upd ?w 0 (w2b L @ w2b ty @ w2b fr))"
    by (simp add: n2b_def)
  also have "upd ?w 0 (w2b L @ w2b ty @ w2b fr) = ?m"
    using len upd_bytes_at [OF hd] by (simp add: upd_upd_same)
  finally have restored: "swap_hdr ?w = Some ?m" .
  have "bytes_at ?w 12 body" using body len by (intro bytes_at_upd_frame) simp_all
  then have "bytes_at ?w 0 (wire L ty fr body)"
    using len bytes_at_append [of ?w 0 "n2b L @ n2b ty @ n2b fr" body] by (simp add: wire_def)
  then have tk: "take ?n ?w = wire L ty fr body" by (simp add: bytes_at_def ld_def split: if_splits)
  obtain k where k: "k \<le> ?n" "xmit_loop writes 0 ?n ?w = Some (k, take k ?w)"
    using xmit_loop_spec [of 0 ?n ?w writes] len by auto
  have "take k ?w = take k (wire L ty fr body)" using k(1) by (simp add: tk [symmetric] min_absorb1)
  moreover have "drains writes ?n \<longrightarrow> k = ?n"
    using xmit_loop_drains [of 0 ?n ?w writes k] k(2) len by auto
  moreover have "nat (sint L) = ?n" using L by simp
  moreover have "(heap s)(a := ?m) = heap s" by simp
  ultimately show ?thesis
    using k l w restored t L
    by (intro exI [of _ k]) (auto simp: pmXmitPDU_def xmit_error_def)
qed


section \<open>Sending\<close>

definition can_send :: "(int \<Rightarrow> bool \<times> int option) \<Rightarrow> int \<Rightarrow> io \<Rightarrow> bool" where
  "can_send e need s \<longleftrightarrow> io_ok s \<and> env_ok e need s \<and>
     (\<exists>a p. find_buf (e need) need (io_pool s) = Some (Some a, p))"

definition can_recv :: "get_env \<Rightarrow> int \<Rightarrow> int \<Rightarrow> int \<Rightarrow> trip list \<Rightarrow> io \<Rightarrow> bool" where
  "can_recv g mode timeout plen trips s \<longleftrightarrow> io_ok s \<and> get_env_ok g s \<and> bufs_found g plen s \<and>
     (mode \<noteq> LIMIT_SIZE \<or> plen \<le> ceiling s) \<and> timeout \<noteq> TIMEOUT_ASYNC \<and>
     list_all (in_time g timeout s) trips"

lemma io_ok_out [simp]: "io_ok (s\<lparr>pmPDUCntOut := y\<rparr>) = io_ok s"
  by (simp add: io_ok_def)

lemma pin_held_out [simp]: "pin_held (s\<lparr>pmPDUCntOut := y\<rparr>) = pin_held s"
  by (simp add: pin_held_def)

lemma pdu_send_spec:
  assumes s: "can_send e need s"
    and build: "\<And>m. need \<le> int (length m) \<Longrightarrow> \<exists>m' body. build m = Some m' \<and> length m' = length m \<and>
      bytes_at m' 0 (pdu L ty fr body) \<and> enc body \<and> length body = n"
    and L: "sint L = 12 + int n" and wr: "drains writes (12 + n)"
  shows "\<exists>body s'. pdu_send e x writes need build s = Some (sint L, wire L ty fr body, s') \<and>
    enc body \<and> length body = n \<and> io_ok s' \<and> pin_held s' = pin_held s \<and>
    pmPDUCntOut s' = count_pdu (sint ty) (pmPDUCntOut s)"
proof -
  have ok: "io_ok s" and e: "env_ok e need s" using s by (auto simp: can_send_def)
  obtain a p where f: "find_buf (e need) need (io_pool s) = Some (Some a, p)"
    using s by (auto simp: can_send_def)
  from env_ok_find [OF ok e] f have ok1: "io_ok (s\<lparr>io_pool := p\<rparr>)"
      and h1: "pin_held (s\<lparr>io_pool := p\<rparr>) = (pin_held s)(a := 1)" "pin_held s a = 0"
      and a: "pinmap p a = Some 1" "need \<le> int (length (heap s a))" by auto
  obtain m body where m: "build (heap s a) = Some m" "length m = length (heap s a)"
      "bytes_at m 0 (pdu L ty fr body)" "enc body" "length body = n"
    using build [OF a(2)] by auto
  let ?s = "s\<lparr>io_pool := p, heap := (heap s)(a := m)\<rparr>"
  let ?s2 = "?s\<lparr>pmPDUCntOut := count_pdu (sint ty) (pmPDUCntOut s)\<rparr>"
  have ok2: "io_ok ?s2" using io_ok_heap [OF ok1, of m a] m(2) by simp
  have "bytes_at (heap ?s a) 0 (pdu L ty fr body)" using m(3) by simp
  from pmXmitPDU_spec [OF this, of x writes] L m(5) wr
  have xm: "pmXmitPDU x writes a ?s = Some (sint L, wire L ty fr body, ?s2)" by auto
  obtain q where q: "pmUnpinPDUBuf a p = Some (1, q)" "pool_inv q"
      "held (pinmap q) = (held (pinmap p))(a := 0)" "sizemap q = sizemap p"
    using pdubuf.unpin_held [of p a "heap ?s2"] a(1) ok2 unfolding io_ok_def by auto
  have ok3: "io_ok (?s2\<lparr>io_pool := q\<rparr>)" using ok2 q by (simp add: io_ok_def)
  have "held (pinmap q) = pin_held s" using q(3) h1 by (auto simp: pin_held_def)
  then show ?thesis
    using f m xm q(1) ok3 by (auto simp: pdu_send_def Let_def pin_held_def)
qed

lemma drains_le: "drains ks n \<Longrightarrow> k \<le> n \<Longrightarrow> drains ks k"
  by (induction ks n arbitrary: k rule: drains.induct) (auto intro: diff_le_mono)

section \<open>Properties\<close>

text \<open>C1: whatever bytes, failures and delays a peer produces, a server's \<open>__pmGetPDU\<close>
  (mode \<open>LIMIT_SIZE\<close>) stays inside its buffers and returns. It either delivers a pinned buffer
  that nobody had pinned, with a PDU length that is at least a header, at most the ceiling and
  inside the buffer, or it leaves every pin count as it was.\<close>

theorem pmGetPDU_safe:
  assumes "io_ok s" and "get_env_ok g s" and "list_all wf_trip trips"
    and "ceiling s \<le> INT_MAX - 2 * PDU_CHUNK"
  shows "\<exists>sts res ts s'. pmGetPDU g LIMIT_SIZE timeout trips s = Some ((sts, res), ts, s') \<and> io_ok s' \<and>
    (if 0 \<le> sts \<and> res \<noteq> None then
       pin_held s (the res) = 0 \<and> pin_held s' = (pin_held s)(the res := 1) \<and>
       (\<exists>L. ld32 (heap s' (the res)) 0 = Some L \<and> sizeof_pmPDUHdr \<le> sint L \<and> sint L \<le> ceiling s \<and>
         sint L \<le> int (length (heap s' (the res))))
     else pin_held s' = pin_held s)"
  using pmGetPDU_good [OF assms, of timeout] unfolding get_good_def by blast

text \<open>C4: however the network cuts the byte stream into pieces, as long as they arrive in
  time, \<open>__pmGetPDU\<close> delivers exactly the next PDU, with its header in host order, pins its
  buffer, counts it, and leaves the bytes that follow it in the stream.\<close>

theorem pmGetPDU_reassembles:
  assumes "can_recv g mode timeout (sint L) trips s"
    and "sint L = 12 + int (length body)" and "sint L \<le> INT_MAX - 2 * PDU_CHUNK"
    and "0 \<le> sint ty" and "stream trips = wire L ty fr body @ rest"
  shows "\<exists>a ts s'. pmGetPDU g mode timeout trips s = Some ((sint ty, Some a), ts, s') \<and>
    bytes_at (heap s' a) 0 (pdu L ty fr body) \<and> stream ts = rest \<and>
    pin_held s a = 0 \<and> pin_held s' = (pin_held s)(a := 1) \<and>
    pmPDUCntIn s' = count_pdu (sint ty) (pmPDUCntIn s) \<and> io_ok s' \<and> sizes_kept (io_pool s) (io_pool s')"
  using assms by (intro pmGetPDU_delivers) (auto simp: can_recv_def)

text \<open>C21: \<open>__pmXmitPDU\<close> hands the socket a prefix of the PDU in network order, the whole of it
  exactly when it returns the PDU's length, and restores the buffer; on an error it returns the
  error of the socket and counts nothing.\<close>

theorem pmXmitPDU_partial:
  assumes "bytes_at (heap s a) 0 (pdu L ty fr body)" and "sint L = 12 + int (length body)"
  shows "\<exists>k \<le> 12 + length body. pmXmitPDU x writes a s =
    Some (if k = 12 + length body then int k else xmit_error x, take k (wire L ty fr body),
      if k = 12 + length body then s\<lparr>pmPDUCntOut := count_pdu (sint ty) (pmPDUCntOut s)\<rparr> else s) \<and>
    (drains writes (12 + length body) \<longrightarrow> k = 12 + length body)"
  by (rule pmXmitPDU_spec [OF assms])

lemma sint_le_INT_MAX: "sint (x :: u32) \<le> INT_MAX"
  using sint_lt [of x] by (simp add: INT_MAX_def)

lemma get_body_overflow:
  assumes "pool_inv (io_pool s)" and "backed (heap s) (sizemap (io_pool s))"
    and "buf_free (io_pool s) = b # bs" and "maxsize s < plen"
    and "INT_MAX - PDU_CHUNK < plen" and "plen \<le> INT_MAX"
    and "bc_size b < 12 + int (length data)" and "12 + int (length data) \<le> plen" and "data \<noteq> []"
  shows "get_body g TIMEOUT_NEVER a 12 plen [Chunk now data] s = None"
proof -
  obtain t s1 where t: "get_tmpsize plen s = (t, s1)" by (cases "get_tmpsize plen s")
  have "plen sdiv PDU_CHUNK = 2097151"
    using assms(5,6) by (auto simp: signed_divide_int_def PDU_CHUNK_def INT_MAX_def sgn_if)
  then have "t = s32 (2 ^ 31)" using t assms(4) by (auto simp: get_tmpsize_def Let_def PDU_CHUNK_def)
  then have neg: "t = - (2 ^ 31)" by (simp add: s32_def)
  have s1: "io_pool s1 = io_pool s" "heap s1 = heap s" using t by (auto simp: get_tmpsize_def Let_def split: if_splits)
  have sz: "0 < bc_size b" using pool_invD(1) [OF assms(1)] assms(3) by (simp add: wf_bufctl_def)
  then have "first_that (\<lambda>c. t \<le> bc_size c) (buf_free (io_pool s)) = Some ([], b, bs)"
    using neg assms(3) by (simp add: first_that_Some)
  from pmFindPDUBuf_reuse [OF assms(1) this, of "fst (g_alloc2 g t)" "snd (g_alloc2 g t)"]
  obtain q where q: "find_buf (g_alloc2 g t) t (io_pool s) = Some (Some (bc_buf b), q)"
    by (auto simp: find_buf_def)
  have "int (length (heap s (bc_buf b))) = bc_size b"
    using assms(1-3) buf_field_buf(2) [of "io_pool s" b] by (auto simp: backed_def)
  moreover have "12 < plen" using assms(8,9) by (cases data) auto
  ultimately have "pduread dw nw TIMEOUT_NEVER [Chunk now data] 12 (nat (plen - 12)) m = None"
    if "length m = length (heap s (bc_buf b))" for m dw nw
    using that assms(7-9)
    by (simp add: pduread_def TIMEOUT_NEVER_def TIMEOUT_ASYNC_def Let_def pduread_loop.simps st_def)
  then have "get_rest g TIMEOUT_NEVER a (bc_buf b) 12 plen [Chunk now data] (s1\<lparr>io_pool := q\<rparr>) = None"
    by (auto simp: get_rest_def s1 st_length split: Option.bind_splits)
  then show ?thesis using t q s1 by (simp add: get_body_def)
qed

text \<open>C35: with no size limit, a header whose length is within 1024 of \<open>INT_MAX\<close> makes the size that
  \<open>__pmGetPDU\<close> computes for the second buffer negative. The first buffer that is free is then taken whatever its size, and when
  more bytes follow than fit behind the header, reading the body writes behind the end of that buffer.\<close>

theorem pmGetPDU_length_overflow:
  assumes "io_ok s" and "buf_free (io_pool s) = b0 # b # bs" and "maxsize s \<le> bc_size b0"
    and "INT_MAX - PDU_CHUNK < sint L"
    and "bc_size b < 12 + int (length data)" and "12 + int (length data) \<le> sint L" and "data \<noteq> []"
  shows "pmGetPDU g ANY_SIZE TIMEOUT_NEVER [Chunk t1 (n2b L @ n2b ty @ n2b fr), Chunk t2 data] s = None"
proof -
  let ?hd = "n2b L @ n2b ty @ n2b fr" and ?a = "bc_buf b0"
  have inv: "pool_inv (io_pool s)" "backed (heap s) (sizemap (io_pool s))" "PDU_CHUNK \<le> maxsize s" "maxsize s \<le> INT_MAX - PDU_CHUNK"
    using assms(1) by (auto simp: io_ok_def)
  obtain q where q: "find_buf (g_alloc1 g (maxsize s)) (maxsize s) (io_pool s) = Some (Some ?a, q)" "buf_free q = b # bs" "pool_inv q" "sizemap q = sizemap (io_pool s)"
    unfolding find_buf_def using pmFindPDUBuf_first [OF inv(1) assms(2,3)] by metis
  have "int (length (heap s ?a)) = bc_size b0" using inv(1,2) buf_field_buf(2) [of "io_pool s" b0] assms(2) by (auto simp: backed_def)
  then have len: "12 \<le> length (heap s ?a)" using inv(3) assms(3) by (simp add: PDU_CHUNK_def)
  let ?m = "upd (heap s ?a) 0 ?hd"
  let ?m1 = "upd ?m 0 (w2b L)"
  let ?s = "s\<lparr>io_pool := q, heap := (heap s)(?a := ?m1)\<rparr>"
  have "bytes_at ?m 0 ?hd" using len by simp
  then have w: "ldn ?m 0 = Some L" by (auto simp: bytes_at_append intro: bytes_at_ldn)
  have st1: "st32 ?m 0 L = Some ?m1" using len by (simp add: mem_simps)
  have "?hd \<noteq> []" by (simp add: n2b_def w2b_def)
  then have rd: "pduread (def_wait s) (g_now1 g) TIMEOUT_NEVER [Chunk t1 ?hd, Chunk t2 data] 0 12 (heap s ?a) = Some (12, ?m, [Chunk t2 data])"
    using len by (simp add: pduread_def TIMEOUT_NEVER_def TIMEOUT_ASYNC_def Let_def pduread_loop.simps st_def upd_def)
  have "backed (heap ?s) (sizemap q)" using inv(2) q(4) len by (auto simp: backed_def)
  then have "get_body g TIMEOUT_NEVER ?a 12 (sint L) [Chunk t2 data] ?s = None"
    using get_body_overflow [of ?s b bs "sint L" data g ?a t2] q(2,3) inv(4) assms(4-7) sint_le_INT_MAX [of L] by simp
  moreover have "12 < sint L" using assms(6,7) by (cases data) auto
  ultimately show ?thesis using q(1) rd w st1 by (simp add: pmGetPDU_def get_check_len_def sizeof_pmPDUHdr_def ANY_SIZE_def LIMIT_SIZE_def)
qed

section \<open>A sample state\<close>

text \<open>A process with two free buffers of one chunk each, whose allocator is out of memory.\<close>

definition sample_io :: io where
  "sample_io = \<lparr>io_pool = \<lparr>buf_free =
       [\<lparr>bc_size = 1024, bc_pincnt = 0, bc_buf = 4096, bc_bufend = 5120\<rparr>,
        \<lparr>bc_size = 1024, bc_pincnt = 0, bc_buf = 8192, bc_bufend = 9216\<rparr>],
       buf_pin = [], buf_pin_tail = None, lock_depth = 0\<rparr>,
     heap = (\<lambda>_. replicate 1024 0), maxsize = 1024, ceiling = 65536,
     pmPDUCntIn = replicate 18 0, pmPDUCntOut = replicate 18 0, def_wait = (10, 0)\<rparr>"

definition sample_env :: get_env where
  "sample_env = \<lparr>g_alloc1 = (\<lambda>_. (False, None)), g_alloc2 = (\<lambda>_. (False, None)),
     g_now1 = (100, 0), g_now2 = (100, 0), g_closed = False, g_oserror = 12\<rparr>"

definition sample_xenv :: xmit_env where
  "sample_xenv = \<lparr>x_socketipc = True, x_closed = False, x_neterror = 32, x_oserror = 0\<rparr>"

lemma sample_io_ok: "io_ok sample_io"
proof -
  have "pool_inv (io_pool sample_io)"
    by (simp add: sample_io_def pool_inv_def wf_bufctl_def disjoint_bufs_def)
  moreover have "backed (heap sample_io) (sizemap (io_pool sample_io))"
    by (simp add: sample_io_def backed_def sizemap_def buf_field_def)
  ultimately show ?thesis
    by (simp add: io_ok_def) (simp add: sample_io_def PDU_CHUNK_def INT_MAX_def)
qed

lemma no_memory_ok: "0 \<le> n \<Longrightarrow> n \<le> INT_MAX - PDU_CHUNK \<Longrightarrow> env_ok (\<lambda>_. (False, None)) n s"
  by (simp add: env_ok_def request_ok_def alloc_ok_def valloc_new_def PDU_CHUNK_def)

lemma sample_env_ok: "get_env_ok sample_env sample_io"
proof -
  have "env_ok (\<lambda>_. (False, None)) n s" if "PDU_CHUNK \<le> n" "n \<le> INT_MAX - PDU_CHUNK" for n s
    using that no_memory_ok [of n s] by (simp add: PDU_CHUNK_def)
  then show ?thesis
    unfolding get_env_ok_def sample_env_def
    by (simp add: sample_io_def PDU_CHUNK_def INT_MAX_def)
qed

lemma sample_found:
  assumes "plen \<le> 1024"
  shows "bufs_found sample_env plen sample_io"
proof -
  have "fst (get_tmpsize plen sample_io) = 1024"
    using assms by (simp add: get_tmpsize_def sample_io_def)
  then show ?thesis
    unfolding bufs_found_def
    by (simp add: sample_io_def sample_env_def find_buf_def pmFindPDUBuf_def pmPinPDUBuf_def pool_eval Let_def)
qed

lemma sample_can_recv:
  "plen \<le> 1024 \<Longrightarrow> list_all (in_time sample_env TIMEOUT_NEVER sample_io) trips \<Longrightarrow>
   can_recv sample_env ANY_SIZE TIMEOUT_NEVER plen trips sample_io"
  by (simp add: can_recv_def sample_io_ok sample_env_ok sample_found ANY_SIZE_def LIMIT_SIZE_def
      TIMEOUT_NEVER_def TIMEOUT_ASYNC_def)

lemma sample_can_send:
  assumes "0 \<le> need" "need \<le> 1024"
  shows "can_send (\<lambda>_. (False, None)) need sample_io"
proof -
  have "env_ok (\<lambda>_. (False, None)) need sample_io"
    using assms no_memory_ok [of need] by (simp add: INT_MAX_def PDU_CHUNK_def)
  moreover have "\<exists>a p. find_buf (False, None) need (io_pool sample_io) = Some (Some a, p)"
    using assms by (simp add: sample_io_def find_buf_def pmFindPDUBuf_def pmPinPDUBuf_def pool_eval)
  ultimately show ?thesis by (simp add: can_send_def sample_io_ok)
qed

lemma in_time_never [simp]:
  "in_time g TIMEOUT_NEVER s (Chunk now bs) \<longleftrightarrow> bs \<noteq> []"
  by (simp add: in_time_def)

lemma pmGetPDU_safe_witness:
  "\<exists>sts res ts s'. pmGetPDU sample_env LIMIT_SIZE TIMEOUT_DEFAULT
     [Chunk (101, 0) [0, 0, 255], Sel_idle, Chunk (102, 0) [255, 1, 2]] sample_io = Some ((sts, res), ts, s') \<and> io_ok s'"
  using pmGetPDU_safe [OF sample_io_ok sample_env_ok,
      of "[Chunk (101, 0) [0, 0, 255], Sel_idle, Chunk (102, 0) [255, 1, 2]]" TIMEOUT_DEFAULT]
  by (simp add: sample_io_def INT_MAX_def PDU_CHUNK_def) metis

lemma pmGetPDU_reassembles_witness:
  "\<exists>a ts s'. pmGetPDU sample_env ANY_SIZE TIMEOUT_NEVER
     [Chunk (1, 0) (take 3 (wire 16 0x7000 0 [255, 255, 207, 185])),
      Chunk (2, 0) (drop 3 (wire 16 0x7000 0 [255, 255, 207, 185]) @ [1, 2])] sample_io =
       Some ((0x7000, Some a), ts, s') \<and>
     bytes_at (heap s' a) 0 (pdu 16 0x7000 0 [255, 255, 207, 185]) \<and> stream ts = [1, 2]"
proof -
  let ?w = "wire 16 0x7000 0 [255, 255, 207, 185]"
  let ?trips = "[Chunk (1, 0) (take 3 ?w), Chunk (2, 0) (drop 3 ?w @ [1, 2])]"
  have ne: "?w \<noteq> []" by (simp add: wire_def n2b_def w2b_def)
  then have c: "can_recv sample_env ANY_SIZE TIMEOUT_NEVER (sint (16 :: u32)) ?trips sample_io"
    by (intro sample_can_recv) simp_all
  have "stream ?trips = ?w @ [1, 2]" by (simp del: append_assoc add: append_assoc [symmetric])
  with pmGetPDU_reassembles [OF c, of "[255, 255, 207, 185]" "0x7000" 0 "[1, 2]"] show ?thesis
    by (simp add: INT_MAX_def PDU_CHUNK_def) metis
qed

lemma pmXmitPDU_partial_witness:
  "\<exists>k \<le> 16. pmXmitPDU sample_xenv [10, -1] 4096 (sample_io\<lparr>heap := (\<lambda>_. pdu 16 0x7000 0 [255, 255, 207, 185])\<rparr>) =
    Some (if k = 16 then int k else xmit_error sample_xenv, take k (wire 16 0x7000 0 [255, 255, 207, 185]),
      if k = 16 then sample_io\<lparr>heap := (\<lambda>_. pdu 16 0x7000 0 [255, 255, 207, 185]),
        pmPDUCntOut := count_pdu 0x7000 (pmPDUCntOut sample_io)\<rparr>
      else sample_io\<lparr>heap := (\<lambda>_. pdu 16 0x7000 0 [255, 255, 207, 185])\<rparr>)"
  using pmXmitPDU_partial [of "sample_io\<lparr>heap := (\<lambda>_. pdu 16 0x7000 0 [255, 255, 207, 185])\<rparr>" 4096
      16 "0x7000" 0 "[255, 255, 207, 185]" sample_xenv "[10, -1]"]
  by (auto simp: bytes_at_def ld_def)

lemma pmGetPDU_length_overflow_witness:
  "pmGetPDU sample_env ANY_SIZE TIMEOUT_NEVER [Chunk (1, 0) (n2b 0x7fffffff @ n2b 0x7000 @ n2b 0), Chunk (2, 0) (replicate 1013 0)] sample_io = None"
proof -
  have "buf_free (io_pool sample_io) = buf_free (io_pool sample_io) ! 0 # buf_free (io_pool sample_io) ! 1 # []"
    by (simp add: sample_io_def)
  from pmGetPDU_length_overflow [OF sample_io_ok this, of "0x7fffffff" "replicate 1013 0" sample_env "(1, 0)" "0x7000" 0 "(2, 0)"] show ?thesis
    by (simp add: sample_io_def INT_MAX_def PDU_CHUNK_def)
qed

end
