(* ===== verification/Codec.thy ===== *)
theory Codec
  imports Pdu
begin

text \<open>
  The contract every kind of PDU offers to the transport of \<^verbatim>\<open>pdu.c\<close>, and what follows from it:
  an encoder that fills a buffer of \<open>need\<close> bytes with a PDU, a decoder that inverts it, and the
  end-to-end statement that what one process sends another one decodes, however the bytes
  are fragmented on the way. Each kind of PDU interprets the locale on its own functions.
\<close>

section \<open>PDU headers\<close>

text \<open>The header a \<open>__pmSend...\<close> fills in: total length, type and sender, in host order.\<close>

definition put_hdr :: "mem \<Rightarrow> nat \<Rightarrow> int \<Rightarrow> u32 \<Rightarrow> mem option" where
  "put_hdr m len type fr = do {
     m \<leftarrow> st32 m 0 (word_of_nat len);
     m \<leftarrow> st32 m 4 (word_of_int type);
     st32 m 8 fr
   }"

abbreviation mk_pdu :: "int \<Rightarrow> u32 \<Rightarrow> mem \<Rightarrow> mem" where
  "mk_pdu type fr body \<equiv> pdu (word_of_nat (12 + length body)) (word_of_int type) fr body"

lemma put_hdr_spec:
  assumes "12 \<le> length m"
  shows "put_hdr m len type fr =
    Some (upd (upd (upd m 0 (w2b (word_of_nat len))) 4 (w2b (word_of_int type))) 8 (w2b fr))"
  using assms by (simp add: put_hdr_def mem_simps)

lemma sint_pdu_len: "n < 2 ^ 31 \<Longrightarrow> sint (word_of_nat n :: u32) = int n"
  using sint_word_of_int [of "int n"] by (simp add: is_int32_def)

text \<open>\<open>(char *)pdu + php->len\<close>, the end of the PDU as an offset, as a decoder computes it.\<close>

definition pdu_len :: "mem \<Rightarrow> int option" where
  "pdu_len m = map_option sint (ld32 m 0)"

text \<open>Conversion of one word, and of \<open>n\<close> words, in place.\<close>

definition swap32 :: "nat \<Rightarrow> mem \<Rightarrow> mem option" where
  "swap32 a m = do { w \<leftarrow> ld32 m a; st32 m a (htonl w) }"

fun swap_words :: "nat \<Rightarrow> nat \<Rightarrow> mem \<Rightarrow> mem option" where
  "swap_words a 0 m = Some m"
| "swap_words a (Suc n) m = do { m \<leftarrow> swap32 a m; swap_words (a + 4) n m }"

fun ld32s :: "mem \<Rightarrow> nat \<Rightarrow> nat \<Rightarrow> u32 list option" where
  "ld32s m a 0 = Some []"
| "ld32s m a (Suc n) = do { w \<leftarrow> ld32 m a; ws \<leftarrow> ld32s m (a + 4) n; Some (w # ws) }"

lemma length_concat_w2b [simp]: "length (concat (map w2b ws)) = 4 * length ws"
  by (induction ws) auto

lemma bytes_at_ld32s: "bytes_at m a (concat (map w2b ws)) \<Longrightarrow> n = length ws \<Longrightarrow> ld32s m a n = Some ws"
  by (induction ws arbitrary: a n) (auto simp: bytes_at_append bytes_at_ld32)

lemma ld32s_None_iff: "ld32s m a n = None \<longleftrightarrow> 0 < n \<and> length m < a + 4 * n"
proof (induction n arbitrary: a)
  case (Suc n)
  show ?case using Suc.IH [of "a + 4"] by (auto simp: bind_None_iff) (metis ld32_None_iff not_None_eq)
qed simp

lemma swap_words_spec:
  assumes "bytes_at m a (concat (map n2b ws))"
  shows "swap_words a (length ws) m = Some (upd m a (concat (map w2b ws)))"
  using assms
proof (induction ws arbitrary: a m)
  case Nil
  then show ?case by (simp add: upd_def)
next
  case (Cons w ws)
  have at: "bytes_at m a (n2b w)" "bytes_at m (a + 4) (concat (map n2b ws))"
    using Cons.prems by (auto simp: bytes_at_append)
  have len: "a + 4 + 4 * length ws \<le> length m" using bytes_at_bound [OF at(2)] by simp
  have "swap32 a m = Some (upd m a (w2b w))"
    using at(1) len by (simp add: swap32_def n2b_def bytes_at_ld32 mem_simps)
  moreover have "bytes_at (upd m a (w2b w)) (a + 4) (concat (map n2b ws))"
    using at(2) len by (simp add: mem_simps)
  moreover have "upd (upd m a (w2b w)) (a + 4) (concat (map w2b ws)) = upd m a (concat (map w2b (w # ws)))"
    using len by (simp add: upd_upd_append)
  ultimately show ?case using Cons.IH by simp
qed

lemma swap_words_total: "a + 4 * n \<le> length m \<Longrightarrow> \<exists>m'. swap_words a n m = Some m' \<and> length m' = length m"
proof (induction n arbitrary: a m)
  case (Suc n)
  then obtain w where "ld32 m a = Some w" by (cases "ld32 m a") auto
  then have "swap32 a m = Some (upd m a (w2b (htonl w)))"
    using Suc.prems by (simp add: swap32_def mem_simps)
  then show ?case using Suc.IH [of "a + 4" "upd m a (w2b (htonl w))"] Suc.prems by simp
qed simp

lemma pdu_len_pdu: "bytes_at m 0 (pdu L ty fr body) \<Longrightarrow> pdu_len m = Some (sint L)"
  by (auto simp: pdu_len_def pdu_def bytes_at_append dest: bytes_at_ld32)

lemma pdu_len_None_iff [simp]: "pdu_len m = None \<longleftrightarrow> length m < 4"
  by (simp add: pdu_len_def)

lemma pdu_from_pdu: "bytes_at m 0 (pdu L ty fr body) \<Longrightarrow> ld32 m 8 = Some fr"
  by (auto simp: pdu_def bytes_at_append dest: bytes_at_ld32)

lemma pdu_body: "bytes_at m 0 (pdu L ty fr body) \<Longrightarrow> bytes_at m 12 body"
  by (simp add: pdu_def bytes_at_append)

lemma bytes_at_pdu:
  "bytes_at m 0 (w2b L @ w2b ty @ w2b fr) \<Longrightarrow> bytes_at m 12 body \<Longrightarrow> bytes_at m 0 (pdu L ty fr body)"
  by (simp add: pdu_def bytes_at_append)

section \<open>The contract\<close>

text \<open>\<open>strncpy\<close> copies up to the first NUL and fills the rest with NULs.\<close>

definition strncpy :: "byte list \<Rightarrow> byte list" where
  "strncpy src = takeWhile (\<lambda>c. c \<noteq> 0) src @ replicate (length (dropWhile (\<lambda>c. c \<noteq> 0) src)) 0"

lemma strncpy_id: "0 \<notin> set bs \<Longrightarrow> strncpy bs = bs"
proof -
  assume "0 \<notin> set bs"
  then have t: "takeWhile (\<lambda>c. c \<noteq> 0) bs = bs" and d: "dropWhile (\<lambda>c. c \<noteq> 0) bs = []"
    by (auto simp: takeWhile_eq_all_conv dropWhile_eq_Nil_conv)
  show ?thesis unfolding strncpy_def t d by simp
qed

text \<open>A string as a PDU carries it: its length, its characters, and \<open>'~'\<close> up to a whole word.\<close>

definition name_bytes :: "byte list \<Rightarrow> mem" where
  "name_bytes name = n2b (word_of_nat (length name)) @ name @ pad_bytes (length name)"

lemma length_name_bytes [simp]: "length (name_bytes name) = 4 + PM_PDU_SIZE_BYTES (length name)"
  by (simp add: name_bytes_def)

lemmas build_simps = put_hdr_spec mem_simps pdu_def bytes_at_append is_int32_def PDU_defs

lemmas codec_size = INT_MAX_def PDU_CHUNK_def PDU_defs

lemma u64_nat [simp]: "n < 2 ^ 31 \<Longrightarrow> u64 (int n) = int n"
  by simp

locale pdu_codec =
  fixes wf :: "'a \<Rightarrow> bool"
    and type :: int
    and sender :: "'a \<Rightarrow> u32"
    and need :: "'a \<Rightarrow> int"
    and bodylen :: "'a \<Rightarrow> nat"
    and enc :: "'a \<Rightarrow> mem \<Rightarrow> bool"
    and build :: "'a \<Rightarrow> mem \<Rightarrow> mem option"
    and decode :: "mem \<Rightarrow> 'b c_result"
    and out :: "'a \<Rightarrow> 'b"
  assumes type_range: "0 \<le> type" "type < 2 ^ 31"
    and size: "wf x \<Longrightarrow> 12 + bodylen x \<le> nat (INT_MAX - 2 * PDU_CHUNK)"
    and enc_length: "wf x \<Longrightarrow> enc x body \<Longrightarrow> length body = bodylen x"
    and build_law: "wf x \<Longrightarrow> need x \<le> int (length m) \<Longrightarrow>
      \<exists>m' body. build x m = Some m' \<and> length m' = length m \<and> enc x body \<and>
        bytes_at m' 0 (mk_pdu type (sender x) body)"
    and decode_law: "wf x \<Longrightarrow> enc x body \<Longrightarrow> bytes_at m 0 (mk_pdu type (sender x) body) \<Longrightarrow>
      decode m = Some (Inr (out x))"
begin

lemma sint_type [simp]: "sint (word_of_int type :: u32) = type"
  using type_range by (simp add: is_int32_def)

text \<open>What is built decodes to what was meant.\<close>

lemma roundtrip:
  assumes "wf x" and "need x \<le> int (length m)"
  shows "\<exists>m'. build x m = Some m' \<and> decode m' = Some (Inr (out x))"
  using build_law [OF assms] decode_law [OF assms(1)] by blast

lemma sends:
  assumes wf: "wf x" and s: "can_send e (need x) s" and wr: "drains writes (12 + bodylen x)"
  shows "\<exists>body s'. pdu_send e xe writes (need x) (build x) s =
      Some (12 + int (bodylen x), wire (word_of_nat (12 + bodylen x)) (word_of_int type) (sender x) body, s') \<and>
    enc x body \<and> length body = bodylen x \<and> io_ok s' \<and> pin_held s' = pin_held s \<and>
    pmPDUCntOut s' = count_pdu type (pmPDUCntOut s)"
proof -
  let ?L = "word_of_nat (12 + bodylen x) :: u32"
  have L: "sint ?L = 12 + int (bodylen x)"
    using size [OF wf] sint_pdu_len [of "12 + bodylen x"] by (simp add: INT_MAX_def PDU_CHUNK_def)
  have b: "\<exists>m' body. build x m = Some m' \<and> length m' = length m \<and>
      bytes_at m' 0 (pdu ?L (word_of_int type) (sender x) body) \<and> enc x body \<and> length body = bodylen x"
    if "need x \<le> int (length m)" for m
    using build_law [OF wf that] enc_length [OF wf] by metis
  show ?thesis
    using pdu_send_spec [of e "need x" s "build x" ?L "word_of_int type" "sender x" "enc x" "bodylen x" writes xe, OF s b L wr] L
    by simp
qed

lemma receives:
  assumes wf: "wf x" and enc: "enc x body"
    and r: "can_recv g mode timeout (12 + int (bodylen x)) trips s"
    and str: "stream trips = wire (word_of_nat (12 + bodylen x)) (word_of_int type) (sender x) body @ rest"
  shows "\<exists>a ts s'. pmGetPDU g mode timeout trips s = Some ((type, Some a), ts, s') \<and>
    bytes_at (heap s' a) 0 (mk_pdu type (sender x) body) \<and> stream ts = rest \<and>
    pin_held s' = (pin_held s)(a := 1) \<and> io_ok s' \<and> sizes_kept (io_pool s) (io_pool s')"
proof -
  let ?L = "word_of_nat (12 + bodylen x) :: u32"
  have len: "length body = bodylen x" by (rule enc_length [OF wf enc])
  have L: "sint ?L = 12 + int (length body)"
    using size [OF wf] sint_pdu_len [of "12 + bodylen x"] len by (simp add: INT_MAX_def PDU_CHUNK_def)
  have "io_ok s" "get_env_ok g s" "bufs_found g (sint ?L) s" "mode \<noteq> LIMIT_SIZE \<or> sint ?L \<le> ceiling s"
      "list_all (in_time g timeout s) trips" "timeout \<noteq> TIMEOUT_ASYNC"
    using r L len by (auto simp: can_recv_def)
  moreover have "sint ?L \<le> INT_MAX - 2 * PDU_CHUNK"
    using size [OF wf] L len by (simp add: INT_MAX_def PDU_CHUNK_def)
  moreover have "0 \<le> sint (word_of_int type :: u32)" using type_range by simp
  ultimately have "\<exists>a ts s'. pmGetPDU g mode timeout trips s = Some ((type, Some a), ts, s') \<and>
      bytes_at (heap s' a) 0 (pdu ?L (word_of_int type) (sender x) body) \<and> stream ts = rest \<and>
      pin_held s' = (pin_held s)(a := 1) \<and> io_ok s' \<and> sizes_kept (io_pool s) (io_pool s')"
    using pmGetPDU_delivers [of s g ?L body mode "word_of_int type" timeout trips "sender x" rest] L str by auto
  then show ?thesis using len by simp
qed

text \<open>A message sent by one process is decoded by another, whatever the fragmentation.\<close>

lemma end_to_end_bytes:
  assumes wf: "wf x" and s: "can_send e (need x) s" and wr: "drains writes (12 + bodylen x)"
  shows "\<exists>sent s' body. pdu_send e xe writes (need x) (build x) s = Some (12 + int (bodylen x), sent, s') \<and>
    pin_held s' = pin_held s \<and> length sent = 12 + bodylen x \<and> enc x body \<and>
    (\<forall>g mode timeout trips r rest.
       can_recv g mode timeout (12 + int (bodylen x)) trips r \<longrightarrow> stream trips = sent @ rest \<longrightarrow>
       (\<exists>a ts r'. pmGetPDU g mode timeout trips r = Some ((type, Some a), ts, r') \<and>
         bytes_at (heap r' a) 0 (mk_pdu type (sender x) body) \<and> stream ts = rest \<and>
         pin_held r' = (pin_held r)(a := 1) \<and> io_ok r' \<and> sizes_kept (io_pool r) (io_pool r')))"
proof -
  obtain body s' where snd: "pdu_send e xe writes (need x) (build x) s =
      Some (12 + int (bodylen x), wire (word_of_nat (12 + bodylen x)) (word_of_int type) (sender x) body, s')"
    "enc x body" "pin_held s' = pin_held s" "length body = bodylen x"
    using sends [OF wf s wr] by blast
  then show ?thesis using receives [OF wf snd(2)] by fastforce
qed

lemma end_to_end_inv:
  assumes wf: "wf x" and s: "can_send e (need x) s" and wr: "drains writes (12 + bodylen x)"
  shows "\<exists>sent s'. pdu_send e xe writes (need x) (build x) s = Some (12 + int (bodylen x), sent, s') \<and>
    pin_held s' = pin_held s \<and> length sent = 12 + bodylen x \<and>
    (\<forall>g mode timeout trips r rest.
       can_recv g mode timeout (12 + int (bodylen x)) trips r \<longrightarrow> stream trips = sent @ rest \<longrightarrow>
       (\<exists>a ts r'. pmGetPDU g mode timeout trips r = Some ((type, Some a), ts, r') \<and>
         decode (heap r' a) = Some (Inr (out x)) \<and> stream ts = rest \<and>
         pin_held r' = (pin_held r)(a := 1) \<and> pool_inv (io_pool r')))"
proof -
  obtain sent s' body where E: "pdu_send e xe writes (need x) (build x) s = Some (12 + int (bodylen x), sent, s')"
    "pin_held s' = pin_held s" "length sent = 12 + bodylen x" "enc x body"
    "\<And>g mode timeout trips r rest. can_recv g mode timeout (12 + int (bodylen x)) trips r \<Longrightarrow>
       stream trips = sent @ rest \<Longrightarrow>
       (\<exists>a ts r'. pmGetPDU g mode timeout trips r = Some ((type, Some a), ts, r') \<and>
         bytes_at (heap r' a) 0 (mk_pdu type (sender x) body) \<and> stream ts = rest \<and>
         pin_held r' = (pin_held r)(a := 1) \<and> io_ok r' \<and> sizes_kept (io_pool r) (io_pool r'))"
    using end_to_end_bytes [OF assms] by metis
  show ?thesis
    by (rule exI [of _ sent], rule exI [of _ s'])
      (use E decode_law [OF wf E(4)] in \<open>(simp add: io_ok_def, meson)\<close>)
qed

lemma end_to_end:
  assumes wf: "wf x" and s: "can_send e (need x) s" and wr: "drains writes (12 + bodylen x)"
  shows "\<exists>sent s'. pdu_send e xe writes (need x) (build x) s = Some (12 + int (bodylen x), sent, s') \<and>
    pin_held s' = pin_held s \<and> length sent = 12 + bodylen x \<and>
    (\<forall>g mode timeout trips r rest.
       can_recv g mode timeout (12 + int (bodylen x)) trips r \<longrightarrow> stream trips = sent @ rest \<longrightarrow>
       (\<exists>a ts r'. pmGetPDU g mode timeout trips r = Some ((type, Some a), ts, r') \<and>
         decode (heap r' a) = Some (Inr (out x)) \<and> stream ts = rest \<and>
         pin_held r' = (pin_held r)(a := 1)))"
  using end_to_end_inv [OF assms] by meson

end

text \<open>A stream cut in two pieces, for examples.\<close>

lemma sample_trips:
  assumes "5 < length sent" "length sent \<le> 1024"
  shows "can_recv sample_env ANY_SIZE TIMEOUT_NEVER (int (length sent))
      [Chunk (1, 0) (take 5 sent), Chunk (2, 0) (drop 5 sent)] sample_io"
    "stream [Chunk (1, 0) (take 5 sent), Chunk (2, 0) (drop 5 sent)] = sent @ []"
  using assms by (auto intro!: sample_can_recv)

section \<open>Decoders that stay inside the PDU\<close>

text \<open>
  A received PDU of \<open>n\<close> bytes whose buffer is cut off at its end, so that a decoder that reads
  past the end of the PDU faults, and the promise of a decoder that it does not.
\<close>

definition exact_pdu :: "mem \<Rightarrow> bool" where
  "exact_pdu m \<longleftrightarrow> 12 \<le> length m \<and> pdu_len m = Some (int (length m))"

lemma exact_pdu_len: "exact_pdu m \<Longrightarrow> pdu_len m = Some (int (length m))"
  by (simp add: exact_pdu_def)

lemma exact_pdu_bound: "exact_pdu m \<Longrightarrow> 12 \<le> length m \<and> length m < 2 ^ 31"
proof -
  assume "exact_pdu m"
  then obtain w :: u32 where "12 \<le> length m" "sint w = int (length m)"
    by (auto simp: exact_pdu_def pdu_len_def)
  then show ?thesis using sint_less [of w] by simp
qed


lemma u64_record:
  assumes "0 \<le> sint (w :: u32)" "0 \<le> c" "c < 2 ^ 31" "u64 (c + sint w) \<le> int len - int np"
  shows "np + nat c + nat (sint w) \<le> len"
proof -
  have "u64 (c + sint w) = c + sint w" using assms(1-3) sint_less [of w] by (intro u64_id) auto
  then show ?thesis using assms by simp
qed

text \<open>After a padded string inside a PDU of whole words the next record starts inside the PDU.\<close>

lemma next_record:
  assumes "4 dvd len" "4 dvd base" "4 dvd j" "base + j + k + n \<le> len" "4 dvd k"
  shows "base + (j + k + PM_PDU_SIZE_BYTES n) \<le> (len :: nat)" "4 dvd j + k + PM_PDU_SIZE_BYTES n"
proof -
  have "4 dvd base + j + k" using assms by (simp add: dvd_add)
  then have "4 dvd len - (base + j + k)" using assms(1) by (simp add: dvd_diff_nat)
  then have "PM_PDU_SIZE_BYTES n \<le> len - (base + j + k)"
    using assms(4) by (intro PM_PDU_SIZE_BYTES_least) auto
  then show "base + (j + k + PM_PDU_SIZE_BYTES n) \<le> len" using assms(4) by simp
  show "4 dvd j + k + PM_PDU_SIZE_BYTES n" using assms by (simp add: dvd_add)
qed

end
