(* ===== verification/Pdu_Control.thy ===== *)
theory Pdu_Control
  imports Codec Endian
begin

text \<open>
  The PDUs of fixed shape: errors (\<^verbatim>\<open>p_error.c\<close>), metric descriptors (\<^verbatim>\<open>p_desc.c\<close>),
  credentials (\<^verbatim>\<open>p_creds.c\<close>), help text (\<^verbatim>\<open>p_text.c\<close>), the two messages to
  \<open>pmlogger\<close> (\<^verbatim>\<open>p_lrequest.c\<close>, \<^verbatim>\<open>p_lstatus.c\<close>) and authentication (\<^verbatim>\<open>p_userauth.c\<close>).
  For each, \<open>build_...\<close> is the part of \<open>__pmSend...\<close> that fills the buffer, \<open>pmSend...\<close> the
  whole routine, and \<open>pmDecode...\<close> the decoder. Offsets are those of the packed structures.
\<close>

section \<open>Errors\<close>

definition PM_ERR_BASE1 :: int where "PM_ERR_BASE1 = 1000"

definition XLATE_ERR_1TO2 :: "int \<Rightarrow> int" where
  "XLATE_ERR_1TO2 e = (if e \<le> - PM_ERR_BASE1 then e + PM_ERR_BASE1 - PM_ERR_BASE2 else e)"

definition XLATE_ERR_2TO1 :: "int \<Rightarrow> int" where
  "XLATE_ERR_2TO1 e = (if e \<le> - PM_ERR_BASE2 then e + PM_ERR_BASE2 - PM_ERR_BASE1 else e)"

definition PDU_VERSION2 :: int where "PDU_VERSION2 = 2"

definition build_error :: "u32 \<Rightarrow> int \<Rightarrow> mem \<Rightarrow> mem option" where
  "build_error fr code m = do {
     m \<leftarrow> put_hdr m 16 PDU_ERROR fr;
     m \<leftarrow> st32 m 12 (word_of_int code);
     code \<leftarrow> ld32 m 12;
     stn m 12 code
   }"

definition pmSendError :: "(int \<Rightarrow> bool \<times> int option) \<Rightarrow> xmit_env \<Rightarrow> int list \<Rightarrow> u32 \<Rightarrow> int \<Rightarrow> io \<Rightarrow>
    (int \<times> mem \<times> io) option" where
  "pmSendError e x writes fr code = pdu_send e x writes 16 (build_error fr code)"

definition build_xtend_error :: "u32 \<Rightarrow> int \<Rightarrow> u32 \<Rightarrow> mem \<Rightarrow> mem option" where
  "build_xtend_error fr code datum m = do {
     m \<leftarrow> put_hdr m 20 PDU_ERROR fr;
     m \<leftarrow> stn m 12 (word_of_int (XLATE_ERR_2TO1 code));
     st32 m 16 datum
   }"

definition pmSendXtendError :: "(int \<Rightarrow> bool \<times> int option) \<Rightarrow> xmit_env \<Rightarrow> int list \<Rightarrow> u32 \<Rightarrow> int \<Rightarrow> u32 \<Rightarrow> io \<Rightarrow>
    (int \<times> mem \<times> io) option" where
  "pmSendXtendError e x writes fr code datum = pdu_send e x writes 20 (build_xtend_error fr code datum)"

text \<open>On a bad length both \<open>*code\<close> and the result are \<open>PM_ERR_IPC\<close>.\<close>

definition pmDecodeError :: "mem \<Rightarrow> int c_result" where
  "pmDecodeError m = do {
     len \<leftarrow> pdu_len m;
     (if len \<noteq> 16 \<and> len \<noteq> 20 then Some (Inl PM_ERR_IPC)
      else do { code \<leftarrow> ldn m 12; Some (Inr (sint code)) })
   }"

text \<open>The status, \<open>*code\<close>, and \<open>*datum\<close> where it is set.\<close>

definition pmDecodeXtendError :: "mem \<Rightarrow> (int \<times> int \<times> u32 option) option" where
  "pmDecodeXtendError m = do {
     len \<leftarrow> pdu_len m;
     code \<leftarrow> (if len \<noteq> 16 \<and> len \<noteq> 20 then Some PM_ERR_IPC
             else do { c \<leftarrow> ldn m 12; Some (XLATE_ERR_1TO2 (sint c)) });
     (if len = 20 then do { d \<leftarrow> ld32 m 16; Some (PDU_VERSION2, code, Some d) }
      else Some (PM_ERR_IPC, code, None))
   }"

section \<open>Metric descriptors\<close>

record pmDesc =
  d_pmid :: u32
  d_type :: int
  d_indom :: u32
  d_sem :: int
  d_units :: pmUnits

definition build_desc_req :: "u32 \<Rightarrow> u32 \<Rightarrow> mem \<Rightarrow> mem option" where
  "build_desc_req fr pmid m = do { m \<leftarrow> put_hdr m 16 PDU_DESC_REQ fr; stn m 12 pmid }"

definition pmSendDescReq :: "(int \<Rightarrow> bool \<times> int option) \<Rightarrow> xmit_env \<Rightarrow> int list \<Rightarrow> u32 \<Rightarrow> u32 \<Rightarrow> io \<Rightarrow>
    (int \<times> mem \<times> io) option" where
  "pmSendDescReq e x writes fr pmid = pdu_send e x writes 16 (build_desc_req fr pmid)"

definition pmDecodeDescReq :: "mem \<Rightarrow> u32 c_result" where
  "pmDecodeDescReq m = do {
     len \<leftarrow> pdu_len m;
     (if u64 len \<noteq> 16 then Some (Inl PM_ERR_IPC)
      else do { pmid \<leftarrow> ldn m 12; Some (Inr pmid) })
   }"

definition build_desc :: "u32 \<Rightarrow> pmDesc \<Rightarrow> mem \<Rightarrow> mem option" where
  "build_desc ctx d m = do {
     m \<leftarrow> put_hdr m 32 PDU_DESC ctx;
     m \<leftarrow> stn m 16 (word_of_int (d_type d));
     m \<leftarrow> stn m 24 (word_of_int (d_sem d));
     m \<leftarrow> stn m 20 (d_indom d);
     m \<leftarrow> st32 m 28 (pm_htonpmUnits (d_units d));
     stn m 12 (d_pmid d)
   }"

definition pmSendDesc :: "(int \<Rightarrow> bool \<times> int option) \<Rightarrow> xmit_env \<Rightarrow> int list \<Rightarrow> u32 \<Rightarrow> pmDesc \<Rightarrow> io \<Rightarrow>
    (int \<times> mem \<times> io) option" where
  "pmSendDesc e x writes ctx d = pdu_send e x writes 32 (build_desc ctx d)"

definition pmDecodeDesc :: "mem \<Rightarrow> pmDesc c_result" where
  "pmDecodeDesc m = do {
     len \<leftarrow> pdu_len m;
     (if u64 len \<noteq> 32 then Some (Inl PM_ERR_IPC)
      else do {
        type \<leftarrow> ldn m 16;
        sem \<leftarrow> ldn m 24;
        indom \<leftarrow> ldn m 20;
        units \<leftarrow> ld32 m 28;
        pmid \<leftarrow> ldn m 12;
        Some (Inr \<lparr>d_pmid = pmid, d_type = sint type, d_indom = indom, d_sem = sint sem,
          d_units = pm_ntohpmUnits units\<rparr>)
      })
   }"

section \<open>Credentials\<close>

definition LIMIT_CREDS :: int where "LIMIT_CREDS = 1024"

definition build_creds :: "u32 \<Rightarrow> pmCred list \<Rightarrow> mem \<Rightarrow> mem option" where
  "build_creds fr creds m = do {
     m \<leftarrow> put_hdr m (20 + (length creds - 1) * 4) PDU_CREDS fr;
     m \<leftarrow> stn m 12 (word_of_nat (length creds));
     stns m 16 creds
   }"

definition pmSendCreds :: "(int \<Rightarrow> bool \<times> int option) \<Rightarrow> xmit_env \<Rightarrow> int list \<Rightarrow> u32 \<Rightarrow> pmCred list \<Rightarrow> io \<Rightarrow>
    (int \<times> mem \<times> io) option" where
  "pmSendCreds e x writes fr creds s =
     (if int (length creds) \<le> 0 \<or> int (length creds) > LIMIT_CREDS then Some (PM_ERR_IPC, [], s)
      else pdu_send e x writes (20 + (int (length creds) - 1) * 4) (build_creds fr creds) s)"

definition pmDecodeCreds :: "bool \<Rightarrow> mem \<Rightarrow> (u32 \<times> pmCred list) c_result" where
  "pmDecodeCreds mal m = do {
     len \<leftarrow> pdu_len m;
     n \<leftarrow> ldn m 12;
     let numcred = sint n;
     (if numcred < 0 \<or> numcred > LIMIT_CREDS then Some (Inl PM_ERR_IPC)
      else if 20 + (numcred - 1) * 4 \<noteq> len then Some (Inl PM_ERR_IPC)
      else do {
        sender \<leftarrow> ld32 m 8;
        (if \<not> mal then Some (Inl (- ENOMEM))
         else do { list \<leftarrow> ldns m 16 (nat numcred); Some (Inr (sender, list)) })
      })
   }"

section \<open>Help text\<close>

definition PM_TEXT_PMID :: u32 where "PM_TEXT_PMID = 4"
definition PM_TEXT_INDOM :: u32 where "PM_TEXT_INDOM = 8"

definition build_text_req :: "u32 \<Rightarrow> u32 \<Rightarrow> u32 \<Rightarrow> mem \<Rightarrow> mem option" where
  "build_text_req fr ident type m = do {
     m \<leftarrow> put_hdr m 20 PDU_TEXT_REQ fr;
     m \<leftarrow> (if type AND PM_TEXT_PMID \<noteq> 0 then stn m 12 ident
          else if type AND PM_TEXT_INDOM \<noteq> 0 then stn m 12 ident
          else stn m 12 ident);
     stn m 16 type
   }"

definition pmSendTextReq :: "(int \<Rightarrow> bool \<times> int option) \<Rightarrow> xmit_env \<Rightarrow> int list \<Rightarrow> u32 \<Rightarrow> u32 \<Rightarrow> u32 \<Rightarrow> io \<Rightarrow>
    (int \<times> mem \<times> io) option" where
  "pmSendTextReq e x writes fr ident type = pdu_send e x writes 20 (build_text_req fr ident type)"

definition pmDecodeTextReq :: "mem \<Rightarrow> (u32 \<times> u32) c_result" where
  "pmDecodeTextReq m = do {
     len \<leftarrow> pdu_len m;
     (if u64 len < 20 then Some (Inl PM_ERR_IPC)
      else do {
        type \<leftarrow> ldn m 16;
        ident \<leftarrow> (if type AND PM_TEXT_PMID \<noteq> 0 then ldn m 12
                 else if type AND PM_TEXT_INDOM \<noteq> 0 then ldn m 12
                 else Some PM_INDOM_NULL);
        Some (Inr (ident, type))
      })
   }"

definition build_text :: "u32 \<Rightarrow> u32 \<Rightarrow> byte list \<Rightarrow> mem \<Rightarrow> mem option" where
  "build_text ctx ident buffer m = do {
     m \<leftarrow> put_hdr m (20 + PM_PDU_SIZE_BYTES (length buffer)) PDU_TEXT ctx;
     m \<leftarrow> st32 m 12 ident;
     m \<leftarrow> st32 m 16 (word_of_nat (length buffer));
     m \<leftarrow> st m 20 buffer;
     buflen \<leftarrow> ld32 m 16;
     stn m 16 buflen
   }"

definition pmSendText :: "(int \<Rightarrow> bool \<times> int option) \<Rightarrow> xmit_env \<Rightarrow> int list \<Rightarrow> u32 \<Rightarrow> u32 \<Rightarrow> byte list \<Rightarrow> io \<Rightarrow>
    (int \<times> mem \<times> io) option" where
  "pmSendText e x writes ctx ident buffer =
     pdu_send e x writes (20 + int (PM_PDU_SIZE_BYTES (length buffer))) (build_text ctx ident buffer)"

definition pmDecodeText :: "bool \<Rightarrow> mem \<Rightarrow> (u32 \<times> byte list) c_result" where
  "pmDecodeText mal m = do {
     len \<leftarrow> pdu_len m;
     (if u64 len < 20 then Some (Inl PM_ERR_IPC)
      else do {
        ident \<leftarrow> ld32 m 12;
        bl \<leftarrow> ldn m 16;
        let buflen = sint bl;
        (if buflen < 0 \<or> buflen \<ge> INT_MAX - 1 \<or> buflen > len then Some (Inl PM_ERR_IPC)
         else if u64 len < 20 + buflen then Some (Inl PM_ERR_IPC)
         else if \<not> mal then Some (Inl (- ENOMEM))
         else do { bs \<leftarrow> ld m 20 (nat buflen); Some (Inr (ident, strncpy bs @ [0])) })
      })
   }"

section \<open>Messages to and from a logger\<close>

definition build_log_request :: "int \<Rightarrow> mem \<Rightarrow> mem option" where
  "build_log_request type m = do { m \<leftarrow> put_hdr m 16 PDU_LOG_REQUEST 0; stn m 12 (word_of_int type) }"

definition pmSendLogRequest :: "(int \<Rightarrow> bool \<times> int option) \<Rightarrow> xmit_env \<Rightarrow> int list \<Rightarrow> int \<Rightarrow> io \<Rightarrow>
    (int \<times> mem \<times> io) option" where
  "pmSendLogRequest e x writes type = pdu_send e x writes 16 (build_log_request type)"

definition pmDecodeLogRequest :: "mem \<Rightarrow> int c_result" where
  "pmDecodeLogRequest m = do {
     len \<leftarrow> pdu_len m;
     (if u64 len < 16 then Some (Inl PM_ERR_IPC)
      else do { type \<leftarrow> ldn m 12; Some (Inr (sint type)) })
   }"

record pmLoggerStatus =
  ls_start_sec :: u32
  ls_start_usec :: u32
  ls_last_sec :: u32
  ls_last_usec :: u32
  ls_timenow_sec :: u32
  ls_timenow_usec :: u32
  ls_state :: u32
  ls_vol :: u32
  ls_size :: "byte list"
  ls_strings :: "byte list"

text \<open>The structure in memory; \<open>ls_strings\<close> are the host names and time zones (2 * 64 + 2 * 40
  bytes) and \<open>ls_size\<close> the bytes of a 64-bit integer.\<close>

definition status_bytes :: "pmLoggerStatus \<Rightarrow> byte list" where
  "status_bytes t = w2b (ls_start_sec t) @ w2b (ls_start_usec t) @ w2b (ls_last_sec t) @ w2b (ls_last_usec t) @
     w2b (ls_timenow_sec t) @ w2b (ls_timenow_usec t) @ w2b (ls_state t) @ w2b (ls_vol t) @
     ls_size t @ ls_strings t"

definition swap_status :: "mem \<Rightarrow> mem option" where
  "swap_status m = do {
     m \<leftarrow> swap32 40 m;
     m \<leftarrow> swap32 44 m;
     m \<leftarrow> pm_htonll 48 m;
     m \<leftarrow> swap32 16 m;
     m \<leftarrow> swap32 20 m;
     m \<leftarrow> swap32 24 m;
     m \<leftarrow> swap32 28 m;
     m \<leftarrow> swap32 32 m;
     swap32 36 m
   }"

definition build_log_status :: "pmLoggerStatus \<Rightarrow> mem \<Rightarrow> mem option" where
  "build_log_status t m = do {
     m \<leftarrow> put_hdr m 264 PDU_LOG_STATUS 0;
     m \<leftarrow> st m 16 (status_bytes t);
     swap_status m
   }"

definition pmSendLogStatus :: "(int \<Rightarrow> bool \<times> int option) \<Rightarrow> xmit_env \<Rightarrow> int list \<Rightarrow> pmLoggerStatus \<Rightarrow> io \<Rightarrow>
    (int \<times> mem \<times> io) option" where
  "pmSendLogStatus e x writes t = pdu_send e x writes 264 (build_log_status t)"

text \<open>The decoder converts in place and returns a pointer to offset 16 of the buffer, which is pinned once more for it.\<close>

definition decode_log_status :: "mem \<Rightarrow> mem c_result" where
  "decode_log_status m = do {
     len \<leftarrow> pdu_len m;
     (if u64 len \<noteq> 264 then Some (Inl PM_ERR_IPC)
      else do { m \<leftarrow> swap_status m; Some (Inr m) })
   }"

definition pmDecodeLogStatus :: "int \<Rightarrow> io \<Rightarrow> io c_result" where
  "pmDecodeLogStatus pdubuf s = do {
     r \<leftarrow> decode_log_status (heap s pdubuf);
     (case r of
        Inl e \<Rightarrow> Some (Inl e)
      | Inr m \<Rightarrow> do {
          p \<leftarrow> pmPinPDUBuf pdubuf (io_pool s);
          Some (Inr (s\<lparr>heap := (heap s)(pdubuf := m), io_pool := p\<rparr>))
        })
   }"

definition decoded_status :: "mem \<Rightarrow> byte list c_result" where
  "decoded_status m = do {
     r \<leftarrow> decode_log_status m;
     (case r of Inl e \<Rightarrow> Some (Inl e) | Inr m \<Rightarrow> do { bs \<leftarrow> ld m 16 248; Some (Inr bs) })
   }"

section \<open>Authentication\<close>

definition LIMIT_USER_AUTH :: int where "LIMIT_USER_AUTH = 2048"

definition build_user_auth :: "u32 \<Rightarrow> byte list \<Rightarrow> mem \<Rightarrow> mem option" where
  "build_user_auth fr payload m = do {
     m \<leftarrow> put_hdr m (12 + length payload) PDU_USER_AUTH fr;
     st m 12 payload
   }"

definition pmSendUserAuth :: "(int \<Rightarrow> bool \<times> int option) \<Rightarrow> xmit_env \<Rightarrow> int list \<Rightarrow> u32 \<Rightarrow> byte list \<Rightarrow> io \<Rightarrow>
    (int \<times> mem \<times> io) option" where
  "pmSendUserAuth e x writes fr payload s =
     (if int (length payload) < 0 \<or> int (length payload) \<ge> LIMIT_USER_AUTH then Some (PM_ERR_IPC, [], s)
      else pdu_send e x writes (12 + int (length payload)) (build_user_auth fr payload) s)"

text \<open>The result is the length and a pointer into the PDU, here the bytes it points to.\<close>

definition pmDecodeUserAuth :: "mem \<Rightarrow> (int \<times> byte list option) c_result" where
  "pmDecodeUserAuth m = do {
     len \<leftarrow> pdu_len m;
     let length = s32 (len - 12);
     (if length < 0 \<or> length \<ge> LIMIT_USER_AUTH then Some (Inl PM_ERR_IPC)
      else if length = 0 then Some (Inr (0, None))
      else do { bs \<leftarrow> ld m 12 (nat length); Some (Inr (length, Some bs)) })
   }"


section \<open>Encoders and decoders agree\<close>

interpretation error_codec: pdu_codec "\<lambda>x. is_int32 (snd x)" PDU_ERROR fst "\<lambda>_. 16" "\<lambda>_. 4"
  "\<lambda>x body. body = n2b (word_of_int (snd x))" "\<lambda>x. build_error (fst x) (snd x)" pmDecodeError snd
proof
  fix x :: "u32 \<times> int" and m body :: mem
  assume wf: "is_int32 (snd x)" and b: "body = n2b (word_of_int (snd x))"
    and at: "bytes_at m 0 (mk_pdu PDU_ERROR (fst x) body)"
  from pdu_len_pdu [OF at] pdu_body [OF at] show "pmDecodeError m = Some (Inr (snd x))"
    using wf b by (simp add: pmDecodeError_def bytes_at_ldn)
qed (auto simp: codec_size build_error_def build_simps)

interpretation desc_req_codec: pdu_codec "\<lambda>x. True" PDU_DESC_REQ fst "\<lambda>_. 16" "\<lambda>_. 4"
  "\<lambda>x body. body = n2b (snd x)" "\<lambda>x. build_desc_req (fst x) (snd x)" pmDecodeDescReq snd
proof
  fix x :: "u32 \<times> u32" and m body :: mem
  assume b: "body = n2b (snd x)" and at: "bytes_at m 0 (mk_pdu PDU_DESC_REQ (fst x) body)"
  from pdu_len_pdu [OF at] pdu_body [OF at] show "pmDecodeDescReq m = Some (Inr (snd x))"
    using b by (simp add: pmDecodeDescReq_def bytes_at_ldn)
qed (auto simp: codec_size build_desc_req_def build_simps)

definition wf_desc :: "pmDesc \<Rightarrow> bool" where
  "wf_desc d \<longleftrightarrow> is_int32 (d_type d) \<and> is_int32 (d_sem d)"

definition desc_body :: "pmDesc \<Rightarrow> mem" where
  "desc_body d = n2b (d_pmid d) @ n2b (word_of_int (d_type d)) @ n2b (d_indom d) @
     n2b (word_of_int (d_sem d)) @ n2b (d_units d)"

lemma length_desc_body [simp]: "length (desc_body d) = 20"
  by (simp add: desc_body_def)

interpretation desc_codec: pdu_codec "\<lambda>x. wf_desc (snd x)" PDU_DESC fst "\<lambda>_. 32" "\<lambda>_. 20"
  "\<lambda>x body. body = desc_body (snd x)" "\<lambda>x. build_desc (fst x) (snd x)" pmDecodeDesc snd
proof
  fix x :: "u32 \<times> pmDesc" and m body :: mem
  assume wf: "wf_desc (snd x)" and b: "body = desc_body (snd x)"
    and at: "bytes_at m 0 (mk_pdu PDU_DESC (fst x) body)"
  have "bytes_at m 12 (desc_body (snd x))" using pdu_body [OF at] b by simp
  then show "pmDecodeDesc m = Some (Inr (snd x))"
    using pdu_len_pdu [OF at] wf b
    by (auto simp: pmDecodeDesc_def desc_body_def bytes_at_append wf_desc_def pm_ntohpmUnits_def n2b_def
        bytes_at_ld32 ldn_def)
qed (auto simp: codec_size build_desc_def desc_body_def build_simps pm_htonpmUnits_def n2b_def)


lemma xtend_error_build:
  assumes "20 \<le> length m"
  shows "\<exists>m'. build_xtend_error fr code datum m = Some m' \<and> length m' = length m \<and>
    bytes_at m' 0 (mk_pdu PDU_ERROR fr (n2b (word_of_int (XLATE_ERR_2TO1 code)) @ w2b datum))"
  using assms by (simp add: build_xtend_error_def build_simps)

lemma xtend_error_decode:
  assumes at: "bytes_at m 0 (mk_pdu PDU_ERROR fr (n2b c @ w2b datum))"
  shows "pmDecodeXtendError m = Some (PDU_VERSION2, XLATE_ERR_1TO2 (sint c), Some datum)"
  using pdu_len_pdu [OF at] pdu_body [OF at]
  by (auto simp: pmDecodeXtendError_def bytes_at_append bytes_at_ldn bytes_at_ld32)

definition wf_creds :: "pmCred list \<Rightarrow> bool" where
  "wf_creds cs \<longleftrightarrow> 0 < length cs \<and> int (length cs) \<le> LIMIT_CREDS"

interpretation creds_codec: pdu_codec "\<lambda>x. wf_creds (snd x)" PDU_CREDS fst
  "\<lambda>x. 20 + (int (length (snd x)) - 1) * 4" "\<lambda>x. 4 + 4 * length (snd x)"
  "\<lambda>x body. body = n2b (word_of_nat (length (snd x))) @ concat (map n2b (snd x))"
  "\<lambda>x. build_creds (fst x) (snd x)" "pmDecodeCreds True" "\<lambda>x. x"
proof
  fix x :: "u32 \<times> pmCred list" and m body :: mem
  assume wf: "wf_creds (snd x)" and b: "body = n2b (word_of_nat (length (snd x))) @ concat (map n2b (snd x))"
    and at: "bytes_at m 0 (mk_pdu PDU_CREDS (fst x) body)"
  let ?n = "length (snd x)"
  have n: "0 < ?n" "?n \<le> 1024" using wf by (auto simp: wf_creds_def LIMIT_CREDS_def)
  have "pdu_len m = Some (16 + 4 * int ?n)"
    using pdu_len_pdu [OF at] sint_pdu_len [of "12 + length body"] n b by simp
  moreover have "bytes_at m 12 (n2b (word_of_nat ?n))" "bytes_at m 16 (concat (map n2b (snd x)))"
    using pdu_body [OF at] b by (auto simp: bytes_at_append)
  then have "ldn m 12 = Some (word_of_nat ?n)" "ldns m 16 ?n = Some (snd x)"
    by (auto intro: bytes_at_ldn bytes_at_ldns)
  moreover have "sint (word_of_nat ?n :: u32) = int ?n" using n by (intro sint_pdu_len) simp
  ultimately show "pmDecodeCreds True m = Some (Inr x)"
    using pdu_from_pdu [OF at] n by (simp add: pmDecodeCreds_def LIMIT_CREDS_def)
next
  fix x :: "u32 \<times> pmCred list" and m :: mem
  let ?n = "length (snd x)"
  assume "wf_creds (snd x)" and m: "20 + (int (length (snd x)) - 1) * 4 \<le> int (length m)"
  then have n: "0 < ?n" "?n \<le> 1024" by (auto simp: wf_creds_def LIMIT_CREDS_def)
  have "20 + (?n - 1) * 4 = 16 + 4 * ?n" using n by (cases ?n) auto
  then show "\<exists>m' body. build_creds (fst x) (snd x) m = Some m' \<and> length m' = length m \<and>
      body = n2b (word_of_nat (length (snd x))) @ concat (map n2b (snd x)) \<and>
      bytes_at m' 0 (mk_pdu PDU_CREDS (fst x) body)"
    using m by (simp add: build_creds_def build_simps mult.commute [of _ 4])
qed (auto simp: codec_size wf_creds_def LIMIT_CREDS_def)

definition wf_text_type :: "u32 \<Rightarrow> bool" where
  "wf_text_type t \<longleftrightarrow> t AND PM_TEXT_PMID \<noteq> 0 \<or> t AND PM_TEXT_INDOM \<noteq> 0"

interpretation text_req_codec: pdu_codec "\<lambda>x. wf_text_type (snd (snd x))" PDU_TEXT_REQ fst "\<lambda>_. 20" "\<lambda>_. 8"
  "\<lambda>x body. body = n2b (fst (snd x)) @ n2b (snd (snd x))" "\<lambda>x. build_text_req (fst x) (fst (snd x)) (snd (snd x))"
  pmDecodeTextReq snd
proof
  fix x :: "u32 \<times> u32 \<times> u32" and m body :: mem
  assume wf: "wf_text_type (snd (snd x))" and b: "body = n2b (fst (snd x)) @ n2b (snd (snd x))"
    and at: "bytes_at m 0 (mk_pdu PDU_TEXT_REQ (fst x) body)"
  have "ldn m 12 = Some (fst (snd x))" "ldn m 16 = Some (snd (snd x))"
    using pdu_body [OF at] b by (auto simp: bytes_at_append intro: bytes_at_ldn)
  with pdu_len_pdu [OF at] show "pmDecodeTextReq m = Some (Inr (snd x))"
    using wf b by (auto simp: pmDecodeTextReq_def wf_text_type_def)
qed (auto simp: codec_size build_text_req_def build_simps)

interpretation log_request_codec: pdu_codec is_int32 PDU_LOG_REQUEST "\<lambda>_. 0" "\<lambda>_. 16" "\<lambda>_. 4"
  "\<lambda>x body. body = n2b (word_of_int x)" build_log_request pmDecodeLogRequest "\<lambda>x. x"
proof
  fix x :: int and m body :: mem
  assume wf: "is_int32 x" and b: "body = n2b (word_of_int x)"
    and at: "bytes_at m 0 (mk_pdu PDU_LOG_REQUEST 0 body)"
  from pdu_len_pdu [OF at] pdu_body [OF at] show "pmDecodeLogRequest m = Some (Inr x)"
    using wf b by (simp add: pmDecodeLogRequest_def bytes_at_ldn)
qed (auto simp: codec_size build_log_request_def build_simps)

interpretation user_auth_codec: pdu_codec "\<lambda>x. 0 < length (snd x) \<and> int (length (snd x)) < LIMIT_USER_AUTH" PDU_USER_AUTH
  fst "\<lambda>x. 12 + int (length (snd x))" "\<lambda>x. length (snd x)" "\<lambda>x body. body = snd x"
  "\<lambda>x. build_user_auth (fst x) (snd x)" pmDecodeUserAuth "\<lambda>x. (int (length (snd x)), Some (snd x))"
proof
  fix x :: "u32 \<times> byte list" and m body :: mem
  assume wf: "0 < length (snd x) \<and> int (length (snd x)) < LIMIT_USER_AUTH" and b: "body = snd x"
    and at: "bytes_at m 0 (mk_pdu PDU_USER_AUTH (fst x) body)"
  have n: "length (snd x) < 2048" using wf by (simp add: LIMIT_USER_AUTH_def)
  have "pdu_len m = Some (12 + int (length (snd x)))"
    using pdu_len_pdu [OF at] sint_pdu_len [of "12 + length body"] n b by simp
  moreover have "s32 (int (length (snd x))) = int (length (snd x))"
    using n by (intro s32_id) (simp add: is_int32_def)
  ultimately show "pmDecodeUserAuth m = Some (Inr (int (length (snd x)), Some (snd x)))"
    using wf pdu_body [OF at] b by (simp add: pmDecodeUserAuth_def bytes_at_ld)
qed (auto simp: codec_size LIMIT_USER_AUTH_def build_user_auth_def build_simps)


definition wf_text :: "byte list \<Rightarrow> bool" where
  "wf_text bs \<longleftrightarrow> 0 \<notin> set bs \<and> length bs < 2 ^ 30"

interpretation text_codec: pdu_codec "\<lambda>x. wf_text (snd (snd x))" PDU_TEXT fst
  "\<lambda>x. 20 + int (PM_PDU_SIZE_BYTES (length (snd (snd x))))" "\<lambda>x. 8 + PM_PDU_SIZE_BYTES (length (snd (snd x)))"
  "\<lambda>x body. \<exists>pad. body = w2b (fst (snd x)) @ n2b (word_of_nat (length (snd (snd x)))) @ snd (snd x) @ pad \<and>
     length (snd (snd x)) + length pad = PM_PDU_SIZE_BYTES (length (snd (snd x)))"
  "\<lambda>x. build_text (fst x) (fst (snd x)) (snd (snd x))" "pmDecodeText True"
  "\<lambda>x. (fst (snd x), snd (snd x) @ [0])"
proof
  fix x :: "u32 \<times> u32 \<times> byte list" and m body :: mem
  let ?b = "snd (snd x)"
  let ?n = "length ?b"
  assume wf: "wf_text ?b" and at: "bytes_at m 0 (mk_pdu PDU_TEXT (fst x) body)"
    and enc: "\<exists>pad. body = w2b (fst (snd x)) @ n2b (word_of_nat ?n) @ ?b @ pad \<and>
      ?n + length pad = PM_PDU_SIZE_BYTES ?n"
  have n: "?n < 2 ^ 30" and z: "strncpy ?b = ?b" using wf by (auto simp: wf_text_def strncpy_id)
  have sz: "?n \<le> PM_PDU_SIZE_BYTES ?n" "PM_PDU_SIZE_BYTES ?n < ?n + 4"
    using PM_PDU_SIZE_BYTES_bounds by auto
  obtain pad where b: "body = w2b (fst (snd x)) @ n2b (word_of_nat ?n) @ ?b @ pad"
      "?n + length pad = PM_PDU_SIZE_BYTES ?n" using enc by blast
  have "length body = 8 + PM_PDU_SIZE_BYTES ?n" using b by simp
  then have len: "pdu_len m = Some (20 + int (PM_PDU_SIZE_BYTES ?n))"
    using pdu_len_pdu [OF at] sint_pdu_len [of "12 + length body"] sz n by simp
  have "ld32 m 12 = Some (fst (snd x))" "ldn m 16 = Some (word_of_nat ?n)" "ld m 20 ?n = Some ?b"
    using pdu_body [OF at] b(1) by (auto simp: bytes_at_append intro: bytes_at_ldn bytes_at_ld32 bytes_at_ld)
  moreover have "sint (word_of_nat ?n :: u32) = int ?n" using n by (intro sint_pdu_len) simp
  moreover have "u64 (20 + int (PM_PDU_SIZE_BYTES ?n)) = 20 + int (PM_PDU_SIZE_BYTES ?n)"
    using n sz by (intro u64_id) simp_all
  ultimately show "pmDecodeText True m = Some (Inr (fst (snd x), ?b @ [0]))"
    using len n z sz by (simp add: pmDecodeText_def INT_MAX_def)
next
  fix x :: "u32 \<times> u32 \<times> byte list" and m :: mem
  let ?b = "snd (snd x)"
  let ?n = "length ?b" and ?N = "PM_PDU_SIZE_BYTES (length (snd (snd x)))"
  assume m: "20 + int ?N \<le> int (length m)"
  have sz: "?n \<le> ?N" using PM_PDU_SIZE_BYTES_bounds by auto
  obtain pad where at: "bytes_at m (20 + ?n) pad" and pad: "length pad = ?N - ?n"
    using m sz by (auto intro: bytes_at_some [of "20 + ?n" "?N - ?n" m])
  let ?body = "w2b (fst (snd x)) @ n2b (word_of_nat ?n) @ ?b @ pad"
  have lb: "12 + length ?body = 20 + ?N" using pad sz by simp
  obtain m' where "build_text (fst x) (fst (snd x)) ?b m = Some m'" "length m' = length m"
      "bytes_at m' 0 (pdu (word_of_nat (20 + ?N)) (word_of_int PDU_TEXT) (fst x) ?body)"
    using m sz at pad by (simp add: build_text_def build_simps)
  then show "\<exists>m' body. build_text (fst x) (fst (snd x)) ?b m = Some m' \<and> length m' = length m \<and>
      (\<exists>pad. body = w2b (fst (snd x)) @ n2b (word_of_nat ?n) @ ?b @ pad \<and> ?n + length pad = ?N) \<and>
      bytes_at m' 0 (mk_pdu PDU_TEXT (fst x) body)"
    using pad sz by (intro exI [of _ m'] exI [of _ ?body]) (simp add: lb [simplified])
next
  fix x :: "u32 \<times> u32 \<times> byte list"
  assume "wf_text (snd (snd x))"
  then show "12 + (8 + PM_PDU_SIZE_BYTES (length (snd (snd x)))) \<le> nat (INT_MAX - 2 * PDU_CHUNK)"
    using PM_PDU_SIZE_BYTES_bounds [of "length (snd (snd x))"]
    by (simp add: wf_text_def INT_MAX_def PDU_CHUNK_def)
qed (auto simp: PDU_defs)

definition wf_status :: "pmLoggerStatus \<Rightarrow> bool" where
  "wf_status t \<longleftrightarrow> length (ls_size t) = 8 \<and> length (ls_strings t) = 208"

definition net_status :: "pmLoggerStatus \<Rightarrow> byte list" where
  "net_status t = n2b (ls_start_sec t) @ n2b (ls_start_usec t) @ n2b (ls_last_sec t) @ n2b (ls_last_usec t) @
     n2b (ls_timenow_sec t) @ n2b (ls_timenow_usec t) @ n2b (ls_state t) @ n2b (ls_vol t) @
     rev (ls_size t) @ ls_strings t"

lemma swap_status_spec:
  assumes at: "bytes_at m 16 (w2b a @ w2b b @ w2b c @ w2b d @ w2b e @ w2b f @ w2b g @ w2b h @ sz @ rest)"
    and sz: "length sz = 8"
  shows "\<exists>m'. swap_status m = Some m' \<and> length m' = length m \<and>
    (\<forall>p bs. p + length bs \<le> 16 \<longrightarrow> bytes_at m p bs \<longrightarrow> bytes_at m' p bs) \<and>
    bytes_at m' 16 (w2b (htonl a) @ w2b (htonl b) @ w2b (htonl c) @ w2b (htonl d) @ w2b (htonl e) @ w2b (htonl f) @
      w2b (htonl g) @ w2b (htonl h) @ rev sz @ rest)"
proof -
  have len: "56 + length rest \<le> length m" using bytes_at_bound [OF at] sz by simp
  have ll: "bytes_at k 48 sz \<Longrightarrow> pm_htonll 48 k = Some (upd k 48 (rev sz))" for k
    using pm_htonll_spec sz by blast
  have ld: "ld32 m 16 = Some a" "ld32 m 20 = Some b" "ld32 m 24 = Some c" "ld32 m 28 = Some d" "ld32 m 32 = Some e"
    "ld32 m 36 = Some f" "ld32 m 40 = Some g" "ld32 m 44 = Some h"
    and bs: "bytes_at m 48 sz" "bytes_at m 56 rest"
    using at sz by (auto simp: bytes_at_append intro: bytes_at_ld32)
  show ?thesis
    using len ld bs sz by (simp add: swap_status_def swap32_def mem_simps ll bytes_at_append)
qed

lemma swap_status_host:
  assumes "bytes_at m 16 (status_bytes t)" "wf_status t"
  shows "\<exists>m'. swap_status m = Some m' \<and> length m' = length m \<and>
    (\<forall>p bs. p + length bs \<le> 16 \<longrightarrow> bytes_at m p bs \<longrightarrow> bytes_at m' p bs) \<and> bytes_at m' 16 (net_status t)"
  using swap_status_spec [OF assms(1) [unfolded status_bytes_def]] assms(2)
  by (simp add: wf_status_def net_status_def n2b_def)

lemma swap_status_net:
  assumes "bytes_at m 16 (net_status t)" "wf_status t"
  shows "\<exists>m'. swap_status m = Some m' \<and> length m' = length m \<and> bytes_at m' 16 (status_bytes t)"
  using swap_status_spec [OF assms(1) [unfolded net_status_def n2b_def]] assms(2)
  by (auto simp: wf_status_def status_bytes_def)

interpretation log_status_codec: pdu_codec wf_status PDU_LOG_STATUS "\<lambda>_. 0" "\<lambda>_. 264" "\<lambda>_. 252"
  "\<lambda>t body. \<exists>pad. body = pad @ net_status t \<and> length pad = 4" build_log_status decoded_status status_bytes
proof
  fix t :: pmLoggerStatus and m body :: mem
  assume wf: "wf_status t" and enc: "\<exists>pad. body = pad @ net_status t \<and> length pad = 4"
    and at: "bytes_at m 0 (mk_pdu PDU_LOG_STATUS 0 body)"
  obtain pad where b: "body = pad @ net_status t" "length pad = 4" using enc by blast
  have "length (net_status t) = 248" using wf by (simp add: net_status_def wf_status_def)
  then have len: "pdu_len m = Some 264" using pdu_len_pdu [OF at] b by simp
  have "bytes_at m 16 (net_status t)" using pdu_body [OF at] b by (simp add: bytes_at_append)
  from swap_status_net [OF this wf]
  obtain m' where "swap_status m = Some m'" "bytes_at m' 16 (status_bytes t)" by blast
  moreover have "length (status_bytes t) = 248" using wf by (simp add: status_bytes_def wf_status_def)
  ultimately show "decoded_status m = Some (Inr (status_bytes t))"
    using len by (simp add: decoded_status_def decode_log_status_def bytes_at_ld)
next
  fix t :: pmLoggerStatus and m :: mem
  assume wf: "wf_status t" and m: "264 \<le> int (length m)"
  let ?h = "upd (upd (upd m 0 (w2b 264)) 4 (w2b (word_of_int PDU_LOG_STATUS))) 8 (w2b 0)"
  let ?m = "upd ?h 16 (status_bytes t)"
  have ls: "length (status_bytes t) = 248" using wf by (simp add: status_bytes_def wf_status_def)
  obtain pad where at: "bytes_at m 12 pad" and pad: "length pad = 4"
    using m by (auto intro: bytes_at_some [of 12 4 m])
  have hd: "bytes_at ?m 0 (w2b 264 @ w2b (word_of_int PDU_LOG_STATUS) @ w2b 0)" "bytes_at ?m 12 pad"
    using m ls at pad by (simp_all add: bytes_at_append mem_simps)
  have "bytes_at ?m 16 (status_bytes t)" using m ls by simp
  from swap_status_host [OF this wf]
  obtain m' where sw: "swap_status ?m = Some m'" "length m' = length ?m" "bytes_at m' 16 (net_status t)"
      "\<forall>p bs. p + length bs \<le> 16 \<longrightarrow> bytes_at ?m p bs \<longrightarrow> bytes_at m' p bs"
    by blast
  have "bytes_at m' 0 (w2b 264 @ w2b (word_of_int PDU_LOG_STATUS) @ w2b 0)" "bytes_at m' 12 pad"
    using sw(4) hd pad by simp_all
  then have "bytes_at m' 0 (pdu 264 (word_of_int PDU_LOG_STATUS) 0 (pad @ net_status t))"
    using sw(3) pad by (simp add: bytes_at_pdu bytes_at_append' [of 16])
  moreover have "build_log_status t m = Some m'"
    using m ls sw(1) by (simp add: build_log_status_def put_hdr_spec mem_simps)
  moreover have "length (net_status t) = 248" using wf by (simp add: net_status_def wf_status_def)
  ultimately show "\<exists>m' body. build_log_status t m = Some m' \<and> length m' = length m \<and>
      (\<exists>pad. body = pad @ net_status t \<and> length pad = 4) \<and> bytes_at m' 0 (mk_pdu PDU_LOG_STATUS 0 body)"
    using sw(2) m ls pad by (intro exI [of _ m'] exI [of _ "pad @ net_status t"]) auto
qed (auto simp: codec_size net_status_def wf_status_def)


section \<open>Properties\<close>

text \<open>a metric descriptor sent with \<open>__pmSendDesc\<close> and read by another process with
  \<open>__pmGetPDU\<close>, however the bytes are fragmented, is decoded by \<open>__pmDecodeDesc\<close> to the same
  descriptor; the sender holds no buffer afterwards and the receiver exactly the one delivered.\<close>

theorem desc_end_to_end:
  assumes "wf_desc d" and "can_send e 32 s" and "drains writes 32"
  shows "\<exists>sent s'. pmSendDesc e xe writes ctx d s = Some (32, sent, s') \<and>
    pin_held s' = pin_held s \<and> length sent = 32 \<and>
    (\<forall>g mode timeout trips r rest.
       can_recv g mode timeout 32 trips r \<longrightarrow> stream trips = sent @ rest \<longrightarrow>
       (\<exists>a ts r'. pmGetPDU g mode timeout trips r = Some ((PDU_DESC, Some a), ts, r') \<and>
         pmDecodeDesc (heap r' a) = Some (Inr d) \<and> stream ts = rest \<and>
         pin_held r' = (pin_held r)(a := 1)))"
  using desc_codec.end_to_end [of "(ctx, d)" e s writes xe] assms by (simp add: pmSendDesc_def)

text \<open>help text of any length without NUL characters, sent with \<open>__pmSendText\<close>, arrives and is
  decoded by \<open>__pmDecodeText\<close> to the same identifier and the same text with a terminating NUL,
  although the padding bytes sent after the text are whatever the buffer held.\<close>

theorem text_end_to_end:
  assumes "wf_text buffer" and "can_send e (20 + int (PM_PDU_SIZE_BYTES (length buffer))) s"
    and "drains writes (20 + PM_PDU_SIZE_BYTES (length buffer))"
  shows "\<exists>sent s'. pmSendText e xe writes ctx ident buffer s =
      Some (20 + int (PM_PDU_SIZE_BYTES (length buffer)), sent, s') \<and>
    pin_held s' = pin_held s \<and> length sent = 20 + PM_PDU_SIZE_BYTES (length buffer) \<and>
    (\<forall>g mode timeout trips r rest.
       can_recv g mode timeout (20 + int (PM_PDU_SIZE_BYTES (length buffer))) trips r \<longrightarrow>
       stream trips = sent @ rest \<longrightarrow>
       (\<exists>a ts r'. pmGetPDU g mode timeout trips r = Some ((PDU_TEXT, Some a), ts, r') \<and>
         pmDecodeText True (heap r' a) = Some (Inr (ident, buffer @ [0])) \<and> stream ts = rest \<and>
         pin_held r' = (pin_held r)(a := 1)))"
  using text_codec.end_to_end [of "(ctx, ident, buffer)" e s writes xe] assms
  by (simp add: pmSendText_def add.assoc [symmetric])

text \<open>between 1 and 1024 credentials built by \<open>__pmSendCreds\<close> are decoded by \<open>__pmDecodeCreds\<close> to the
  same list and the same sender.\<close>

theorem creds_roundtrip:
  assumes "wf_creds creds" and "16 + 4 * length creds \<le> length m"
  shows "\<exists>m'. build_creds fr creds m = Some m' \<and> pmDecodeCreds True m' = Some (Inr (fr, creds))"
  using creds_codec.roundtrip [of "(fr, creds)" m] assms by (simp add: algebra_simps)

text \<open>the status of a logger built by \<open>__pmSendLogStatus\<close> is restored byte for byte by the
  in-place conversion of \<open>__pmDecodeLogStatus\<close>.\<close>

theorem log_status_roundtrip:
  assumes "wf_status t" and "264 \<le> length m"
  shows "\<exists>m'. build_log_status t m = Some m' \<and> decoded_status m' = Some (Inr (status_bytes t))"
  using log_status_codec.roundtrip [of t m] assms by simp

text \<open>the extended error of the connection challenge carries a status in the old numbering; the
  receiver sees the status that was sent exactly when it is not in the gap between the two
  numberings, and always the datum.\<close>

theorem xtend_error_roundtrip:
  assumes "is_int32 code" and "20 \<le> length m"
  shows "\<exists>m' c. build_xtend_error fr code datum m = Some m' \<and>
    pmDecodeXtendError m' = Some (PDU_VERSION2, c, Some datum) \<and>
    (c = code \<longleftrightarrow> code \<le> - PM_ERR_BASE2 \<or> - PM_ERR_BASE1 < code)"
proof -
  obtain m' where m': "build_xtend_error fr code datum m = Some m'"
      "bytes_at m' 0 (mk_pdu PDU_ERROR fr (n2b (word_of_int (XLATE_ERR_2TO1 code)) @ w2b datum))"
    using xtend_error_build [OF assms(2)] by blast
  have "is_int32 (XLATE_ERR_2TO1 code)"
    using assms(1) by (auto simp: is_int32_def XLATE_ERR_2TO1_def PM_ERR_BASE1_def PM_ERR_BASE2_def)
  then show ?thesis
    using m'(1) xtend_error_decode [OF m'(2)]
    by (auto simp: XLATE_ERR_1TO2_def XLATE_ERR_2TO1_def PM_ERR_BASE1_def PM_ERR_BASE2_def)
qed

text \<open>A step that succeeds on a memory of a given length and keeps it.\<close>

definition swapped_in :: "nat \<Rightarrow> (mem \<Rightarrow> mem option) \<Rightarrow> bool" where
  "swapped_in n f \<longleftrightarrow> (\<forall>m. length m = n \<longrightarrow> (\<exists>m'. f m = Some m' \<and> length m' = n))"

lemma swapped_in_bind: "swapped_in n f \<Longrightarrow> swapped_in n g \<Longrightarrow> swapped_in n (\<lambda>m. do { m \<leftarrow> f m; g m })"
  by (fastforce simp: swapped_in_def)

lemma swapped_in_swap32: "i + 4 \<le> n \<Longrightarrow> swapped_in n (swap32 i)"
  using bytes_at_some [of i 4] by (fastforce simp: swapped_in_def swap32_def ld32_def bytes_at_def mem_simps)

lemma swapped_in_htonll: "i + 8 \<le> n \<Longrightarrow> swapped_in n (pm_htonll i)"
proof -
  assume i: "i + 8 \<le> n"
  have "\<exists>m'. pm_htonll i m = Some m' \<and> length m' = n" if n: "length m = n" for m
  proof -
    obtain bs where "bytes_at m i bs" "length bs = 8" using i n by (auto intro: bytes_at_some [of i 8 m])
    then show ?thesis using pm_htonll_spec [of m i bs] i n by simp
  qed
  then show ?thesis by (simp add: swapped_in_def)
qed

lemma swap_status_exact: "length m = 264 \<Longrightarrow> \<exists>m'. swap_status m = Some m' \<and> length m' = 264"
proof -
  have "swapped_in 264 swap_status" unfolding swap_status_def by (intro swapped_in_bind swapped_in_swap32 swapped_in_htonll) simp_all
  then show "length m = 264 \<Longrightarrow> ?thesis" by (simp add: swapped_in_def)
qed

text \<open>C31: on a PDU of any content, none of the decoders of errors, descriptors, texts, requests to a logger,
  its status and user authentication reads outside the PDU. \<open>__pmDecodeLogStatus\<close> of a PDU in a pinned buffer adds
  one pin to that buffer when it returns a status, which points into it, and none when it rejects the PDU.\<close>

theorem control_decoders_safe:
  assumes "exact_pdu m" and "heap s a = m" "pool_inv (io_pool s)" "1 \<le> pin_held s a" "pin_held s a < INT_MAX"
  shows "pmDecodeError m \<noteq> None \<and> pmDecodeXtendError m \<noteq> None \<and> pmDecodeDescReq m \<noteq> None \<and>
    pmDecodeDesc m \<noteq> None \<and> pmDecodeTextReq m \<noteq> None \<and> pmDecodeText mal m \<noteq> None \<and>
    pmDecodeLogRequest m \<noteq> None \<and> pmDecodeUserAuth m \<noteq> None \<and>
    (case pmDecodeLogStatus a s of
       None \<Rightarrow> False
     | Some (Inl e) \<Rightarrow> e = PM_ERR_IPC
     | Some (Inr s') \<Rightarrow> length m = 264 \<and> pin_held s' = (pin_held s)(a := pin_held s a + 1))"
proof (intro conjI)
  note len = exact_pdu_len [OF assms(1)] and bnd = exact_pdu_bound [OF assms(1)]
  have u: "u64 (int (length m)) = int (length m)" using bnd by simp
  show "pmDecodeError m \<noteq> None" "pmDecodeXtendError m \<noteq> None"
    by (auto simp: pmDecodeError_def pmDecodeXtendError_def len bind_None_iff simp del: not_None_eq)
  show "pmDecodeDescReq m \<noteq> None" "pmDecodeDesc m \<noteq> None" "pmDecodeTextReq m \<noteq> None"
      "pmDecodeLogRequest m \<noteq> None"
    by (auto simp: pmDecodeDescReq_def pmDecodeDesc_def pmDecodeTextReq_def pmDecodeLogRequest_def
        len u bind_None_iff simp del: not_None_eq)
  show "pmDecodeText mal m \<noteq> None"
    by (auto simp: pmDecodeText_def len u bind_None_iff Let_def simp del: not_None_eq)
  have "s32 (int (length m) - 12) = int (length m) - 12"
    using bnd by (intro s32_id) (auto simp: is_int32_def)
  then show "pmDecodeUserAuth m \<noteq> None"
    using bnd by (auto simp: pmDecodeUserAuth_def len bind_None_iff Let_def simp del: not_None_eq)
  have h: "held (pinmap (io_pool s)) a = pin_held s a" "0 < pin_held s a" using assms(4) by (simp_all add: pin_held_def)
  obtain p where p: "pmPinPDUBuf a (io_pool s) = Some p" "held (pinmap p) = (held (pinmap (io_pool s)))(a := pin_held s a + 1)"
    by (rule pdubuf.pin_again [OF assms(3) h assms(5)])
  show "case pmDecodeLogStatus a s of
      None \<Rightarrow> False | Some (Inl e) \<Rightarrow> e = PM_ERR_IPC
    | Some (Inr s') \<Rightarrow> length m = 264 \<and> pin_held s' = (pin_held s)(a := pin_held s a + 1)"
    using swap_status_exact [of m] p u len assms(2) by (cases "length m = 264") (auto simp: pmDecodeLogStatus_def decode_log_status_def pin_held_def)
qed

text \<open>\<open>__pmDecodeCreds\<close> reads the number of credentials before it looks at the length, so it reads
  past the end of a PDU exactly when the PDU is shorter than 16 bytes.\<close>

theorem creds_overread:
  assumes "exact_pdu m"
  shows "pmDecodeCreds mal m = None \<longleftrightarrow> length m < 16"
proof -
  note len = exact_pdu_len [OF assms] and bnd = exact_pdu_bound [OF assms]
  have "pmDecodeCreds mal m \<noteq> None" if "16 \<le> length m"
    using that by (auto simp: pmDecodeCreds_def len bind_None_iff Let_def ldns_None_iff simp del: not_None_eq)
  moreover have "pmDecodeCreds mal m = None" if "length m < 16"
    using that by (simp add: pmDecodeCreds_def len bind_None_iff)
  ultimately show ?thesis by (meson not_less)
qed

definition sample_desc :: pmDesc where
  "sample_desc = \<lparr>d_pmid = 0xf000001, d_type = 1, d_indom = PM_INDOM_NULL, d_sem = 3, d_units = 0x00100000\<rparr>"

lemma desc_end_to_end_witness:
  "\<exists>sent s' a ts r'. pmSendDesc (\<lambda>_. (False, None)) sample_xenv [20, 20] 7 sample_desc sample_io = Some (32, sent, s') \<and>
    pmGetPDU sample_env ANY_SIZE TIMEOUT_NEVER [Chunk (1, 0) (take 5 sent), Chunk (2, 0) (drop 5 sent)] sample_io =
      Some ((PDU_DESC, Some a), ts, r') \<and> pmDecodeDesc (heap r' a) = Some (Inr sample_desc)"
proof -
  have "wf_desc sample_desc" by (simp add: wf_desc_def sample_desc_def is_int32_def)
  from desc_end_to_end [OF this sample_can_send, of "[20, 20]" sample_xenv 7]
  obtain sent s' where snd: "pmSendDesc (\<lambda>_. (False, None)) sample_xenv [20, 20] 7 sample_desc sample_io = Some (32, sent, s')"
      "length sent = 32"
      "\<And>g mode timeout trips r rest. can_recv g mode timeout 32 trips r \<Longrightarrow> stream trips = sent @ rest \<Longrightarrow>
       (\<exists>a ts r'. pmGetPDU g mode timeout trips r = Some ((PDU_DESC, Some a), ts, r') \<and>
         pmDecodeDesc (heap r' a) = Some (Inr sample_desc) \<and> stream ts = rest \<and> pin_held r' = (pin_held r)(a := 1))"
    by (simp, blast)
  show ?thesis using snd(1,2) snd(3) [OF _ sample_trips(2)] sample_trips(1) [of sent] by fastforce
qed

lemma text_end_to_end_witness:
  "\<exists>sent s'. pmSendText (\<lambda>_. (False, None)) sample_xenv [24] 0 5 [104, 105] sample_io = Some (24, sent, s') \<and>
    pin_held s' = pin_held sample_io \<and> length sent = 24"
  using text_end_to_end [of "[104, 105]" "\<lambda>_. (False, None)" sample_io "[24]" sample_xenv 0 5]
  by (auto simp: wf_text_def PM_PDU_SIZE_BYTES_def PM_PDU_SIZE_def sample_can_send)

lemma creds_roundtrip_witness:
  "\<exists>m'. build_creds 9 [1, 2, 3] (replicate 28 0) = Some m' \<and> pmDecodeCreds True m' = Some (Inr (9, [1, 2, 3]))"
  using creds_roundtrip [of "[1, 2, 3]" "replicate 28 0" 9] by (simp add: wf_creds_def LIMIT_CREDS_def)

definition sample_status :: pmLoggerStatus where
  "sample_status = \<lparr>ls_start_sec = 1, ls_start_usec = 2, ls_last_sec = 3, ls_last_usec = 4,
     ls_timenow_sec = 5, ls_timenow_usec = 6, ls_state = 1, ls_vol = 0, ls_size = replicate 8 1,
     ls_strings = replicate 208 65\<rparr>"

lemma log_status_roundtrip_witness:
  "\<exists>m'. build_log_status sample_status (replicate 264 0) = Some m' \<and>
    decoded_status m' = Some (Inr (status_bytes sample_status))"
  using log_status_roundtrip [of sample_status "replicate 264 0"]
  by (simp add: wf_status_def sample_status_def)

lemma xtend_error_roundtrip_witness:
  "\<exists>m' c. build_xtend_error 0 (- 2000) 7 (replicate 20 0) = Some m' \<and>
    pmDecodeXtendError m' = Some (PDU_VERSION2, c, Some 7) \<and> c \<noteq> - 2000"
  using xtend_error_roundtrip [of "- 2000" "replicate 20 0" 0 7]
  by (auto simp: is_int32_def PM_ERR_BASE1_def PM_ERR_BASE2_def)

definition short_pdu :: mem where
  "short_pdu = w2b 12 @ w2b (word_of_int PDU_CREDS) @ w2b 0"

lemma exact_short_pdu: "exact_pdu short_pdu"
proof -
  have "bytes_at short_pdu 0 (w2b 12)" by (simp add: short_pdu_def bytes_at_def ld_def)
  then show ?thesis by (simp add: exact_pdu_def pdu_len_def bytes_at_ld32) (simp add: short_pdu_def)
qed

lemma exact_log_status: "exact_pdu (w2b 264 @ replicate 260 0)"
proof -
  have "bytes_at (w2b 264 @ replicate 260 0) 0 (w2b 264)" by (simp add: bytes_at_def ld_def)
  then show ?thesis by (simp add: exact_pdu_def pdu_len_def bytes_at_ld32)
qed

lemma control_decoders_safe_witness:
  "\<exists>s'. pmDecodeLogStatus 4096 (sample_io\<lparr>heap := (\<lambda>_. w2b 264 @ replicate 260 0), io_pool := run_pool1\<rparr>) = Some (Inr s') \<and> pin_held s' 4096 = 2"
proof -
  let ?s = "sample_io\<lparr>heap := (\<lambda>_. w2b 264 @ replicate 260 0), io_pool := run_pool1\<rparr>"
  have p: "pin_held ?s 4096 = 1" by (simp add: pin_held_def held_def pinmap_def buf_field_def run_pool1_def)
  have "pmDecodeLogStatus 4096 ?s \<noteq> Some (Inl PM_ERR_IPC)"
    using exact_pdu_len [OF exact_log_status] by (auto simp: pmDecodeLogStatus_def decode_log_status_def bind_eq_Some_conv split: sum.splits)
  then show ?thesis
    using control_decoders_safe [OF exact_log_status, of ?s 4096 True] pool_reachable_inv [OF run_pools(1)] p
    by (auto simp: INT_MAX_def split: option.splits sum.splits)
qed

lemma creds_overread_witness: "exact_pdu short_pdu \<and> pmDecodeCreds True short_pdu = None"
  using creds_overread [OF exact_short_pdu, of True] exact_short_pdu by (simp add: short_pdu_def)

end
