(* ===== verification/Pdu_Pmns.thy ===== *)
theory Pdu_Pmns
  imports Codec
begin

text \<open>
  The PDUs of the metric name space, \<^verbatim>\<open>p_pmns.c\<close>: lists of identifiers, lists of names with or
  without a status, and requests that carry one name. A name is the list of its characters; names
  in a PDU are prefixed by their length and padded to a word with \<open>'~'\<close>.
\<close>

section \<open>Identifier lists\<close>

definition build_id_list :: "u32 \<Rightarrow> u32 list \<Rightarrow> int \<Rightarrow> mem \<Rightarrow> mem option" where
  "build_id_list fr ids sts m = do {
     m \<leftarrow> put_hdr m (20 + 4 * length ids) PDU_PMNS_IDS fr;
     m \<leftarrow> stn m 12 (word_of_int sts);
     m \<leftarrow> stn m 16 (word_of_nat (length ids));
     stns m 20 ids
   }"

definition pmSendIDList :: "(int \<Rightarrow> bool \<times> int option) \<Rightarrow> xmit_env \<Rightarrow> int list \<Rightarrow> u32 \<Rightarrow> u32 list \<Rightarrow> int \<Rightarrow> io \<Rightarrow>
    (int \<times> mem \<times> io) option" where
  "pmSendIDList e x writes fr ids sts =
     pdu_send e x writes (20 + 4 * int (length ids)) (build_id_list fr ids sts)"

text \<open>The caller has allocated room for \<open>numids\<close> identifiers.\<close>

definition pmDecodeIDList :: "int \<Rightarrow> mem \<Rightarrow> (int \<times> u32 list) c_result" where
  "pmDecodeIDList numids m = do {
     len \<leftarrow> pdu_len m;
     (if u64 len < 20 then Some (Inl PM_ERR_IPC)
      else do {
        sts \<leftarrow> ldn m 12;
        n \<leftarrow> ldn m 16;
        let nids = sint n;
        (if nids \<le> 0 \<or> nids \<noteq> numids \<or> nids > len then Some (Inl PM_ERR_IPC)
         else if nids \<ge> (INT_MAX - 24) div 4 then Some (Inl PM_ERR_IPC)
         else if 24 + 4 * (nids - 1) > u64 len then Some (Inl PM_ERR_IPC)
         else do { ids \<leftarrow> ldns m 20 (nat numids); Some (Inr (sint sts, ids)) })
      })
   }"

section \<open>Name lists\<close>

text \<open>One turn of the encoder's loop at offset \<open>j\<close> of the names: the characters, the padding,
  then the length; and the variant that has a status in front.\<close>

fun put_names :: "byte list list \<Rightarrow> nat \<Rightarrow> mem \<Rightarrow> mem option" where
  "put_names [] j m = Some m"
| "put_names (name # names) j m = (
     let nt = 24 + j div 4 * 4; namelen = length name in do {
       m \<leftarrow> st m (nt + 4) name;
       m \<leftarrow> st m (nt + 4 + namelen) (pad_bytes namelen);
       m \<leftarrow> stn m nt (word_of_nat namelen);
       put_names names (j + 4 + PM_PDU_SIZE_BYTES namelen) m
     })"

fun put_name_status :: "(byte list \<times> int) list \<Rightarrow> nat \<Rightarrow> mem \<Rightarrow> mem option" where
  "put_name_status [] j m = Some m"
| "put_name_status ((name, status) # names) j m = (
     let nst = 24 + j div 4 * 4; namelen = length name in do {
       m \<leftarrow> stn m nst (word_of_int status);
       m \<leftarrow> st m (nst + 8) name;
       m \<leftarrow> st m (nst + 8 + namelen) (pad_bytes namelen);
       m \<leftarrow> stn m (nst + 4) (word_of_nat namelen);
       put_name_status names (j + 4 + 4 + PM_PDU_SIZE_BYTES namelen) m
     })"

definition names_need :: "byte list list \<Rightarrow> int list option \<Rightarrow> nat" where
  "names_need names sl =
     24 + (\<Sum>name\<leftarrow>names. PM_PDU_SIZE_BYTES (length name) + (if sl = None then 4 else 8))"

definition names_strbytes :: "byte list list \<Rightarrow> nat" where
  "names_strbytes names = (\<Sum>name\<leftarrow>names. length name + 1)"

definition build_name_list :: "u32 \<Rightarrow> byte list list \<Rightarrow> int list option \<Rightarrow> mem \<Rightarrow> mem option" where
  "build_name_list fr names sl m = do {
     m \<leftarrow> put_hdr m (names_need names sl) PDU_PMNS_NAMES fr;
     m \<leftarrow> stn m 12 (word_of_nat (names_strbytes names));
     m \<leftarrow> stn m 20 (word_of_nat (length names));
     (case sl of
        None \<Rightarrow> do { m \<leftarrow> stn m 16 0; put_names names 0 m }
      | Some ss \<Rightarrow> do { m \<leftarrow> stn m 16 (word_of_nat (length names)); put_name_status (zip names ss) 0 m })
   }"

definition pmSendNameList :: "(int \<Rightarrow> bool \<times> int option) \<Rightarrow> xmit_env \<Rightarrow> int list \<Rightarrow> u32 \<Rightarrow> byte list list \<Rightarrow>
    int list option \<Rightarrow> io \<Rightarrow> (int \<times> mem \<times> io) option" where
  "pmSendNameList e x writes fr names sl =
     pdu_send e x writes (int (names_need names sl)) (build_name_list fr names sl)"

text \<open>
  The decoder's loops: \<open>n\<close> names are left, \<open>j\<close> is the offset into the names, \<open>room\<close> is
  \<open>dest_end - dest\<close>, \<open>len\<close> the length of the PDU. Differences of pointers are compared as
  \<open>size_t\<close>.
\<close>

fun get_names :: "nat \<Rightarrow> nat \<Rightarrow> int \<Rightarrow> int \<Rightarrow> mem \<Rightarrow> byte list list c_result" where
  "get_names 0 j room len m = Some (Inr [])"
| "get_names (Suc n) j room len m = (
     let np = 24 + j div 4 * 4 in
     if 8 > u64 (len - int np) then Some (Inl PM_ERR_IPC)
     else do {
       w \<leftarrow> ldn m np;
       let namelen = sint w;
       (if u64 (4 + namelen) > u64 (len - int np) then Some (Inl PM_ERR_IPC)
        else if namelen < 0 \<or> s32 (namelen + 1) > room then Some (Inl PM_ERR_IPC)
        else do {
          name \<leftarrow> ld m (np + 4) (nat namelen);
          r \<leftarrow> get_names n (j + 4 + PM_PDU_SIZE_BYTES (nat namelen)) (room - (namelen + 1)) len m;
          Some (case r of Inl e \<Rightarrow> Inl e | Inr names \<Rightarrow> Inr (name # names))
        })
     })"

fun get_name_status :: "nat \<Rightarrow> nat \<Rightarrow> int \<Rightarrow> int \<Rightarrow> mem \<Rightarrow> (byte list \<times> int) list c_result" where
  "get_name_status 0 j room len m = Some (Inr [])"
| "get_name_status (Suc n) j room len m = (
     let np = 24 + j div 4 * 4 in
     if 12 > u64 (len - int np) then Some (Inl PM_ERR_IPC)
     else do {
       w \<leftarrow> ldn m (np + 4);
       let namelen = sint w;
       (if u64 (4 + 4 + namelen) > u64 (len - int np) then Some (Inl PM_ERR_IPC)
        else if namelen < 0 \<or> s32 (namelen + 1) > room then Some (Inl PM_ERR_IPC)
        else do {
          status \<leftarrow> ldn m np;
          name \<leftarrow> ld m (np + 8) (nat namelen);
          r \<leftarrow> get_name_status n (j + 4 + 4 + PM_PDU_SIZE_BYTES (nat namelen)) (room - (namelen + 1)) len m;
          Some (case r of Inl e \<Rightarrow> Inl e | Inr names \<Rightarrow> Inr ((name, sint status) # names))
        })
     })"

text \<open>\<open>want\<close> is \<open>statuslist != NULL\<close>; the result has the status values when they were asked for
  and present. The allocations are of the names (\<open>mal 0\<close>) and the status values (\<open>mal 1\<close>).\<close>

definition pmDecodeNameList :: "(nat \<Rightarrow> bool) \<Rightarrow> bool \<Rightarrow> mem \<Rightarrow> (byte list list \<times> int list option) c_result" where
  "pmDecodeNameList mal want m = do {
     len \<leftarrow> pdu_len m;
     (if u64 len < 24 then Some (Inl PM_ERR_IPC)
      else do {
        nn \<leftarrow> ldn m 20; ns \<leftarrow> ldn m 16; nb \<leftarrow> ldn m 12;
        let numnames = sint nn;
        let numstatus = sint ns;
        let nstrbytes = sint nb;
        (if numnames = 0 then Some (Inr ([], None))
         else if numnames < 0 \<or> nstrbytes < 0 then Some (Inl PM_ERR_IPC)
         else if numnames > len \<or> nstrbytes > len then Some (Inl PM_ERR_IPC)
         else if numstatus \<noteq> 0 \<and> numstatus \<noteq> numnames then Some (Inl PM_ERR_IPC)
         else if numnames \<ge> (INT_MAX - nstrbytes) div 8 then Some (Inl PM_ERR_IPC)
         else if \<not> mal 0 then Some (Inl (- ENOMEM))
         else if want \<and> numstatus > 0 \<and> numstatus \<ge> INT_MAX div 4 then Some (Inl PM_ERR_IPC)
         else if want \<and> numstatus > 0 \<and> \<not> mal 1 then Some (Inl (- ENOMEM))
         else if numstatus = 0 then do {
           r \<leftarrow> get_names (nat numnames) 0 nstrbytes len m;
           Some (case r of Inl e \<Rightarrow> Inl e | Inr names \<Rightarrow> Inr (names, None))
         }
         else do {
           r \<leftarrow> get_name_status (nat numnames) 0 nstrbytes len m;
           Some (case r of Inl e \<Rightarrow> Inl e
             | Inr ns \<Rightarrow> Inr (map fst ns, if want then Some (map snd ns) else None))
         })
      })
   }"

section \<open>Requests with one name\<close>

definition build_name_req :: "int \<Rightarrow> u32 \<Rightarrow> byte list \<Rightarrow> int \<Rightarrow> mem \<Rightarrow> mem option" where
  "build_name_req pdu_type fr name subtype m = do {
     m \<leftarrow> put_hdr m (20 + PM_PDU_SIZE_BYTES (length name)) pdu_type fr;
     m \<leftarrow> stn m 12 (word_of_int subtype);
     m \<leftarrow> stn m 16 (word_of_nat (length name));
     st m 20 name
   }"

definition SendNameReq :: "(int \<Rightarrow> bool \<times> int option) \<Rightarrow> xmit_env \<Rightarrow> int list \<Rightarrow> u32 \<Rightarrow> byte list \<Rightarrow> int \<Rightarrow> int \<Rightarrow> io \<Rightarrow>
    (int \<times> mem \<times> io) option" where
  "SendNameReq e x writes fr name pdu_type subtype =
     pdu_send e x writes (20 + int (PM_PDU_SIZE_BYTES (length name))) (build_name_req pdu_type fr name subtype)"

definition DecodeNameReq :: "bool \<Rightarrow> mem \<Rightarrow> (byte list \<times> int) c_result" where
  "DecodeNameReq mal m = do {
     len \<leftarrow> pdu_len m;
     (if u64 len < 20 then Some (Inl PM_ERR_IPC)
      else do {
        sub \<leftarrow> ldn m 12;
        w \<leftarrow> ldn m 16;
        let namelen = sint w;
        (if namelen < 0 \<or> namelen > len then Some (Inl PM_ERR_IPC)
         else if 20 + namelen > u64 len then Some (Inl PM_ERR_IPC)
         else if \<not> mal then Some (Inl (- ENOMEM))
         else do { name \<leftarrow> ld m 20 (nat namelen); Some (Inr (name @ [0], sint sub)) })
      })
   }"

definition pmSendChildReq :: "(int \<Rightarrow> bool \<times> int option) \<Rightarrow> xmit_env \<Rightarrow> int list \<Rightarrow> u32 \<Rightarrow> byte list \<Rightarrow> int \<Rightarrow> io \<Rightarrow>
    (int \<times> mem \<times> io) option" where
  "pmSendChildReq e x writes fr name subtype = SendNameReq e x writes fr name PDU_PMNS_CHILD subtype"

definition pmDecodeChildReq :: "bool \<Rightarrow> mem \<Rightarrow> (byte list \<times> int) c_result" where
  "pmDecodeChildReq mal m = DecodeNameReq mal m"

definition pmSendTraversePMNSReq :: "(int \<Rightarrow> bool \<times> int option) \<Rightarrow> xmit_env \<Rightarrow> int list \<Rightarrow> u32 \<Rightarrow> byte list \<Rightarrow> io \<Rightarrow>
    (int \<times> mem \<times> io) option" where
  "pmSendTraversePMNSReq e x writes fr name = SendNameReq e x writes fr name PDU_PMNS_TRAVERSE 0"

definition pmDecodeTraversePMNSReq :: "bool \<Rightarrow> mem \<Rightarrow> byte list c_result" where
  "pmDecodeTraversePMNSReq mal m = map_option (map_sum id fst) (DecodeNameReq mal m)"


section \<open>Encoders and decoders agree\<close>

interpretation id_list_codec: pdu_codec "\<lambda>x. n = length (fst (snd x)) \<and> 0 < n \<and> n < 2 ^ 28 \<and> is_int32 (snd (snd x))"
  PDU_PMNS_IDS fst "\<lambda>x. 20 + 4 * int (length (fst (snd x)))" "\<lambda>x. 8 + 4 * length (fst (snd x))"
  "\<lambda>x body. body = n2b (word_of_int (snd (snd x))) @ n2b (word_of_nat (length (fst (snd x)))) @
     concat (map n2b (fst (snd x)))"
  "\<lambda>x. build_id_list (fst x) (fst (snd x)) (snd (snd x))" "pmDecodeIDList (int n)"
  "\<lambda>x. (snd (snd x), fst (snd x))" for n
proof
  fix x :: "u32 \<times> u32 list \<times> int" and m body :: mem
  let ?ids = "fst (snd x)" and ?sts = "snd (snd x)"
  assume wf: "n = length ?ids \<and> 0 < n \<and> n < 2 ^ 28 \<and> is_int32 ?sts"
    and b: "body = n2b (word_of_int ?sts) @ n2b (word_of_nat (length ?ids)) @ concat (map n2b ?ids)"
    and at: "bytes_at m 0 (mk_pdu PDU_PMNS_IDS (fst x) body)"
  have "pdu_len m = Some (20 + 4 * int n)"
    using pdu_len_pdu [OF at] sint_pdu_len [of "12 + length body"] wf b by simp
  moreover have "ldn m 12 = Some (word_of_int ?sts)" "ldn m 16 = Some (word_of_nat n)" "ldns m 20 n = Some ?ids"
    using pdu_body [OF at] b wf by (auto simp: bytes_at_append intro: bytes_at_ldn bytes_at_ldns)
  moreover have "sint (word_of_nat n :: u32) = int n" using wf by (intro sint_pdu_len) simp
  moreover have "u64 (20 + 4 * int n) = 20 + 4 * int n" using wf by (intro u64_id) simp_all
  ultimately show "pmDecodeIDList (int n) m = Some (Inr (?sts, ?ids))"
    using wf by (auto simp: pmDecodeIDList_def INT_MAX_def Let_def)
qed (auto simp: INT_MAX_def PDU_CHUNK_def build_id_list_def build_simps)

definition name_status_bytes :: "byte list \<times> int \<Rightarrow> mem" where
  "name_status_bytes p = n2b (word_of_int (snd p)) @ name_bytes (fst p)"

lemma length_name_status_bytes [simp]:
  "length (name_status_bytes p) = 8 + PM_PDU_SIZE_BYTES (length (fst p))"
  by (simp add: name_status_bytes_def)

lemma put_names_spec:
  assumes "24 + j + length (concat (map name_bytes names)) \<le> length m" and "4 dvd j"
  shows "put_names names j m = Some (upd m (24 + j) (concat (map name_bytes names)))"
  using assms
proof (induction names arbitrary: j m)
  case Nil
  then show ?case by (simp add: upd_def)
next
  case (Cons name names)
  let ?n = "length name"
  let ?m = "upd m (24 + j) (name_bytes name)"
  have j: "j div 4 * 4 = j" using Cons.prems(2) by simp
  have len: "24 + j + (4 + PM_PDU_SIZE_BYTES ?n) \<le> length m" using Cons.prems by simp
  have "upd (upd (upd m (28 + j) name) (28 + j + ?n) (pad_bytes ?n)) (24 + j) (n2b (word_of_nat ?n)) = ?m"
    using len PM_PDU_SIZE_BYTES_bounds [of ?n]
    by (simp add: upd_upd_append [of "28 + j"] upd_upd_prepend [of "24 + j"] name_bytes_def)
  moreover have "put_names names (j + 4 + PM_PDU_SIZE_BYTES ?n) ?m =
      Some (upd ?m (24 + (j + 4 + PM_PDU_SIZE_BYTES ?n)) (concat (map name_bytes names)))"
    using Cons.prems len by (intro Cons.IH) (auto simp: dvd_add)
  moreover have "upd ?m (24 + (j + 4 + PM_PDU_SIZE_BYTES ?n)) (concat (map name_bytes names)) =
      upd m (24 + j) (concat (map name_bytes (name # names)))"
    using Cons.prems by (simp add: upd_upd_append)
  ultimately show ?case
    using len j PM_PDU_SIZE_BYTES_bounds [of ?n] by (simp add: mem_simps Let_def add.commute)
qed


lemma put_name_status_spec:
  assumes "24 + j + length (concat (map name_status_bytes ns)) \<le> length m" and "4 dvd j"
  shows "put_name_status ns j m = Some (upd m (24 + j) (concat (map name_status_bytes ns)))"
  using assms
proof (induction ns arbitrary: j m)
  case Nil
  then show ?case by (simp add: upd_def)
next
  case (Cons p ns)
  obtain name status where p: "p = (name, status)" by (cases p)
  let ?n = "length name"
  let ?m = "upd m (24 + j) (name_status_bytes p)"
  have j: "j div 4 * 4 = j" using Cons.prems(2) by simp
  have len: "24 + j + (8 + PM_PDU_SIZE_BYTES ?n) \<le> length m" using Cons.prems p by simp
  have "upd (upd (upd (upd m (24 + j) (n2b (word_of_int status))) (32 + j) name) (32 + j + ?n) (pad_bytes ?n))
      (28 + j) (n2b (word_of_nat ?n)) = ?m"
    using len PM_PDU_SIZE_BYTES_bounds [of ?n]
    by (simp add: upd_upd_append [of "32 + j"] upd_upd_prepend [of "28 + j"] upd_upd_append [of "24 + j"]
        name_status_bytes_def name_bytes_def p)
  moreover have "put_name_status ns (j + 4 + 4 + PM_PDU_SIZE_BYTES ?n) ?m =
      Some (upd ?m (24 + (j + 4 + 4 + PM_PDU_SIZE_BYTES ?n)) (concat (map name_status_bytes ns)))"
    using Cons.prems len p by (intro Cons.IH) (auto simp: dvd_add)
  moreover have "upd ?m (24 + (j + 4 + 4 + PM_PDU_SIZE_BYTES ?n)) (concat (map name_status_bytes ns)) =
      upd m (24 + j) (concat (map name_status_bytes (p # ns)))"
    using Cons.prems p by (simp add: upd_upd_append)
  ultimately show ?case
    using len j p PM_PDU_SIZE_BYTES_bounds [of ?n] by (simp add: mem_simps Let_def add.commute)
qed

lemma names_strbytes_simps [simp]:
  "names_strbytes [] = 0" "names_strbytes (name # names) = length name + 1 + names_strbytes names"
  by (simp_all add: names_strbytes_def)

lemma PM_PDU_SIZE_BYTES_pos: "name \<noteq> [] \<Longrightarrow> 4 \<le> PM_PDU_SIZE_BYTES (length name)"
  by (cases name) (auto simp: PM_PDU_SIZE_BYTES_def PM_PDU_SIZE_def)

lemma get_names_spec:
  assumes "bytes_at m (24 + j) (concat (map name_bytes names))" and "4 dvd j"
    and "len = 24 + j + length (concat (map name_bytes names))" and "len < 2 ^ 31"
    and "names \<noteq> [] \<longrightarrow> last names \<noteq> []" and "int (names_strbytes names) \<le> room"
  shows "get_names (length names) j room (int len) m = Some (Inr names)"
  using assms
proof (induction names arbitrary: j room)
  case (Cons name names)
  let ?n = "length name" and ?np = "24 + j"
  let ?rest = "concat (map name_bytes names)"
  have j: "j div 4 * 4 = j" using Cons.prems(2) by simp
  have d: "int len - int ?np = int (4 + PM_PDU_SIZE_BYTES ?n + length ?rest)"
    using Cons.prems(3) by simp
  then have diff: "u64 (int len - int ?np) = int (4 + PM_PDU_SIZE_BYTES ?n + length ?rest)"
    using Cons.prems(4) by (simp del: of_nat_add)
  have "4 \<le> PM_PDU_SIZE_BYTES ?n + length ?rest"
    using Cons.prems(5) PM_PDU_SIZE_BYTES_pos [of name] by (cases "name = []"; cases names) auto
  then have c1: "\<not> u64 (int len - int ?np) < 8" using diff by simp
  have sz: "?n \<le> PM_PDU_SIZE_BYTES ?n" by (rule PM_PDU_SIZE_BYTES_bounds)
  have n: "?n < 2 ^ 31 - 20" using Cons.prems(3,4) sz by simp
  have w: "ldn m ?np = Some (word_of_nat ?n)" "ld m (?np + 4) ?n = Some name"
    using Cons.prems(1) by (auto simp: name_bytes_def bytes_at_append add.assoc intro: bytes_at_ldn bytes_at_ld)
  have sn: "sint (word_of_nat ?n :: u32) = int ?n" using n by (intro sint_pdu_len) simp
  have "u64 (4 + int ?n) = 4 + int ?n" using n by (intro u64_id) simp_all
  then have c2: "\<not> u64 (int len - int ?np) < u64 (4 + int ?n)" using diff sz by simp
  have c3: "s32 (int ?n + 1) = int ?n + 1" using n by (intro s32_id) (simp add: is_int32_def)
  have "bytes_at m (24 + (j + 4 + PM_PDU_SIZE_BYTES ?n)) ?rest"
    using Cons.prems(1) by (simp add: bytes_at_append add.assoc)
  then have "get_names (length names) (j + 4 + PM_PDU_SIZE_BYTES ?n) (room - (int ?n + 1)) (int len) m = Some (Inr names)"
    using Cons.prems by (intro Cons.IH) (auto simp: dvd_add split: if_splits)
  then show ?case
    using c1 c2 c3 w sn j Cons.prems(6) by (simp add: Let_def)
qed simp

lemma get_name_status_spec:
  assumes "bytes_at m (24 + j) (concat (map name_status_bytes ns))" and "4 dvd j"
    and "len = 24 + j + length (concat (map name_status_bytes ns))" and "len < 2 ^ 31"
    and "ns \<noteq> [] \<longrightarrow> fst (last ns) \<noteq> []" and "int (names_strbytes (map fst ns)) \<le> room"
    and "list_all (\<lambda>p. is_int32 (snd p)) ns"
  shows "get_name_status (length ns) j room (int len) m = Some (Inr ns)"
  using assms
proof (induction ns arbitrary: j room)
  case (Cons p ns)
  obtain name status where p: "p = (name, status)" by (cases p)
  let ?n = "length name" and ?np = "24 + j"
  let ?rest = "concat (map name_status_bytes ns)"
  have j: "j div 4 * 4 = j" using Cons.prems(2) by simp
  have d: "int len - int ?np = int (8 + PM_PDU_SIZE_BYTES ?n + length ?rest)"
    using Cons.prems(3) p by simp
  then have diff: "u64 (int len - int ?np) = int (8 + PM_PDU_SIZE_BYTES ?n + length ?rest)"
    using Cons.prems(4) by (simp del: of_nat_add)
  have "4 \<le> PM_PDU_SIZE_BYTES ?n + length ?rest"
    using Cons.prems(5) PM_PDU_SIZE_BYTES_pos [of name] p by (cases "name = []"; cases ns) auto
  then have c1: "\<not> u64 (int len - int ?np) < 12" using diff by simp
  have sz: "?n \<le> PM_PDU_SIZE_BYTES ?n" by (rule PM_PDU_SIZE_BYTES_bounds)
  have n: "?n < 2 ^ 31 - 20" using Cons.prems(3,4) sz p by simp
  have w: "ldn m ?np = Some (word_of_int status)" "ldn m (?np + 4) = Some (word_of_nat ?n)"
      "ld m (?np + 8) ?n = Some name"
    using Cons.prems(1) p
    by (auto simp: name_status_bytes_def name_bytes_def bytes_at_append add.assoc intro: bytes_at_ldn bytes_at_ld)
  have sn: "sint (word_of_nat ?n :: u32) = int ?n" using n by (intro sint_pdu_len) simp
  have "u64 (4 + 4 + int ?n) = 8 + int ?n" using n by (subst u64_id) simp_all
  then have c2: "\<not> u64 (int len - int ?np) < u64 (4 + 4 + int ?n)" using diff sz by simp
  have c3: "s32 (int ?n + 1) = int ?n + 1" using n by (intro s32_id) (simp add: is_int32_def)
  have "bytes_at m (24 + (j + 4 + 4 + PM_PDU_SIZE_BYTES ?n)) ?rest"
    using Cons.prems(1) p by (simp add: bytes_at_append add.assoc)
  then have "get_name_status (length ns) (j + 4 + 4 + PM_PDU_SIZE_BYTES ?n) (room - (int ?n + 1)) (int len) m = Some (Inr ns)"
    using Cons.prems p by (intro Cons.IH) (auto simp: dvd_add split: if_splits)
  then show ?case
    using c1 c2 c3 w sn j Cons.prems(6,7) p by (simp add: Let_def)
qed simp


definition names_body :: "byte list list \<Rightarrow> int list option \<Rightarrow> mem" where
  "names_body names sl = n2b (word_of_nat (names_strbytes names)) @
     n2b (word_of_nat (if sl = None then 0 else length names)) @ n2b (word_of_nat (length names)) @
     (case sl of None \<Rightarrow> concat (map name_bytes names)
      | Some ss \<Rightarrow> concat (map name_status_bytes (zip names ss)))"

definition wf_names :: "byte list list \<Rightarrow> int list option \<Rightarrow> bool" where
  "wf_names names sl \<longleftrightarrow> names \<noteq> [] \<and> last names \<noteq> [] \<and> names_need names sl < 2 ^ 27 \<and>
     (\<forall>ss. sl = Some ss \<longrightarrow> length ss = length names \<and> list_all is_int32 ss)"

lemma length_concat_name_bytes:
  "length (concat (map name_bytes names)) = (\<Sum>name\<leftarrow>names. PM_PDU_SIZE_BYTES (length name) + 4)"
  by (induction names) auto

lemma length_concat_name_status_bytes:
  "length ss = length names \<Longrightarrow> length (concat (map name_status_bytes (zip names ss))) =
     (\<Sum>name\<leftarrow>names. PM_PDU_SIZE_BYTES (length name) + 8)"
  by (induction names ss rule: list_induct2') auto

lemma length_names_body:
  "wf_names names sl \<Longrightarrow> 12 + length (names_body names sl) = names_need names sl"
  by (cases sl) (auto simp: names_body_def names_need_def wf_names_def length_concat_name_bytes
      length_concat_name_status_bytes)

lemma names_sum_bounds:
  assumes "4 \<le> k"
  shows "length names \<le> (\<Sum>name\<leftarrow>names. PM_PDU_SIZE_BYTES (length name) + k) \<and>
    names_strbytes names \<le> (\<Sum>name\<leftarrow>names. PM_PDU_SIZE_BYTES (length name) + k)"
proof (induction names)
  case (Cons name names)
  with assms PM_PDU_SIZE_BYTES_bounds(1) [of "length name"] show ?case by simp
qed simp

lemma names_need_bounds:
  "length names + 24 \<le> names_need names sl" "names_strbytes names + 24 \<le> names_need names sl"
  using names_sum_bounds [of 4 names] names_sum_bounds [of 8 names] by (auto simp: names_need_def)

lemma name_list_build:
  assumes wf: "wf_names names sl" and m: "names_need names sl \<le> length m"
  shows "\<exists>m'. build_name_list fr names sl m = Some m' \<and> length m' = length m \<and>
    bytes_at m' 0 (mk_pdu PDU_PMNS_NAMES fr (names_body names sl))"
proof (cases sl)
  case None
  have "24 + length (concat (map name_bytes names)) \<le> length m"
    using m None by (simp add: names_need_def length_concat_name_bytes)
  then show ?thesis
    using length_names_body [OF wf] None put_names_spec [of 0 names]
    by (simp add: build_name_list_def names_body_def build_simps)
next
  case (Some ss)
  have "24 + length (concat (map name_status_bytes (zip names ss))) \<le> length m"
    using m Some wf by (simp add: names_need_def length_concat_name_status_bytes wf_names_def)
  then show ?thesis
    using length_names_body [OF wf] Some put_name_status_spec [of 0 "zip names ss"]
    by (simp add: build_name_list_def names_body_def build_simps)
qed

lemma name_list_decode:
  assumes wf: "wf_names names sl" and at: "bytes_at m 0 (mk_pdu PDU_PMNS_NAMES fr (names_body names sl))"
  shows "pmDecodeNameList (\<lambda>_. True) True m = Some (Inr (names, sl))"
proof -
  let ?N = "names_need names sl" and ?n = "length names" and ?sb = "names_strbytes names"
  let ?ns = "if sl = None then 0 else ?n"
  have N: "?N < 2 ^ 27" "names \<noteq> []" "last names \<noteq> []" using wf by (auto simp: wf_names_def)
  note B = names_need_bounds [of names sl]
  have len: "pdu_len m = Some (int ?N)"
    using pdu_len_pdu [OF at] sint_pdu_len [of ?N] length_names_body [OF wf] N by simp
  have w: "ldn m 12 = Some (word_of_nat ?sb)" "ldn m 16 = Some (word_of_nat ?ns)" "ldn m 20 = Some (word_of_nat ?n)"
    using pdu_body [OF at] by (auto simp: names_body_def bytes_at_append intro: bytes_at_ldn)
  have s: "sint (word_of_nat ?sb :: u32) = int ?sb" "sint (word_of_nat ?ns :: u32) = int ?ns"
      "sint (word_of_nat ?n :: u32) = int ?n"
    using B N by (auto intro!: sint_pdu_len)
  have c: "\<not> u64 (int ?N) < 24" "?n \<noteq> 0" "int ?n \<le> int ?N" "int ?sb \<le> int ?N"
      "int ?n < (INT_MAX - int ?sb) div 8" "int ?n < INT_MAX div 4"
    using B N by (auto simp: INT_MAX_def)
  show ?thesis
  proof (cases sl)
    case None
    have "bytes_at m 24 (concat (map name_bytes names))"
      using pdu_body [OF at] None by (simp add: names_body_def bytes_at_append)
    then have "get_names ?n 0 (int ?sb) (int ?N) m = Some (Inr names)"
      using get_names_spec [of m 0 names ?N "int ?sb"] N None
      by (simp add: names_need_def length_concat_name_bytes)
    then show ?thesis using len w s c None by (simp add: pmDecodeNameList_def Let_def)
  next
    case (Some ss)
    have ss: "length ss = ?n" "list_all is_int32 ss" using wf Some by (auto simp: wf_names_def)
    have "bytes_at m 24 (concat (map name_status_bytes (zip names ss)))"
      using pdu_body [OF at] Some by (simp add: names_body_def bytes_at_append)
    moreover have "ss \<noteq> []" using ss(1) N(2) by auto
    then have "fst (last (zip names ss)) \<noteq> []" using N ss by (simp add: last_zip)
    moreover have "list_all (\<lambda>p. is_int32 (snd p)) (zip names ss)"
      using ss by (auto simp: list_all_iff dest: set_zip_rightD)
    ultimately have "get_name_status ?n 0 (int ?sb) (int ?N) m = Some (Inr (zip names ss))"
      using get_name_status_spec [of m 0 "zip names ss" ?N "int ?sb"] N ss Some
      by (simp add: names_need_def length_concat_name_status_bytes)
    then show ?thesis using len w s c Some ss by (simp add: pmDecodeNameList_def Let_def)
  qed
qed

interpretation name_list_codec: pdu_codec "\<lambda>x. wf_names (fst (snd x)) (snd (snd x))" PDU_PMNS_NAMES fst
  "\<lambda>x. int (names_need (fst (snd x)) (snd (snd x)))" "\<lambda>x. length (names_body (fst (snd x)) (snd (snd x)))"
  "\<lambda>x body. body = names_body (fst (snd x)) (snd (snd x))"
  "\<lambda>x. build_name_list (fst x) (fst (snd x)) (snd (snd x))" "pmDecodeNameList (\<lambda>_. True) True" snd
proof
  fix x :: "u32 \<times> byte list list \<times> int list option"
  assume "wf_names (fst (snd x)) (snd (snd x))"
  then show "12 + length (names_body (fst (snd x)) (snd (snd x))) \<le> nat (INT_MAX - 2 * PDU_CHUNK)"
    using length_names_body by (simp add: wf_names_def INT_MAX_def PDU_CHUNK_def)
qed (use name_list_build in \<open>auto simp: PDU_defs name_list_decode\<close>)


definition wf_name :: "byte list \<Rightarrow> bool" where
  "wf_name name \<longleftrightarrow> length name < 2 ^ 30"

interpretation name_req_codec: pdu_codec
  "\<lambda>x. wf_name (fst (snd x)) \<and> is_int32 (snd (snd x)) \<and> (t = PDU_PMNS_CHILD \<or> t = PDU_PMNS_TRAVERSE)"
  "if t = PDU_PMNS_CHILD then PDU_PMNS_CHILD else PDU_PMNS_TRAVERSE" fst
  "\<lambda>x. 20 + int (PM_PDU_SIZE_BYTES (length (fst (snd x))))" "\<lambda>x. 8 + PM_PDU_SIZE_BYTES (length (fst (snd x)))"
  "\<lambda>x body. \<exists>pad. body = n2b (word_of_int (snd (snd x))) @ n2b (word_of_nat (length (fst (snd x)))) @ fst (snd x) @ pad \<and>
     length (fst (snd x)) + length pad = PM_PDU_SIZE_BYTES (length (fst (snd x)))"
  "\<lambda>x. build_name_req t (fst x) (fst (snd x)) (snd (snd x))" "DecodeNameReq True"
  "\<lambda>x. (fst (snd x) @ [0], snd (snd x))" for t
proof
  let ?t = "if t = PDU_PMNS_CHILD then PDU_PMNS_CHILD else PDU_PMNS_TRAVERSE"
  fix x :: "u32 \<times> byte list \<times> int" and m body :: mem
  let ?b = "fst (snd x)"
  let ?n = "length ?b"
  assume wf: "wf_name ?b \<and> is_int32 (snd (snd x)) \<and> (t = PDU_PMNS_CHILD \<or> t = PDU_PMNS_TRAVERSE)"
    and at: "bytes_at m 0 (mk_pdu ?t (fst x) body)"
    and enc: "\<exists>pad. body = n2b (word_of_int (snd (snd x))) @ n2b (word_of_nat ?n) @ ?b @ pad \<and>
      ?n + length pad = PM_PDU_SIZE_BYTES ?n"
  have n: "?n < 2 ^ 30" using wf by (auto simp: wf_name_def)
  have sz: "?n \<le> PM_PDU_SIZE_BYTES ?n" "PM_PDU_SIZE_BYTES ?n < ?n + 4"
    using PM_PDU_SIZE_BYTES_bounds by auto
  obtain pad where b: "body = n2b (word_of_int (snd (snd x))) @ n2b (word_of_nat ?n) @ ?b @ pad"
      "?n + length pad = PM_PDU_SIZE_BYTES ?n" using enc by blast
  have "length body = 8 + PM_PDU_SIZE_BYTES ?n" using b by simp
  then have len: "pdu_len m = Some (20 + int (PM_PDU_SIZE_BYTES ?n))"
    using pdu_len_pdu [OF at] sint_pdu_len [of "12 + length body"] sz n by simp
  have "ldn m 12 = Some (word_of_int (snd (snd x)))" "ldn m 16 = Some (word_of_nat ?n)" "ld m 20 ?n = Some ?b"
    using pdu_body [OF at] b(1) by (auto simp: bytes_at_append intro: bytes_at_ldn bytes_at_ld)
  moreover have "sint (word_of_nat ?n :: u32) = int ?n" using n by (intro sint_pdu_len) simp
  moreover have "u64 (20 + int (PM_PDU_SIZE_BYTES ?n)) = 20 + int (PM_PDU_SIZE_BYTES ?n)"
    using n sz by (intro u64_id) simp_all
  ultimately show "DecodeNameReq True m = Some (Inr (?b @ [0], snd (snd x)))"
    using len n sz wf by (simp add: DecodeNameReq_def)
next
  let ?t = "if t = PDU_PMNS_CHILD then PDU_PMNS_CHILD else PDU_PMNS_TRAVERSE"
  fix x :: "u32 \<times> byte list \<times> int" and m :: mem
  let ?b = "fst (snd x)"
  let ?n = "length ?b" and ?N = "PM_PDU_SIZE_BYTES (length (fst (snd x)))"
  assume m: "20 + int ?N \<le> int (length m)"
    and t: "wf_name ?b \<and> is_int32 (snd (snd x)) \<and> (t = PDU_PMNS_CHILD \<or> t = PDU_PMNS_TRAVERSE)"
  have sz: "?n \<le> ?N" using PM_PDU_SIZE_BYTES_bounds by auto
  obtain pad where at: "bytes_at m (20 + ?n) pad" and pad: "length pad = ?N - ?n"
    using m sz by (auto intro: bytes_at_some [of "20 + ?n" "?N - ?n" m])
  let ?body = "n2b (word_of_int (snd (snd x))) @ n2b (word_of_nat ?n) @ ?b @ pad"
  have lb: "12 + length ?body = 20 + ?N" using pad sz by simp
  obtain m' where "build_name_req t (fst x) ?b (snd (snd x)) m = Some m'" "length m' = length m"
      "bytes_at m' 0 (pdu (word_of_nat (20 + ?N)) (word_of_int ?t) (fst x) ?body)"
    using m sz at pad t by (auto simp: build_name_req_def build_simps)
  then show "\<exists>m' body. build_name_req t (fst x) ?b (snd (snd x)) m = Some m' \<and> length m' = length m \<and>
      (\<exists>pad. body = n2b (word_of_int (snd (snd x))) @ n2b (word_of_nat ?n) @ ?b @ pad \<and> ?n + length pad = ?N) \<and>
      bytes_at m' 0 (mk_pdu ?t (fst x) body)"
    using pad sz by (intro exI [of _ m'] exI [of _ ?body]) (simp add: lb [simplified])
next
  fix x :: "u32 \<times> byte list \<times> int"
  assume "wf_name (fst (snd x)) \<and> is_int32 (snd (snd x)) \<and> (t = PDU_PMNS_CHILD \<or> t = PDU_PMNS_TRAVERSE)"
  then show "12 + (8 + PM_PDU_SIZE_BYTES (length (fst (snd x)))) \<le> nat (INT_MAX - 2 * PDU_CHUNK)"
    using PM_PDU_SIZE_BYTES_bounds [of "length (fst (snd x))"]
    by (simp add: wf_name_def INT_MAX_def PDU_CHUNK_def)
qed (auto simp: PDU_defs)

section \<open>Decoders and the end of the PDU\<close>

lemma get_names_safe:
  assumes "4 dvd length m" "length m < 2 ^ 31" "4 dvd j" "24 + j \<le> length m"
  shows "get_names n j room (int (length m)) m \<noteq> None"
  using assms
proof (induction n arbitrary: j room)
  case (Suc n)
  let ?np = "24 + j"
  have j: "j div 4 * 4 = j" using Suc.prems(3) by simp
  have diff: "u64 (int (length m) - (24 + int j)) = int (length m) - (24 + int j)"
    using Suc.prems by (intro u64_id) auto
  have next_ok: "get_names n (j + 4 + PM_PDU_SIZE_BYTES k) r (int (length m)) m \<noteq> None"
    if "?np + 4 + k \<le> length m" for k r
    using that Suc.prems next_record [of "length m" 24 j 4 k] by (intro Suc.IH) auto
  have fits: "?np + 4 + nat (sint w) \<le> length m"
    if "0 \<le> sint w" "u64 (4 + sint w) \<le> int (length m) - (24 + int j)" for w :: u32
    using u64_record [of w 4 "length m" ?np] that by simp
  show ?case
    by (auto simp: Let_def bind_None_iff not_less diff j fits [simplified] next_ok simp del: not_None_eq)
qed simp

lemma get_name_status_safe:
  assumes "4 dvd length m" "length m < 2 ^ 31" "4 dvd j" "24 + j \<le> length m"
  shows "get_name_status n j room (int (length m)) m \<noteq> None"
  using assms
proof (induction n arbitrary: j room)
  case (Suc n)
  let ?np = "24 + j"
  have j: "j div 4 * 4 = j" using Suc.prems(3) by simp
  have diff: "u64 (int (length m) - (24 + int j)) = int (length m) - (24 + int j)"
    using Suc.prems by (intro u64_id) auto
  have next_ok: "get_name_status n (8 + j + PM_PDU_SIZE_BYTES k) r (int (length m)) m \<noteq> None"
    if "?np + 8 + k \<le> length m" for k r
    using that Suc.prems next_record [of "length m" 24 j 8 k]
    by (subst add.commute [of 8 j]) (intro Suc.IH, auto)
  have fits: "?np + 8 + nat (sint w) \<le> length m"
    if "0 \<le> sint w" "u64 (8 + sint w) \<le> int (length m) - (24 + int j)" for w :: u32
    using u64_record [of w 8 "length m" ?np] that by simp
  show ?case
    by (auto simp: Let_def bind_None_iff not_less diff j fits [simplified] next_ok simp del: not_None_eq)
qed simp


section \<open>Properties\<close>

text \<open>C25: a list of metric names, with or without a status for each, that \<open>__pmSendNameList\<close> sends and
  another process reads through any fragmentation is decoded by \<open>__pmDecodeNameList\<close> to the
  same names and status values (the last name must not be empty).\<close>

theorem names_end_to_end:
  assumes "wf_names names sl" and "can_send e (int (names_need names sl)) s"
    and "drains writes (names_need names sl)"
  shows "\<exists>sent s'. pmSendNameList e xe writes fr names sl s = Some (int (names_need names sl), sent, s') \<and>
    pin_held s' = pin_held s \<and> length sent = names_need names sl \<and>
    (\<forall>g mode timeout trips r rest.
       can_recv g mode timeout (int (names_need names sl)) trips r \<longrightarrow> stream trips = sent @ rest \<longrightarrow>
       (\<exists>a ts r'. pmGetPDU g mode timeout trips r = Some ((PDU_PMNS_NAMES, Some a), ts, r') \<and>
         pmDecodeNameList (\<lambda>_. True) True (heap r' a) = Some (Inr (names, sl)) \<and> stream ts = rest \<and>
         pin_held r' = (pin_held r)(a := 1)))"
proof -
  have "12 + length (names_body names sl) = names_need names sl" using length_names_body [OF assms(1)] .
  then have "12 + int (length (names_body names sl)) = int (names_need names sl)" by linarith
  with name_list_codec.end_to_end [of "(fr, names, sl)" e s writes xe] assms length_names_body [OF assms(1)]
  show ?thesis by (simp add: pmSendNameList_def)
qed

text \<open>C32: on a PDU of any content whose length is a multiple of four, no decoder of this file reads
  outside the PDU; the request and identifier-list decoders do not for any length.\<close>

theorem pmns_decoders_safe:
  assumes "exact_pdu m"
  shows "(4 dvd length m \<longrightarrow> pmDecodeNameList mal want m \<noteq> None) \<and>
    pmDecodeChildReq ok m \<noteq> None \<and> pmDecodeTraversePMNSReq ok m \<noteq> None \<and> pmDecodeIDList n m \<noteq> None"
proof (intro conjI impI)
  note len = exact_pdu_len [OF assms] and bnd = exact_pdu_bound [OF assms]
  have u: "u64 (int (length m)) = int (length m)" using bnd by simp
  have req: "DecodeNameReq ok m \<noteq> None"
    by (auto simp: DecodeNameReq_def len u bind_None_iff Let_def simp del: not_None_eq)
  then show "pmDecodeChildReq ok m \<noteq> None" "pmDecodeTraversePMNSReq ok m \<noteq> None"
    by (auto simp: pmDecodeChildReq_def pmDecodeTraversePMNSReq_def)
  show "pmDecodeIDList n m \<noteq> None"
    by (auto simp: pmDecodeIDList_def len u bind_None_iff Let_def ldns_None_iff simp del: not_None_eq)
  assume "4 dvd length m"
  then have "24 \<le> length m \<Longrightarrow> get_names k 0 room (int (length m)) m \<noteq> None"
    "24 \<le> length m \<Longrightarrow> get_name_status k 0 room (int (length m)) m \<noteq> None" for k room
    using get_names_safe get_name_status_safe bnd by auto
  then show "pmDecodeNameList mal want m \<noteq> None"
    by (auto simp: pmDecodeNameList_def len u bind_None_iff Let_def simp del: not_None_eq)
qed

text \<open>A name list of 33 bytes that says it has two names: after the first one the padding ends
  three bytes behind the PDU.\<close>

definition ragged_names :: mem where
  "ragged_names = w2b 33 @ w2b (word_of_int PDU_PMNS_NAMES) @ w2b 0 @ n2b 8 @ n2b 0 @ n2b 2 @ n2b 5 @
     [112, 109, 99, 100, 46]"

lemma ragged_names_words:
  "pdu_len ragged_names = Some 33" "ldn ragged_names 12 = Some 8" "ldn ragged_names 16 = Some 0"
  "ldn ragged_names 20 = Some 2" "ldn ragged_names 24 = Some 5" "length ragged_names = 33"
  "ldn ragged_names 36 = None"
proof -
  have "bytes_at ragged_names 0 ragged_names" by (simp add: bytes_at_def ld_def)
  then have "bytes_at ragged_names 0 (w2b 33 @ w2b (word_of_int PDU_PMNS_NAMES) @ w2b 0 @ n2b 8 @ n2b 0 @ n2b 2 @ n2b 5 @
     [112, 109, 99, 100, 46])" by (simp only: ragged_names_def)
  then show "pdu_len ragged_names = Some 33" "ldn ragged_names 12 = Some 8" "ldn ragged_names 16 = Some 0"
    "ldn ragged_names 20 = Some 2" "ldn ragged_names 24 = Some 5"
    by (auto simp: bytes_at_append pdu_len_def bytes_at_ld32 bytes_at_ldn)
  show len: "length ragged_names = 33" by (simp add: ragged_names_def)
  then show "ldn ragged_names 36 = None" by simp
qed

text \<open>when the length of the PDU is not a multiple of four, the position of the next name can be
  past its end; the difference is then a huge \<open>size_t\<close>, the bounds check passes and
  \<open>__pmDecodeNameList\<close> reads outside the PDU.\<close>

theorem name_list_overread:
  "exact_pdu ragged_names \<and> pmDecodeNameList (\<lambda>_. True) want ragged_names = None"
proof
  show "exact_pdu ragged_names" by (simp add: exact_pdu_def ragged_names_words)
  have "u64 (- 3) = 2 ^ 64 - 3" by (simp add: u64_def)
  then have "get_names (Suc (Suc 0)) 0 8 33 ragged_names = None"
    by (simp add: Let_def ragged_names_words bind_None_iff PM_PDU_SIZE_BYTES_def PM_PDU_SIZE_def s32_def)
  then have "get_names 2 0 8 33 ragged_names = None" by (simp only: numeral_2_eq_2)
  then show "pmDecodeNameList (\<lambda>_. True) want ragged_names = None"
    by (simp add: pmDecodeNameList_def ragged_names_words INT_MAX_def Let_def)
qed

lemma names_end_to_end_witness:
  "\<exists>sent s'. pmSendNameList (\<lambda>_. (False, None)) sample_xenv [48] 0 [[97, 98], [99]] (Some [0, 1]) sample_io =
      Some (48, sent, s') \<and> pin_held s' = pin_held sample_io \<and> length sent = 48"
proof -
  have "names_need [[97, 98], [99]] (Some [0, 1]) = 48"
    by (simp add: names_need_def PM_PDU_SIZE_BYTES_def PM_PDU_SIZE_def)
  then show ?thesis
    using names_end_to_end [of "[[97, 98], [99]]" "Some [0, 1]" "\<lambda>_. (False, None)" sample_io "[48]" sample_xenv 0]
    by (auto simp: wf_names_def sample_can_send is_int32_def)
qed

definition empty_names :: mem where
  "empty_names = w2b 24 @ w2b (word_of_int PDU_PMNS_NAMES) @ w2b 0 @ n2b 0 @ n2b 0 @ n2b 0"

lemma pmns_decoders_safe_witness:
  "exact_pdu empty_names \<and> pmDecodeNameList (\<lambda>_. True) True empty_names \<noteq> None"
proof -
  have "bytes_at empty_names 0 (w2b 24)" by (simp add: empty_names_def bytes_at_def ld_def)
  then have "exact_pdu empty_names"
    by (simp add: exact_pdu_def pdu_len_def bytes_at_ld32) (simp add: empty_names_def)
  then show ?thesis
    using pmns_decoders_safe [of empty_names "\<lambda>_. True" True True 0] by (simp add: empty_names_def)
qed

end
