(* ===== verification/Pdu_Instance.thy ===== *)
theory Pdu_Instance
  imports Codec
begin

text \<open>
  Fetch requests (\<^verbatim>\<open>p_fetch.c\<close>) and instance domain requests and results (\<^verbatim>\<open>p_instance.c\<close>).
  Decoders that convert in place return the converted buffer with their results.
\<close>

section \<open>Fetch requests\<close>

record fetch_req =
  f_ctxnum :: int
  f_sec :: u32
  f_usec :: u32
  f_pmids :: "u32 list"

text \<open>\<open>when\<close> is \<^const>\<open>None\<close> for the NULL pointer.\<close>

definition build_fetch :: "u32 \<Rightarrow> int \<Rightarrow> (u32 \<times> u32) option \<Rightarrow> u32 list \<Rightarrow> mem \<Rightarrow> mem option" where
  "build_fetch fr ctxnum when_tv pmids m = do {
     m \<leftarrow> put_hdr m (28 + 4 * length pmids) PDU_FETCH fr;
     m \<leftarrow> stn m 12 (word_of_int ctxnum);
     m \<leftarrow> (case when_tv of
            None \<Rightarrow> st m 16 (replicate 8 0)
          | Some (sec, usec) \<Rightarrow> do { m \<leftarrow> stn m 16 sec; stn m 20 usec });
     m \<leftarrow> stn m 24 (word_of_nat (length pmids));
     stns m 28 pmids
   }"

definition pmSendFetch :: "(int \<Rightarrow> bool \<times> int option) \<Rightarrow> xmit_env \<Rightarrow> int list \<Rightarrow> u32 \<Rightarrow> int \<Rightarrow> (u32 \<times> u32) option \<Rightarrow>
    u32 list \<Rightarrow> io \<Rightarrow> (int \<times> mem \<times> io) option" where
  "pmSendFetch e x writes fr ctxnum when_tv pmids =
     pdu_send e x writes (28 + 4 * int (length pmids)) (build_fetch fr ctxnum when_tv pmids)"

text \<open>The checks and the conversion of the identifiers in place.\<close>

definition decode_fetch :: "mem \<Rightarrow> (fetch_req \<times> mem) c_result" where
  "decode_fetch m = do {
     len \<leftarrow> pdu_len m;
     (if u64 len < 32 then Some (Inl PM_ERR_IPC)
      else do {
        n \<leftarrow> ldn m 24;
        let numpmid = sint n;
        (if numpmid \<le> 0 \<or> numpmid > len then Some (Inl PM_ERR_IPC)
         else if numpmid \<ge> (INT_MAX - 32) div 4 then Some (Inl PM_ERR_IPC)
         else if u64 len \<noteq> 32 + 4 * (numpmid - 1) then Some (Inl PM_ERR_IPC)
         else do {
           m \<leftarrow> swap_words 28 (nat numpmid) m;
           ctxnum \<leftarrow> ldn m 12;
           sec \<leftarrow> ldn m 16;
           usec \<leftarrow> ldn m 20;
           pmids \<leftarrow> ld32s m 28 (nat numpmid);
           Some (Inr (\<lparr>f_ctxnum = sint ctxnum, f_sec = sec, f_usec = usec, f_pmids = pmids\<rparr>, m))
         })
      })
   }"

text \<open>The result points into the buffer, which is pinned once more for it.\<close>

definition pmDecodeFetch :: "int \<Rightarrow> io \<Rightarrow> (fetch_req \<times> io) c_result" where
  "pmDecodeFetch pdubuf s = do {
     r \<leftarrow> decode_fetch (heap s pdubuf);
     (case r of
        Inl e \<Rightarrow> Some (Inl e)
      | Inr (req, m) \<Rightarrow> do {
          p \<leftarrow> pmPinPDUBuf pdubuf (io_pool s);
          Some (Inr (req, s\<lparr>heap := (heap s)(pdubuf := m), io_pool := p\<rparr>))
        })
   }"

section \<open>Instance requests\<close>

definition instance_req_need :: "byte list option \<Rightarrow> nat" where
  "instance_req_need name = 32 + (case name of None \<Rightarrow> 0 | Some s \<Rightarrow> PM_PDU_SIZE_BYTES (length s))"

definition build_instance_req :: "u32 \<Rightarrow> u32 \<times> u32 \<Rightarrow> u32 \<Rightarrow> u32 \<Rightarrow> byte list option \<Rightarrow> mem \<Rightarrow> mem option" where
  "build_instance_req fr when_tv indom inst name m = do {
     m \<leftarrow> put_hdr m (instance_req_need name) PDU_INSTANCE_REQ fr;
     m \<leftarrow> stn m 16 (fst when_tv);
     m \<leftarrow> stn m 20 (snd when_tv);
     m \<leftarrow> stn m 12 indom;
     m \<leftarrow> stn m 24 inst;
     (case name of
        None \<Rightarrow> st32 m 28 0
      | Some s \<Rightarrow> do {
          m \<leftarrow> st32 m 28 (word_of_nat (length s));
          m \<leftarrow> st m 32 s;
          m \<leftarrow> st m (32 + length s) (pad_bytes (length s));
          n \<leftarrow> ld32 m 28;
          stn m 28 n
        })
   }"

text \<open>The buffer is asked for with \<open>sizeof(need)\<close>, the size of an \<open>int\<close>.\<close>

definition pmSendInstanceReq :: "(int \<Rightarrow> bool \<times> int option) \<Rightarrow> xmit_env \<Rightarrow> int list \<Rightarrow> u32 \<Rightarrow> u32 \<times> u32 \<Rightarrow> u32 \<Rightarrow> u32 \<Rightarrow>
    byte list option \<Rightarrow> io \<Rightarrow> (int \<times> mem \<times> io) option" where
  "pmSendInstanceReq e x writes fr when_tv indom inst name =
     pdu_send e x writes 4 (build_instance_req fr when_tv indom inst name)"

definition pmDecodeInstanceReq :: "bool \<Rightarrow> mem \<Rightarrow> ((u32 \<times> u32) \<times> u32 \<times> u32 \<times> byte list option) c_result" where
  "pmDecodeInstanceReq mal m = do {
     len \<leftarrow> pdu_len m;
     (if u64 len < 32 then Some (Inl PM_ERR_IPC)
      else do {
        sec \<leftarrow> ldn m 16;
        usec \<leftarrow> ldn m 20;
        indom \<leftarrow> ldn m 12;
        inst \<leftarrow> ldn m 24;
        w \<leftarrow> ldn m 28;
        let namelen = sint w;
        (if namelen > 0 then
           (if namelen \<ge> INT_MAX - 1 \<or> namelen > len then Some (Inl PM_ERR_IPC)
            else if u64 len < 32 + namelen then Some (Inl PM_ERR_IPC)
            else if \<not> mal then Some (Inl (- ENOMEM))
            else do {
              s \<leftarrow> ld m 32 (nat namelen);
              Some (Inr ((sec, usec), indom, inst, Some (strncpy s @ [0])))
            })
         else if namelen < 0 then Some (Inl PM_ERR_IPC)
         else Some (Inr ((sec, usec), indom, inst, None)))
      })
   }"

section \<open>Instance results\<close>

record pmInResult =
  ir_indom :: u32
  ir_numinst :: nat
  ir_instlist :: "u32 list option"
  ir_namelist :: "byte list list option"

definition instance_need :: "pmInResult \<Rightarrow> nat" where
  "instance_need r = 20 + (\<Sum>i\<leftarrow>[0..<ir_numinst r]. 8 +
     (case ir_namelist r of None \<Rightarrow> 0 | Some ns \<Rightarrow> PM_PDU_SIZE_BYTES (length (ns ! i))))"

text \<open>The loop of the encoder over the instances from \<open>i\<close> on, at offset \<open>j\<close> of the list.\<close>

fun put_insts :: "pmInResult \<Rightarrow> nat list \<Rightarrow> nat \<Rightarrow> mem \<Rightarrow> mem option" where
  "put_insts r [] j m = Some m"
| "put_insts r (i # is') j m = (
     let ip = 20 + j div 4 * 4 in do {
       m \<leftarrow> stn m ip (case ir_instlist r of None \<Rightarrow> PM_IN_NULL | Some is \<Rightarrow> is ! i);
       (case ir_namelist r of
          None \<Rightarrow> do { m \<leftarrow> st32 m (ip + 4) 0; put_insts r is' (j + 8) m }
        | Some ns \<Rightarrow> do {
            m \<leftarrow> st32 m (ip + 4) (word_of_nat (length (ns ! i)));
            m \<leftarrow> st m (ip + 8) (ns ! i);
            m \<leftarrow> st m (ip + 8 + length (ns ! i)) (pad_bytes (length (ns ! i)));
            n \<leftarrow> ld32 m (ip + 4);
            m \<leftarrow> stn m (ip + 4) n;
            put_insts r is' (j + 8 + PM_PDU_SIZE_BYTES (length (ns ! i))) m
          })
     })"

definition build_instance :: "u32 \<Rightarrow> pmInResult \<Rightarrow> mem \<Rightarrow> mem option" where
  "build_instance fr r m = do {
     m \<leftarrow> put_hdr m (instance_need r) PDU_INSTANCE fr;
     m \<leftarrow> stn m 12 (ir_indom r);
     m \<leftarrow> stn m 16 (word_of_nat (ir_numinst r));
     put_insts r [0..<ir_numinst r] 0 m
   }"

definition pmSendInstance :: "(int \<Rightarrow> bool \<times> int option) \<Rightarrow> xmit_env \<Rightarrow> int list \<Rightarrow> u32 \<Rightarrow> pmInResult \<Rightarrow> io \<Rightarrow>
    (int \<times> mem \<times> io) option" where
  "pmSendInstance e x writes fr r = pdu_send e x writes (int (instance_need r)) (build_instance fr r)"

text \<open>The loop of the decoder: \<open>k\<close> counts the allocations, and the length of each name is
  converted in place.\<close>

fun get_insts :: "(nat \<Rightarrow> bool) \<Rightarrow> nat \<Rightarrow> nat \<Rightarrow> nat \<Rightarrow> int \<Rightarrow> mem \<Rightarrow> (u32 \<times> byte list) list c_result" where
  "get_insts mal k 0 j len m = Some (Inr [])"
| "get_insts mal k (Suc n) j len m = (
     let ip = 20 + j div 4 * 4 in
     if 8 > u64 (len - int ip) then Some (Inl PM_ERR_IPC)
     else do {
       inst \<leftarrow> ldn m ip;
       w \<leftarrow> ldn m (ip + 4);
       m \<leftarrow> st32 m (ip + 4) w;
       let namelen = sint w;
       (if namelen < 0 then Some (Inl PM_ERR_IPC)
        else if 8 + namelen > u64 (len - int ip) then Some (Inl PM_ERR_IPC)
        else if \<not> mal k then Some (Inl (- ENOMEM))
        else do {
          name \<leftarrow> ld m (ip + 8) (nat namelen);
          r \<leftarrow> get_insts mal (Suc k) n (j + 8 + PM_PDU_SIZE_BYTES (nat namelen)) len m;
          Some (case r of Inl e \<Rightarrow> Inl e | Inr l \<Rightarrow> Inr ((inst, name) # l))
        })
     })"

definition pmDecodeInstance :: "(nat \<Rightarrow> bool) \<Rightarrow> mem \<Rightarrow> pmInResult c_result" where
  "pmDecodeInstance mal m = do {
     len \<leftarrow> pdu_len m;
     (if u64 len < 20 then Some (Inl PM_ERR_IPC)
      else if \<not> mal 0 then Some (Inl (- ENOMEM))
      else do {
        indom \<leftarrow> ldn m 12;
        w \<leftarrow> ldn m 16;
        let numinst = sint w;
        (if u64 numinst \<ge> INT_MAX div 4 \<or> u64 numinst \<ge> INT_MAX div 8 \<or> numinst \<ge> len
         then Some (Inl PM_ERR_IPC)
         else if \<not> mal 1 then Some (Inl (- ENOMEM))
         else if \<not> mal 2 then Some (Inl (- ENOMEM))
         else do {
           r \<leftarrow> get_insts mal 3 (nat numinst) 0 len m;
           Some (case r of Inl e \<Rightarrow> Inl e
             | Inr l \<Rightarrow> Inr \<lparr>ir_indom = indom, ir_numinst = nat numinst,
                 ir_instlist = (if numinst \<noteq> 1 \<or> (\<exists>p \<in> set l. fst p \<noteq> PM_IN_NULL)
                   then Some (map fst l) else None),
                 ir_namelist = (if numinst \<noteq> 1 \<or> (\<exists>p \<in> set l. snd p \<noteq> [])
                   then Some (map snd l) else None)\<rparr>)
         })
      })
   }"

section \<open>Fetch requests survive the wire\<close>

definition when_words :: "(u32 \<times> u32) option \<Rightarrow> u32 \<times> u32" where
  "when_words tv = (case tv of None \<Rightarrow> (0, 0) | Some t \<Rightarrow> t)"

definition fetch_body :: "int \<Rightarrow> (u32 \<times> u32) option \<Rightarrow> u32 list \<Rightarrow> mem" where
  "fetch_body ctxnum tv pmids = n2b (word_of_int ctxnum) @ n2b (fst (when_words tv)) @ n2b (snd (when_words tv)) @
     n2b (word_of_nat (length pmids)) @ concat (map n2b pmids)"

lemma length_fetch_body [simp]: "length (fetch_body ctxnum tv pmids) = 16 + 4 * length pmids"
  by (simp add: fetch_body_def)

lemma n2b_zero: "n2b 0 = replicate 4 0"
  by (simp add: n2b_def htonl_def w2b_def numeral_eq_Suc)

lemma fetch_build:
  assumes "28 + 4 * length pmids \<le> length m"
  shows "\<exists>m'. build_fetch fr ctxnum tv pmids m = Some m' \<and> length m' = length m \<and>
    bytes_at m' 0 (mk_pdu PDU_FETCH fr (fetch_body ctxnum tv pmids))"
proof (cases tv)
  case None
  have "n2b 0 @ n2b 0 = replicate 8 0" by (simp add: n2b_zero numeral_eq_Suc)
  then have "upd x 16 (replicate 8 0) = upd (upd x 16 (n2b 0)) 20 (n2b 0)" if "28 \<le> length x" for x
    using that by (simp add: upd_upd_append)
  then show ?thesis
    using assms None by (simp add: build_fetch_def fetch_body_def when_words_def build_simps)
next
  case (Some t)
  then show ?thesis
    using assms by (cases t) (simp add: build_fetch_def fetch_body_def when_words_def build_simps)
qed

lemma fetch_decode:
  assumes n: "0 < length pmids" "length pmids < 2 ^ 28" "is_int32 ctxnum"
    and at: "bytes_at m 0 (mk_pdu PDU_FETCH fr (fetch_body ctxnum tv pmids))"
  shows "\<exists>m'. decode_fetch m = Some (Inr (\<lparr>f_ctxnum = ctxnum, f_sec = fst (when_words tv),
      f_usec = snd (when_words tv), f_pmids = pmids\<rparr>, m')) \<and> ld32s m' 28 (length pmids) = Some pmids"
proof -
  let ?n = "length pmids"
  let ?m = "upd m 28 (concat (map w2b pmids))"
  have len: "pdu_len m = Some (28 + 4 * int ?n)"
    using pdu_len_pdu [OF at] sint_pdu_len [of "28 + 4 * ?n"] n by simp
  have b: "bytes_at m 12 (fetch_body ctxnum tv pmids)" using pdu_body [OF at] .
  then have bnd: "28 + 4 * ?n \<le> length m" using bytes_at_bound by fastforce
  have w: "ldn m 12 = Some (word_of_int ctxnum)" "ldn m 16 = Some (fst (when_words tv))"
      "ldn m 20 = Some (snd (when_words tv))" "ldn m 24 = Some (word_of_nat ?n)"
      "bytes_at m 28 (concat (map n2b pmids))"
    using b by (auto simp: fetch_body_def bytes_at_append intro: bytes_at_ldn)
  have sw: "swap_words 28 ?n m = Some ?m" using swap_words_spec [OF w(5)] .
  have ids: "ld32s ?m 28 ?n = Some pmids" using bnd by (intro bytes_at_ld32s) simp_all
  have "sint (word_of_nat ?n :: u32) = int ?n" using n by (intro sint_pdu_len) simp
  moreover have "u64 (28 + 4 * int ?n) = 28 + 4 * int ?n" using n by (intro u64_id) simp_all
  moreover have "ldn ?m 12 = Some (word_of_int ctxnum)" "ldn ?m 16 = Some (fst (when_words tv))"
      "ldn ?m 20 = Some (snd (when_words tv))" using w bnd by (simp_all add: mem_simps)
  ultimately show ?thesis
    using len w sw ids n by (auto simp: decode_fetch_def INT_MAX_def Let_def)
qed

interpretation fetch_codec: pdu_codec
  "\<lambda>x. 0 < length (snd (snd (snd x))) \<and> length (snd (snd (snd x))) < 2 ^ 28 \<and> is_int32 (fst (snd x))"
  PDU_FETCH fst "\<lambda>x. 28 + 4 * int (length (snd (snd (snd x))))" "\<lambda>x. 16 + 4 * length (snd (snd (snd x)))"
  "\<lambda>x body. body = fetch_body (fst (snd x)) (fst (snd (snd x))) (snd (snd (snd x)))"
  "\<lambda>x. build_fetch (fst x) (fst (snd x)) (fst (snd (snd x))) (snd (snd (snd x)))"
  "\<lambda>m. map_option (map_sum id fst) (decode_fetch m)"
  "\<lambda>x. \<lparr>f_ctxnum = fst (snd x), f_sec = fst (when_words (fst (snd (snd x)))),
     f_usec = snd (when_words (fst (snd (snd x)))), f_pmids = snd (snd (snd x))\<rparr>"
proof
  fix x :: "u32 \<times> int \<times> (u32 \<times> u32) option \<times> u32 list" and m :: mem
  assume "28 + 4 * int (length (snd (snd (snd x)))) \<le> int (length m)"
  then have "28 + 4 * length (snd (snd (snd x))) \<le> length m" by linarith
  from fetch_build [OF this, of "fst x" "fst (snd x)" "fst (snd (snd x))"]
  show "\<exists>m' body. build_fetch (fst x) (fst (snd x)) (fst (snd (snd x))) (snd (snd (snd x))) m = Some m' \<and>
      length m' = length m \<and> body = fetch_body (fst (snd x)) (fst (snd (snd x))) (snd (snd (snd x))) \<and>
      bytes_at m' 0 (mk_pdu PDU_FETCH (fst x) body)" by simp
next
  fix x :: "u32 \<times> int \<times> (u32 \<times> u32) option \<times> u32 list" and m body :: mem
  assume "0 < length (snd (snd (snd x))) \<and> length (snd (snd (snd x))) < 2 ^ 28 \<and> is_int32 (fst (snd x))"
    "body = fetch_body (fst (snd x)) (fst (snd (snd x))) (snd (snd (snd x)))"
    "bytes_at m 0 (mk_pdu PDU_FETCH (fst x) body)"
  with fetch_decode [of "snd (snd (snd x))" "fst (snd x)" m "fst (snd (snd x))" "fst x"]
  show "map_option (map_sum id fst) (decode_fetch m) = Some (Inr \<lparr>f_ctxnum = fst (snd x),
      f_sec = fst (when_words (fst (snd (snd x)))), f_usec = snd (when_words (fst (snd (snd x)))),
      f_pmids = snd (snd (snd x))\<rparr>)" by auto
qed (auto simp: codec_size)

lemma decode_fetch_list:
  assumes "map_option (map_sum id fst) (decode_fetch m) = Some (Inr q)"
  shows "\<exists>m'. decode_fetch m = Some (Inr (q, m')) \<and> ld32s m' 28 (length (f_pmids q)) = Some (f_pmids q)"
proof -
  have len: "length ws = n" if "ld32s m' a n = Some ws" for m' a n ws
    using that by (induction n arbitrary: a ws) (auto simp: bind_eq_Some_conv)
  obtain m' where m': "decode_fetch m = Some (Inr (q, m'))"
    using assms by (cases "decode_fetch m"; cases "the (decode_fetch m)") auto
  then obtain n where "ld32s m' 28 n = Some (f_pmids q)"
    by (auto simp: decode_fetch_def Let_def bind_eq_Some_conv split: if_splits)
  with len m' show ?thesis by blast
qed

section \<open>Instance requests survive the wire\<close>

definition name_of :: "byte list option \<Rightarrow> byte list" where
  "name_of name = (case name of None \<Rightarrow> [] | Some s \<Rightarrow> s)"

definition instance_req_body :: "u32 \<times> u32 \<Rightarrow> u32 \<Rightarrow> u32 \<Rightarrow> byte list option \<Rightarrow> mem" where
  "instance_req_body tv indom inst name =
     n2b indom @ n2b (fst tv) @ n2b (snd tv) @ n2b inst @ name_bytes (name_of name)"

definition wf_inst_name :: "byte list option \<Rightarrow> bool" where
  "wf_inst_name name \<longleftrightarrow> name \<noteq> Some [] \<and> 0 \<notin> set (name_of name) \<and> length (name_of name) < 2 ^ 30"

lemma upd_overwrite: "length zs = length xs \<Longrightarrow> a + length xs + length ys \<le> length m \<Longrightarrow>
  upd (upd m a (xs @ ys)) a zs = upd m a (zs @ ys)"
  by (simp add: upd_def)

text \<open>The length is first stored in host order, and converted once the characters are copied.\<close>

lemma put_string:
  assumes "a + 4 + PM_PDU_SIZE_BYTES (length s) \<le> length m"
  shows "do { m \<leftarrow> st32 m a (word_of_nat (length s)); m \<leftarrow> st m (a + 4) s;
      m \<leftarrow> st m (a + 4 + length s) (pad_bytes (length s)); n \<leftarrow> ld32 m a; m \<leftarrow> stn m a n; k m } =
    k (upd m a (name_bytes s))"
proof -
  let ?w = "w2b (word_of_nat (length s))" and ?p = "pad_bytes (length s)"
  have sz: "length s \<le> PM_PDU_SIZE_BYTES (length s)" by (rule PM_PDU_SIZE_BYTES_bounds)
  have u: "upd (upd (upd m a ?w) (a + 4) s) (a + 4 + length s) ?p = upd m a (?w @ s @ ?p)"
    using assms sz by (simp add: upd_upd_append)
  have l: "a + length (?w @ s @ ?p) \<le> length m" using assms sz by simp
  then have ld: "ld32 (upd m a (?w @ s @ ?p)) a = Some (word_of_nat (length s))"
    using bytes_at_upd_same [OF l] by (auto simp: bytes_at_append intro: bytes_at_ld32)
  have "stn (upd m a (?w @ s @ ?p)) a (word_of_nat (length s)) = Some (upd m a (name_bytes s))"
    using assms sz by (simp add: mem_simps upd_overwrite name_bytes_def)
  with u ld assms sz show ?thesis by (simp add: mem_simps)
qed

lemma n2b_zero_w2b: "w2b 0 = n2b 0"
  by (simp add: n2b_def htonl_def w2b_def)

lemma name_bytes_Nil [simp]: "name_bytes [] = n2b 0"
  by (simp add: name_bytes_def pad_bytes_def)

lemma instance_req_build:
  assumes m: "instance_req_need name \<le> length m"
  shows "\<exists>m'. build_instance_req fr tv indom inst name m = Some m' \<and> length m' = length m \<and>
    bytes_at m' 0 (mk_pdu PDU_INSTANCE_REQ fr (instance_req_body tv indom inst name))"
proof (cases name)
  case None
  then show ?thesis
    using m by (simp add: build_instance_req_def instance_req_need_def instance_req_body_def name_of_def
        build_simps n2b_zero_w2b)
next
  case (Some s)
  have "32 + PM_PDU_SIZE_BYTES (length s) \<le> length m" using m Some by (simp add: instance_req_need_def)
  then show ?thesis
    using Some put_string [of 28 s _ Some]
    by (simp add: build_instance_req_def instance_req_need_def instance_req_body_def name_of_def build_simps)
qed

lemma instance_req_decode:
  assumes wf: "wf_inst_name name"
    and at: "bytes_at m 0 (mk_pdu PDU_INSTANCE_REQ fr (instance_req_body tv indom inst name))"
  shows "pmDecodeInstanceReq True m = Some (Inr (tv, indom, inst, map_option (\<lambda>s. s @ [0]) name))"
proof -
  let ?s = "name_of name"
  let ?n = "length ?s" and ?N = "PM_PDU_SIZE_BYTES (length (name_of name))"
  have n: "?n < 2 ^ 30" "?n \<le> ?N" "?N < ?n + 4" and z: "strncpy ?s = ?s"
    using wf PM_PDU_SIZE_BYTES_bounds by (auto simp: wf_inst_name_def strncpy_id)
  have lb: "length (instance_req_body tv indom inst name) = 20 + ?N" by (simp add: instance_req_body_def)
  have len: "pdu_len m = Some (32 + int ?N)"
    using pdu_len_pdu [OF at] sint_pdu_len [of "32 + ?N"] n lb by simp
  have w: "ldn m 12 = Some indom" "ldn m 16 = Some (fst tv)" "ldn m 20 = Some (snd tv)" "ldn m 24 = Some inst"
      "ldn m 28 = Some (word_of_nat ?n)" "ld m 32 ?n = Some ?s"
    using pdu_body [OF at] by (auto simp: instance_req_body_def name_bytes_def bytes_at_append intro: bytes_at_ldn bytes_at_ld)
  have s: "sint (word_of_nat ?n :: u32) = int ?n" using n by (intro sint_pdu_len) simp
  have u: "u64 (32 + int ?N) = 32 + int ?N" using n by (intro u64_id) simp_all
  show ?thesis
  proof (cases name)
    case None
    then have "?n = 0" by (simp add: name_of_def)
    with None len w s u show ?thesis by (cases tv) (simp add: pmDecodeInstanceReq_def)
  next
    case (Some s)
    then have "0 < ?n" using wf by (auto simp: wf_inst_name_def name_of_def)
    with Some len w \<open>sint (word_of_nat ?n :: u32) = int ?n\<close> u n z show ?thesis
      by (cases tv) (simp add: pmDecodeInstanceReq_def INT_MAX_def name_of_def)
  qed
qed

interpretation instance_req_codec: pdu_codec "\<lambda>x. wf_inst_name (snd (snd (snd (snd x))))" PDU_INSTANCE_REQ fst
  "\<lambda>x. int (instance_req_need (snd (snd (snd (snd x)))))"
  "\<lambda>x. length (instance_req_body (fst (snd x)) (fst (snd (snd x))) (fst (snd (snd (snd x)))) (snd (snd (snd (snd x)))))"
  "\<lambda>x body. body = instance_req_body (fst (snd x)) (fst (snd (snd x))) (fst (snd (snd (snd x)))) (snd (snd (snd (snd x))))"
  "\<lambda>x. build_instance_req (fst x) (fst (snd x)) (fst (snd (snd x))) (fst (snd (snd (snd x)))) (snd (snd (snd (snd x))))"
  "pmDecodeInstanceReq True"
  "\<lambda>x. (fst (snd x), fst (snd (snd x)), fst (snd (snd (snd x))), map_option (\<lambda>s. s @ [0]) (snd (snd (snd (snd x)))))"
proof
  fix x :: "u32 \<times> (u32 \<times> u32) \<times> u32 \<times> u32 \<times> byte list option"
  assume "wf_inst_name (snd (snd (snd (snd x))))"
  then show "12 + length (instance_req_body (fst (snd x)) (fst (snd (snd x))) (fst (snd (snd (snd x)))) (snd (snd (snd (snd x)))))
      \<le> nat (INT_MAX - 2 * PDU_CHUNK)"
    using PM_PDU_SIZE_BYTES_bounds [of "length (name_of (snd (snd (snd (snd x)))))"]
    by (simp add: wf_inst_name_def instance_req_body_def codec_size)
qed (use instance_req_build instance_req_decode in \<open>auto simp: codec_size\<close>)

section \<open>Instance results survive the wire\<close>

definition inst_at :: "pmInResult \<Rightarrow> nat \<Rightarrow> u32 \<times> byte list" where
  "inst_at r i = (case ir_instlist r of None \<Rightarrow> PM_IN_NULL | Some l \<Rightarrow> l ! i,
     case ir_namelist r of None \<Rightarrow> [] | Some ns \<Rightarrow> ns ! i)"

definition insts :: "pmInResult \<Rightarrow> (u32 \<times> byte list) list" where
  "insts r = map (inst_at r) [0..<ir_numinst r]"

definition inst_bytes :: "u32 \<times> byte list \<Rightarrow> mem" where
  "inst_bytes p = n2b (fst p) @ name_bytes (snd p)"

lemma length_inst_bytes [simp]: "length (inst_bytes p) = 8 + PM_PDU_SIZE_BYTES (length (snd p))"
  by (simp add: inst_bytes_def)

lemma PM_PDU_SIZE_BYTES_0 [simp]: "PM_PDU_SIZE_BYTES 0 = 0"
  by (simp add: PM_PDU_SIZE_BYTES_def PM_PDU_SIZE_def)

lemma put_insts_step:
  assumes "ip = 20 + j" "4 dvd j" "ip + 8 + PM_PDU_SIZE_BYTES (length (snd (inst_at r i))) \<le> length m"
  shows "put_insts r (i # l) j m =
    put_insts r l (j + 8 + PM_PDU_SIZE_BYTES (length (snd (inst_at r i)))) (upd m ip (inst_bytes (inst_at r i)))"
proof -
  have j: "j div 4 * 4 = j" using assms(2) by simp
  let ?m = "upd m ip (n2b (fst (inst_at r i)))"
  have u: "upd ?m (ip + 4) (name_bytes (snd (inst_at r i))) = upd m ip (inst_bytes (inst_at r i))"
    using assms(3) by (simp add: upd_upd_append inst_bytes_def)
  show ?thesis
  proof (cases "ir_namelist r")
    case None
    with u assms j show ?thesis
      by (simp add: inst_at_def Let_def mem_simps n2b_zero_w2b)
  next
    case (Some ns)
    let ?s = "ns ! i"
    have s: "snd (inst_at r i) = ?s" using Some by (simp add: inst_at_def)
    have "ip + 4 + 4 + PM_PDU_SIZE_BYTES (length ?s) \<le> length ?m" using assms(3) s by simp
    from put_string [OF this, of "put_insts r l (j + 8 + PM_PDU_SIZE_BYTES (length ?s))"]
    show ?thesis using u assms j s Some by (simp add: Let_def mem_simps inst_at_def)
  qed
qed

lemma put_insts_spec:
  assumes "20 + j + length (concat (map (\<lambda>i. inst_bytes (inst_at r i)) l)) \<le> length m" and "4 dvd j"
  shows "put_insts r l j m = Some (upd m (20 + j) (concat (map (\<lambda>i. inst_bytes (inst_at r i)) l)))"
  using assms
proof (induction l arbitrary: j m)
  case Nil
  then show ?case by (simp add: upd_def)
next
  case (Cons i l)
  let ?n = "PM_PDU_SIZE_BYTES (length (snd (inst_at r i)))"
  let ?m = "upd m (20 + j) (inst_bytes (inst_at r i))"
  have "put_insts r (i # l) j m = put_insts r l (j + 8 + ?n) ?m"
    using Cons.prems by (intro put_insts_step) simp_all
  also have "\<dots> = Some (upd ?m (20 + (j + 8 + ?n)) (concat (map (\<lambda>i. inst_bytes (inst_at r i)) l)))"
    using Cons.prems by (intro Cons.IH) (auto simp: dvd_add)
  also have "upd ?m (20 + (j + 8 + ?n)) (concat (map (\<lambda>i. inst_bytes (inst_at r i)) l)) =
      upd m (20 + j) (concat (map (\<lambda>i. inst_bytes (inst_at r i)) (i # l)))"
    using Cons.prems by (simp add: upd_upd_append)
  finally show ?case .
qed

lemma get_insts_spec:
  assumes "bytes_at m (20 + j) (concat (map inst_bytes l))" and "4 dvd j"
    and "len = 20 + j + length (concat (map inst_bytes l))" and "len < 2 ^ 31"
  shows "get_insts (\<lambda>_. True) k (length l) j (int len) m = Some (Inr l)"
  using assms
proof (induction l arbitrary: j k m)
  case (Cons p l)
  obtain inst name where p: "p = (inst, name)" by (cases p)
  let ?n = "length name" and ?ip = "20 + j"
  let ?N = "PM_PDU_SIZE_BYTES (length name)"
  let ?rest = "concat (map inst_bytes l)"
  let ?m = "upd m (?ip + 4) (w2b (word_of_nat ?n))"
  have j: "j div 4 * 4 = j" using Cons.prems(2) by simp
  have "int len - int ?ip = int (8 + ?N + length ?rest)" using Cons.prems(3) p by simp
  then have diff: "u64 (int len - int ?ip) = int (8 + ?N + length ?rest)"
    using Cons.prems(4) by (simp del: of_nat_add)
  have sz: "?n \<le> ?N" by (rule PM_PDU_SIZE_BYTES_bounds)
  have n: "?n < 2 ^ 31 - 20" using Cons.prems(3,4) sz p by simp
  have bnd: "?ip + 8 + ?N + length ?rest \<le> length m" using bytes_at_bound [OF Cons.prems(1)] p by simp
  have at: "bytes_at m ?ip (n2b inst)" "bytes_at m (?ip + 4) (n2b (word_of_nat ?n))"
      "bytes_at m (?ip + 8) name" "bytes_at m (?ip + 8 + ?N) ?rest"
    using Cons.prems(1) p inst_bytes_def [of p] by (auto simp: name_bytes_def bytes_at_append add.assoc)
  have w: "ldn m ?ip = Some inst" "ldn m (?ip + 4) = Some (word_of_nat ?n)"
    using at by (auto intro: bytes_at_ldn)
  have at2: "bytes_at ?m (?ip + 8) name" "bytes_at ?m (?ip + 8 + ?N) ?rest"
    using at bnd by (simp_all add: mem_simps)
  have ld: "ld ?m (?ip + 8) ?n = Some name" using at2(1) by (rule bytes_at_ld) simp
  have sn: "sint (word_of_nat ?n :: u32) = int ?n" using n by (intro sint_pdu_len) simp
  have "get_insts (\<lambda>_. True) (Suc k) (length l) (j + 8 + ?N) (int len) ?m = Some (Inr l)"
    using Cons.prems p at2 by (intro Cons.IH) (auto simp: dvd_add add.assoc)
  with w ld sn j diff sz bnd p show ?case by (simp add: Let_def mem_simps)
qed simp

definition wf_inres :: "pmInResult \<Rightarrow> bool" where
  "wf_inres r \<longleftrightarrow> instance_need r < 2 ^ 30 \<and>
     (\<forall>l. ir_instlist r = Some l \<longrightarrow> length l = ir_numinst r) \<and>
     (\<forall>ns. ir_namelist r = Some ns \<longrightarrow> length ns = ir_numinst r)"

text \<open>What arrives: missing lists are filled in, except that of a single instance only what is
  known is kept.\<close>

definition recv_inres :: "pmInResult \<Rightarrow> pmInResult" where
  "recv_inres r = r\<lparr>
     ir_instlist := (if ir_numinst r \<noteq> 1 \<or> (\<exists>p \<in> set (insts r). fst p \<noteq> PM_IN_NULL)
       then Some (map fst (insts r)) else None),
     ir_namelist := (if ir_numinst r \<noteq> 1 \<or> (\<exists>p \<in> set (insts r). snd p \<noteq> [])
       then Some (map snd (insts r)) else None)\<rparr>"

definition instance_body :: "pmInResult \<Rightarrow> mem" where
  "instance_body r = n2b (ir_indom r) @ n2b (word_of_nat (ir_numinst r)) @ concat (map inst_bytes (insts r))"

lemma length_concat_inst_bytes:
  "length (concat (map inst_bytes (insts r))) + 20 = instance_need r"
proof -
  have "length (concat (map (\<lambda>i. inst_bytes (inst_at r i)) l)) = (\<Sum>i\<leftarrow>l. 8 +
      (case ir_namelist r of None \<Rightarrow> 0 | Some ns \<Rightarrow> PM_PDU_SIZE_BYTES (length (ns ! i))))" for l
    by (induction l) (auto simp: inst_at_def split: option.splits)
  then show ?thesis by (simp add: insts_def instance_need_def comp_def)
qed

lemma length_instance_body: "12 + length (instance_body r) = instance_need r"
  using length_concat_inst_bytes [of r] by (simp add: instance_body_def)

lemma instance_need_bound: "20 + 8 * ir_numinst r \<le> instance_need r"
proof -
  have "8 * length l \<le> length (concat (map inst_bytes l))" for l by (induction l) auto
  from this [of "insts r"] length_concat_inst_bytes [of r] show ?thesis by (simp add: insts_def)
qed

lemma instance_build:
  assumes "instance_need r \<le> length m"
  shows "\<exists>m'. build_instance fr r m = Some m' \<and> length m' = length m \<and>
    bytes_at m' 0 (mk_pdu PDU_INSTANCE fr (instance_body r))"
proof -
  let ?c = "concat (map (\<lambda>i. inst_bytes (inst_at r i)) [0..<ir_numinst r])"
  have c: "concat (map inst_bytes (insts r)) = ?c" by (simp add: insts_def comp_def)
  then have len: "20 + length ?c \<le> length m" using assms length_concat_inst_bytes [of r] by simp
  then have p: "put_insts r [0..<ir_numinst r] 0 x = Some (upd x 20 ?c)" if "length x = length m" for x
    using put_insts_spec [of 0 r "[0..<ir_numinst r]" x] that by simp
  show ?thesis
    using len p c length_instance_body [of r]
    by (simp add: build_instance_def instance_body_def build_simps)
qed

lemma instance_decode:
  assumes wf: "wf_inres r" and at: "bytes_at m 0 (mk_pdu PDU_INSTANCE fr (instance_body r))"
  shows "pmDecodeInstance (\<lambda>_. True) m = Some (Inr (recv_inres r))"
proof -
  let ?N = "instance_need r" and ?n = "ir_numinst r"
  have N: "?N < 2 ^ 30" using wf by (simp add: wf_inres_def)
  note B = instance_need_bound [of r]
  have len: "pdu_len m = Some (int ?N)"
    using pdu_len_pdu [OF at] sint_pdu_len [of ?N] length_instance_body [of r] N by simp
  have w: "ldn m 12 = Some (ir_indom r)" "ldn m 16 = Some (word_of_nat ?n)"
      "bytes_at m 20 (concat (map inst_bytes (insts r)))"
    using pdu_body [OF at] by (auto simp: instance_body_def bytes_at_append intro: bytes_at_ldn)
  have "get_insts (\<lambda>_. True) 3 (length (insts r)) 0 (int ?N) m = Some (Inr (insts r))"
    using w(3) length_concat_inst_bytes [of r] N by (intro get_insts_spec) simp_all
  then have g: "get_insts (\<lambda>_. True) 3 ?n 0 (int ?N) m = Some (Inr (insts r))" by (simp add: insts_def)
  have s: "sint (word_of_nat ?n :: u32) = int ?n" using B N by (intro sint_pdu_len) simp
  have "\<not> u64 (int ?N) < 20" "\<not> u64 (int ?n) \<ge> INT_MAX div 4" "\<not> u64 (int ?n) \<ge> INT_MAX div 8"
      "\<not> int ?n \<ge> int ?N"
    using B N by (simp_all add: INT_MAX_def)
  with len w s g show ?thesis
    by (simp add: pmDecodeInstance_def recv_inres_def)
qed

interpretation instance_codec: pdu_codec "\<lambda>x. wf_inres (snd x)" PDU_INSTANCE fst "\<lambda>x. int (instance_need (snd x))"
  "\<lambda>x. length (instance_body (snd x))" "\<lambda>x body. body = instance_body (snd x)"
  "\<lambda>x. build_instance (fst x) (snd x)" "pmDecodeInstance (\<lambda>_. True)" "\<lambda>x. recv_inres (snd x)"
proof
  fix x :: "u32 \<times> pmInResult"
  assume "wf_inres (snd x)"
  then show "12 + length (instance_body (snd x)) \<le> nat (INT_MAX - 2 * PDU_CHUNK)"
    using length_instance_body by (simp add: wf_inres_def codec_size)
qed (use instance_build instance_decode in \<open>auto simp: codec_size\<close>)

section \<open>Decoders and the end of the PDU\<close>

lemma get_insts_safe:
  assumes "4 dvd length m" "length m < 2 ^ 31" "4 dvd j" "20 + j \<le> length m"
  shows "get_insts mal k n j (int (length m)) m \<noteq> None"
  using assms
proof (induction n arbitrary: j k m)
  case (Suc n)
  let ?ip = "20 + j"
  have j: "j div 4 * 4 = j" using Suc.prems(3) by simp
  have diff: "u64 (int (length m) - (20 + int j)) = int (length m) - (20 + int j)"
    using Suc.prems by (intro u64_id) auto
  have next_ok: "get_insts mal k' n (j + 8 + PM_PDU_SIZE_BYTES l) (int (length m)) m' \<noteq> None"
    if "?ip + 8 + l \<le> length m" "length m' = length m" for k' l m'
    using that Suc.prems next_record [of "length m" 20 j 8 l] Suc.IH [of m' "j + 8 + PM_PDU_SIZE_BYTES l" k']
    by auto
  have fits: "?ip + 8 + nat (sint w) \<le> length m"
    if "0 \<le> sint w" "8 + sint w \<le> int (length m) - (20 + int j)" for w :: u32
    using that by linarith
  have st: "st32 m (24 + j) w = Some (upd m (24 + j) (w2b w))" "length (upd m (24 + j) (w2b w)) = length m"
    if "28 + j \<le> length m" for w
    using that by (simp_all add: mem_simps)
  show ?case
  proof (cases "28 + j \<le> length m")
    case True
    with st show ?thesis
      by (auto simp: Let_def bind_None_iff not_less diff j fits [simplified] next_ok [simplified] simp del: not_None_eq)
  next
    case False
    then have "u64 (int (length m) - int ?ip) < 8" using diff by simp
    with j show ?thesis by (simp add: Let_def)
  qed
qed simp

lemma decode_fetch_safe:
  assumes "exact_pdu m"
  shows "decode_fetch m \<noteq> None"
proof -
  note len = exact_pdu_len [OF assms] and bnd = exact_pdu_bound [OF assms]
  have u: "u64 (int (length m)) = int (length m)" using bnd by simp
  have sw: "\<exists>m'. swap_words 28 (nat n) m = Some m' \<and> length m' = length m \<and> 28 + 4 * nat n = length m"
    if "int (length m) = 28 + 4 * n" "\<not> length m < 32" for n
  proof -
    have "int (length m) = int (28 + 4 * nat n)" using that by simp
    then have "28 + 4 * nat n = length m" by linarith
    with swap_words_total [of 28 "nat n" m] show ?thesis by auto
  qed
  show ?thesis
    by (auto simp: decode_fetch_def len u bind_None_iff Let_def not_le ld32s_None_iff simp del: not_None_eq dest!: sw)
qed

lemma build_instance_req_overflow:
  "length m < instance_req_need name \<Longrightarrow> build_instance_req fr tv indom inst name m = None"
proof (rule ccontr)
  assume short: "length m < instance_req_need name" and "build_instance_req fr tv indom inst name m \<noteq> None"
  then obtain m' where "build_instance_req fr tv indom inst name m = Some m'" by blast
  then have "instance_req_need name \<le> length m"
    by (auto simp: build_instance_req_def instance_req_need_def put_hdr_def st32_def stn_def bind_eq_Some_conv st_def
        split: option.splits if_splits)
  with short show False by simp
qed

section \<open>Properties\<close>

text \<open>C29: a fetch request for any non-empty list of metrics, sent with \<open>__pmSendFetch\<close> and read by
  another process through any fragmentation, is decoded by \<open>__pmDecodeFetch\<close> to the same context,
  time and list. The list is the one the PDU buffer holds after the conversion in place, and the
  buffer is then pinned twice, once for the reader and once for the list.\<close>

theorem fetch_end_to_end:
  assumes "0 < length pmids" "length pmids < 2 ^ 28" "is_int32 ctxnum"
    and "can_send e (28 + 4 * int (length pmids)) s" and "drains writes (28 + 4 * length pmids)"
  shows "\<exists>sent s'. pmSendFetch e xe writes fr ctxnum tv pmids s = Some (28 + 4 * int (length pmids), sent, s') \<and>
    pin_held s' = pin_held s \<and> length sent = 28 + 4 * length pmids \<and>
    (\<forall>g mode timeout trips r rest.
       can_recv g mode timeout (28 + 4 * int (length pmids)) trips r \<longrightarrow> stream trips = sent @ rest \<longrightarrow>
       (\<exists>a ts r' r''. pmGetPDU g mode timeout trips r = Some ((PDU_FETCH, Some a), ts, r') \<and> stream ts = rest \<and>
         pmDecodeFetch a r' = Some (Inr (\<lparr>f_ctxnum = ctxnum, f_sec = fst (when_words tv),
           f_usec = snd (when_words tv), f_pmids = pmids\<rparr>, r'')) \<and>
         ld32s (heap r'' a) 28 (length pmids) = Some pmids \<and>
         pin_held r'' = (pin_held r)(a := 2)))"
proof -
  let ?q = "\<lparr>f_ctxnum = ctxnum, f_sec = fst (when_words tv), f_usec = snd (when_words tv), f_pmids = pmids\<rparr>"
  have dec: "\<exists>r''. pmDecodeFetch a r' = Some (Inr (?q, r'')) \<and> ld32s (heap r'' a) 28 (length pmids) = Some pmids \<and>
      pin_held r'' = (pin_held r)(a := 2)"
    if d: "map_option (map_sum id fst) (decode_fetch (heap r' a)) = Some (Inr ?q)"
      and p: "pin_held r' = (pin_held r)(a := 1)" "pool_inv (io_pool r')" for a r r'
  proof -
    obtain m' where m': "decode_fetch (heap r' a) = Some (Inr (?q, m'))" "ld32s m' 28 (length pmids) = Some pmids"
      using decode_fetch_list [OF d] by auto
    have h: "held (pinmap (io_pool r')) a = 1" using p(1) by (simp add: pin_held_def)
    obtain p' where "pmPinPDUBuf a (io_pool r') = Some p'"
        "held (pinmap p') = (held (pinmap (io_pool r')))(a := 1 + 1)"
      by (rule pdubuf.pin_again [OF p(2) h]) (simp_all add: INT_MAX_def)
    with m' p(1) show ?thesis by (auto simp: pmDecodeFetch_def pin_held_def fun_eq_iff)
  qed
  let ?l = "28 + 4 * int (length pmids)"
  obtain sent s' where snd: "pmSendFetch e xe writes fr ctxnum tv pmids s = Some (?l, sent, s')"
      "pin_held s' = pin_held s" "length sent = 28 + 4 * length pmids"
    and rcv: "\<And>g mode timeout trips r rest. can_recv g mode timeout ?l trips r \<Longrightarrow> stream trips = sent @ rest \<Longrightarrow>
      \<exists>a ts r'. pmGetPDU g mode timeout trips r = Some ((PDU_FETCH, Some a), ts, r') \<and>
        map_option (map_sum id fst) (decode_fetch (heap r' a)) = Some (Inr ?q) \<and> stream ts = rest \<and>
        pin_held r' = (pin_held r)(a := 1) \<and> pool_inv (io_pool r')"
    using fetch_codec.end_to_end_inv [of "(fr, ctxnum, tv, pmids)" e s writes xe] assms
    by (simp add: pmSendFetch_def del: map_option_eq_Some) blast
  show ?thesis
    using snd rcv dec by (intro exI [of _ sent] exI [of _ s']) meson
qed

text \<open>C28: the result of an instance domain request, sent with \<open>__pmSendInstance\<close> and read through
  any fragmentation, is decoded by \<open>__pmDecodeInstance\<close> to the same domain, instances and names;
  a list the sender left out arrives filled with \<open>PM_IN_NULL\<close> or empty names, unless there is a
  single instance and nothing is known of it.\<close>

theorem instance_end_to_end:
  assumes "wf_inres x" and "can_send e (int (instance_need x)) s" and "drains writes (instance_need x)"
  shows "\<exists>sent s'. pmSendInstance e xe writes fr x s = Some (int (instance_need x), sent, s') \<and>
    pin_held s' = pin_held s \<and> length sent = instance_need x \<and>
    (\<forall>g mode timeout trips r rest.
       can_recv g mode timeout (int (instance_need x)) trips r \<longrightarrow> stream trips = sent @ rest \<longrightarrow>
       (\<exists>a ts r'. pmGetPDU g mode timeout trips r = Some ((PDU_INSTANCE, Some a), ts, r') \<and>
         pmDecodeInstance (\<lambda>_. True) (heap r' a) = Some (Inr (recv_inres x)) \<and> stream ts = rest \<and>
         pin_held r' = (pin_held r)(a := 1)))"
proof -
  have "12 + int (length (instance_body x)) = int (instance_need x)" using length_instance_body [of x] by linarith
  with instance_codec.end_to_end [of "(fr, x)" e s writes xe] assms length_instance_body [of x]
  show ?thesis by (simp add: pmSendInstance_def)
qed

text \<open>\<open>__pmSendInstanceReq\<close> asks for a buffer of \<open>sizeof(int)\<close> bytes instead of the size it
  computed. If the buffer it gets happens to be large enough, the request it builds decodes to what
  was asked; if not (a name of more than about a thousand characters in a fresh pool), it writes past the
  end of the buffer.\<close>

theorem instance_req_buffer:
  assumes "find_buf (e 4) 4 (io_pool s) = Some (Some a, p)" and "wf_inst_name name"
  shows "if instance_req_need name \<le> length (heap s a)
    then \<exists>m'. build_instance_req fr tv indom inst name (heap s a) = Some m' \<and>
      pmDecodeInstanceReq True m' = Some (Inr (tv, indom, inst, map_option (\<lambda>s. s @ [0]) name))
    else pmSendInstanceReq e xe writes fr tv indom inst name s = None"
proof (cases "instance_req_need name \<le> length (heap s a)")
  case True
  then show ?thesis
    using instance_req_codec.roundtrip [of "(fr, tv, indom, inst, name)" "heap s a"] assms(2) by simp
next
  case False
  then show ?thesis
    using assms(1) build_instance_req_overflow [of "heap s a" name fr tv indom inst]
    by (simp add: pmSendInstanceReq_def pdu_send_def)
qed

text \<open>C33: on a PDU of any content the decoders of fetch and instance requests read and write
  only inside the PDU; so does the decoder of instance results when the length of the PDU is a
  multiple of four.\<close>

theorem instance_decoders_safe:
  assumes "exact_pdu m"
  shows "decode_fetch m \<noteq> None \<and> pmDecodeInstanceReq ok m \<noteq> None \<and>
    (4 dvd length m \<longrightarrow> pmDecodeInstance mal m \<noteq> None)"
proof (intro conjI impI)
  note len = exact_pdu_len [OF assms] and bnd = exact_pdu_bound [OF assms]
  have u: "u64 (int (length m)) = int (length m)" using bnd by simp
  show "decode_fetch m \<noteq> None" by (rule decode_fetch_safe [OF assms])
  show "pmDecodeInstanceReq ok m \<noteq> None"
    by (auto simp: pmDecodeInstanceReq_def len u bind_None_iff Let_def simp del: not_None_eq)
  assume "4 dvd length m"
  then have "20 \<le> length m \<Longrightarrow> get_insts mal 3 n 0 (int (length m)) m \<noteq> None" for n
    using get_insts_safe [of m 0] bnd by auto
  then show "pmDecodeInstance mal m \<noteq> None"
    by (auto simp: pmDecodeInstance_def len u bind_None_iff Let_def simp del: not_None_eq)
qed

section \<open>Examples\<close>

lemma fetch_end_to_end_witness:
  "\<exists>sent s' a ts r' r''. pmSendFetch (\<lambda>_. (False, None)) sample_xenv [36] 0 3 None [5, 6] sample_io = Some (36, sent, s') \<and>
    pmGetPDU sample_env ANY_SIZE TIMEOUT_NEVER [Chunk (1, 0) (take 5 sent), Chunk (2, 0) (drop 5 sent)] sample_io =
      Some ((PDU_FETCH, Some a), ts, r') \<and>
    pmDecodeFetch a r' = Some (Inr (\<lparr>f_ctxnum = 3, f_sec = 0, f_usec = 0, f_pmids = [5, 6]\<rparr>, r'')) \<and>
    pin_held r'' a = 2"
proof -
  obtain sent s' where snd: "pmSendFetch (\<lambda>_. (False, None)) sample_xenv [36] 0 3 None [5, 6] sample_io = Some (36, sent, s')"
      "length sent = 36"
      "\<And>g mode timeout trips r rest. can_recv g mode timeout 36 trips r \<Longrightarrow> stream trips = sent @ rest \<Longrightarrow>
       (\<exists>a ts r' r''. pmGetPDU g mode timeout trips r = Some ((PDU_FETCH, Some a), ts, r') \<and>
         pmDecodeFetch a r' = Some (Inr (\<lparr>f_ctxnum = 3, f_sec = 0, f_usec = 0, f_pmids = [5, 6]\<rparr>, r'')) \<and>
         pin_held r'' = (pin_held r)(a := 2))"
    using fetch_end_to_end [of "[5, 6]" 3 "\<lambda>_. (False, None)" sample_io "[36]" sample_xenv 0 None]
    by (simp add: sample_can_send is_int32_def when_words_def) meson
  show ?thesis using snd(1,2) snd(3) [OF _ sample_trips(2)] sample_trips(1) [of sent] by fastforce
qed

definition sample_inres :: pmInResult where
  "sample_inres = \<lparr>ir_indom = 60, ir_numinst = 2, ir_instlist = Some [1, 5], ir_namelist = Some [[115, 100, 97], []]\<rparr>"

lemma instance_end_to_end_witness:
  "\<exists>sent s' a ts r'. pmSendInstance (\<lambda>_. (False, None)) sample_xenv [40] 0 sample_inres sample_io = Some (40, sent, s') \<and>
    pmGetPDU sample_env ANY_SIZE TIMEOUT_NEVER [Chunk (1, 0) (take 5 sent), Chunk (2, 0) (drop 5 sent)] sample_io =
      Some ((PDU_INSTANCE, Some a), ts, r') \<and> pmDecodeInstance (\<lambda>_. True) (heap r' a) = Some (Inr sample_inres)"
proof -
  have need: "instance_need sample_inres = 40" and wf: "wf_inres sample_inres"
    by (simp_all add: instance_need_def wf_inres_def sample_inres_def upt_rec PM_PDU_SIZE_BYTES_def PM_PDU_SIZE_def)
  have "recv_inres sample_inres = sample_inres"
    by (simp add: recv_inres_def sample_inres_def insts_def inst_at_def upt_rec)
  then obtain sent s' where snd: "pmSendInstance (\<lambda>_. (False, None)) sample_xenv [40] 0 sample_inres sample_io = Some (40, sent, s')"
      "length sent = 40"
      "\<And>g mode timeout trips r rest. can_recv g mode timeout 40 trips r \<Longrightarrow> stream trips = sent @ rest \<Longrightarrow>
       (\<exists>a ts r'. pmGetPDU g mode timeout trips r = Some ((PDU_INSTANCE, Some a), ts, r') \<and>
         pmDecodeInstance (\<lambda>_. True) (heap r' a) = Some (Inr sample_inres))"
    using instance_end_to_end [OF wf, of "\<lambda>_. (False, None)" sample_io "[40]" sample_xenv 0] need
    by (simp add: sample_can_send) meson
  show ?thesis using snd(1,2) snd(3) [OF _ sample_trips(2)] sample_trips(1) [of sent] by fastforce
qed

lemma instance_req_buffer_witness:
  "\<exists>a p. find_buf (False, None) 4 (io_pool sample_io) = Some (Some a, p) \<and> wf_inst_name (Some (replicate 2000 97)) \<and>
     pmSendInstanceReq (\<lambda>_. (False, None)) sample_xenv [2032] 0 (0, 0) 60 7 (Some (replicate 2000 97)) sample_io = None"
proof -
  obtain a p where f: "find_buf (False, None) 4 (io_pool sample_io) = Some (Some a, p)"
    using sample_can_send [of 4] by (auto simp: can_send_def)
  have wf: "wf_inst_name (Some (replicate 2000 97))"
    by (simp add: wf_inst_name_def name_of_def)
  have "length (heap sample_io a) = 1024" by (simp add: sample_io_def)
  moreover have "instance_req_need (Some (replicate 2000 97)) = 2032"
    by (simp add: instance_req_need_def PM_PDU_SIZE_BYTES_def PM_PDU_SIZE_def)
  ultimately show ?thesis
    using f wf instance_req_buffer [OF f wf, of 0 "(0, 0)" 60 7 sample_xenv "[2032]"] by simp
qed

definition empty_insts :: mem where
  "empty_insts = w2b 20 @ w2b (word_of_int PDU_INSTANCE) @ w2b 0 @ n2b 60 @ n2b 0"

lemma instance_decoders_safe_witness:
  "exact_pdu empty_insts \<and> 4 dvd length empty_insts \<and> pmDecodeInstance (\<lambda>_. True) empty_insts \<noteq> None"
proof -
  have "bytes_at empty_insts 0 (w2b 20)" by (simp add: empty_insts_def bytes_at_def ld_def)
  then have "exact_pdu empty_insts"
    by (simp add: exact_pdu_def pdu_len_def bytes_at_ld32) (simp add: empty_insts_def)
  moreover have "length empty_insts = 20" by (simp add: empty_insts_def)
  ultimately show ?thesis
    using instance_decoders_safe [of empty_insts True "\<lambda>_. True"] by simp
qed

end
