(* ===== verification/Profile.thy ===== *)
theory Profile
  imports Prelude
begin

text \<open>
  Instance profiles, \<^verbatim>\<open>profile.c\<close>, with the lookup of the current context of \<^verbatim>\<open>context.c\<close>: which
  instances of which domains a context selects. An array is the list of its initialised elements
  and its length is a separate field, as in the code; reading beyond the elements is a fault.
  Releasing memory has no effect here. The lock of a context is its depth.
\<close>

section \<open>Contexts and profiles\<close>

definition PM_PROFILE_INCLUDE :: int where "PM_PROFILE_INCLUDE = 0"
definition PM_PROFILE_EXCLUDE :: int where "PM_PROFILE_EXCLUDE = 1"
definition PM_CONTEXT_UNDEF :: int where "PM_CONTEXT_UNDEF = - 1"
definition PM_CONTEXT_FREE :: int where "PM_CONTEXT_FREE = - 1"

lemmas profile_consts = PM_PROFILE_INCLUDE_def PM_PROFILE_EXCLUDE_def

record pmInDomProfile =
  p_indom :: u32
  p_state :: int
  instances_len :: nat
  instances :: "u32 list option"

record pmProfile =
  pr_state :: int
  profile_len :: nat
  profile :: "pmInDomProfile list option"

record pmContext =
  c_type :: int
  c_sent :: int
  c_instprof :: pmProfile
  c_lock :: int

record ctxs =
  contexts :: "pmContext list"
  curcontext :: int

definition pmWhichContext :: "ctxs \<Rightarrow> int" where
  "pmWhichContext s = (if curcontext s > PM_CONTEXT_UNDEF then curcontext s else PM_ERR_NOCONTEXT)"

text \<open>The context is returned locked.\<close>

definition pmHandleToPtr :: "int \<Rightarrow> ctxs \<Rightarrow> pmContext option" where
  "pmHandleToPtr handle s =
     (if handle < 0 \<or> handle \<ge> int (length (contexts s)) \<or> c_type (contexts s ! nat handle) = PM_CONTEXT_FREE then None
      else let ctx = contexts s ! nat handle in Some (ctx\<lparr>c_lock := c_lock ctx + 1\<rparr>))"

fun elems :: "'a list option \<Rightarrow> 'a list" where
  "elems None = []"
| "elems (Some xs) = xs"

text \<open>The first \<open>len\<close> elements of an array, \<^const>\<open>None\<close> when it has not so many.\<close>

definition arr :: "'a list option \<Rightarrow> nat \<Rightarrow> 'a list option" where
  "arr a len = (case a of
     None \<Rightarrow> (if len = 0 then Some [] else None)
   | Some l \<Rightarrow> (if len \<le> length l then Some (take len l) else None))"

section \<open>Operations\<close>

definition subtract :: "bool \<Rightarrow> u32 list option \<Rightarrow> nat \<Rightarrow> u32 list \<Rightarrow> (u32 list option \<times> nat) option" where
  "subtract mal lst len arg = (case lst of
     None \<Rightarrow> Some (None, len)
   | Some _ \<Rightarrow>
       if \<not> mal then Some (None, len)
       else do {
         l \<leftarrow> arr lst len;
         let new = filter (\<lambda>x. \<not> List.member arg x) l;
         Some (Some new, length new)
       })"

text \<open>The loop of \<open>_union\<close> over \<open>arg\<close>.\<close>

fun add_missing :: "u32 list \<Rightarrow> u32 list \<Rightarrow> u32 list" where
  "add_missing [] new = new"
| "add_missing (x # arg) new = add_missing arg (if List.member new x then new else new @ [x])"

definition union :: "bool \<Rightarrow> u32 list option \<Rightarrow> nat \<Rightarrow> u32 list \<Rightarrow> (u32 list option \<times> nat) option" where
  "union mal lst len arg = (case lst of
     None \<Rightarrow> (if \<not> mal then None else Some (Some arg, length arg))
   | Some _ \<Rightarrow>
       if \<not> mal then Some (None, len)
       else do {
         l \<leftarrow> arr lst len;
         let new = add_missing arg l;
         Some (Some new, length new)
       })"

definition setGlobalState :: "int \<Rightarrow> pmContext \<Rightarrow> pmContext option" where
  "setGlobalState state ctx = (
     let prof = c_instprof ctx in do {
       prof \<leftarrow> (case profile prof of
          None \<Rightarrow> Some prof
        | Some _ \<Rightarrow> do { _ \<leftarrow> arr (profile prof) (profile_len prof); Some (prof\<lparr>profile := None, profile_len := 0\<rparr>) });
       Some (ctx\<lparr>c_instprof := prof\<lparr>pr_state := state\<rparr>, c_sent := 0\<rparr>)
     })"

definition fresh_entry :: "u32 \<Rightarrow> pmInDomProfile" where
  "fresh_entry indom = \<lparr>p_indom = indom, p_state = PM_PROFILE_INCLUDE, instances_len = 0, instances = None\<rparr>"

text \<open>The index of the new entry, or \<^const>\<open>None\<close> when there is no memory.\<close>

definition newprof :: "bool \<Rightarrow> u32 \<Rightarrow> pmContext \<Rightarrow> (nat option \<times> pmContext) option" where
  "newprof mal indom ctx = (
     let prof = c_instprof ctx in
     case profile prof of
       None \<Rightarrow> Some (if \<not> mal then (None, ctx)
         else (Some 0, ctx\<lparr>c_instprof := prof\<lparr>profile := Some [fresh_entry indom], profile_len := 1\<rparr>\<rparr>))
     | Some _ \<Rightarrow>
         if \<not> mal then Some (None, ctx\<lparr>c_instprof := prof\<lparr>profile_len := profile_len prof + 1\<rparr>\<rparr>)
         else do {
           ps \<leftarrow> arr (profile prof) (profile_len prof);
           Some (Some (profile_len prof), ctx\<lparr>c_instprof :=
             prof\<lparr>profile := Some (ps @ [fresh_entry indom]), profile_len := profile_len prof + 1\<rparr>\<rparr>)
         })"

text \<open>The search of \<open>__pmFindProfile\<close>: the index of the first entry for the domain.\<close>

fun find_prof :: "u32 \<Rightarrow> pmInDomProfile list \<Rightarrow> nat \<Rightarrow> nat option option" where
  "find_prof indom ps 0 = Some None"
| "find_prof indom [] (Suc n) = None"
| "find_prof indom (p # ps) (Suc n) =
     (if p_indom p = indom then Some (Some 0) else map_option (map_option Suc) (find_prof indom ps n))"

definition pmFindProfile :: "u32 \<Rightarrow> pmProfile option \<Rightarrow> nat option option" where
  "pmFindProfile indom prof = (case prof of
     None \<Rightarrow> Some None
   | Some pr \<Rightarrow> (case profile pr of
       None \<Rightarrow> (if profile_len pr > 0 then None else Some None)
     | Some ps \<Rightarrow> find_prof indom ps (profile_len pr)))"

text \<open>The search of \<open>__pmInProfile\<close> through the instances.\<close>

fun find_inst :: "u32 \<Rightarrow> u32 list \<Rightarrow> nat \<Rightarrow> bool option" where
  "find_inst i l 0 = Some False"
| "find_inst i [] (Suc n) = None"
| "find_inst i (x # l) (Suc n) = (if x = i then Some True else find_inst i l n)"

definition pmInProfile :: "u32 \<Rightarrow> pmProfile option \<Rightarrow> u32 \<Rightarrow> int option" where
  "pmInProfile indom prof i = (case prof of
     None \<Rightarrow> Some 1
   | Some pr \<Rightarrow> do {
       f \<leftarrow> pmFindProfile indom prof;
       (case f of
          None \<Rightarrow> Some (if pr_state pr = PM_PROFILE_INCLUDE then 1 else 0)
        | Some k \<Rightarrow> do {
            let p = the (profile pr) ! k;
            found \<leftarrow> find_inst i (elems (instances p)) (instances_len p);
            Some (if found then (if p_state p = PM_PROFILE_INCLUDE then 0 else 1)
                  else (if p_state p = PM_PROFILE_INCLUDE then 1 else 0))
          })
     })"

text \<open>Find the entry of the domain or make one, in state \<open>PM_PROFILE_EXCLUDE\<close>.\<close>

definition upd_entry :: "nat \<Rightarrow> (pmInDomProfile \<Rightarrow> pmInDomProfile) \<Rightarrow> pmContext \<Rightarrow> pmContext" where
  "upd_entry k f ctx = (let prof = c_instprof ctx in
     ctx\<lparr>c_instprof := prof\<lparr>profile := map_option (\<lambda>ps. ps[k := f (ps ! k)]) (profile prof)\<rparr>\<rparr>)"

definition find_or_new :: "bool \<Rightarrow> u32 \<Rightarrow> pmContext \<Rightarrow> (nat option \<times> pmContext) option" where
  "find_or_new mal indom ctx = do {
     f \<leftarrow> pmFindProfile indom (Some (c_instprof ctx));
     (case f of
        Some k \<Rightarrow> Some (Some k, ctx)
      | None \<Rightarrow> do {
          (r, ctx) \<leftarrow> newprof mal indom ctx;
          Some (r, case r of None \<Rightarrow> ctx
            | Some k \<Rightarrow> upd_entry k (\<lambda>p. p\<lparr>p_state := PM_PROFILE_EXCLUDE\<rparr>) ctx)
        })
   }"

text \<open>The part of \<open>pmAddProfile\<close> and \<open>pmDelProfile\<close> that works on the locked context. The state
  chooses between the two: \<open>all\<close> is the state that selects or deselects everything, \<open>incl\<close> and \<open>excl\<close>
  are the list operations for an entry in the two states. An instance list is given with its
  length; allocation 0 is of the entry, 1 of the list.\<close>

type_synonym list_op = "bool \<Rightarrow> u32 list option \<Rightarrow> nat \<Rightarrow> u32 list \<Rightarrow> (u32 list option \<times> nat) option"

definition change_entry :: "(nat \<Rightarrow> bool) \<Rightarrow> int \<Rightarrow> list_op \<Rightarrow> list_op \<Rightarrow> nat \<Rightarrow> u32 list option \<Rightarrow> nat \<Rightarrow>
    pmContext \<Rightarrow> pmContext option" where
  "change_entry mal all incl excl instlist_len instlist k ctx =
     (if instlist_len = 0 \<or> instlist = None then
        Some (upd_entry k (\<lambda>p. p\<lparr>instances := None, instances_len := 0, p_state := all\<rparr>) ctx)
      else do {
        arg \<leftarrow> arr instlist instlist_len;
        let p = the (profile (c_instprof ctx)) ! k;
        (l, len) \<leftarrow>
          (if p_state p = PM_PROFILE_INCLUDE then incl (mal 1) (instances p) (instances_len p) arg
           else if p_state p = PM_PROFILE_EXCLUDE then excl (mal 1) (instances p) (instances_len p) arg
           else Some (instances p, instances_len p));
        Some (upd_entry k (\<lambda>p. p\<lparr>instances := l, instances_len := len\<rparr>) ctx)
      })"

definition change_locked :: "(nat \<Rightarrow> bool) \<Rightarrow> int \<Rightarrow> list_op \<Rightarrow> list_op \<Rightarrow> u32 \<Rightarrow> nat \<Rightarrow> u32 list option \<Rightarrow>
    pmContext \<Rightarrow> (int \<times> pmContext) option" where
  "change_locked mal all incl excl indom instlist_len instlist ctx =
     (if indom = PM_INDOM_NULL \<and> instlist_len = 0 then
        map_option (\<lambda>ctx. (0, ctx\<lparr>c_sent := 0\<rparr>)) (setGlobalState all ctx)
      else do {
        (f, ctx) \<leftarrow> find_or_new (mal 0) indom ctx;
        (case f of
           None \<Rightarrow> Some (- ENOMEM, ctx)
         | Some k \<Rightarrow> map_option (\<lambda>ctx. (0, ctx\<lparr>c_sent := 0\<rparr>))
             (change_entry mal all incl excl instlist_len instlist k ctx))
      })"

definition change_profile :: "(nat \<Rightarrow> bool) \<Rightarrow> int \<Rightarrow> list_op \<Rightarrow> list_op \<Rightarrow> u32 \<Rightarrow> nat \<Rightarrow> u32 list option \<Rightarrow>
    ctxs \<Rightarrow> (int \<times> ctxs) option" where
  "change_profile mal all incl excl indom instlist_len instlist s =
     (if indom = PM_INDOM_NULL \<and> instlist \<noteq> None then Some (PM_ERR_PROFILESPEC, s)
      else let sts = pmWhichContext s in
        if sts < 0 then Some (sts, s)
        else case pmHandleToPtr sts s of
          None \<Rightarrow> Some (PM_ERR_NOCONTEXT, s)
        | Some ctx \<Rightarrow> do {
            (r, ctx) \<leftarrow> change_locked mal all incl excl indom instlist_len instlist ctx;
            let ctx = ctx\<lparr>c_lock := c_lock ctx - 1\<rparr>;
            Some (r, s\<lparr>contexts := (contexts s)[nat sts := ctx]\<rparr>)
          })"

definition pmAddProfile :: "(nat \<Rightarrow> bool) \<Rightarrow> u32 \<Rightarrow> nat \<Rightarrow> u32 list option \<Rightarrow> ctxs \<Rightarrow> (int \<times> ctxs) option" where
  "pmAddProfile mal = change_profile mal PM_PROFILE_INCLUDE subtract union"

definition pmDelProfile :: "(nat \<Rightarrow> bool) \<Rightarrow> u32 \<Rightarrow> nat \<Rightarrow> u32 list option \<Rightarrow> ctxs \<Rightarrow> (int \<times> ctxs) option" where
  "pmDelProfile mal = change_profile mal PM_PROFILE_EXCLUDE union subtract"

section \<open>What a profile selects\<close>

text \<open>
  The specification, after \<^verbatim>\<open>pmaddprofile.3\<close>, \<^verbatim>\<open>pmdelprofile.3\<close> and the comments of the code: a default for
  all domains, and for some domains an explicit set of instances. Adding a list to a domain without an
  explicit set selects the list alone, deleting one leaves all that was selected except the list.
\<close>

type_synonym selection = "bool \<times> (u32 \<rightharpoonup> u32 set)"

datatype prof_op = Add u32 "u32 list option" | Del u32 "u32 list option"

definition selected :: "selection \<Rightarrow> u32 \<Rightarrow> u32 \<Rightarrow> bool" where
  "selected sel d i = (case snd sel d of None \<Rightarrow> fst sel | Some S \<Rightarrow> i \<in> S)"

definition explicit_set :: "selection \<Rightarrow> u32 \<Rightarrow> u32 set" where
  "explicit_set sel d = (case snd sel d of None \<Rightarrow> {} | Some S \<Rightarrow> S)"

fun spec_op :: "prof_op \<Rightarrow> selection \<Rightarrow> selection" where
  "spec_op (Add d l) sel =
     (if d = PM_INDOM_NULL then (True, Map.empty)
      else (fst sel, (snd sel)(d \<mapsto> (case l of None \<Rightarrow> UNIV | Some xs \<Rightarrow> explicit_set sel d \<union> set xs))))"
| "spec_op (Del d l) sel =
     (if d = PM_INDOM_NULL then (False, Map.empty)
      else (fst sel, (snd sel)(d \<mapsto> (case l of None \<Rightarrow> {} | Some xs \<Rightarrow> {i. selected sel d i} - set xs))))"

text \<open>
  A call has no list for all domains and for all instances of a domain, and otherwise one that is not
  empty. For all domains the number of instances has to be 0; for all instances of one domain the
  manual page of \<open>pmDelProfile\<close> wants another number, which is not used.
\<close>

definition op_indom :: "prof_op \<Rightarrow> u32" where
  "op_indom op = (case op of Add d _ \<Rightarrow> d | Del d _ \<Rightarrow> d)"

definition op_list :: "prof_op \<Rightarrow> u32 list option" where
  "op_list op = (case op of Add _ l \<Rightarrow> l | Del _ l \<Rightarrow> l)"

definition wf_op :: "prof_op \<Rightarrow> bool" where
  "wf_op op \<longleftrightarrow> (case op_list op of None \<Rightarrow> True | Some xs \<Rightarrow> op_indom op \<noteq> PM_INDOM_NULL \<and> xs \<noteq> [])"

definition numinst :: "u32 \<Rightarrow> u32 list option \<Rightarrow> nat" where
  "numinst d l = (case l of None \<Rightarrow> (if d = PM_INDOM_NULL then 0 else 1) | Some xs \<Rightarrow> length xs)"

fun do_op :: "(nat \<Rightarrow> bool) \<Rightarrow> prof_op \<Rightarrow> ctxs \<Rightarrow> (int \<times> ctxs) option" where
  "do_op mal (Add d l) s = pmAddProfile mal d (numinst d l) l s"
| "do_op mal (Del d l) s = pmDelProfile mal d (numinst d l) l s"





section \<open>The code selects what the specification says\<close>

definition ilist :: "pmInDomProfile \<Rightarrow> u32 list" where
  "ilist p = elems (instances p)"

definition plist :: "pmProfile \<Rightarrow> pmInDomProfile list" where
  "plist pr = elems (profile pr)"

definition entry_sel :: "pmInDomProfile \<Rightarrow> u32 set" where
  "entry_sel p = (if p_state p = PM_PROFILE_INCLUDE then - set (ilist p) else set (ilist p))"

definition wf_entry :: "pmInDomProfile \<Rightarrow> bool" where
  "wf_entry p \<longleftrightarrow> (p_state p = PM_PROFILE_INCLUDE \<or> p_state p = PM_PROFILE_EXCLUDE) \<and> instances_len p = length (ilist p)"

definition wf_prof :: "pmProfile \<Rightarrow> bool" where
  "wf_prof pr \<longleftrightarrow> profile_len pr = length (plist pr) \<and> distinct (map p_indom (plist pr)) \<and> list_all wf_entry (plist pr)"

definition entries_sel :: "pmInDomProfile list \<Rightarrow> u32 \<rightharpoonup> u32 set" where
  "entries_sel ps = map_of (map (\<lambda>p. (p_indom p, entry_sel p)) ps)"

definition prof_sel :: "pmProfile \<Rightarrow> selection" where
  "prof_sel pr = (pr_state pr = PM_PROFILE_INCLUDE, entries_sel (plist pr))"

lemma entries_sel_None: "entries_sel ps d = None \<longleftrightarrow> d \<notin> p_indom ` set ps"
  by (auto simp: entries_sel_def map_of_eq_None_iff image_image)

lemma entries_sel_nth:
  "distinct (map p_indom ps) \<Longrightarrow> k < length ps \<Longrightarrow> entries_sel ps (p_indom (ps ! k)) = Some (entry_sel (ps ! k))"
  unfolding entries_sel_def by (rule map_of_is_SomeI) (auto simp: comp_def image_iff intro!: bexI [of _ "ps ! k"])

lemma entries_sel_append: "d \<notin> p_indom ` set ps \<Longrightarrow> p_indom q = d \<Longrightarrow>
    entries_sel (ps @ [q]) = (entries_sel ps)(d \<mapsto> entry_sel q)"
  by (induction ps) (auto simp: entries_sel_def fun_eq_iff)

lemma entries_sel_update:
  "distinct (map p_indom ps) \<Longrightarrow> k < length ps \<Longrightarrow> p_indom q = p_indom (ps ! k) \<Longrightarrow>
   entries_sel (ps[k := q]) = (entries_sel ps)(p_indom q \<mapsto> entry_sel q)"
proof (induction ps arbitrary: k)
  case (Cons p ps)
  show ?case
  proof (cases k)
    case 0
    then show ?thesis using Cons.prems by (auto simp: entries_sel_def fun_eq_iff)
  next
    case (Suc j)
    then have q: "p_indom q = p_indom (ps ! j)" "j < length ps" using Cons.prems by auto
    then have "p_indom p \<noteq> p_indom q" using Cons.prems(1) by auto
    with Suc Cons.IH [of j] Cons.prems q show ?thesis by (auto simp: entries_sel_def fun_eq_iff)
  qed
qed simp

lemma find_prof_None: "find_prof d ps (length ps) = Some None \<Longrightarrow> d \<notin> p_indom ` set ps"
  by (induction ps) (auto split: if_splits)

lemma find_prof_Some: "find_prof d ps (length ps) = Some (Some k) \<Longrightarrow> k < length ps \<and> p_indom (ps ! k) = d"
  by (induction ps arbitrary: k) (auto split: if_splits)

lemma find_prof_total: "\<exists>r. find_prof d ps (length ps) = Some r"
  by (induction ps) auto

lemma pmFindProfile_spec:
  assumes "profile_len pr = length (plist pr)"
  obtains "pmFindProfile d (Some pr) = Some None" "d \<notin> p_indom ` set (plist pr)"
  | k where "pmFindProfile d (Some pr) = Some (Some k)" "k < length (plist pr)" "p_indom (plist pr ! k) = d"
      "profile pr = Some (plist pr)"
proof (cases "profile pr")
  case None
  with assms that(1) show thesis by (simp add: pmFindProfile_def plist_def)
next
  case (Some ps)
  then have pl: "plist pr = ps" "profile_len pr = length ps" using assms by (auto simp: plist_def)
  obtain r where r: "find_prof d ps (length ps) = Some r" using find_prof_total by blast
  show thesis
  proof (cases r)
    case None
    with r pl Some find_prof_None [of d ps] show thesis by (intro that(1)) (auto simp: pmFindProfile_def)
  next
    case (Some k)
    with r pl \<open>profile pr = Some ps\<close> find_prof_Some [of d ps k] show thesis
      by (intro that(2) [of k]) (auto simp: pmFindProfile_def)
  qed
qed

lemma find_inst_spec: "find_inst i l (length l) = Some (i \<in> set l)"
  by (induction l) auto

lemma pmInProfile_spec:
  assumes "wf_prof pr"
  shows "pmInProfile d (Some pr) i = Some (if selected (prof_sel pr) d i then 1 else 0)"
proof -
  have wf: "profile_len pr = length (plist pr)" "distinct (map p_indom (plist pr))" "list_all wf_entry (plist pr)"
    using assms by (auto simp: wf_prof_def)
  show ?thesis
  proof (rule pmFindProfile_spec [OF wf(1), of d])
    assume "pmFindProfile d (Some pr) = Some None" "d \<notin> p_indom ` set (plist pr)"
    then show ?thesis
      by (simp add: pmInProfile_def selected_def prof_sel_def entries_sel_None [THEN iffD2])
  next
    fix k
    assume k: "pmFindProfile d (Some pr) = Some (Some k)" "k < length (plist pr)" "p_indom (plist pr ! k) = d"
      "profile pr = Some (plist pr)"
    let ?p = "plist pr ! k"
    have p: "wf_entry ?p" using wf(3) k(2) by (simp add: list_all_length)
    then have "find_inst i (ilist ?p) (instances_len ?p) = Some (i \<in> set (ilist ?p))"
      by (simp add: wf_entry_def find_inst_spec)
    moreover have "entries_sel (plist pr) d = Some (entry_sel ?p)"
      using entries_sel_nth [OF wf(2) k(2)] k(3) by simp
    ultimately have f: "find_inst i (elems (instances ?p)) (instances_len ?p) =
        Some (i \<in> set (ilist ?p))" and e: "selected (prof_sel pr) d i \<longleftrightarrow> i \<in> entry_sel ?p"
      by (simp_all only: ilist_def selected_def prof_sel_def snd_conv option.case)
    show ?thesis unfolding pmInProfile_def option.case k(1) Option.bind.simps k(4) option.sel Let_def f
      by (simp add: e entry_sel_def)
  qed
qed

text \<open>The two list operations, on whatever the entry has as its list.\<close>

lemma set_add_missing: "set (add_missing arg new) = set new \<union> set arg"
  by (induction arg new rule: add_missing.induct) auto

lemma subtract_spec:
  "len = length (elems l) \<Longrightarrow> \<exists>l'. subtract True l len arg = Some (l', length (elems l')) \<and>
     set (elems l') = set (elems l) - set arg"
  by (cases l) (auto simp: subtract_def arr_def Let_def)

lemma union_spec:
  "len = length (elems l) \<Longrightarrow> \<exists>l'. union True l len arg = Some (l', length (elems l')) \<and>
     set (elems l') = set (elems l) \<union> set arg"
  by (cases l) (auto simp: union_def arr_def set_add_missing Let_def)

text \<open>What the operations for the two states of an entry do to the set the entry selects.\<close>

definition list_law :: "list_op \<Rightarrow> list_op \<Rightarrow> (u32 set \<Rightarrow> u32 set \<Rightarrow> u32 set) \<Rightarrow> bool" where
  "list_law incl excl F \<longleftrightarrow> (\<forall>p arg. wf_entry p \<longrightarrow>
     (\<exists>l'. (if p_state p = PM_PROFILE_INCLUDE then incl True (instances p) (instances_len p) arg
        else excl True (instances p) (instances_len p) arg) = Some (l', length (elems l')) \<and>
      entry_sel (p\<lparr>instances := l', instances_len := length (elems l')\<rparr>) = F (entry_sel p) (set arg)))"

lemma add_list_law: "list_law subtract union (\<union>)"
  unfolding list_law_def
proof (intro allI impI)
  fix p arg
  assume "wf_entry p"
  then have len: "instances_len p = length (elems (instances p))" by (simp add: wf_entry_def ilist_def)
  show "\<exists>l'. (if p_state p = PM_PROFILE_INCLUDE then subtract True (instances p) (instances_len p) arg
      else union True (instances p) (instances_len p) arg) = Some (l', length (elems l')) \<and>
    entry_sel (p\<lparr>instances := l', instances_len := length (elems l')\<rparr>) = entry_sel p \<union> set arg"
    using subtract_spec [OF len, of arg] union_spec [OF len, of arg]
    by (auto simp: entry_sel_def ilist_def)
qed

lemma del_list_law: "list_law union subtract (-)"
  unfolding list_law_def
proof (intro allI impI)
  fix p arg
  assume "wf_entry p"
  then have len: "instances_len p = length (elems (instances p))" by (simp add: wf_entry_def ilist_def)
  show "\<exists>l'. (if p_state p = PM_PROFILE_INCLUDE then union True (instances p) (instances_len p) arg
      else subtract True (instances p) (instances_len p) arg) = Some (l', length (elems l')) \<and>
    entry_sel (p\<lparr>instances := l', instances_len := length (elems l')\<rparr>) = entry_sel p - set arg"
    using subtract_spec [OF len, of arg] union_spec [OF len, of arg]
    by (auto simp: entry_sel_def ilist_def)
qed

lemma plist_upd_entry:
  "plist (c_instprof (upd_entry k f ctx)) = (plist (c_instprof ctx))[k := f (plist (c_instprof ctx) ! k)]"
  by (cases "profile (c_instprof ctx)") (simp_all add: upd_entry_def plist_def Let_def)

lemma upd_entry_spec:
  assumes wf: "wf_prof (c_instprof ctx)" and k: "k < length (plist (c_instprof ctx))"
    and f: "wf_entry (f (plist (c_instprof ctx) ! k))" "p_indom (f (plist (c_instprof ctx) ! k)) = p_indom (plist (c_instprof ctx) ! k)"
  shows "wf_prof (c_instprof (upd_entry k f ctx))"
    "prof_sel (c_instprof (upd_entry k f ctx)) = (fst (prof_sel (c_instprof ctx)),
       (snd (prof_sel (c_instprof ctx)))(p_indom (plist (c_instprof ctx) ! k) \<mapsto> entry_sel (f (plist (c_instprof ctx) ! k))))"
proof -
  let ?ps = "plist (c_instprof ctx)"
  have pl: "plist (c_instprof (upd_entry k f ctx)) = ?ps[k := f (?ps ! k)]"
    by (rule plist_upd_entry)
  have d: "distinct (map p_indom ?ps)" using wf by (simp add: wf_prof_def)
  moreover have "map p_indom (?ps[k := f (?ps ! k)]) = map p_indom ?ps"
    using f(2) k by (metis list_update_id map_update nth_map)
  moreover have "list_all wf_entry (?ps[k := f (?ps ! k)])"
    using wf f(1) by (auto simp: wf_prof_def list_all_iff dest: set_update_subset_insert [THEN subsetD])
  ultimately show "wf_prof (c_instprof (upd_entry k f ctx))"
    using wf by (auto simp: wf_prof_def pl) (simp add: upd_entry_def Let_def)
  show "prof_sel (c_instprof (upd_entry k f ctx)) = (fst (prof_sel (c_instprof ctx)),
       (snd (prof_sel (c_instprof ctx)))(p_indom (?ps ! k) \<mapsto> entry_sel (f (?ps ! k))))"
    using entries_sel_update [OF d k f(2)] f(2) by (simp add: prof_sel_def pl) (simp add: upd_entry_def Let_def)
qed

lemma upd_entry_simps [simp]:
  "c_sent (upd_entry k f ctx) = c_sent ctx" "c_lock (upd_entry k f ctx) = c_lock ctx" "c_type (upd_entry k f ctx) = c_type ctx"
  by (simp_all add: upd_entry_def Let_def)

definition same_frame :: "pmContext \<Rightarrow> pmContext \<Rightarrow> bool" where
  "same_frame c c' \<longleftrightarrow> c_lock c' = c_lock c \<and> c_type c' = c_type c"

lemma newprof_spec:
  assumes wf: "wf_prof (c_instprof ctx)" and d: "d \<notin> p_indom ` set (plist (c_instprof ctx))"
  shows "\<exists>ctx'. newprof True d ctx = Some (Some (length (plist (c_instprof ctx))), ctx') \<and> same_frame ctx ctx' \<and>
    wf_prof (c_instprof ctx') \<and> plist (c_instprof ctx') = plist (c_instprof ctx) @ [fresh_entry d] \<and>
    prof_sel (c_instprof ctx') = (fst (prof_sel (c_instprof ctx)), (snd (prof_sel (c_instprof ctx)))(d \<mapsto> UNIV))"
proof -
  have e: "entry_sel (fresh_entry d) = UNIV" "wf_entry (fresh_entry d)" "p_indom (fresh_entry d) = d"
    by (auto simp: entry_sel_def fresh_entry_def wf_entry_def ilist_def)
  show ?thesis
    using wf d e entries_sel_append [of d "plist (c_instprof ctx)" "fresh_entry d"]
    by (cases "profile (c_instprof ctx)")
      (auto simp: newprof_def wf_prof_def plist_def arr_def prof_sel_def same_frame_def Let_def)
qed

lemma find_or_new_spec:
  assumes wf: "wf_prof (c_instprof ctx)"
  shows "\<exists>k ctx'. find_or_new True d ctx = Some (Some k, ctx') \<and> same_frame ctx ctx' \<and> wf_prof (c_instprof ctx') \<and>
    k < length (plist (c_instprof ctx')) \<and> p_indom (plist (c_instprof ctx') ! k) = d \<and>
    entry_sel (plist (c_instprof ctx') ! k) = explicit_set (prof_sel (c_instprof ctx)) d \<and>
    prof_sel (c_instprof ctx') = (fst (prof_sel (c_instprof ctx)),
      (snd (prof_sel (c_instprof ctx)))(d \<mapsto> explicit_set (prof_sel (c_instprof ctx)) d))"
proof -
  let ?pr = "c_instprof ctx"
  have len: "profile_len ?pr = length (plist ?pr)" and dist: "distinct (map p_indom (plist ?pr))"
    using wf by (auto simp: wf_prof_def)
  show ?thesis
  proof (rule pmFindProfile_spec [OF len, of d])
    fix k
    assume k: "pmFindProfile d (Some ?pr) = Some (Some k)" "k < length (plist ?pr)" "p_indom (plist ?pr ! k) = d"
    have "entries_sel (plist ?pr) d = Some (entry_sel (plist ?pr ! k))"
      using entries_sel_nth [OF dist k(2)] k(3) by simp
    with k wf show ?thesis
      by (auto simp: find_or_new_def same_frame_def explicit_set_def prof_sel_def fun_upd_idem)
  next
    assume f: "pmFindProfile d (Some ?pr) = Some None" and d: "d \<notin> p_indom ` set (plist ?pr)"
    obtain c where c: "newprof True d ctx = Some (Some (length (plist ?pr)), c)" "same_frame ctx c"
        "wf_prof (c_instprof c)" "plist (c_instprof c) = plist ?pr @ [fresh_entry d]"
        "prof_sel (c_instprof c) = (fst (prof_sel ?pr), (snd (prof_sel ?pr))(d \<mapsto> UNIV))"
      using newprof_spec [OF wf d] by blast
    let ?f = "\<lambda>p. p\<lparr>p_state := PM_PROFILE_EXCLUDE\<rparr>" and ?k = "length (plist ?pr)"
    have e: "entry_sel (?f (fresh_entry d)) = {}" "wf_entry (?f (fresh_entry d))" "p_indom (?f (fresh_entry d)) = d"
      by (auto simp: entry_sel_def fresh_entry_def wf_entry_def ilist_def profile_consts)
    have n: "snd (prof_sel ?pr) d = None" using d by (simp add: prof_sel_def entries_sel_None)
    have at: "plist (c_instprof (upd_entry ?k ?f c)) = plist ?pr @ [?f (fresh_entry d)]"
      using c(4) by (simp add: plist_upd_entry)
    have "wf_prof (c_instprof (upd_entry ?k ?f c))" "prof_sel (c_instprof (upd_entry ?k ?f c)) =
        (fst (prof_sel ?pr), (snd (prof_sel ?pr))(d \<mapsto> {}))"
      using upd_entry_spec [OF c(3), of ?k ?f] c(4,5) e by (auto simp: fresh_entry_def)
    with f c(1,2) n at e show ?thesis
      by (auto simp: find_or_new_def same_frame_def explicit_set_def)
  qed
qed

definition all_set :: "int \<Rightarrow> u32 set" where
  "all_set all = (if all = PM_PROFILE_INCLUDE then UNIV else {})"

lemma change_entry_spec:
  assumes wf: "wf_prof (c_instprof ctx)" and k: "k < length (plist (c_instprof ctx))"
    and law: "list_law incl excl F" and all: "all = PM_PROFILE_INCLUDE \<or> all = PM_PROFILE_EXCLUDE"
    and n: "l \<noteq> None \<longrightarrow> n = length (elems l)"
  shows "\<exists>ctx'. change_entry (\<lambda>_. True) all incl excl n l k ctx = Some ctx' \<and> same_frame ctx ctx' \<and>
    wf_prof (c_instprof ctx') \<and> prof_sel (c_instprof ctx') = (fst (prof_sel (c_instprof ctx)),
      (snd (prof_sel (c_instprof ctx)))(p_indom (plist (c_instprof ctx) ! k) \<mapsto>
        (if elems l = [] then all_set all else F (entry_sel (plist (c_instprof ctx) ! k)) (set (elems l)))))"
proof (cases "elems l = []")
  case True
  let ?f = "\<lambda>p :: pmInDomProfile. p\<lparr>instances := None, instances_len := 0, p_state := all\<rparr>"
  have "wf_entry (?f p)" "entry_sel (?f p) = all_set all" for p
    using all by (auto simp: wf_entry_def ilist_def entry_sel_def all_set_def)
  with upd_entry_spec [OF wf k, of ?f] True n show ?thesis
    by (cases l) (auto simp: change_entry_def same_frame_def)
next
  case False
  let ?p = "plist (c_instprof ctx) ! k"
  have l: "l = Some (elems l)" using False by (cases l) auto
  have n: "n = length (elems l)" using n l by (metis option.distinct(1))
  have arg: "arr l n = Some (elems l)" using n by (subst l) (simp add: arr_def)
  have p: "wf_entry ?p" using wf k by (simp add: wf_prof_def list_all_length)
  then have st: "p_state ?p \<noteq> PM_PROFILE_INCLUDE \<Longrightarrow> p_state ?p = PM_PROFILE_EXCLUDE" by (auto simp: wf_entry_def)
  obtain l' where l': "(if p_state ?p = PM_PROFILE_INCLUDE then incl True (instances ?p) (instances_len ?p) (elems l)
      else excl True (instances ?p) (instances_len ?p) (elems l)) = Some (l', length (elems l'))"
      "entry_sel (?p\<lparr>instances := l', instances_len := length (elems l')\<rparr>) = F (entry_sel ?p) (set (elems l))"
    using law p unfolding list_law_def by blast
  let ?f = "\<lambda>p :: pmInDomProfile. p\<lparr>instances := l', instances_len := length (elems l')\<rparr>"
  have the_p: "the (profile (c_instprof ctx)) ! k = ?p" using k by (cases "profile (c_instprof ctx)") (auto simp: plist_def)
  have "wf_entry (?f ?p)" "p_indom (?f ?p) = p_indom ?p" using p by (auto simp: wf_entry_def ilist_def)
  note U = upd_entry_spec [OF wf k, of ?f, OF this]
  have "change_entry (\<lambda>_. True) all incl excl n l k ctx = Some (upd_entry k ?f ctx)"
    using False n l arg l'(1) st by (cases "p_state ?p = PM_PROFILE_INCLUDE")
      (auto simp: change_entry_def the_p Let_def)
  with U l'(2) False show ?thesis by (auto simp: same_frame_def)
qed

definition cur :: "ctxs \<Rightarrow> pmContext" where
  "cur s = contexts s ! nat (curcontext s)"

text \<open>There is a current context, in use, unlocked by us and with a well-formed profile.\<close>

definition ctxs_ok :: "ctxs \<Rightarrow> bool" where
  "ctxs_ok s \<longleftrightarrow> 0 \<le> curcontext s \<and> nat (curcontext s) < length (contexts s) \<and>
     c_type (cur s) \<noteq> PM_CONTEXT_FREE \<and> wf_prof (c_instprof (cur s))"

definition profile_sel :: "ctxs \<Rightarrow> selection" where
  "profile_sel s = prof_sel (c_instprof (cur s))"

lemma setGlobalState_spec:
  assumes "wf_prof (c_instprof ctx)" and "all = PM_PROFILE_INCLUDE \<or> all = PM_PROFILE_EXCLUDE"
  shows "\<exists>ctx'. setGlobalState all ctx = Some ctx' \<and> same_frame ctx ctx' \<and> wf_prof (c_instprof ctx') \<and>
    prof_sel (c_instprof ctx') = (all = PM_PROFILE_INCLUDE, Map.empty)"
  using assms by (cases "profile (c_instprof ctx)")
    (auto simp: setGlobalState_def wf_prof_def plist_def arr_def same_frame_def prof_sel_def entries_sel_def Let_def)

lemma change_profile_spec:
  assumes ok: "ctxs_ok s" and law: "list_law incl excl F"
    and all: "all = PM_PROFILE_INCLUDE \<or> all = PM_PROFILE_EXCLUDE"
    and op: "d = PM_INDOM_NULL \<longrightarrow> l = None \<and> n = 0" and n: "l \<noteq> None \<longrightarrow> n = length (elems l)"
  shows "\<exists>s'. change_profile (\<lambda>_. True) all incl excl d n l s = Some (0, s') \<and> ctxs_ok s' \<and>
    profile_sel s' = (if d = PM_INDOM_NULL then (all = PM_PROFILE_INCLUDE, Map.empty)
      else (fst (profile_sel s), (snd (profile_sel s))(d \<mapsto>
        (if elems l = [] then all_set all else F (explicit_set (profile_sel s) d) (set (elems l)))))) \<and>
    c_sent (cur s') = 0 \<and> c_lock (cur s') = c_lock (cur s) \<and> curcontext s' = curcontext s \<and>
    (\<forall>i. i \<noteq> nat (curcontext s) \<longrightarrow> contexts s' ! i = contexts s ! i)"
proof -
  let ?ctx = "(cur s)\<lparr>c_lock := c_lock (cur s) + 1\<rparr>"
  let ?sel = "if d = PM_INDOM_NULL then (all = PM_PROFILE_INCLUDE, Map.empty)
      else (fst (profile_sel s), (snd (profile_sel s))(d \<mapsto>
        (if elems l = [] then all_set all else F (explicit_set (profile_sel s) d) (set (elems l)))))"
  have h: "pmWhichContext s = curcontext s" "pmHandleToPtr (curcontext s) s = Some ?ctx" "\<not> curcontext s < 0"
    using ok by (auto simp: ctxs_ok_def pmWhichContext_def pmHandleToPtr_def PM_CONTEXT_UNDEF_def cur_def Let_def)
  have wf: "wf_prof (c_instprof ?ctx)" using ok by (simp add: ctxs_ok_def)
  have "\<exists>c. change_locked (\<lambda>_. True) all incl excl d n l ?ctx = Some (0 :: int, c\<lparr>c_sent := 0\<rparr>) \<and> same_frame ?ctx c \<and> wf_prof (c_instprof c) \<and> prof_sel (c_instprof c) = ?sel"
  proof (cases "d = PM_INDOM_NULL")
    case True
    with op setGlobalState_spec [OF wf all] show ?thesis by (auto simp: change_locked_def)
  next
    case False
    obtain k c where c: "find_or_new True d ?ctx = Some (Some k, c)" "same_frame ?ctx c" "wf_prof (c_instprof c)"
        "k < length (plist (c_instprof c))" "p_indom (plist (c_instprof c) ! k) = d"
        "entry_sel (plist (c_instprof c) ! k) = explicit_set (profile_sel s) d"
        "prof_sel (c_instprof c) = (fst (profile_sel s), (snd (profile_sel s))(d \<mapsto> explicit_set (profile_sel s) d))"
      using find_or_new_spec [OF wf, of d] by (auto simp: profile_sel_def)
    obtain c' where "change_entry (\<lambda>_. True) all incl excl n l k c = Some c'" "same_frame c c'" "wf_prof (c_instprof c')"
        "prof_sel (c_instprof c') = ?sel"
      using change_entry_spec [OF c(3,4) law all n] c(5-7) False by auto
    with c(1,2) False show ?thesis by (auto simp: same_frame_def change_locked_def)
  qed
  then obtain c where c: "change_profile (\<lambda>_. True) all incl excl d n l s = Some (0, s\<lparr>contexts :=
        (contexts s)[nat (curcontext s) := c\<lparr>c_sent := 0, c_lock := c_lock c - 1\<rparr>]\<rparr>)"
      "same_frame ?ctx c" "wf_prof (c_instprof c)" "prof_sel (c_instprof c) = ?sel"
    using h op by (auto simp: change_profile_def)
  have "nat (curcontext s) < length (contexts s)" using ok by (simp add: ctxs_ok_def)
  with c ok show ?thesis by (auto simp: ctxs_ok_def cur_def profile_sel_def same_frame_def)
qed

text \<open>What the code does with each request, the one that is left out above as well.\<close>

fun impl_op :: "prof_op \<Rightarrow> selection \<Rightarrow> selection" where
  "impl_op (Del d (Some xs)) sel = (fst sel, (snd sel)(d \<mapsto> explicit_set sel d - set xs))"
| "impl_op x sel = spec_op x sel"


lemma do_op_impl:
  assumes ok: "ctxs_ok s" and op: "wf_op x" and mal: "mal = (\<lambda>_. True)"
  shows "\<exists>s'. do_op mal x s = Some (0, s') \<and> ctxs_ok s' \<and> profile_sel s' = impl_op x (profile_sel s)"
proof -
  have d: "op_indom x = PM_INDOM_NULL \<longrightarrow> op_list x = None \<and> numinst (op_indom x) (op_list x) = 0"
    and n: "op_list x \<noteq> None \<longrightarrow> numinst (op_indom x) (op_list x) = length (elems (op_list x))"
    and l: "elems (op_list x) = [] \<longleftrightarrow> op_list x = None"
    using op by (auto simp: wf_op_def numinst_def split: option.splits)
  show ?thesis
  proof (cases x)
    case (Add d' l')
    from change_profile_spec [OF ok add_list_law _ d n, of PM_PROFILE_INCLUDE] l show ?thesis
      by (cases l') (auto simp: Add pmAddProfile_def mal all_set_def op_indom_def op_list_def)
  next
    case (Del d' l')
    from change_profile_spec [OF ok del_list_law _ d n, of PM_PROFILE_EXCLUDE] l op show ?thesis
      by (cases l') (auto simp: Del pmDelProfile_def mal all_set_def op_indom_def op_list_def wf_op_def profile_consts)
  qed
qed


section \<open>Properties\<close>


text \<open>
  In a context that selects everything, \<open>pmDelProfile\<close> of some instances of a domain that has no
  entry yet deselects every instance of that domain, not only the ones listed, although the code says that
  the new entry starts by including all except the list.
\<close>

theorem profile_del_fresh:
  assumes ok: "ctxs_ok s" and fresh: "profile_sel s = (True, m)" "m d = None"
    and d: "d \<noteq> PM_INDOM_NULL" and l: "l \<noteq> []"
  shows "pmInProfile d (Some (c_instprof (cur s))) i = Some 1 \<and>
    (\<exists>s'. pmDelProfile (\<lambda>_. True) d (length l) (Some l) s = Some (0, s') \<and> ctxs_ok s' \<and>
       pmInProfile d (Some (c_instprof (cur s'))) i = Some 0)"
proof
  have wf: "wf_prof (c_instprof (cur s))" using ok by (simp add: ctxs_ok_def)
  show "pmInProfile d (Some (c_instprof (cur s))) i = Some 1"
    using pmInProfile_spec [OF wf] fresh by (simp add: selected_def profile_sel_def)
  have "wf_op (Del d (Some l))" using d l by (simp add: wf_op_def op_indom_def op_list_def)
  from do_op_impl [OF ok this refl] obtain s' where
    s': "pmDelProfile (\<lambda>_. True) d (length l) (Some l) s = Some (0, s')" "ctxs_ok s'"
      "profile_sel s' = impl_op (Del d (Some l)) (profile_sel s)"
    by (auto simp: numinst_def)
  then have "wf_prof (c_instprof (cur s'))" by (simp add: ctxs_ok_def)
  moreover have "\<not> selected (prof_sel (c_instprof (cur s'))) d i"
    using s'(3) fresh by (auto simp: selected_def explicit_set_def profile_sel_def)
  ultimately show "\<exists>s'. pmDelProfile (\<lambda>_. True) d (length l) (Some l) s = Some (0, s') \<and> ctxs_ok s' \<and>
       pmInProfile d (Some (c_instprof (cur s'))) i = Some 0"
    using s'(1,2) pmInProfile_spec by auto
qed

text \<open>when a profile that has entries cannot grow, \<open>pmAddProfile\<close> returns the error, but
  \<open>_newprof\<close> has already counted the new entry: the next search for a domain without an entry
  reads past the end of the array.\<close>

theorem profile_realloc_failure:
  assumes ok: "ctxs_ok s" and has: "profile (c_instprof (cur s)) = Some ps"
    and d: "d \<noteq> PM_INDOM_NULL" "d \<notin> p_indom ` set ps" and mal: "\<not> mal 0"
  shows "\<exists>s'. pmAddProfile mal d (length l) (Some l) s = Some (- ENOMEM, s') \<and>
    c_lock (cur s') = c_lock (cur s) \<and> pmInProfile d (Some (c_instprof (cur s'))) i = None"
proof -
  have len: "profile_len (c_instprof (cur s)) = length ps"
    using ok has by (simp add: ctxs_ok_def wf_prof_def plist_def)
  have "find_prof d ps (length ps) = Some None" "find_prof d ps (Suc (length ps)) = None"
    using d(2) by (induction ps) auto
  moreover have "pmWhichContext s = curcontext s" "\<not> curcontext s < 0" "nat (curcontext s) < length (contexts s)"
      "pmHandleToPtr (curcontext s) s = Some ((cur s)\<lparr>c_lock := c_lock (cur s) + 1\<rparr>)"
    using ok by (auto simp: ctxs_ok_def pmWhichContext_def pmHandleToPtr_def PM_CONTEXT_UNDEF_def cur_def Let_def)
  ultimately show ?thesis
    using has d(1) mal len
    by (auto simp: pmAddProfile_def change_profile_def change_locked_def find_or_new_def newprof_def
        pmFindProfile_def pmInProfile_def cur_def Let_def)
qed

section \<open>Examples\<close>

definition sample_ctxs :: "pmInDomProfile list option \<Rightarrow> ctxs" where
  "sample_ctxs ps = \<lparr>contexts = [\<lparr>c_type = 1, c_sent = 1, c_instprof =
     \<lparr>pr_state = PM_PROFILE_INCLUDE, profile_len = length (elems ps), profile = ps\<rparr>, c_lock = 0\<rparr>], curcontext = 0\<rparr>"

lemma sample_ctxs_ok: "ctxs_ok (sample_ctxs None)" "ctxs_ok (sample_ctxs (Some [fresh_entry 7]))"
  by (auto simp: ctxs_ok_def sample_ctxs_def cur_def wf_prof_def plist_def wf_entry_def fresh_entry_def ilist_def
      PM_CONTEXT_FREE_def)


lemma profile_del_fresh_witness:
  "pmInProfile 7 (Some (c_instprof (cur (sample_ctxs None)))) 3 = Some 1 \<and>
    (\<exists>s'. pmDelProfile (\<lambda>_. True) 7 (length [4 :: u32]) (Some [4]) (sample_ctxs None) = Some (0, s') \<and> ctxs_ok s' \<and>
      pmInProfile 7 (Some (c_instprof (cur s'))) 3 = Some 0)"
proof (rule profile_del_fresh [OF sample_ctxs_ok(1)])
  show "profile_sel (sample_ctxs None) = (True, Map.empty)"
    by (simp add: profile_sel_def prof_sel_def sample_ctxs_def cur_def plist_def entries_sel_def)
qed (simp_all add: PM_INDOM_NULL_def)

lemma profile_realloc_failure_witness:
  "\<exists>s'. pmAddProfile (\<lambda>_. False) 8 (length [1 :: u32]) (Some [1]) (sample_ctxs (Some [fresh_entry 7])) = Some (- ENOMEM, s') \<and>
    c_lock (cur s') = c_lock (cur (sample_ctxs (Some [fresh_entry 7]))) \<and>
    pmInProfile 8 (Some (c_instprof (cur s'))) 1 = None"
  by (rule profile_realloc_failure [OF sample_ctxs_ok(2), of "[fresh_entry 7]"])
    (simp_all add: sample_ctxs_def cur_def fresh_entry_def PM_INDOM_NULL_def)

end
