(* ===== verification/Hash.thy ===== *)
theory Hash
  imports Prelude "HOL-Library.Multiset"
begin

text \<open>
  The hash tables of \<^verbatim>\<open>hash.c\<close>: chained buckets that grow when they get long. A chain is the list of
  its nodes from the head on, a node its key and its data. The cursor of a walk is the rest of the
  chain it is in and the index of the bucket. The numbers of nodes and buckets are \<open>int\<close> in the code and
  natural numbers here: fewer than \<open>2 ^ 31\<close> nodes are added to a table.
\<close>

section \<open>Tables\<close>

record 'a hashctl =
  nodes :: nat
  hsize :: nat
  hash :: "(u32 \<times> 'a) list list"
  hnext :: "(u32 \<times> 'a) list"
  hindex :: nat

datatype walk_state = WALK_START | WALK_NEXT | WALK_STOP | WALK_DELETE_NEXT | WALK_DELETE_STOP

definition bucket :: "u32 \<Rightarrow> nat \<Rightarrow> nat" where
  "bucket key sz = unat key mod sz"

fun chain_search :: "u32 \<Rightarrow> (u32 \<times> 'a) list \<Rightarrow> 'a option" where
  "chain_search key [] = None"
| "chain_search key (n # ns) = (if fst n = key then Some (snd n) else chain_search key ns)"

definition pmHashSearch :: "u32 \<Rightarrow> 'a hashctl \<Rightarrow> 'a option" where
  "pmHashSearch key h = (if hsize h = 0 then None else chain_search key (hash h ! bucket key (hsize h)))"

definition push :: "(u32 \<times> 'a) \<Rightarrow> (u32 \<times> 'a) list list \<Rightarrow> (u32 \<times> 'a) list list" where
  "push n t = (let k = bucket (fst n) (length t) in t[k := n # t ! k])"

text \<open>Re-linking a chain from its head on, and the chains from the last to the first.\<close>

fun relink_chain :: "(u32 \<times> 'a) list \<Rightarrow> (u32 \<times> 'a) list list \<Rightarrow> (u32 \<times> 'a) list list" where
  "relink_chain [] t = t"
| "relink_chain (n # ns) t = relink_chain ns (push n t)"

fun relink :: "nat \<Rightarrow> (u32 \<times> 'a) list list \<Rightarrow> (u32 \<times> 'a) list list \<Rightarrow> (u32 \<times> 'a) list list" where
  "relink 0 old t = t"
| "relink (Suc n) old t = relink n old (relink_chain (old ! n) t)"

definition grown :: "nat \<Rightarrow> nat" where
  "grown sz = (
     let s = sz * 2;
         s = (if s mod 2 \<noteq> 0 then s + 1 else s);
         s = (if s mod 3 \<noteq> 0 then s + 2 else s)
     in if s mod 5 \<noteq> 0 then s + 2 else s)"

text \<open>The allocations are of the table (\<open>mal 0\<close>) and of the node (\<open>mal 1\<close>).\<close>

definition make_room :: "bool \<Rightarrow> 'a hashctl \<Rightarrow> 'a hashctl option" where
  "make_room mal h =
     (if hsize h = 0 then
        (if \<not> mal then None else Some (h\<lparr>hsize := 1, hash := [[]]\<rparr>))
      else if nodes h div 4 > hsize h then
        (if \<not> mal then None
         else let n = grown (hsize h) in
           Some (h\<lparr>hsize := n, hash := relink (hsize h) (hash h) (replicate n [])\<rparr>))
      else Some h)"

definition pmHashAdd :: "(nat \<Rightarrow> bool) \<Rightarrow> u32 \<Rightarrow> 'a \<Rightarrow> 'a hashctl \<Rightarrow> int \<times> 'a hashctl" where
  "pmHashAdd mal key data h0 = (
     let h = h0\<lparr>nodes := nodes h0 + 1\<rparr> in
     case make_room (mal 0) h of
       None \<Rightarrow> (- ENOMEM, h)
     | Some h \<Rightarrow>
         if \<not> mal 1 then (- ENOMEM, h)
         else (1, h\<lparr>hash := push (key, data) (hash h)\<rparr>))"

fun chain_del :: "u32 \<Rightarrow> 'a \<Rightarrow> (u32 \<times> 'a) list \<Rightarrow> (u32 \<times> 'a) list option" where
  "chain_del key data [] = None"
| "chain_del key data (n # ns) =
     (if fst n = key \<and> snd n = data then Some ns else map_option ((#) n) (chain_del key data ns))"

definition pmHashDel :: "u32 \<Rightarrow> 'a \<Rightarrow> 'a hashctl \<Rightarrow> int \<times> 'a hashctl" where
  "pmHashDel key data h =
     (if hsize h = 0 then (0, h)
      else let k = bucket key (hsize h) in
        case chain_del key data (hash h ! k) of
          None \<Rightarrow> (0, h)
        | Some c \<Rightarrow> (1, h\<lparr>hash := (hash h)[k := c]\<rparr>))"

section \<open>Walks\<close>

text \<open>One chain of \<open>__pmHashWalkCB\<close>: the chain left, the callback's data, and whether to return.\<close>

fun walk_chain :: "(u32 \<times> 'a \<Rightarrow> 's \<Rightarrow> walk_state \<times> 's) \<Rightarrow> (u32 \<times> 'a) list \<Rightarrow> 's \<Rightarrow> (u32 \<times> 'a) list \<times> 's \<times> bool" where
  "walk_chain cb [] cdata = ([], cdata, False)"
| "walk_chain cb (tp # rest) cdata = (
     let (state, cdata) = cb tp cdata in
     case state of
       WALK_DELETE_STOP \<Rightarrow> (rest, cdata, True)
     | WALK_NEXT \<Rightarrow> (let (c, cdata, stop) = walk_chain cb rest cdata in (tp # c, cdata, stop))
     | WALK_DELETE_NEXT \<Rightarrow> walk_chain cb rest cdata
     | _ \<Rightarrow> (tp # rest, cdata, True))"

fun walk_table :: "(u32 \<times> 'a \<Rightarrow> 's \<Rightarrow> walk_state \<times> 's) \<Rightarrow> (u32 \<times> 'a) list list \<Rightarrow> 's \<Rightarrow> (u32 \<times> 'a) list list \<times> 's" where
  "walk_table cb [] cdata = ([], cdata)"
| "walk_table cb (c # cs) cdata = (
     let (c', cdata, stop) = walk_chain cb c cdata in
     if stop then (c' # cs, cdata)
     else let (cs', cdata) = walk_table cb cs cdata in (c' # cs', cdata))"

definition pmHashWalkCB :: "(u32 \<times> 'a \<Rightarrow> 's \<Rightarrow> walk_state \<times> 's) \<Rightarrow> 's \<Rightarrow> 'a hashctl \<Rightarrow> 'a hashctl \<times> 's" where
  "pmHashWalkCB cb cdata h = (let (t, cdata) = walk_table cb (hash h) cdata in (h\<lparr>hash := t\<rparr>, cdata))"

text \<open>The loop of \<open>__pmHashWalk\<close> to the next bucket that has a node.\<close>

function walk_skip :: "'a hashctl \<Rightarrow> 'a hashctl" where
  "walk_skip h =
     (if hnext h = [] then
        let h' = h\<lparr>hindex := hindex h + 1\<rparr> in
        if hindex h' \<ge> hsize h' then h' else walk_skip (h'\<lparr>hnext := hash h' ! hindex h'\<rparr>)
      else h)"
  by auto
termination
  by (relation "measure (\<lambda>h. hsize h - hindex h)") auto

declare walk_skip.simps [simp del]

definition pmHashWalk :: "walk_state \<Rightarrow> 'a hashctl \<Rightarrow> (u32 \<times> 'a) option \<times> 'a hashctl" where
  "pmHashWalk state h0 =
     (if hsize h0 = 0 then (None, h0)
      else let h = (if state = WALK_START then h0\<lparr>hindex := 0, hnext := hash h0 ! 0\<rparr> else h0);
               h = walk_skip h
        in case hnext h of
             [] \<Rightarrow> (None, h)
           | node # rest \<Rightarrow> (Some node, h\<lparr>hnext := rest\<rparr>))"

section \<open>Contents of a table\<close>

definition in_place :: "(u32 \<times> 'a) list list \<Rightarrow> bool" where
  "in_place t \<longleftrightarrow> (\<forall>k < length t. \<forall>n \<in> set (t ! k). bucket (fst n) (length t) = k)"

definition entries :: "'a hashctl \<Rightarrow> (u32 \<times> 'a) multiset" where
  "entries h = mset (concat (hash h))"

definition hash_ok :: "'a hashctl \<Rightarrow> bool" where
  "hash_ok h \<longleftrightarrow> length (hash h) = hsize h \<and> in_place (hash h) \<and> size (entries h) \<le> nodes h"

definition unique_keys :: "(u32 \<times> 'a) multiset \<Rightarrow> bool" where
  "unique_keys M \<longleftrightarrow> (\<forall>n. n \<in># M \<longrightarrow> fst n \<notin> fst ` set_mset (M - {#n#}))"

lemma unique_keys_add:
  assumes "unique_keys M" "fst n \<notin> fst ` set_mset M"
  shows "unique_keys (add_mset n M)"
  unfolding unique_keys_def
proof (intro allI impI)
  fix x
  assume x: "x \<in># add_mset n M"
  show "fst x \<notin> fst ` set_mset (add_mset n M - {#x#})"
  proof (cases "x = n")
    case False
    then have "x \<in># M" "add_mset n M - {#x#} = add_mset n (M - {#x#})"
      using x by (auto simp: diff_add_mset_swap)
    moreover have "fst x \<notin> fst ` set_mset (M - {#x#})"
      using assms(1) \<open>x \<in># M\<close> unfolding unique_keys_def by blast
    moreover have "fst x \<noteq> fst n" using assms(2) \<open>x \<in># M\<close> by (metis image_eqI)
    ultimately show ?thesis by simp
  qed (use assms in simp)
qed

lemma unique_keys_add_mset: "unique_keys (add_mset n M) \<Longrightarrow> unique_keys M \<and> fst n \<notin> fst ` set_mset M"
proof
  assume u: "unique_keys (add_mset n M)"
  have "fst x \<notin> fst ` set_mset (M - {#x#})" if "x \<in># M" for x
  proof -
    have "fst x \<notin> fst ` set_mset (add_mset n M - {#x#})" using u [unfolded unique_keys_def, rule_format, of x] that by simp
    moreover have "set_mset (M - {#x#}) \<subseteq> set_mset (add_mset n M - {#x#})"
      using that by (auto simp: in_diff_count)
    ultimately show ?thesis by blast
  qed
  then show "unique_keys M" by (simp add: unique_keys_def)
  show "fst n \<notin> fst ` set_mset M" using u [unfolded unique_keys_def, rule_format, of n] by simp
qed

lemma bucket_less [simp]: "0 < sz \<Longrightarrow> bucket k sz < sz"
  by (simp add: bucket_def)

lemma length_push [simp]: "length (push n t) = length t"
  by (simp add: push_def Let_def)

lemma mset_concat_update: "k < length t \<Longrightarrow> mset (concat (t[k := c])) + mset (t ! k) = mset (concat t) + mset c"
proof (induction t arbitrary: k)
  case (Cons x t)
  then show ?case by (cases k) (auto simp: ac_simps)
qed simp

lemma mset_push: "0 < length t \<Longrightarrow> mset (concat (push n t)) = add_mset n (mset (concat t))"
  using mset_concat_update [of "bucket (fst n) (length t)" t "n # t ! bucket (fst n) (length t)"]
  by (simp add: push_def Let_def)

lemma in_place_push: "0 < length t \<Longrightarrow> in_place t \<Longrightarrow> in_place (push n t)"
  by (auto simp: in_place_def push_def Let_def nth_list_update)

lemma relink_chain_spec:
  assumes "0 < length t" "in_place t"
  shows "length (relink_chain ns t) = length t \<and> in_place (relink_chain ns t) \<and>
    mset (concat (relink_chain ns t)) = mset ns + mset (concat t)"
  using assms by (induction ns t rule: relink_chain.induct) (auto simp: in_place_push mset_push)

lemma relink_spec:
  assumes "0 < length t" "in_place t" "n \<le> length old"
  shows "length (relink n old t) = length t \<and> in_place (relink n old t) \<and>
    mset (concat (relink n old t)) = mset (concat (take n old)) + mset (concat t)"
  using assms
proof (induction n old t rule: relink.induct)
  case (2 n old t)
  note C = relink_chain_spec [OF 2(2,3), of "old ! n"]
  with 2 have "length (relink n old (relink_chain (old ! n) t)) = length t \<and>
      in_place (relink n old (relink_chain (old ! n) t)) \<and>
      mset (concat (relink n old (relink_chain (old ! n) t))) = mset (concat (take n old)) + (mset (old ! n) + mset (concat t))"
    by (metis Suc_leD)
  then show ?case using 2(4) by (simp add: take_Suc_conv_app_nth)
qed simp

lemma grown_bounds: "0 < sz \<Longrightarrow> 2 * sz \<le> grown sz \<and> 0 < grown sz"
  by (auto simp: grown_def Let_def)

lemma make_room_spec:
  assumes "hash_ok h" and "make_room mal h = Some h'"
  shows "hash_ok h' \<and> entries h' = entries h \<and> nodes h' = nodes h \<and> 0 < hsize h'"
proof -
  have t: "length (hash h) = hsize h" "in_place (hash h)" "size (entries h) \<le> nodes h"
    using assms(1) by (auto simp: hash_ok_def)
  consider "hsize h = 0" "h' = h\<lparr>hsize := 1, hash := [[]]\<rparr>"
    | "0 < hsize h" "h' = h\<lparr>hsize := grown (hsize h), hash := relink (hsize h) (hash h) (replicate (grown (hsize h)) [])\<rparr>"
    | "0 < hsize h" "h' = h"
    using assms(2) by (auto simp: make_room_def Let_def split: if_splits)
  then show ?thesis
  proof cases
    case 1
    then show ?thesis using t by (auto simp: hash_ok_def entries_def in_place_def)
  next
    case 2
    have "0 < grown (hsize h)" using grown_bounds 2(1) by blast
    moreover have "in_place (replicate n [])" for n by (simp add: in_place_def)
    ultimately have R: "length (hash h') = hsize h'" "in_place (hash h')" "entries h' = entries h"
      using 2 t relink_spec [of "replicate (grown (hsize h)) []" "hsize h" "hash h"]
      by (auto simp: entries_def)
    with 2 t \<open>0 < grown (hsize h)\<close> show ?thesis by (simp add: hash_ok_def)
  qed (use assms(1) in auto)
qed

lemma pmHashAdd_spec:
  assumes "hash_ok h"
  obtains (added) h' where "pmHashAdd mal key data h = (1, h')" "hash_ok h'" "entries h' = add_mset (key, data) (entries h)"
  | (failed) h' where "pmHashAdd mal key data h = (- ENOMEM, h')" "hash_ok h'" "entries h' = entries h"
      "\<not> mal 0 \<or> \<not> mal 1"
proof -
  let ?h = "h\<lparr>nodes := nodes h + 1\<rparr>"
  have h: "hash_ok ?h" "entries ?h = entries h" using assms by (auto simp: hash_ok_def entries_def)
  show thesis
  proof (cases "make_room (mal 0) ?h")
    case None
    then have "\<not> mal 0" by (auto simp: make_room_def Let_def split: if_splits)
    with None h show thesis by (intro failed [of ?h]) (auto simp: pmHashAdd_def)
  next
    case (Some h1)
    have h1: "hash_ok h1" "entries h1 = entries h" "nodes h1 = nodes h + 1" "0 < hsize h1"
      using make_room_spec [OF h(1) Some] h(2) by auto
    show thesis
    proof (cases "mal 1")
      case False
      with Some h1 show thesis by (intro failed [of h1]) (auto simp: pmHashAdd_def)
    next
      case True
      have t: "length (hash h1) = hsize h1" "in_place (hash h1)" using h1(1) by (auto simp: hash_ok_def)
      have n: "size (entries h) \<le> nodes h" using assms by (simp add: hash_ok_def)
      have e: "mset (concat (push (key, data) (hash h1))) = add_mset (key, data) (entries h)"
        using mset_push [of "hash h1" "(key, data)"] t h1 by (simp add: entries_def)
      with Some h1 t n True show thesis
        by (intro added [of "h1\<lparr>hash := push (key, data) (hash h1)\<rparr>"])
          (auto simp: pmHashAdd_def hash_ok_def entries_def in_place_push)
    qed
  qed
qed

lemma chain_del_spec: "chain_del k d ns = (if (k, d) \<in> set ns then Some (remove1 (k, d) ns) else None)"
  by (induction ns) auto

lemma pmHashDel_spec:
  assumes "hash_ok h"
  shows "\<exists>h'. pmHashDel key data h = (if (key, data) \<in># entries h then 1 else 0, h') \<and> hash_ok h' \<and>
    entries h' = entries h - {#(key, data)#}"
proof (cases "hsize h = 0")
  case True
  with assms show ?thesis by (auto simp: pmHashDel_def hash_ok_def entries_def)
next
  case False
  let ?k = "bucket key (hsize h)" and ?n = "(key, data)"
  have t: "length (hash h) = hsize h" "in_place (hash h)" "size (entries h) \<le> nodes h"
    using assms by (auto simp: hash_ok_def)
  have k: "?k < length (hash h)" using False t(1) by simp
  have iff: "?n \<in># entries h \<longleftrightarrow> ?n \<in> set (hash h ! ?k)"
  proof
    assume "?n \<in># entries h"
    then obtain j where "j < length (hash h)" "?n \<in> set (hash h ! j)"
      by (auto simp: entries_def in_set_conv_nth [of _ "hash h"])
    with t(1,2) show "?n \<in> set (hash h ! ?k)" by (fastforce simp: in_place_def)
  next
    assume "?n \<in> set (hash h ! ?k)"
    with k nth_mem show "?n \<in># entries h" by (fastforce simp: entries_def)
  qed
  show ?thesis
  proof (cases "?n \<in> set (hash h ! ?k)")
    case True
    let ?h = "h\<lparr>hash := (hash h)[?k := remove1 ?n (hash h ! ?k)]\<rparr>"
    have "entries ?h + mset (hash h ! ?k) = entries h + (mset (hash h ! ?k) - {#?n#})"
      using mset_concat_update [OF k, of "remove1 ?n (hash h ! ?k)"] by (simp add: entries_def)
    moreover obtain M where "mset (hash h ! ?k) = add_mset ?n M"
      using True by (metis multi_member_split set_mset_mset)
    moreover obtain E where "entries h = add_mset ?n E"
      using True iff by (metis multi_member_split)
    ultimately have e: "entries ?h = entries h - {#?n#}" by simp
    have "in_place (hash ?h)" using t k by (auto simp: in_place_def nth_list_update dest: notin_set_remove1)
    then have "hash_ok ?h" using e t by (auto simp: hash_ok_def size_Diff_singleton_if)
    with True iff e False show ?thesis by (auto simp: pmHashDel_def chain_del_spec Let_def)
  next
    case nf: False
    with iff have "entries h - {#?n#} = entries h" by (simp add: diff_single_trivial)
    with nf iff False assms show ?thesis by (auto simp: pmHashDel_def chain_del_spec Let_def)
  qed
qed

lemma chain_search_spec:
  "(chain_search k ns = None \<longleftrightarrow> k \<notin> fst ` set ns) \<and> (\<forall>d. chain_search k ns = Some d \<longrightarrow> (k, d) \<in> set ns)"
  by (induction ns) auto

lemma in_entries:
  assumes "hash_ok h"
  shows "(k, d) \<in># entries h \<longleftrightarrow> 0 < hsize h \<and> (k, d) \<in> set (hash h ! bucket k (hsize h))"
proof
  assume "(k, d) \<in># entries h"
  then obtain j where "j < length (hash h)" "(k, d) \<in> set (hash h ! j)"
    by (auto simp: entries_def in_set_conv_nth [of _ "hash h"])
  with assms show "0 < hsize h \<and> (k, d) \<in> set (hash h ! bucket k (hsize h))"
    by (fastforce simp: hash_ok_def in_place_def)
next
  assume "0 < hsize h \<and> (k, d) \<in> set (hash h ! bucket k (hsize h))"
  with assms nth_mem [of "bucket k (hsize h)" "hash h"] show "(k, d) \<in># entries h"
    by (auto simp: hash_ok_def entries_def)
qed

lemma pmHashSearch_spec:
  assumes "hash_ok h"
  shows "(pmHashSearch k h = None \<longleftrightarrow> k \<notin> fst ` set_mset (entries h)) \<and>
    (\<forall>d. pmHashSearch k h = Some d \<longrightarrow> (k, d) \<in># entries h)"
  using chain_search_spec [of k "hash h ! bucket k (hsize h)"] in_entries [OF assms, of k]
  by (auto simp: pmHashSearch_def image_iff)

section \<open>A table as a map\<close>

text \<open>What a client that never adds a key twice relies on, over the multiset of the entries.\<close>

definition represents :: "(u32 \<times> 'a) multiset \<Rightarrow> (u32 \<rightharpoonup> 'a) \<Rightarrow> bool" where
  "represents M m \<longleftrightarrow> unique_keys M \<and> (\<forall>k d. (k, d) \<in># M \<longleftrightarrow> m k = Some d)"

datatype 'a hash_op = HAdd u32 'a | HDel u32 'a

fun spec_hash :: "'a hash_op \<Rightarrow> (u32 \<rightharpoonup> 'a) \<Rightarrow> (u32 \<rightharpoonup> 'a)" where
  "spec_hash (HAdd k d) m = m(k \<mapsto> d)"
| "spec_hash (HDel k d) m = (if m k = Some d then m(k := None) else m)"

fun fresh_keys :: "'a hash_op list \<Rightarrow> (u32 \<rightharpoonup> 'a) \<Rightarrow> bool" where
  "fresh_keys [] m = True"
| "fresh_keys (x # xs) m \<longleftrightarrow> (case x of HAdd k _ \<Rightarrow> m k = None | _ \<Rightarrow> True) \<and> fresh_keys xs (spec_hash x m)"

locale keyed_store =
  fixes inv :: "'s \<Rightarrow> bool"
    and contents :: "'s \<Rightarrow> (u32 \<times> 'a) multiset"
    and add del :: "u32 \<Rightarrow> 'a \<Rightarrow> 's \<Rightarrow> 's"
    and search :: "u32 \<Rightarrow> 's \<Rightarrow> 'a option"
  assumes add_law: "inv s \<Longrightarrow> inv (add k d s) \<and> contents (add k d s) = add_mset (k, d) (contents s)"
    and del_law: "inv s \<Longrightarrow> inv (del k d s) \<and> contents (del k d s) = contents s - {#(k, d)#}"
    and search_law: "inv s \<Longrightarrow> (search k s = None \<longleftrightarrow> k \<notin> fst ` set_mset (contents s)) \<and>
      (\<forall>d. search k s = Some d \<longrightarrow> (k, d) \<in># contents s)"
begin

lemma search_represents:
  assumes "inv s" "represents (contents s) m"
  shows "search k s = m k"
proof (cases "search k s")
  case None
  then have "k \<notin> fst ` set_mset (contents s)" using search_law [OF assms(1)] by blast
  then have "m k \<noteq> Some d" for d using assms(2) by (force simp: represents_def)
  with None show ?thesis by (cases "m k") auto
next
  case (Some d)
  then show ?thesis using search_law [OF assms(1)] assms(2) by (auto simp: represents_def)
qed

lemma add_represents:
  assumes "inv s" "represents (contents s) m" "m k = None"
  shows "represents (contents (add k d s)) (m(k \<mapsto> d))"
proof -
  have n: "(k, d') \<notin># contents s" for d' using assms(2,3) by (auto simp: represents_def)
  then have "unique_keys (add_mset (k, d) (contents s))"
    using assms(2) by (intro unique_keys_add) (auto simp: represents_def)
  with assms n add_law [OF assms(1), of k d] show ?thesis by (auto simp: represents_def)
qed

lemma del_represents:
  assumes "inv s" "represents (contents s) m"
  shows "represents (contents (del k d s)) (spec_hash (HDel k d) m)"
proof (cases "m k = Some d")
  case True
  then obtain M where M: "contents s = add_mset (k, d) M"
    using assms(2) by (metis multi_member_split represents_def)
  then have u: "k \<notin> fst ` set_mset M" and um: "unique_keys M"
    using assms(2) unique_keys_add_mset [of "(k, d)" M] by (auto simp: represents_def)
  have "(k', d') \<in># M \<longleftrightarrow> (if k' = k then None else m k') = Some d'" for k' d'
  proof (cases "k' = k")
    case True
    with u show ?thesis by force
  next
    case False
    with assms(2) M show ?thesis by (auto simp: represents_def)
  qed
  with True um M del_law [OF assms(1), of k d] show ?thesis by (auto simp: represents_def)
next
  case False
  then have "(k, d) \<notin># contents s" using assms(2) by (simp add: represents_def)
  with False assms del_law [OF assms(1), of k d] show ?thesis by (simp add: diff_single_trivial)
qed

lemma runs:
  assumes "inv s" "represents (contents s) m" "fresh_keys xs m"
  shows "\<exists>s'. s' = fold (\<lambda>x s. case x of HAdd k d \<Rightarrow> add k d s | HDel k d \<Rightarrow> del k d s) xs s \<and> inv s' \<and>
    (\<forall>k. search k s' = fold spec_hash xs m k)"
  using assms
proof (induction xs arbitrary: s m)
  case Nil
  then show ?case by (simp add: search_represents)
next
  case (Cons x xs)
  show ?case
  proof (cases x)
    case (HAdd k d)
    then have "m k = None" "fresh_keys xs (m(k \<mapsto> d))" using Cons.prems(3) by auto
    from Cons.IH [OF _ add_represents [OF Cons.prems(1,2) this(1)] this(2)] add_law [OF Cons.prems(1)]
    show ?thesis by (simp only: HAdd fold_simps hash_op.case spec_hash.simps)
  next
    case (HDel k d)
    then have "fresh_keys xs (spec_hash (HDel k d) m)" using Cons.prems(3) by simp
    from Cons.IH [OF _ del_represents [OF Cons.prems(1,2)] this] del_law [OF Cons.prems(1)]
    show ?thesis by (simp only: HDel fold_simps hash_op.case)
  qed
qed

end

interpretation hash_store: keyed_store hash_ok entries
  "\<lambda>k d h. snd (pmHashAdd (\<lambda>_. True) k d h)" "\<lambda>k d h. snd (pmHashDel k d h)" pmHashSearch
proof
  fix h :: "'a hashctl" and k d
  assume ok: "hash_ok h"
  show "hash_ok (snd (pmHashAdd (\<lambda>_. True) k d h)) \<and>
      entries (snd (pmHashAdd (\<lambda>_. True) k d h)) = add_mset (k, d) (entries h)"
    by (rule pmHashAdd_spec [OF ok, of "\<lambda>_. True" k d]) auto
  show "hash_ok (snd (pmHashDel k d h)) \<and> entries (snd (pmHashDel k d h)) = entries h - {#(k, d)#}"
    using pmHashDel_spec [OF ok, of k d] by auto
qed (rule pmHashSearch_spec)

section \<open>Walking a table\<close>

text \<open>The nodes a walk still has to visit.\<close>

definition unvisited :: "'a hashctl \<Rightarrow> (u32 \<times> 'a) list" where
  "unvisited h = hnext h @ concat (drop (Suc (hindex h)) (hash h))"

lemma walk_skip_spec:
  assumes "length (hash h) = hsize h"
  shows "unvisited (walk_skip h) = unvisited h \<and> hash (walk_skip h) = hash h \<and> hsize (walk_skip h) = hsize h \<and>
    (hnext (walk_skip h) = [] \<longrightarrow> unvisited h = [])"
  using assms
proof (induction h rule: walk_skip.induct)
  case (1 h)
  let ?h = "h\<lparr>hindex := hindex h + 1\<rparr>"
  consider "hnext h \<noteq> []" | "hnext h = []" "hsize h \<le> hindex h + 1" | "hnext h = []" "hindex h + 1 < hsize h"
    by linarith
  then show ?case
  proof cases
    case 3
    let ?g = "?h\<lparr>hnext := hash h ! (hindex h + 1)\<rparr>"
    have "unvisited ?g = unvisited h"
      using 3 1(2) by (simp add: unvisited_def Cons_nth_drop_Suc [symmetric])
    moreover have "walk_skip h = walk_skip ?g" using 3 by (subst walk_skip.simps) simp
    ultimately show ?thesis using 1(1) [OF 3(1) refl] 3 1(2) by simp
  qed (use 1(2) in \<open>subst walk_skip.simps, simp add: unvisited_def\<close>)+
qed

text \<open>Repeated calls of \<open>__pmHashWalk\<close>, at most \<open>n\<close>, until it returns NULL.\<close>

fun walk_nodes :: "nat \<Rightarrow> walk_state \<Rightarrow> 'a hashctl \<Rightarrow> (u32 \<times> 'a) list option" where
  "walk_nodes 0 state h = None"
| "walk_nodes (Suc n) state h = (case pmHashWalk state h of
     (None, _) \<Rightarrow> Some []
   | (Some node, h) \<Rightarrow> map_option ((#) node) (walk_nodes n WALK_NEXT h))"

lemma pmHashWalk_spec:
  assumes "length (hash h) = hsize h" "0 < hsize h"
  shows "case unvisited h of
     [] \<Rightarrow> \<exists>h'. pmHashWalk WALK_NEXT h = (None, h')
   | node # rest \<Rightarrow> \<exists>h'. pmHashWalk WALK_NEXT h = (Some node, h') \<and> unvisited h' = rest \<and>
       hash h' = hash h \<and> hsize h' = hsize h"
proof -
  note W = walk_skip_spec [OF assms(1)]
  show ?thesis
  proof (cases "hnext (walk_skip h)")
    case Nil
    with W have "unvisited h = []" by simp
    with Nil assms(2) show ?thesis by (simp add: pmHashWalk_def)
  next
    case (Cons node rest)
    let ?r = "rest @ concat (drop (Suc (hindex (walk_skip h))) (hash (walk_skip h)))"
    have "unvisited h = node # ?r" using W Cons by (metis append_Cons unvisited_def)
    moreover have "pmHashWalk WALK_NEXT h = (Some node, (walk_skip h)\<lparr>hnext := rest\<rparr>)"
      using Cons assms(2) by (simp add: pmHashWalk_def)
    moreover have "unvisited ((walk_skip h)\<lparr>hnext := rest\<rparr>) = ?r" by (simp add: unvisited_def)
    ultimately show ?thesis using W by simp
  qed
qed

lemma walk_nodes_next:
  assumes "length (hash h) = hsize h" "0 < hsize h" "length (unvisited h) < n"
  shows "walk_nodes n WALK_NEXT h = Some (unvisited h)"
  using assms
proof (induction n arbitrary: h)
  case (Suc n)
  note P = pmHashWalk_spec [OF Suc.prems(1,2)]
  show ?case
  proof (cases "unvisited h")
    case Nil
    with P show ?thesis by auto
  next
    case (Cons node rest)
    then obtain h' where h': "pmHashWalk WALK_NEXT h = (Some node, h')" "unvisited h' = rest" "hash h' = hash h"
        "hsize h' = hsize h" using P by auto
    with Suc.IH [of h'] Suc.prems Cons show ?thesis by simp
  qed
qed simp

lemma walk_nodes_start:
  assumes "length (hash h) = hsize h" "length (concat (hash h)) < n"
  shows "walk_nodes n WALK_START h = Some (concat (hash h))"
proof (cases "hsize h = 0")
  case True
  with assms show ?thesis by (cases n) (auto simp: pmHashWalk_def)
next
  case False
  let ?h = "h\<lparr>hindex := 0, hnext := hash h ! 0\<rparr>"
  obtain c cs where h: "hash h = c # cs" using False assms(1) by (cases "hash h") auto
  have "pmHashWalk WALK_START h = pmHashWalk WALK_NEXT ?h" using False by (simp add: pmHashWalk_def Let_def)
  then have "walk_nodes n WALK_START h = walk_nodes n WALK_NEXT ?h" by (cases n) auto
  also have "\<dots> = Some (unvisited ?h)"
    using False assms h by (intro walk_nodes_next) (auto simp: unvisited_def)
  finally show ?thesis using h by (simp add: unvisited_def)
qed

text \<open>A callback that never stops and deletes the nodes with property \<open>P\<close>.\<close>

lemma walk_chain_filter:
  "walk_chain (\<lambda>n s. (if P n then WALK_DELETE_NEXT else WALK_NEXT, f n s)) c s =
     (filter (\<lambda>n. \<not> P n) c, fold f c s, False)"
  by (induction c arbitrary: s) (auto simp: Let_def)

lemma walk_table_filter:
  "walk_table (\<lambda>n s. (if P n then WALK_DELETE_NEXT else WALK_NEXT, f n s)) t s =
     (map (filter (\<lambda>n. \<not> P n)) t, fold f (concat t) s)"
  by (induction t arbitrary: s) (auto simp: Let_def walk_chain_filter)

lemma in_place_filter: "in_place t \<Longrightarrow> in_place (map (filter Q) t)"
  by (auto simp: in_place_def)

section \<open>Properties\<close>

text \<open>C6: as long as no key is added that is present, a hash table behaves as a finite map: after any
  sequence of additions and deletions, through every growth of the table, \<open>__pmHashSearch\<close> finds for
  every key what the map has, and the invariant of the buckets holds.\<close>

theorem hash_refines_map:
  assumes "hash_ok h" and "represents (entries h) m" and "fresh_keys xs m"
  shows "\<exists>h'. h' = fold (\<lambda>x h. case x of HAdd k d \<Rightarrow> snd (pmHashAdd (\<lambda>_. True) k d h)
      | HDel k d \<Rightarrow> snd (pmHashDel k d h)) xs h \<and> hash_ok h' \<and>
    (\<forall>k. pmHashSearch k h' = fold spec_hash xs m k)"
  by (rule hash_store.runs [OF assms])

text \<open>when memory runs out, \<open>__pmHashAdd\<close> returns an error and the table has the entries it
  had, whether or not it had already grown; otherwise it returns 1 and has one entry more.\<close>

theorem hash_add_fails_clean:
  assumes "hash_ok h"
  shows "\<exists>r h'. pmHashAdd mal key data h = (r, h') \<and> hash_ok h' \<and>
    (if r = 1 then entries h' = add_mset (key, data) (entries h)
     else r = - ENOMEM \<and> entries h' = entries h \<and> (\<not> mal 0 \<or> \<not> mal 1))"
  by (rule pmHashAdd_spec [OF assms, of mal key data]) (auto simp: ENOMEM_def)

text \<open>C30: a walk started with \<open>PM_HASH_WALK_START\<close> and continued with \<open>PM_HASH_WALK_NEXT\<close> visits every
  entry of the table exactly once and then returns NULL; one call more than there are entries is enough.\<close>

theorem hash_walk_complete:
  assumes "hash_ok h" and "size (entries h) < n"
  shows "\<exists>ns. walk_nodes n WALK_START h = Some ns \<and> mset ns = entries h"
  using walk_nodes_start [of h n] assms by (simp add: hash_ok_def entries_def)

text \<open>\<open>__pmHashWalkCB\<close> with a callback that answers \<open>PM_HASH_WALK_DELETE_NEXT\<close> or \<open>PM_HASH_WALK_NEXT\<close>
  calls it once for each entry, in the order of the buckets, and leaves exactly the entries that were
  not to be deleted.\<close>

theorem hash_walkcb_filter:
  assumes "hash_ok h"
  shows "\<exists>h'. pmHashWalkCB (\<lambda>n s. (if P n then WALK_DELETE_NEXT else WALK_NEXT, f n s)) s h =
      (h', fold f (concat (hash h)) s) \<and> hash_ok h' \<and> entries h' = filter_mset (\<lambda>n. \<not> P n) (entries h)"
proof -
  let ?h = "h\<lparr>hash := map (filter (\<lambda>n. \<not> P n)) (hash h)\<rparr>"
  have "entries ?h = filter_mset (\<lambda>n. \<not> P n) (entries h)"
    by (simp add: entries_def filter_concat [symmetric] flip: mset_filter)
  moreover from this have "hash_ok ?h"
    using assms by (auto simp: hash_ok_def in_place_filter intro: order_trans [OF size_filter_mset_lesseq])
  ultimately show ?thesis by (auto simp: pmHashWalkCB_def walk_table_filter)
qed

section \<open>Examples\<close>

definition empty_hash :: "'a hashctl" where
  "empty_hash = \<lparr>nodes = 0, hsize = 0, hash = [], hnext = [], hindex = 0\<rparr>"

lemma empty_hash_ok: "hash_ok empty_hash" "represents (entries empty_hash) Map.empty"
  by (auto simp: empty_hash_def hash_ok_def in_place_def entries_def represents_def unique_keys_def)

lemma hash_refines_map_witness:
  "\<exists>h'. h' = fold (\<lambda>x h. case x of HAdd k d \<Rightarrow> snd (pmHashAdd (\<lambda>_. True) k d h)
      | HDel k d \<Rightarrow> snd (pmHashDel k d h)) [HAdd 4 True, HAdd 9 False, HDel 4 True] empty_hash \<and> hash_ok h' \<and>
    pmHashSearch 4 h' = None \<and> pmHashSearch 9 h' = Some False"
  using hash_refines_map [OF empty_hash_ok, of "[HAdd 4 True, HAdd 9 False, HDel 4 True]"] by simp

lemma hash_add_fails_clean_witness:
  "\<exists>r h'. pmHashAdd (\<lambda>i. i = 0) 4 True empty_hash = (r, h') \<and> hash_ok h' \<and>
    (if r = 1 then entries h' = add_mset (4, True) (entries empty_hash) else r = - ENOMEM \<and> entries h' = entries empty_hash)"
  using hash_add_fails_clean [OF empty_hash_ok(1), of "\<lambda>i. i = 0" 4 True] by metis

definition sample_hash :: "bool hashctl" where
  "sample_hash = \<lparr>nodes = 3, hsize = 2, hash = [[(4, True), (2, False)], [(7, True)]], hnext = [], hindex = 0\<rparr>"

lemma sample_hash_ok: "hash_ok sample_hash"
  by (auto simp: sample_hash_def hash_ok_def in_place_def entries_def bucket_def less_2_cases_iff simp flip: numeral_2_eq_2)

lemma hash_walk_complete_witness:
  "\<exists>ns. walk_nodes 4 WALK_START sample_hash = Some ns \<and> mset ns = {#(4, True), (2, False), (7, True)#}"
  using hash_walk_complete [OF sample_hash_ok, of 4] by (simp add: entries_def sample_hash_def)

lemma hash_walkcb_filter_witness:
  "\<exists>h'. pmHashWalkCB (\<lambda>n s. (if snd n then WALK_DELETE_NEXT else WALK_NEXT, s + 1)) (0 :: nat) sample_hash = (h', 3) \<and>
    entries h' = {#(2, False)#}"
  using hash_walkcb_filter [OF sample_hash_ok, of snd "\<lambda>_ s. s + 1" "0 :: nat"]
  by (simp add: entries_def sample_hash_def numeral_3_eq_3) blast

end
