(* ===== verification/Pdu_Profile.thy ===== *)
theory Pdu_Profile
  imports Codec Profile
begin

text \<open>
  The PDU that carries an instance profile to the server, \<^verbatim>\<open>p_profile.c\<close>: the entries of all domains
  in one block, then the instances of all entries.
\<close>

section \<open>Encoder and decoder\<close>

definition LIMIT_CTXNUM :: int where "LIMIT_CTXNUM = 2048"

definition profile_need :: "pmInDomProfile list \<Rightarrow> nat" where
  "profile_need ps = 28 + length ps * 16 + (\<Sum>p\<leftarrow>ps. instances_len p * 4)"

fun put_profs :: "pmInDomProfile list \<Rightarrow> nat \<Rightarrow> mem \<Rightarrow> mem option" where
  "put_profs [] p m = Some m"
| "put_profs (prof # ps) p m = do {
     m \<leftarrow> stn m p (p_indom prof);
     m \<leftarrow> stn m (p + 4) (word_of_int (p_state prof));
     m \<leftarrow> stn m (p + 8) (word_of_nat (instances_len prof));
     m \<leftarrow> st32 m (p + 12) 0;
     put_profs ps (p + 16) m
   }"

fun put_prof_insts :: "pmInDomProfile list \<Rightarrow> nat \<Rightarrow> mem \<Rightarrow> mem option" where
  "put_prof_insts [] p m = Some m"
| "put_prof_insts (prof # ps) p m = do {
     l \<leftarrow> arr (instances prof) (instances_len prof);
     m \<leftarrow> stns m p l;
     put_prof_insts ps (p + 4 * instances_len prof) m
   }"

definition build_profile :: "u32 \<Rightarrow> int \<Rightarrow> pmProfile \<Rightarrow> mem \<Rightarrow> mem option" where
  "build_profile fr ctxnum instprof m = do {
     ps \<leftarrow> arr (profile instprof) (profile_len instprof);
     m \<leftarrow> put_hdr m (profile_need ps) PDU_PROFILE fr;
     m \<leftarrow> stn m 12 (word_of_int ctxnum);
     m \<leftarrow> stn m 16 (word_of_int (pr_state instprof));
     m \<leftarrow> stn m 20 (word_of_nat (profile_len instprof));
     m \<leftarrow> st32 m 24 0;
     m \<leftarrow> put_profs ps 28 m;
     put_prof_insts ps (28 + 16 * length ps) m
   }"

definition pmSendProfile :: "(int \<Rightarrow> bool \<times> int option) \<Rightarrow> xmit_env \<Rightarrow> int list \<Rightarrow> u32 \<Rightarrow> int \<Rightarrow> pmProfile \<Rightarrow> io \<Rightarrow>
    (int \<times> mem \<times> io) option" where
  "pmSendProfile e x writes fr ctxnum instprof s = do {
     ps \<leftarrow> arr (profile instprof) (profile_len instprof);
     pdu_send e x writes (int (profile_need ps)) (build_profile fr ctxnum instprof) s
   }"

text \<open>The entries: domain, state and number of instances. Only the first byte of an entry is
  checked to be inside the PDU.\<close>

fun get_profs :: "nat \<Rightarrow> nat \<Rightarrow> int \<Rightarrow> mem \<Rightarrow> (u32 \<times> int \<times> int) list c_result" where
  "get_profs 0 p len m = Some (Inr [])"
| "get_profs (Suc n) p len m =
     (if int p \<ge> len then Some (Inl PM_ERR_IPC)
      else do {
        indom \<leftarrow> ldn m p;
        state \<leftarrow> ldn m (p + 4);
        numinst \<leftarrow> ldn m (p + 8);
        r \<leftarrow> get_profs n (p + 16) len m;
        Some (case r of Inl e \<Rightarrow> Inl e | Inr l \<Rightarrow> Inr ((indom, sint state, sint numinst) # l))
      })"

fun get_words :: "nat \<Rightarrow> nat \<Rightarrow> int \<Rightarrow> mem \<Rightarrow> u32 list c_result" where
  "get_words 0 p len m = Some (Inr [])"
| "get_words (Suc n) p len m =
     (if int p \<ge> len then Some (Inl PM_ERR_IPC)
      else do {
        w \<leftarrow> ldn m p;
        r \<leftarrow> get_words n (p + 4) len m;
        Some (case r of Inl e \<Rightarrow> Inl e | Inr l \<Rightarrow> Inr (w # l))
      })"

fun get_prof_insts :: "(nat \<Rightarrow> bool) \<Rightarrow> nat \<Rightarrow> (u32 \<times> int \<times> int) list \<Rightarrow> nat \<Rightarrow> int \<Rightarrow> mem \<Rightarrow>
    pmInDomProfile list c_result" where
  "get_prof_insts mal k [] p len m = Some (Inr [])"
| "get_prof_insts mal k ((indom, state, n) # ps) p len m =
     (if n > 0 then
        (if n \<ge> INT_MAX div 4 \<or> n \<ge> len then Some (Inl PM_ERR_IPC)
         else if \<not> mal k then Some (Inl (- ENOMEM))
         else do {
           r \<leftarrow> get_words (nat n) p len m;
           (case r of
              Inl e \<Rightarrow> Some (Inl e)
            | Inr l \<Rightarrow> do {
                r \<leftarrow> get_prof_insts mal (Suc k) ps (p + 4 * nat n) len m;
                Some (case r of Inl e \<Rightarrow> Inl e
                  | Inr qs \<Rightarrow> Inr (\<lparr>p_indom = indom, p_state = state, instances_len = nat n, instances = Some l\<rparr> # qs))
              })
         })
      else if n < 0 then Some (Inl PM_ERR_IPC)
      else do {
        r \<leftarrow> get_prof_insts mal (Suc k) ps p len m;
        Some (case r of Inl e \<Rightarrow> Inl e
          | Inr qs \<Rightarrow> Inr (\<lparr>p_indom = indom, p_state = state, instances_len = 0, instances = None\<rparr> # qs))
      })"

text \<open>The allocations are of the profile, of the entries, and of the instances of each entry.\<close>

definition pmDecodeProfile :: "(nat \<Rightarrow> bool) \<Rightarrow> mem \<Rightarrow> (int \<times> pmProfile) c_result" where
  "pmDecodeProfile mal m = do {
     len \<leftarrow> pdu_len m;
     (if u64 len < 28 then Some (Inl PM_ERR_IPC)
      else do {
        c \<leftarrow> ldn m 12;
        let ctxnum = sint c;
        (if ctxnum < 0 \<or> ctxnum > LIMIT_CTXNUM then Some (Inl PM_ERR_IPC)
         else if \<not> mal 0 then Some (Inl (- ENOMEM))
         else do {
           g \<leftarrow> ldn m 16;
           w \<leftarrow> ldn m 20;
           let n = sint w;
           (if n < 0 then Some (Inl PM_ERR_IPC)
            else if n > 0 then
              (if n \<ge> INT_MAX div 24 \<or> n \<ge> len then Some (Inl PM_ERR_IPC)
               else if \<not> mal 1 then Some (Inl (- ENOMEM))
               else do {
                 r \<leftarrow> get_profs (nat n) 28 len m;
                 (case r of
                    Inl e \<Rightarrow> Some (Inl e)
                  | Inr l \<Rightarrow> do {
                      r \<leftarrow> get_prof_insts mal 2 l (28 + 16 * nat n) len m;
                      Some (case r of Inl e \<Rightarrow> Inl e
                        | Inr ps \<Rightarrow> Inr (ctxnum, \<lparr>pr_state = sint g, profile_len = nat n, profile = Some ps\<rparr>))
                    })
               })
            else Some (Inr (ctxnum, \<lparr>pr_state = sint g, profile_len = 0, profile = None\<rparr>)))
         })
      })
   }"

section \<open>Encoder and decoder agree\<close>

definition prof_bytes :: "pmInDomProfile \<Rightarrow> mem" where
  "prof_bytes p = n2b (p_indom p) @ n2b (word_of_int (p_state p)) @ n2b (word_of_nat (instances_len p)) @ n2b 0"

definition prof_inst_bytes :: "pmInDomProfile \<Rightarrow> mem" where
  "prof_inst_bytes p = concat (map n2b (ilist p))"

lemma length_prof_bytes [simp]: "length (prof_bytes p) = 16"
  by (simp add: prof_bytes_def)

lemma length_concat_prof_bytes [simp]: "length (concat (map prof_bytes ps)) = 16 * length ps"
  by (induction ps) auto

lemma length_prof_inst_bytes: "wf_entry p \<Longrightarrow> length (prof_inst_bytes p) = 4 * instances_len p"
  by (simp add: prof_inst_bytes_def wf_entry_def)

lemma arr_full: "n = length (elems l) \<Longrightarrow> arr l n = Some (elems l)"
  by (cases l) (auto simp: arr_def)

lemma n2b_0: "w2b 0 = n2b 0"
  by (simp add: n2b_def htonl_def w2b_def)

lemma put_profs_spec:
  "p + 16 * length ps \<le> length m \<Longrightarrow> put_profs ps p m = Some (upd m p (concat (map prof_bytes ps)))"
proof (induction ps arbitrary: p m)
  case Nil
  then show ?case by (simp add: upd_def)
next
  case (Cons q ps)
  have "upd (upd (upd (upd m p (n2b (p_indom q))) (p + 4) (n2b (word_of_int (p_state q)))) (p + 8)
      (n2b (word_of_nat (instances_len q)))) (p + 12) (n2b 0) = upd m p (prof_bytes q)"
    using Cons.prems by (simp add: upd_upd_append prof_bytes_def)
  moreover have "upd (upd m p (prof_bytes q)) (p + 16) (concat (map prof_bytes ps)) = upd m p (concat (map prof_bytes (q # ps)))"
    using Cons.prems by (simp add: upd_upd_append)
  ultimately show ?case using Cons by (simp add: mem_simps n2b_0)
qed

lemma put_prof_insts_spec:
  assumes "p + length (concat (map prof_inst_bytes ps)) \<le> length m" and "list_all wf_entry ps"
  shows "put_prof_insts ps p m = Some (upd m p (concat (map prof_inst_bytes ps)))"
  using assms
proof (induction ps arbitrary: p m)
  case Nil
  then show ?case by (simp add: upd_def)
next
  case (Cons q ps)
  have q: "wf_entry q" "arr (instances q) (instances_len q) = Some (ilist q)" "instances_len q = length (ilist q)"
    using Cons.prems(2) by (auto simp: wf_entry_def ilist_def arr_full)
  have "stns m p (ilist q) = Some (upd m p (prof_inst_bytes q))"
    using Cons.prems(1) q by (simp add: mem_simps prof_inst_bytes_def)
  moreover have "upd (upd m p (prof_inst_bytes q)) (p + 4 * length (ilist q)) (concat (map prof_inst_bytes ps)) =
      upd m p (concat (map prof_inst_bytes (q # ps)))"
    using Cons.prems(1) q by (simp add: upd_upd_append length_prof_inst_bytes)
  ultimately show ?case
    using Cons q by (simp add: length_prof_inst_bytes)
qed

lemma get_profs_spec:
  assumes "bytes_at m p (concat (map prof_bytes ps))" and "p + 16 * length ps \<le> len"
    and "\<forall>q \<in> set ps. is_int32 (p_state q) \<and> instances_len q < 2 ^ 31"
  shows "get_profs (length ps) p (int len) m = Some (Inr (map (\<lambda>q. (p_indom q, p_state q, int (instances_len q))) ps))"
  using assms
proof (induction ps arbitrary: p)
  case (Cons q ps)
  have "ldn m p = Some (p_indom q)" "ldn m (p + 4) = Some (word_of_int (p_state q))"
      "ldn m (p + 8) = Some (word_of_nat (instances_len q))"
    using Cons.prems(1) prof_bytes_def [of q] by (auto simp: bytes_at_append add.commute intro: bytes_at_ldn)
  moreover have "get_profs (length ps) (p + 16) (int len) m = Some (Inr (map (\<lambda>q. (p_indom q, p_state q, int (instances_len q))) ps))"
    using Cons.prems by (intro Cons.IH) (auto simp: bytes_at_append)
  ultimately show ?case using Cons.prems(2,3) by (simp add: sint_pdu_len)
qed simp

lemma get_words_spec:
  assumes "bytes_at m p (concat (map n2b ws))" and "p + 4 * length ws \<le> len"
  shows "get_words (length ws) p (int len) m = Some (Inr ws)"
  using assms by (induction ws arbitrary: p) (auto simp: bytes_at_append bytes_at_ldn)

text \<open>An entry as it arrives: no list instead of an empty one.\<close>

definition recv_entry :: "pmInDomProfile \<Rightarrow> pmInDomProfile" where
  "recv_entry q = q\<lparr>instances := (if ilist q = [] then None else Some (ilist q))\<rparr>"

lemma get_prof_insts_spec:
  assumes "bytes_at m p (concat (map prof_inst_bytes ps))" and "len = p + length (concat (map prof_inst_bytes ps))"
    and "list_all wf_entry ps" and "28 \<le> p" and "len < 2 ^ 31"
  shows "get_prof_insts (\<lambda>_. True) k (map (\<lambda>q. (p_indom q, p_state q, int (instances_len q))) ps) p (int len) m =
    Some (Inr (map recv_entry ps))"
  using assms
proof (induction ps arbitrary: p k)
  case (Cons q ps)
  let ?n = "instances_len q"
  have q: "?n = length (ilist q)" using Cons.prems(3) by (simp add: wf_entry_def)
  have lq: "length (prof_inst_bytes q) = 4 * ?n" using Cons.prems(3) by (simp add: length_prof_inst_bytes)
  have at: "bytes_at m p (prof_inst_bytes q)" "bytes_at m (p + 4 * ?n) (concat (map prof_inst_bytes ps))"
    using Cons.prems(1) lq by (auto simp: bytes_at_append)
  have ih: "get_prof_insts (\<lambda>_. True) (Suc k) (map (\<lambda>q. (p_indom q, p_state q, int (instances_len q))) ps) (p + 4 * ?n) (int len) m =
      Some (Inr (map recv_entry ps))"
    using Cons.prems at(2) lq by (intro Cons.IH) auto
  show ?case
  proof (cases "?n = 0")
    case True
    with ih q show ?thesis by (simp add: recv_entry_def)
  next
    case False
    have "get_words ?n p (int len) m = Some (Inr (ilist q))"
      using get_words_spec [of m p "ilist q" len] at(1) q lq Cons.prems(2) by (simp add: prof_inst_bytes_def)
    moreover have "4 * ?n + 28 \<le> len" using Cons.prems(2,4) lq by simp
    ultimately show ?thesis
      using ih False q Cons.prems(5) by (auto simp: recv_entry_def INT_MAX_def)
  qed
qed simp

definition recv_prof :: "pmProfile \<Rightarrow> pmProfile" where
  "recv_prof pr = pr\<lparr>profile := (if plist pr = [] then None else Some (map recv_entry (plist pr)))\<rparr>"

text \<open>What arrives selects the same instances.\<close>

lemma recv_entry_simps [simp]:
  "p_indom (recv_entry q) = p_indom q" "ilist (recv_entry q) = ilist q" "p_state (recv_entry q) = p_state q"
  "instances_len (recv_entry q) = instances_len q"
  by (auto simp: recv_entry_def ilist_def)

lemma recv_prof_sel: "wf_prof pr \<Longrightarrow> wf_prof (recv_prof pr) \<and> prof_sel (recv_prof pr) = prof_sel pr"
proof -
  assume wf: "wf_prof pr"
  have pl: "plist (recv_prof pr) = map recv_entry (plist pr)" by (auto simp: recv_prof_def plist_def [of "pr\<lparr>profile := x\<rparr>" for x])
  have "entry_sel (recv_entry q) = entry_sel q" for q by (simp add: entry_sel_def)
  then have "entries_sel (map recv_entry (plist pr)) = entries_sel (plist pr)"
    by (simp add: entries_sel_def comp_def)
  moreover have "wf_entry (recv_entry q) = wf_entry q" for q by (simp add: wf_entry_def)
  ultimately show ?thesis
    using wf by (auto simp: wf_prof_def prof_sel_def pl list_all_iff comp_def) (simp_all add: recv_prof_def)
qed

definition profile_body :: "int \<Rightarrow> pmProfile \<Rightarrow> mem" where
  "profile_body ctxnum pr = n2b (word_of_int ctxnum) @ n2b (word_of_int (pr_state pr)) @
     n2b (word_of_nat (profile_len pr)) @ n2b 0 @ concat (map prof_bytes (plist pr)) @ concat (map prof_inst_bytes (plist pr))"

definition wf_send_prof :: "int \<Rightarrow> pmProfile \<Rightarrow> bool" where
  "wf_send_prof ctxnum pr \<longleftrightarrow> wf_prof pr \<and> profile_need (plist pr) < 2 ^ 30 \<and> is_int32 (pr_state pr) \<and>
     0 \<le> ctxnum \<and> ctxnum \<le> LIMIT_CTXNUM"

lemma length_insts: "list_all wf_entry ps \<Longrightarrow> length (concat (map prof_inst_bytes ps)) = (\<Sum>p\<leftarrow>ps. instances_len p * 4)"
  by (induction ps) (auto simp: length_prof_inst_bytes)

lemma length_profile_body: "wf_prof pr \<Longrightarrow> 12 + length (profile_body ctxnum pr) = profile_need (plist pr)"
  by (simp add: profile_body_def profile_need_def wf_prof_def length_insts)

lemma profile_build:
  assumes wf: "wf_prof pr" and m: "profile_need (plist pr) \<le> length m"
  shows "\<exists>m'. build_profile fr ctxnum pr m = Some m' \<and> length m' = length m \<and>
    bytes_at m' 0 (mk_pdu PDU_PROFILE fr (profile_body ctxnum pr))"
proof -
  let ?ps = "plist pr" and ?b = "concat (map prof_inst_bytes (plist pr))"
  have a: "arr (profile pr) (profile_len pr) = Some ?ps" using wf by (simp add: wf_prof_def plist_def arr_full)
  have l: "list_all wf_entry ?ps" "profile_len pr = length ?ps" using wf by (auto simp: wf_prof_def)
  then have len: "28 + 16 * length ?ps + length ?b \<le> length m" using m by (simp add: profile_need_def length_insts)
  then have p: "put_profs ?ps 28 x = Some (upd x 28 (concat (map prof_bytes ?ps)))"
      "put_prof_insts ?ps (28 + 16 * length ?ps) x = Some (upd x (28 + 16 * length ?ps) ?b)" if "length x = length m" for x
    using put_profs_spec [of 28 ?ps x] put_prof_insts_spec [of "28 + 16 * length ?ps" ?ps x] that l by auto
  show ?thesis
    using len a p length_profile_body [OF wf, of ctxnum] l
    by (simp add: build_profile_def profile_body_def n2b_0 build_simps)
qed

lemma profile_decode:
  assumes wf: "wf_send_prof ctxnum pr" and at: "bytes_at m 0 (mk_pdu PDU_PROFILE fr (profile_body ctxnum pr))"
  shows "pmDecodeProfile (\<lambda>_. True) m = Some (Inr (ctxnum, recv_prof pr))"
proof -
  let ?ps = "plist pr" and ?N = "profile_need (plist pr)"
  let ?n = "length ?ps"
  have w: "wf_prof pr" "?N < 2 ^ 30" "is_int32 (pr_state pr)" "0 \<le> ctxnum" "ctxnum \<le> 2048"
    using wf by (auto simp: wf_send_prof_def LIMIT_CTXNUM_def)
  have l: "list_all wf_entry ?ps" "profile_len pr = ?n" using w(1) by (auto simp: wf_prof_def)
  have N: "?N = 28 + 16 * ?n + length (concat (map prof_inst_bytes ?ps))" by (simp add: profile_need_def length_insts l(1))
  have len: "pdu_len m = Some (int ?N)"
    using pdu_len_pdu [OF at] sint_pdu_len [of ?N] length_profile_body [OF w(1), of ctxnum] w(2) by simp
  have r: "ldn m 12 = Some (word_of_int ctxnum)" "ldn m 16 = Some (word_of_int (pr_state pr))"
      "ldn m 20 = Some (word_of_nat ?n)" "bytes_at m 28 (concat (map prof_bytes ?ps))"
      "bytes_at m (28 + 16 * ?n) (concat (map prof_inst_bytes ?ps))"
    using pdu_body [OF at] l(2) by (auto simp: profile_body_def bytes_at_append intro: bytes_at_ldn)
  have il: "instances_len q * 4 \<le> ?N" "is_int32 (p_state q)" if "q \<in> set ?ps" for q
    using that l(1) member_le_sum_list [of "instances_len q * 4" "map (\<lambda>p. instances_len p * 4) ?ps"]
    by (auto simp: profile_need_def wf_entry_def list_all_iff is_int32_def profile_consts)
  have g: "get_profs ?n 28 (int ?N) m = Some (Inr (map (\<lambda>q. (p_indom q, p_state q, int (instances_len q))) ?ps))"
    using r(4) N il w(2) by (intro get_profs_spec) fastforce+
  have i: "get_prof_insts (\<lambda>_. True) 2 (map (\<lambda>q. (p_indom q, p_state q, int (instances_len q))) ?ps) (28 + 16 * ?n) (int ?N) m =
      Some (Inr (map recv_entry ?ps))"
    using r(5) N l(1) w(2) by (intro get_prof_insts_spec) auto
  have s: "sint (word_of_int ctxnum :: u32) = ctxnum" "sint (word_of_nat ?n :: u32) = int ?n"
    using w N by (auto simp: is_int32_def intro: sint_pdu_len)
  have c: "\<not> u64 (int ?N) < 28" "int ?n < INT_MAX div 24" "int ?n < int ?N"
    using w(2) N by (simp_all add: INT_MAX_def)
  show ?thesis
    using len r(1-3) g i s c w(3-5) l(2)
    by (cases "?ps = []") (auto simp: pmDecodeProfile_def recv_prof_def LIMIT_CTXNUM_def Let_def)
qed

interpretation profile_codec: pdu_codec "\<lambda>x. wf_send_prof (fst (snd x)) (snd (snd x))" PDU_PROFILE fst
  "\<lambda>x. int (profile_need (plist (snd (snd x))))" "\<lambda>x. length (profile_body (fst (snd x)) (snd (snd x)))"
  "\<lambda>x body. body = profile_body (fst (snd x)) (snd (snd x))"
  "\<lambda>x. build_profile (fst x) (fst (snd x)) (snd (snd x))" "pmDecodeProfile (\<lambda>_. True)"
  "\<lambda>x. (fst (snd x), recv_prof (snd (snd x)))"
proof
  fix x :: "u32 \<times> int \<times> pmProfile"
  assume "wf_send_prof (fst (snd x)) (snd (snd x))"
  then show "12 + length (profile_body (fst (snd x)) (snd (snd x))) \<le> nat (INT_MAX - 2 * PDU_CHUNK)"
    using length_profile_body [of "snd (snd x)" "fst (snd x)"] by (simp add: wf_send_prof_def codec_size)
next
  fix x :: "u32 \<times> int \<times> pmProfile" and m :: mem
  assume "wf_send_prof (fst (snd x)) (snd (snd x))" "int (profile_need (plist (snd (snd x)))) \<le> int (length m)"
  then show "\<exists>m' body. build_profile (fst x) (fst (snd x)) (snd (snd x)) m = Some m' \<and> length m' = length m \<and>
      body = profile_body (fst (snd x)) (snd (snd x)) \<and> bytes_at m' 0 (mk_pdu PDU_PROFILE (fst x) body)"
    using profile_build [of "snd (snd x)" m "fst x" "fst (snd x)"] by (simp add: wf_send_prof_def)
qed (use profile_decode in \<open>auto simp: codec_size\<close>)

section \<open>Properties\<close>

text \<open>C26: the instance profile of a context, sent with \<open>__pmSendProfile\<close> and read by the server through
  any fragmentation, is decoded by \<open>__pmDecodeProfile\<close> to a well-formed profile for which
  \<open>__pmInProfile\<close> gives the same answer on both sides for every domain and instance.\<close>

theorem profile_end_to_end:
  assumes "wf_send_prof ctxnum pr" and "can_send e (int (profile_need (plist pr))) s"
    and "drains writes (profile_need (plist pr))"
  shows "\<exists>sent s'. pmSendProfile e xe writes fr ctxnum pr s = Some (int (profile_need (plist pr)), sent, s') \<and>
    pin_held s' = pin_held s \<and> length sent = profile_need (plist pr) \<and>
    (\<forall>g mode timeout trips r rest.
       can_recv g mode timeout (int (profile_need (plist pr))) trips r \<longrightarrow> stream trips = sent @ rest \<longrightarrow>
       (\<exists>a ts r' pr'. pmGetPDU g mode timeout trips r = Some ((PDU_PROFILE, Some a), ts, r') \<and> stream ts = rest \<and>
         pin_held r' = (pin_held r)(a := 1) \<and>
         pmDecodeProfile (\<lambda>_. True) (heap r' a) = Some (Inr (ctxnum, pr')) \<and> wf_prof pr' \<and>
         (\<forall>d i. pmInProfile d (Some pr') i = pmInProfile d (Some pr) i)))"
proof -
  have wf: "wf_prof pr" using assms(1) by (simp add: wf_send_prof_def)
  have a: "arr (profile pr) (profile_len pr) = Some (plist pr)" using wf by (simp add: wf_prof_def plist_def arr_full)
  have len: "12 + length (profile_body ctxnum pr) = profile_need (plist pr)" by (rule length_profile_body [OF wf])
  then have "12 + int (length (profile_body ctxnum pr)) = int (profile_need (plist pr))" by linarith
  with profile_codec.end_to_end [of "(fr, ctxnum, pr)" e s writes xe] assms len
  obtain sent s' where snd: "pmSendProfile e xe writes fr ctxnum pr s = Some (int (profile_need (plist pr)), sent, s')"
      "pin_held s' = pin_held s" "length sent = profile_need (plist pr)"
    and rcv: "\<And>g mode timeout trips r rest. can_recv g mode timeout (int (profile_need (plist pr))) trips r \<Longrightarrow>
      stream trips = sent @ rest \<Longrightarrow>
      \<exists>a ts r'. pmGetPDU g mode timeout trips r = Some ((PDU_PROFILE, Some a), ts, r') \<and>
        pmDecodeProfile (\<lambda>_. True) (heap r' a) = Some (Inr (ctxnum, recv_prof pr)) \<and> stream ts = rest \<and>
        pin_held r' = (pin_held r)(a := 1)"
    by (simp add: pmSendProfile_def a) blast
  have "wf_prof (recv_prof pr)" "\<forall>d i. pmInProfile d (Some (recv_prof pr)) i = pmInProfile d (Some pr) i"
    using recv_prof_sel [OF wf] wf by (simp_all add: pmInProfile_spec)
  with snd rcv show ?thesis by (intro exI [of _ sent] exI [of _ s']) meson
qed

text \<open>A profile PDU of 32 bytes that says it has one entry of 16 bytes.\<close>

definition ragged_profile :: mem where
  "ragged_profile = w2b 32 @ w2b (word_of_int PDU_PROFILE) @ w2b 0 @ n2b 1 @ n2b 0 @ n2b 1 @ n2b 0 @ n2b 5"

text \<open>\<open>__pmDecodeProfile\<close> checks only that the first byte of an entry is inside the PDU: an entry
  that the PDU cuts short is read past the end.\<close>

theorem profile_overread:
  "exact_pdu ragged_profile \<and> pmDecodeProfile (\<lambda>_. True) ragged_profile = None"
proof -
  have "bytes_at ragged_profile 0 ragged_profile" by (simp add: bytes_at_def ld_def)
  then have "bytes_at ragged_profile 0 (w2b 32 @ w2b (word_of_int PDU_PROFILE) @ w2b 0 @ n2b 1 @ n2b 0 @ n2b 1 @ n2b 0 @ n2b 5)"
    by (simp only: ragged_profile_def)
  then have r: "pdu_len ragged_profile = Some 32" "ldn ragged_profile 12 = Some 1" "ldn ragged_profile 16 = Some 0"
      "ldn ragged_profile 20 = Some 1" "ldn ragged_profile 28 = Some 5"
    by (auto simp: bytes_at_append pdu_len_def bytes_at_ld32 bytes_at_ldn)
  have len: "length ragged_profile = 32" by (simp add: ragged_profile_def)
  have "get_profs (Suc 0) 28 32 ragged_profile = None" using r(5) len by (simp add: bind_None_iff)
  then show ?thesis
    using r len by (simp add: exact_pdu_def pmDecodeProfile_def LIMIT_CTXNUM_def INT_MAX_def Let_def)
qed

lemma profile_end_to_end_witness:
  "\<exists>sent s' a ts r' pr'. pmSendProfile (\<lambda>_. (False, None)) sample_xenv [44] 0 1 (c_instprof (cur (sample_ctxs (Some [fresh_entry 7])))) sample_io =
      Some (44, sent, s') \<and>
    pmGetPDU sample_env ANY_SIZE TIMEOUT_NEVER [Chunk (1, 0) (take 5 sent), Chunk (2, 0) (drop 5 sent)] sample_io =
      Some ((PDU_PROFILE, Some a), ts, r') \<and>
    pmDecodeProfile (\<lambda>_. True) (heap r' a) = Some (Inr (1, pr')) \<and> wf_prof pr'"
proof -
  let ?pr = "c_instprof (cur (sample_ctxs (Some [fresh_entry 7])))"
  have pl: "plist ?pr = [fresh_entry 7]" by (simp add: sample_ctxs_def cur_def plist_def)
  have need: "profile_need (plist ?pr) = 44" unfolding pl by (simp add: profile_need_def fresh_entry_def)
  have wf: "wf_send_prof 1 ?pr"
    using sample_ctxs_ok(2) need by (simp add: wf_send_prof_def ctxs_ok_def LIMIT_CTXNUM_def)
      (simp add: sample_ctxs_def cur_def is_int32_def profile_consts)
  obtain sent s' where snd: "pmSendProfile (\<lambda>_. (False, None)) sample_xenv [44] 0 1 ?pr sample_io = Some (44, sent, s')"
      "length sent = 44"
      "\<And>g mode timeout trips r rest. can_recv g mode timeout 44 trips r \<Longrightarrow> stream trips = sent @ rest \<Longrightarrow>
       (\<exists>a ts r' pr'. pmGetPDU g mode timeout trips r = Some ((PDU_PROFILE, Some a), ts, r') \<and>
         pmDecodeProfile (\<lambda>_. True) (heap r' a) = Some (Inr (1, pr')) \<and> wf_prof pr')"
    using profile_end_to_end [OF wf, of "\<lambda>_. (False, None)" sample_io "[44]" sample_xenv 0] need
    by (simp add: sample_can_send) meson
  show ?thesis using snd(1,2) snd(3) [OF _ sample_trips(2)] sample_trips(1) [of sent] by fastforce
qed

end
