(* ===== verification/Pdu_Result.thy ===== *)
theory Pdu_Result
  imports Codec Endian
begin

text \<open>
  Results of a fetch, \<^verbatim>\<open>p_result.c\<close> in its 64-bit branch: a PDU has the value lists first and the
  value blocks they point to, by an index in words, after them. The encoder copies and converts
  the blocks; the decoder converts them back in place while it checks the PDU, and copies them to
  a second buffer of the pool into which the pointers of the result then lead.
\<close>

section \<open>Results\<close>

definition PM_VAL_INSITU :: int where "PM_VAL_INSITU = 0"
definition PM_VAL_DPTR :: int where "PM_VAL_DPTR = 1"
definition PM_VAL_SPTR :: int where "PM_VAL_SPTR = 2"
definition PM_VAL_HDR_SIZE :: nat where "PM_VAL_HDR_SIZE = 4"

text \<open>
  A value is a word or a pointer to a value block. The pointer is the bytes of the block for a
  result that is sent, and an index into the second buffer for one that was received. The format
  of a value set without values is never written, so that reading it is a fault.
\<close>

datatype 'p pmvalue =
    Lval u32
  | Pval 'p

record 'p pmValueSet =
  vs_pmid :: u32
  vs_numval :: int
  vs_valfmt :: "int option"
  vs_vlist :: "(u32 \<times> 'p pmvalue) list"

record 'p pmResult =
  rs_sec :: int
  rs_usec :: int
  rs_vset :: "'p pmValueSet list"

text \<open>Reading the union as a word, reading it as a pointer, and the length of a block.\<close>

fun lval :: "'p pmvalue \<Rightarrow> u32 option" where
  "lval (Lval w) = Some w"
| "lval (Pval p) = None"

fun pval :: "'p pmvalue \<Rightarrow> 'p option" where
  "pval (Lval w) = None"
| "pval (Pval p) = Some p"

definition blk_vlen :: "mem \<Rightarrow> nat option" where
  "blk_vlen b = map_option vb_vlen (ld32 b 0)"

text \<open>The values \<open>vlist[0]\<close> to \<open>vlist[numval - 1]\<close>.\<close>

definition vlist_of :: "'p pmValueSet \<Rightarrow> (u32 \<times> 'p pmvalue) list option" where
  "vlist_of vs = (if nat (vs_numval vs) \<le> length (vs_vlist vs)
     then Some (take (nat (vs_numval vs)) (vs_vlist vs)) else None)"

section \<open>The encoder\<close>

text \<open>Bytes for the value blocks of a list of values.\<close>

fun vals_vneed :: "(u32 \<times> mem pmvalue) list \<Rightarrow> nat option" where
  "vals_vneed [] = Some 0"
| "vals_vneed ((inst, v) # vs) = do {
     b \<leftarrow> pval v;
     nb \<leftarrow> blk_vlen b;
     n \<leftarrow> vals_vneed vs;
     Some (PM_PDU_SIZE_BYTES nb + n)
   }"

text \<open>Bytes for the value list of a set and for its blocks.\<close>

definition set_need :: "mem pmValueSet \<Rightarrow> (nat \<times> nat) option" where
  "set_need vs = do {
     vl \<leftarrow> vlist_of vs;
     (if vl = [] then Some (8, 0)
      else do {
        fmt \<leftarrow> vs_valfmt vs;
        v \<leftarrow> (if fmt \<noteq> PM_VAL_INSITU then vals_vneed vl else Some 0);
        Some (8 + 8 * length vl + 4, v)
      })
   }"

fun sets_need :: "mem pmValueSet list \<Rightarrow> (nat \<times> nat) option" where
  "sets_need [] = Some (0, 0)"
| "sets_need (vs # vss) = do {
     (n, v) \<leftarrow> set_need vs;
     (ns, vss) \<leftarrow> sets_need vss;
     Some (n + ns, v + vss)
   }"

definition result_need :: "mem pmResult \<Rightarrow> (nat \<times> nat) option" where
  "result_need r = map_option (\<lambda>(n, v). (24 + n, v)) (sets_need (rs_vset r))"

text \<open>
  The loop over the values of a set: \<open>vl\<close> is the offset of \<open>vlist[j]\<close>, \<open>vb\<close> that of the next
  value block.
\<close>

fun put_values :: "int \<Rightarrow> (u32 \<times> mem pmvalue) list \<Rightarrow> nat \<Rightarrow> nat \<Rightarrow> mem \<Rightarrow> (nat \<times> mem) option" where
  "put_values fmt [] vl vb m = Some (vb, m)"
| "put_values fmt ((inst, v) # vs) vl vb m = do {
     m \<leftarrow> stn m vl inst;
     (if fmt = PM_VAL_INSITU then do {
        w \<leftarrow> lval v;
        m \<leftarrow> stn m (vl + 4) w;
        put_values fmt vs (vl + 8) vb m
      } else do {
        b \<leftarrow> pval v;
        nb \<leftarrow> blk_vlen b;
        bs \<leftarrow> ld b 0 nb;
        m \<leftarrow> st m vb bs;
        m \<leftarrow> st m (vb + nb) (pad_bytes nb);
        m \<leftarrow> pm_htonpmValueBlock vb m;
        m \<leftarrow> stn m (vl + 4) (word_of_nat (vb div 4));
        put_values fmt vs (vl + 8) (vb + PM_PDU_SIZE_BYTES nb) m
      })
   }"

fun put_sets :: "mem pmValueSet list \<Rightarrow> nat \<Rightarrow> nat \<Rightarrow> mem \<Rightarrow> mem option" where
  "put_sets [] vlp vbp m = Some m"
| "put_sets (vs # vss) vlp vbp m = do {
     vl \<leftarrow> vlist_of vs;
     m \<leftarrow> stn m vlp (vs_pmid vs);
     (vbp, m) \<leftarrow> (if vl = [] then Some (vbp, m)
       else do {
         fmt \<leftarrow> vs_valfmt vs;
         m \<leftarrow> stn m (vlp + 8) (word_of_int fmt);
         put_values fmt vl (vlp + 12) vbp m
       });
     m \<leftarrow> stn m (vlp + 4) (word_of_int (vs_numval vs));
     put_sets vss (vlp + (if vl = [] then 8 else 12 + 8 * length vl)) vbp m
   }"

definition encode_result :: "nat \<Rightarrow> nat \<Rightarrow> mem pmResult \<Rightarrow> mem \<Rightarrow> mem option" where
  "encode_result need vneed r m = do {
     m \<leftarrow> st32 m 0 (word_of_nat (need + vneed));
     m \<leftarrow> st32 m 4 (word_of_int PDU_RESULT);
     m \<leftarrow> stn m 12 (word_of_int (rs_sec r));
     m \<leftarrow> stn m 16 (word_of_int (rs_usec r));
     m \<leftarrow> stn m 20 (word_of_nat (length (rs_vset r)));
     put_sets (rs_vset r) 24 (4 * (need div 4)) m
   }"

definition pmEncodeResult :: "(int \<Rightarrow> bool \<times> int option) \<Rightarrow> mem pmResult \<Rightarrow> io \<Rightarrow> (int \<times> int option \<times> io) option" where
  "pmEncodeResult e r s = do {
     (need, vneed) \<leftarrow> result_need r;
     let n = s32 (int (need + vneed));
     (b, p) \<leftarrow> find_buf (e n) n (io_pool s);
     let s = s\<lparr>io_pool := p\<rparr>;
     (case b of
        None \<Rightarrow> Some (- ENOMEM, None, s)
      | Some pdubuf \<Rightarrow> do {
          m \<leftarrow> encode_result need vneed r (heap s pdubuf);
          Some (0, Some pdubuf, s\<lparr>heap := (heap s)(pdubuf := m)\<rparr>)
        })
   }"

definition pmSendResult :: "(int \<Rightarrow> bool \<times> int option) \<Rightarrow> xmit_env \<Rightarrow> int list \<Rightarrow> u32 \<Rightarrow> mem pmResult \<Rightarrow> io \<Rightarrow>
    (int \<times> mem \<times> io) option" where
  "pmSendResult e x writes fr r s = do {
     (sts, b, s) \<leftarrow> pmEncodeResult e r s;
     (if sts < 0 then Some (sts, [], s)
      else do {
        pdubuf \<leftarrow> b;
        m \<leftarrow> st32 (heap s pdubuf) 8 fr;
        (sts, sent, s) \<leftarrow> pmXmitPDU x writes pdubuf (s\<lparr>heap := (heap s)(pdubuf := m)\<rparr>);
        (_, p) \<leftarrow> pmUnpinPDUBuf pdubuf (io_pool s);
        Some (sts, sent, s\<lparr>io_pool := p\<rparr>)
      })
   }"

section \<open>The decoder\<close>

text \<open>
  The first pass checks the PDU and adds up sizes, as \<open>int\<close>s that wrap around: of the value lists,
  of the value sets they become, and of the value blocks. \<open>vsplit\<close> is the offset of the first
  block seen. An address is an \<open>int\<close>, since nothing keeps it inside the buffer. \<^const>\<open>None\<close> inside
  the result stands for the jump to \<open>corrupt\<close>; the buffer is returned in either case, because
  the blocks are converted in it.
\<close>

record scan =
  sc_vsize :: int
  sc_nvsize :: int
  sc_vbsize :: int
  sc_vsplit :: int

definition ldi :: "mem \<Rightarrow> int \<Rightarrow> u32 option" where
  "ldi m a = (if a < 0 then None else ldn m (nat a))"

fun scan_values :: "nat \<Rightarrow> int \<Rightarrow> int \<Rightarrow> int \<Rightarrow> int \<Rightarrow> mem \<Rightarrow> ((int \<times> int) option \<times> mem) option" where
  "scan_values 0 a len vsplit vbsize m = Some (Some (vsplit, vbsize), m)"
| "scan_values (Suc n) a len vsplit vbsize m =
     (if 8 > u64 (len - a) then Some (None, m)
      else do {
        w \<leftarrow> ldi m (a + 4);
        let index = sint w;
        let vb = 4 * index;
        let vsplit = (if vsplit > vb then vb else vsplit);
        (if index < 0 \<or> index > len then Some (None, m)
         else if 4 > u64 (len - vb) then Some (None, m)
         else do {
           m \<leftarrow> pm_ntohpmValueBlock (nat vb) m;
           h \<leftarrow> ld32 m (nat vb);
           let vlen = vb_vlen h;
           (if vlen < PM_VAL_HDR_SIZE \<or> int vlen > len then Some (None, m)
            else if int vlen > u64 (len - vb) then Some (None, m)
            else scan_values n (a + 8) len vsplit (s32 (vbsize + int (PM_PDU_SIZE_BYTES vlen))) m)
         })
      })"

fun scan_sets :: "nat \<Rightarrow> int \<Rightarrow> scan \<Rightarrow> mem \<Rightarrow> (scan option \<times> mem) option" where
  "scan_sets 0 len sc m = Some (Some sc, m)"
| "scan_sets (Suc n) len sc m = (
     let vlp = 24 + sc_vsize sc in
     if 8 > u64 (len - vlp) then Some (None, m)
     else do {
       nv \<leftarrow> ldi m (vlp + 4);
       fmt \<leftarrow> ldi m (vlp + 8);
       let numval = sint nv;
       let sc = sc\<lparr>sc_vsize := s32 (sc_vsize sc + 8), sc_nvsize := s32 (sc_nvsize sc + 32)\<rparr>;
       (if numval > len then Some (None, m)
        else if numval > 0 then
          if 12 > u64 (len - vlp) then Some (None, m)
          else if numval \<ge> (INT_MAX - 20) div 8 then Some (None, m)
          else let sc = sc\<lparr>sc_vsize := s32 (sc_vsize sc + 4 + 8 * numval),
                   sc_nvsize := s32 (sc_nvsize sc + 16 * (numval - 1))\<rparr> in
            if sint fmt \<noteq> PM_VAL_INSITU then do {
              (r, m) \<leftarrow> scan_values (nat numval) (vlp + 12) len (sc_vsplit sc) (sc_vbsize sc) m;
              (case r of
                 None \<Rightarrow> Some (None, m)
               | Some (vsplit, vbsize) \<Rightarrow> scan_sets n len (sc\<lparr>sc_vsplit := vsplit, sc_vbsize := vbsize\<rparr>) m)
            } else scan_sets n len sc m
        else scan_sets n len sc m)
     })"

text \<open>The checks before the first pass, the pass, and the checks after it.\<close>

definition decode_scan :: "bool \<Rightarrow> mem \<Rightarrow> ((int + nat \<times> int \<times> int \<times> scan) \<times> mem) option" where
  "decode_scan mal m = do {
     len \<leftarrow> pdu_len m;
     (if u64 len < 24 then Some (Inl PM_ERR_IPC, m)
      else do {
        n \<leftarrow> ldn m 20;
        let numpmid = sint n;
        (if numpmid < 0 \<or> numpmid > len then Some (Inl PM_ERR_IPC, m)
         else if numpmid \<ge> (INT_MAX - 32) div 8 then Some (Inl PM_ERR_IPC, m)
         else if \<not> mal then Some (Inl (- ENOMEM), m)
         else do {
           sec \<leftarrow> ldn m 12;
           usec \<leftarrow> ldn m 16;
           (r, m) \<leftarrow> scan_sets (nat numpmid) len \<lparr>sc_vsize = 0, sc_nvsize = 0, sc_vbsize = 0, sc_vsplit = len\<rparr> m;
           (case r of
              None \<Rightarrow> Some (Inl PM_ERR_IPC, m)
            | Some sc \<Rightarrow>
                let need = s32 (sc_nvsize sc + sc_vbsize sc) in
                let offset = s32 (24 + sc_vsize sc) in
                if need < 0 \<or> u64 (sc_vsize sc) > INT_MAX div 4 \<or> u64 (sc_vbsize sc) > INT_MAX div 8 \<or>
                   offset \<noteq> sc_vsplit sc \<or> offset + sc_vbsize sc \<noteq> len
                then Some (Inl PM_ERR_IPC, m)
                else Some (Inr (nat numpmid, uint sec, uint usec, sc), m))
         })
      })
   }"

text \<open>
  The second pass reads the value lists again, and turns an index of a block in the PDU, in words,
  into an index of its copy. The value sets themselves lie in the first \<open>nvsize\<close> bytes of the
  second buffer; they are records of the model, and those bytes are left as they are.
\<close>

fun fill_values :: "int \<Rightarrow> nat \<Rightarrow> int \<Rightarrow> int \<Rightarrow> mem \<Rightarrow> (u32 \<times> int pmvalue) list option" where
  "fill_values fmt 0 a offset m = Some []"
| "fill_values fmt (Suc n) a offset m = do {
     inst \<leftarrow> ldi m a;
     w \<leftarrow> ldi m (a + 4);
     vs \<leftarrow> fill_values fmt n (a + 8) offset m;
     Some ((inst, if fmt = PM_VAL_INSITU then Lval w else Pval (s32 (4 * uint w + offset))) # vs)
   }"

fun fill_sets :: "nat \<Rightarrow> int \<Rightarrow> int \<Rightarrow> mem \<Rightarrow> int pmValueSet list option" where
  "fill_sets 0 vsize offset m = Some []"
| "fill_sets (Suc n) vsize offset m = do {
     pmid \<leftarrow> ldi m (24 + vsize);
     nv \<leftarrow> ldi m (24 + vsize + 4);
     let numval = sint nv;
     (if numval > 0 then do {
        f \<leftarrow> ldi m (24 + vsize + 8);
        vl \<leftarrow> fill_values (sint f) (nat numval) (24 + vsize + 12) offset m;
        vss \<leftarrow> fill_sets n (s32 (vsize + 12 + 8 * numval)) offset m;
        Some (\<lparr>vs_pmid = pmid, vs_numval = numval, vs_valfmt = Some (sint f), vs_vlist = vl\<rparr> # vss)
      } else do {
        vss \<leftarrow> fill_sets n (s32 (vsize + 8)) offset m;
        Some (\<lparr>vs_pmid = pmid, vs_numval = numval, vs_valfmt = None, vs_vlist = []\<rparr> # vss)
      })
   }"

definition copy_blocks :: "scan \<Rightarrow> mem \<Rightarrow> mem \<Rightarrow> mem option" where
  "copy_blocks sc m nb =
     (if sc_nvsize sc < 0 \<or> sc_nvsize sc > int (length nb) then None
      else if sc_vbsize sc = 0 then Some nb
      else do {
        bs \<leftarrow> ld m (nat (24 + sc_vsize sc)) (nat (sc_vbsize sc));
        st nb (nat (sc_nvsize sc)) bs
      })"

text \<open>A received result comes with the address of the buffer its pointers lead into.\<close>

definition pmDecodeResult :: "bool \<Rightarrow> (int \<Rightarrow> bool \<times> int option) \<Rightarrow> int \<Rightarrow> io \<Rightarrow>
    ((int + int \<times> int pmResult) \<times> io) option" where
  "pmDecodeResult mal e pdubuf s = do {
     (r, m) \<leftarrow> decode_scan mal (heap s pdubuf);
     let s = s\<lparr>heap := (heap s)(pdubuf := m)\<rparr>;
     (case r of
        Inl sts \<Rightarrow> Some (Inl sts, s)
      | Inr (numpmid, sec, usec, sc) \<Rightarrow> do {
          let need = s32 (sc_nvsize sc + sc_vbsize sc);
          (b, p) \<leftarrow> find_buf (e need) need (io_pool s);
          let s = s\<lparr>io_pool := p\<rparr>;
          (case b of
             None \<Rightarrow> Some (Inl (- ENOMEM), s)
           | Some newbuf \<Rightarrow> do {
               nb \<leftarrow> copy_blocks sc m (heap s newbuf);
               vss \<leftarrow> fill_sets numpmid 0 (s32 (sc_nvsize sc - sc_vsize sc - 24)) m;
               p \<leftarrow> (if numpmid = 0 then map_option snd (pmUnpinPDUBuf newbuf p) else Some p);
               Some (Inr (newbuf, \<lparr>rs_sec = sec, rs_usec = usec, rs_vset = vss\<rparr>),
                 s\<lparr>heap := (heap s)(newbuf := nb), io_pool := p\<rparr>)
             })
        })
   }"

section \<open>Layout\<close>

text \<open>A value block that can be sent, in host order, and its bytes in network order.\<close>

definition wf_ptr :: "mem \<Rightarrow> bool" where
  "wf_ptr b \<longleftrightarrow> (\<exists>vb. wf_block vb \<and> host_block vb = b) \<and> blk_vlen b = Some (length b)"

definition net_bytes :: "mem \<Rightarrow> mem" where
  "net_bytes b = the (pm_htonpmValueBlock 0 b)"

lemma net_bytes_block: "wf_block vb \<Longrightarrow> net_bytes (host_block vb) = net_block vb"
  using pm_htonpmValueBlock_spec [of "host_block vb" 0 vb]
  by (simp add: net_bytes_def bytes_at_def ld_def upd_def)

lemma length_net_bytes [simp]: "wf_ptr b \<Longrightarrow> length (net_bytes b) = length b"
  by (auto simp: wf_ptr_def net_bytes_block)

lemma hton_ptr: "wf_ptr b \<Longrightarrow> bytes_at m a b \<Longrightarrow> pm_htonpmValueBlock a m = Some (upd m a (net_bytes b))"
  by (auto simp: wf_ptr_def net_bytes_block pm_htonpmValueBlock_spec)

lemma ntoh_ptr: "wf_ptr b \<Longrightarrow> bytes_at m a (net_bytes b) \<Longrightarrow> pm_ntohpmValueBlock a m = Some (upd m a b)"
  by (auto simp: wf_ptr_def net_bytes_block pm_ntohpmValueBlock_spec)

lemma wf_ptr_vlen:
  assumes "wf_ptr b" "bytes_at m a b"
  shows "4 \<le> length b" "\<exists>h. ld32 m a = Some h \<and> vb_vlen h = length b" "length b < 2 ^ 24"
proof -
  obtain h where h: "ld32 b 0 = Some h" "vb_vlen h = length b" using assms(1) by (auto simp: wf_ptr_def blk_vlen_def)
  then show "4 \<le> length b" by (metis ld32_None_iff add_0 not_None_eq linorder_not_le)
  moreover have "bytes_at m a (take 4 b)"
    using assms(2) bytes_at_append [of m a "take 4 b" "drop 4 b"] by simp
  ultimately have "ld32 m a = ld32 b 0" by (simp add: ld32_def bytes_at_def ld_def)
  then show "\<exists>h. ld32 m a = Some h \<and> vb_vlen h = length b" using h by simp
  have "unat (take_bit 24 h) < 2 ^ 24" using take_bit_nat_less_exp [of 24 "unat h"] by (simp add: unsigned_take_bit_eq)
  then show "length b < 2 ^ 24" using h(2) by (simp add: vb_vlen_def)
qed

fun net_blk :: "mem pmvalue \<Rightarrow> mem" where
  "net_blk (Lval w) = []"
| "net_blk (Pval b) = net_bytes b @ pad_bytes (length b)"

fun host_blk :: "mem pmvalue \<Rightarrow> mem" where
  "host_blk (Lval w) = []"
| "host_blk (Pval b) = b @ pad_bytes (length b)"

fun wf_value :: "int \<Rightarrow> mem pmvalue \<Rightarrow> bool" where
  "wf_value fmt (Lval w) \<longleftrightarrow> fmt = PM_VAL_INSITU"
| "wf_value fmt (Pval b) \<longleftrightarrow> fmt \<noteq> PM_VAL_INSITU \<and> wf_ptr b"

fun blk_size :: "mem pmvalue \<Rightarrow> nat" where
  "blk_size (Lval w) = 0"
| "blk_size (Pval b) = PM_PDU_SIZE_BYTES (length b)"

lemma length_blk [simp]: "length (host_blk v) = blk_size v" "wf_value fmt v \<Longrightarrow> length (net_blk v) = blk_size v"
  by (cases v; simp)+

lemma dvd_blk_size [simp]: "4 dvd blk_size v"
  by (cases v) simp_all

text \<open>The words of a value list whose blocks start at \<open>vb\<close>, and the blocks.\<close>

fun value_word :: "mem pmvalue \<Rightarrow> nat \<Rightarrow> u32" where
  "value_word (Lval w) vb = w"
| "value_word (Pval b) vb = word_of_nat (vb div 4)"

fun net_values :: "(u32 \<times> mem pmvalue) list \<Rightarrow> nat \<Rightarrow> mem" where
  "net_values [] vb = []"
| "net_values ((inst, v) # vs) vb = n2b inst @ n2b (value_word v vb) @ net_values vs (vb + blk_size v)"

definition blocks :: "(mem pmvalue \<Rightarrow> mem) \<Rightarrow> (u32 \<times> mem pmvalue) list \<Rightarrow> mem" where
  "blocks f vs = concat (map (f \<circ> snd) vs)"

definition bsize :: "(u32 \<times> mem pmvalue) list \<Rightarrow> nat" where
  "bsize vs = sum_list (map (blk_size \<circ> snd) vs)"

lemma blocks_simps [simp]:
  "blocks f [] = []" "blocks f ((i, v) # vs) = f v @ blocks f vs" "bsize [] = 0" "bsize ((i, v) # vs) = blk_size v + bsize vs"
  by (simp_all add: blocks_def bsize_def)

lemma length_net_values [simp]: "length (net_values vs vb) = 8 * length vs"
  by (induction vs vb rule: net_values.induct) auto

lemma length_host_blocks [simp]: "length (blocks host_blk vs) = bsize vs"
  by (induction vs) auto

abbreviation wf_values :: "int \<Rightarrow> (u32 \<times> mem pmvalue) list \<Rightarrow> bool" where
  "wf_values fmt vs \<equiv> list_all (\<lambda>x. wf_value fmt (snd x)) vs"

lemma length_net_blocks [simp]: "wf_values fmt vs \<Longrightarrow> length (blocks net_blk vs) = bsize vs"
  by (induction vs) auto

lemma dvd_bsize [simp]: "4 dvd bsize vs"
  by (induction vs) auto

section \<open>What the encoder writes\<close>

lemma put_values_spec:
  assumes "wf_values fmt vs" "vl + 8 * length vs \<le> vb" "vb + bsize vs \<le> length m"
  shows "put_values fmt vs vl vb m =
    Some (vb + bsize vs, upd (upd m vl (net_values vs vb)) vb (blocks net_blk vs))"
  using assms
proof (induction vs arbitrary: vl vb m)
  case Nil
  then show ?case by (simp add: upd_def)
next
  case (Cons iv vs)
  obtain i v where iv: "iv = (i, v)" by (cases iv)
  have bnd: "vl + 8 + 8 * length vs \<le> vb" "vb + blk_size v + bsize vs \<le> length m" and wf: "wf_value fmt v" "wf_values fmt vs"
    using Cons.prems iv by auto
  let ?h = "n2b i @ n2b (value_word v vb)"
  let ?m = "upd (upd m vl ?h) vb (net_blk v)"
  have step: "put_values fmt (iv # vs) vl vb m = put_values fmt vs (vl + 8) (vb + blk_size v) ?m"
  proof (cases v)
    case (Lval w)
    then show ?thesis using wf bnd iv by (simp add: mem_simps upd_upd_append)
  next
    case (Pval b)
    let ?m1 = "upd m vl (n2b i)"
    let ?m2 = "upd ?m1 vb (b @ pad_bytes (length b))"
    have b: "wf_ptr b" "fmt \<noteq> PM_VAL_INSITU" using wf Pval by auto
    have l: "length b \<le> PM_PDU_SIZE_BYTES (length b)" using PM_PDU_SIZE_BYTES_bounds by blast
    have at: "bytes_at ?m2 vb (b @ pad_bytes (length b))" using bnd Pval l by (intro bytes_at_upd_same) simp
    have "bytes_at ?m2 vb b" using at by (simp add: bytes_at_append)
    from hton_ptr [OF b(1) this] have "pm_htonpmValueBlock vb ?m2 = Some (upd ?m2 vb (net_bytes b))" .
    also have "upd ?m2 vb (net_bytes b) = upd ?m1 vb (net_blk v)"
      using upd_prefix [OF at, of "net_bytes b"] b bnd Pval l by (simp add: upd_upd_same)
    finally have h: "pm_htonpmValueBlock vb ?m2 = Some (upd ?m1 vb (net_blk v))" .
    have "upd (upd ?m1 vb (net_blk v)) (vl + 4) (n2b (value_word v vb)) = ?m"
      using bnd Pval l b by (subst upd_comm) (auto simp: upd_upd_append)
    then show ?thesis
      using wf bnd iv b Pval l h wf_ptr_def [of b]
      by (simp add: mem_simps ld_def upd_upd_append)
  qed
  have "put_values fmt vs (vl + 8) (vb + blk_size v) ?m =
      Some (vb + blk_size v + bsize vs,
        upd (upd ?m (vl + 8) (net_values vs (vb + blk_size v))) (vb + blk_size v) (blocks net_blk vs))"
    using bnd wf by (intro Cons.IH) auto
  also have "upd (upd ?m (vl + 8) (net_values vs (vb + blk_size v))) (vb + blk_size v) (blocks net_blk vs) =
      upd (upd m vl (net_values (iv # vs) vb)) vb (blocks net_blk (iv # vs))"
    using bnd wf iv by (subst upd_interleave) auto
  finally show ?case using step iv by simp
qed

definition wf_set :: "mem pmValueSet \<Rightarrow> bool" where
  "wf_set vs \<longleftrightarrow> is_int32 (vs_numval vs) \<and>
     (if vs_vlist vs = [] then vs_numval vs \<le> 0
      else vs_numval vs = int (length (vs_vlist vs)) \<and>
        (\<exists>f. vs_valfmt vs = Some f \<and> is_int32 f \<and> wf_values f (vs_vlist vs)))"

definition set_size :: "mem pmValueSet \<Rightarrow> nat" where
  "set_size vs = (if vs_vlist vs = [] then 8 else 12 + 8 * length (vs_vlist vs))"

definition net_set :: "mem pmValueSet \<Rightarrow> nat \<Rightarrow> mem" where
  "net_set vs vb = n2b (vs_pmid vs) @ n2b (word_of_int (vs_numval vs)) @
     (if vs_vlist vs = [] then [] else n2b (word_of_int (the (vs_valfmt vs))) @ net_values (vs_vlist vs) vb)"

fun net_sets :: "mem pmValueSet list \<Rightarrow> nat \<Rightarrow> mem" where
  "net_sets [] vb = []"
| "net_sets (vs # vss) vb = net_set vs vb @ net_sets vss (vb + bsize (vs_vlist vs))"

definition set_blocks :: "(mem pmvalue \<Rightarrow> mem) \<Rightarrow> mem pmValueSet list \<Rightarrow> mem" where
  "set_blocks f vss = concat (map (blocks f \<circ> vs_vlist) vss)"

definition ssize :: "mem pmValueSet list \<Rightarrow> nat" where
  "ssize vss = sum_list (map set_size vss)"

definition sbsize :: "mem pmValueSet list \<Rightarrow> nat" where
  "sbsize vss = sum_list (map (bsize \<circ> vs_vlist) vss)"

lemma set_blocks_simps [simp]:
  "set_blocks f [] = []" "set_blocks f (vs # vss) = blocks f (vs_vlist vs) @ set_blocks f vss"
  "ssize [] = 0" "ssize (vs # vss) = set_size vs + ssize vss"
  "sbsize [] = 0" "sbsize (vs # vss) = bsize (vs_vlist vs) + sbsize vss"
  by (simp_all add: set_blocks_def ssize_def sbsize_def)

lemma length_net_set [simp]: "length (net_set vs vb) = set_size vs"
  by (simp add: net_set_def set_size_def)

lemma length_net_sets [simp]: "length (net_sets vss vb) = ssize vss"
  by (induction vss vb rule: net_sets.induct) auto

lemma length_host_set_blocks [simp]: "length (set_blocks host_blk vss) = sbsize vss"
  by (induction vss) auto

lemma wf_set_net_blocks [simp]: "wf_set vs \<Longrightarrow> length (blocks net_blk (vs_vlist vs)) = bsize (vs_vlist vs)"
  by (auto simp: wf_set_def split: if_splits)

lemma length_net_set_blocks [simp]: "list_all wf_set vss \<Longrightarrow> length (set_blocks net_blk vss) = sbsize vss"
  by (induction vss) auto

lemma dvd_set_size [simp]: "4 dvd set_size vs"
  by (auto simp: set_size_def)

lemma dvd_ssize [simp]: "4 dvd ssize vss"
  by (induction vss) auto

lemma dvd_sbsize [simp]: "4 dvd sbsize vss"
  by (induction vss) auto

lemma vlist_of_wf: "wf_set vs \<Longrightarrow> vlist_of vs = Some (vs_vlist vs)"
  by (auto simp: wf_set_def vlist_of_def split: if_splits)

lemma vals_vneed_wf: "wf_values fmt vs \<Longrightarrow> fmt \<noteq> PM_VAL_INSITU \<Longrightarrow> vals_vneed vs = Some (bsize vs)"
proof (induction vs)
  case (Cons iv vs)
  then show ?case by (cases iv; cases "snd iv") (auto simp: wf_ptr_def)
qed simp

lemma bsize_insitu: "wf_values PM_VAL_INSITU vs \<Longrightarrow> bsize vs = 0"
proof (induction vs)
  case (Cons iv vs)
  then show ?case by (cases iv; cases "snd iv") auto
qed simp

lemma set_need_wf: "wf_set vs \<Longrightarrow> set_need vs = Some (set_size vs, bsize (vs_vlist vs))"
  using vlist_of_wf [of vs]
  by (auto simp: set_need_def set_size_def wf_set_def vals_vneed_wf bsize_insitu split: if_splits)

lemma sets_need_wf: "list_all wf_set vss \<Longrightarrow> sets_need vss = Some (ssize vss, sbsize vss)"
  by (induction vss) (auto simp: set_need_wf)

lemma put_sets_step:
  assumes wf: "wf_set vs" and bnd: "vlp + set_size vs \<le> vb" "vb + bsize (vs_vlist vs) \<le> length m"
  shows "put_sets (vs # vss) vlp vb m = put_sets vss (vlp + set_size vs) (vb + bsize (vs_vlist vs))
    (upd (upd m vlp (net_set vs vb)) vb (blocks net_blk (vs_vlist vs)))"
proof (cases "vs_vlist vs = []")
  case True
  then show ?thesis
    using bnd vlist_of_wf [OF wf] by (simp add: set_size_def net_set_def mem_simps upd_upd_append)
next
  case False
  let ?vl = "vs_vlist vs"
  obtain f where f: "vs_valfmt vs = Some f" "wf_values f ?vl"
    using wf False by (auto simp: wf_set_def)
  let ?P = "n2b (vs_pmid vs)" and ?F = "n2b (word_of_int f)" and ?N = "n2b (word_of_int (vs_numval vs))"
  let ?m = "upd m vlp ?P" and ?NV = "net_values ?vl vb" and ?B = "blocks net_blk ?vl"
  have b: "vlp + 12 + 8 * length ?vl \<le> vb" using bnd(1) False by (simp add: set_size_def)
  have l: "length ?B = bsize ?vl" using f(2) by simp
  have "put_values f ?vl (vlp + 12) vb (upd ?m (vlp + 8) ?F) =
      Some (vb + bsize ?vl, upd (upd (upd ?m (vlp + 8) ?F) (vlp + 12) ?NV) vb ?B)"
    using b bnd f by (intro put_values_spec) auto
  moreover have "upd (upd (upd (upd ?m (vlp + 8) ?F) (vlp + 12) ?NV) vb ?B) (vlp + 4) ?N =
      upd (upd m vlp (net_set vs vb)) vb ?B"
  proof -
    have "upd (upd ?m (vlp + 8) ?F) (vlp + 12) ?NV = upd ?m (vlp + 8) (?F @ ?NV)"
      using b bnd by (intro upd_upd_append) auto
    moreover have "upd (upd ?m (vlp + 8) (?F @ ?NV)) (vlp + 4) ?N = upd ?m (vlp + 4) (?N @ ?F @ ?NV)"
      using b bnd by (intro upd_upd_prepend) auto
    moreover have "upd ?m (vlp + 4) (?N @ ?F @ ?NV) = upd m vlp (?P @ ?N @ ?F @ ?NV)"
      using b bnd by (intro upd_upd_append) auto
    ultimately show ?thesis using b bnd l f False by (subst upd_comm) (auto simp: net_set_def)
  qed
  ultimately show ?thesis
    using False b bnd f l vlist_of_wf [OF wf] by (simp add: set_size_def mem_simps add.assoc)
qed

lemma put_sets_spec:
  assumes "list_all wf_set vss" "vlp + ssize vss \<le> vb" "vb + sbsize vss \<le> length m"
  shows "put_sets vss vlp vb m = Some (upd (upd m vlp (net_sets vss vb)) vb (set_blocks net_blk vss))"
  using assms
proof (induction vss arbitrary: vlp vb m)
  case (Cons vs vss)
  let ?b = "bsize (vs_vlist vs)"
  let ?m = "upd (upd m vlp (net_set vs vb)) vb (blocks net_blk (vs_vlist vs))"
  have "put_sets (vs # vss) vlp vb m = put_sets vss (vlp + set_size vs) (vb + ?b) ?m"
    using Cons.prems by (intro put_sets_step) auto
  also have "\<dots> = Some (upd (upd ?m (vlp + set_size vs) (net_sets vss (vb + ?b))) (vb + ?b) (set_blocks net_blk vss))"
    using Cons.prems by (intro Cons.IH) auto
  also have "upd (upd ?m (vlp + set_size vs) (net_sets vss (vb + ?b))) (vb + ?b) (set_blocks net_blk vss) =
      upd (upd m vlp (net_sets (vs # vss) vb)) vb (set_blocks net_blk (vs # vss))"
    using Cons.prems by (subst upd_interleave) auto
  finally show ?case .
qed simp

section \<open>What the decoder accepts\<close>

lemma ldi_ldn [simp]: "ldi m (int a) = ldn m a" "ldi m (int a + numeral k) = ldn m (a + numeral k)"
proof -
  have "\<not> int a + numeral k < 0" by (simp add: add_nonneg_nonneg leD)
  then show "ldi m (int a) = ldn m a" "ldi m (int a + numeral k) = ldn m (a + numeral k)"
    by (simp_all add: ldi_def nat_add_distrib)
qed

lemma bsize_ptr: "wf_values fmt vs \<Longrightarrow> fmt \<noteq> PM_VAL_INSITU \<Longrightarrow> vs \<noteq> [] \<Longrightarrow> 4 \<le> bsize vs"
proof (cases vs)
  case (Cons iv r)
  assume "wf_values fmt vs" "fmt \<noteq> PM_VAL_INSITU"
  then obtain i b where "iv = (i, Pval b)" "wf_ptr b" using Cons by (cases iv; cases "snd iv") auto
  moreover from this have "4 \<le> length b" using wf_ptr_vlen(1) [of b b 0] by (simp add: bytes_at_def ld_def)
  ultimately show "4 \<le> bsize vs" using Cons PM_PDU_SIZE_BYTES_bounds [of "length b"] by simp
qed simp

lemma scan_values_spec:
  assumes "wf_values fmt vs" "fmt \<noteq> PM_VAL_INSITU" "bytes_at m a (net_values vs vb)" "bytes_at m vb (blocks net_blk vs)"
    "a + 8 * length vs \<le> vb" "vb + bsize vs \<le> len" "len < 2 ^ 31" "4 dvd vb" "0 \<le> vbs" "vbs + int (bsize vs) < 2 ^ 31"
  shows "scan_values (length vs) (int a) (int len) vsp vbs m =
    Some (Some (if vs = [] then vsp else min vsp (int vb), vbs + int (bsize vs)), upd m vb (blocks host_blk vs))"
  using assms
proof (induction vs arbitrary: a vb m vsp vbs)
  case (Cons iv vs)
  obtain i b where iv: "iv = (i, Pval b)" and b: "wf_ptr b" and wf: "wf_values fmt vs"
    using Cons.prems(1,2) by (cases iv; cases "snd iv") auto
  let ?n = "PM_PDU_SIZE_BYTES (length b)"
  have at: "bytes_at m (a + 4) (n2b (word_of_nat (vb div 4)))" "bytes_at m (a + 8) (net_values vs (vb + ?n))"
    using Cons.prems(3) iv by (auto simp: bytes_at_append add.assoc)
  have atb: "bytes_at m vb (net_bytes b @ pad_bytes (length b))" "bytes_at m (vb + ?n) (blocks net_blk vs)"
    using Cons.prems(4) iv b by (auto simp: bytes_at_append add.assoc)
  then have atn: "bytes_at m vb (net_bytes b)" by (simp add: bytes_at_append)
  have bnd: "vb + ?n + bsize vs \<le> len" "a + 8 + 8 * length vs \<le> vb" using Cons.prems(5,6) iv by auto
  have l: "length b \<le> ?n" using PM_PDU_SIZE_BYTES_bounds by blast
  have lm: "vb + ?n \<le> length m" using bytes_at_bound [OF atb(2)] by simp
  let ?m = "upd m vb (host_blk (Pval b))"
  have nt: "pm_ntohpmValueBlock vb m = Some ?m"
    using ntoh_ptr [OF b atn] upd_prefix [OF atb(1), of b] b by simp
  have "bytes_at ?m vb (b @ pad_bytes (length b))"
    using bytes_at_upd_same [of vb "b @ pad_bytes (length b)" m] lm l by simp
  then have hb: "bytes_at ?m vb b" by (simp add: bytes_at_append)
  obtain h where h: "ld32 ?m vb = Some h" "vb_vlen h = length b" and b4: "4 \<le> length b"
    using wf_ptr_vlen [OF b hb] by blast
  have idx: "sint (word_of_nat (vb div 4) :: u32) = int (vb div 4)"
    using Cons.prems(6,7) by (intro sint_pdu_len) auto
  have vb4: "4 * int (vb div 4) = int vb" using Cons.prems(8) by auto
  have u: "u64 (int len - int a) = int len - int a" "u64 (int len - int vb) = int len - int vb"
    using Cons.prems(7) bnd by (auto intro!: u64_id)
  have "scan_values (length (iv # vs)) (int a) (int len) vsp vbs m =
      scan_values (length vs) (int (a + 8)) (int len) (min vsp (int vb)) (vbs + int ?n) ?m"
    using bytes_at_ldn [OF at(1)] nt h b4 l bnd u idx vb4 Cons.prems(7,9,10) iv
    by (simp add: PM_VAL_HDR_SIZE_def is_int32_def min_def add.commute Let_def)
  also have "\<dots> = Some (Some (if vs = [] then min vsp (int vb) else min (min vsp (int vb)) (int (vb + ?n)),
      vbs + int ?n + int (bsize vs)), upd ?m (vb + ?n) (blocks host_blk vs))"
  proof (rule Cons.IH [OF wf Cons.prems(2)])
    show "bytes_at ?m (a + 8) (net_values vs (vb + ?n))" "bytes_at ?m (vb + ?n) (blocks net_blk vs)"
      using at(2) atb(2) bnd lm l by (simp_all add: bytes_at_upd_other)
  qed (use Cons.prems bnd iv in auto)
  also have "upd ?m (vb + ?n) (blocks host_blk vs) = upd m vb (blocks host_blk (iv # vs))"
    using lm l bytes_at_bound [OF atb(2)] wf iv by (simp add: upd_upd_append)
  finally show ?case using iv by (simp add: min_def)
qed simp

definition nv_size :: "mem pmValueSet \<Rightarrow> nat" where
  "nv_size vs = (if vs_vlist vs = [] then 32 else 16 + 16 * length (vs_vlist vs))"

definition nvsize :: "mem pmValueSet list \<Rightarrow> nat" where
  "nvsize vss = sum_list (map nv_size vss)"

lemma nvsize_simps [simp]: "nvsize [] = 0" "nvsize (vs # vss) = nv_size vs + nvsize vss"
  by (simp_all add: nvsize_def)

text \<open>
  The first pass reads the format of a set even when it has no values and the set is the last thing
  in the PDU. Either the buffer has a word to spare or the last set has values.
\<close>

definition read_slack :: "mem pmValueSet list \<Rightarrow> nat \<Rightarrow> mem \<Rightarrow> bool" where
  "read_slack vss len m \<longleftrightarrow> len + 4 \<le> length m \<or> vss = [] \<or> vs_vlist (last vss) \<noteq> []"

lemma ssize_ge: "8 * length vss \<le> ssize vss"
  by (induction vss) (auto simp: set_size_def)

lemma read_slack_Cons:
  assumes "read_slack (vs # vss) len m" "24 + v + ssize (vs # vss) \<le> len" "len \<le> length m"
  shows "read_slack vss len m" "vs_vlist vs = [] \<Longrightarrow> 24 + v + 12 \<le> length m"
proof -
  show "read_slack vss len m" using assms(1) by (auto simp: read_slack_def)
  have "vss \<noteq> [] \<Longrightarrow> 8 \<le> ssize vss" using ssize_ge [of vss] by (cases vss) auto
  then show "24 + v + 12 \<le> length m" if "vs_vlist vs = []"
    using assms that by (cases "vss = []") (auto simp: read_slack_def set_size_def)
qed

lemma scan_sets_step:
  assumes wf: "wf_set vs" and at: "bytes_at m (24 + v) (net_set vs vb)" "bytes_at m vb (blocks net_blk (vs_vlist vs))"
    and bnd: "24 + v + set_size vs \<le> vb" "vb + bsize (vs_vlist vs) \<le> len" "len < 2 ^ 31" "vs_vlist vs = [] \<Longrightarrow> 24 + v + 12 \<le> length m" "4 dvd vb"
      "nv + nv_size vs < 2 ^ 31" "vbs + bsize (vs_vlist vs) < 2 ^ 31" "v + set_size vs \<le> nat (INT_MAX div 4)"
  shows "scan_sets (Suc n) (int len) \<lparr>sc_vsize = int v, sc_nvsize = int nv, sc_vbsize = int vbs, sc_vsplit = vsp\<rparr> m =
    scan_sets n (int len) \<lparr>sc_vsize = int (v + set_size vs), sc_nvsize = int (nv + nv_size vs),
      sc_vbsize = int (vbs + bsize (vs_vlist vs)),
      sc_vsplit = (if bsize (vs_vlist vs) = 0 then vsp else min vsp (int vb))\<rparr> (upd m vb (blocks host_blk (vs_vlist vs)))"
proof -
  let ?vl = "vs_vlist vs"
  have nv: "ldn m (24 + v + 4) = Some (word_of_int (vs_numval vs))"
    using at(1) by (auto simp: net_set_def bytes_at_append intro!: bytes_at_ldn)
  have i: "is_int32 (vs_numval vs)" using wf by (simp add: wf_set_def)
  have u: "u64 (int len - (24 + int v)) = int len - (24 + int v)"
    using bnd(1-3) by (intro u64_id) auto
  have e: "24 + int v = int (24 + v)" by simp
  show ?thesis
  proof (cases "?vl = []")
    case True
    then have n: "vs_numval vs \<le> 0" using wf by (simp add: wf_set_def)
    obtain f where "ldn m (24 + v + 8) = Some f"
      using bnd(4) [OF True] ldn_None_iff [of m "24 + v + 8"] by (cases "ldn m (24 + v + 8)") auto
    then show ?thesis
      using True n nv i u bnd unfolding scan_sets.simps Let_def
      by (simp add: set_size_def nv_size_def is_int32_def e del: of_nat_add) (simp add: add.commute)
  next
    case False
    obtain f where f: "vs_valfmt vs = Some f" "is_int32 f" "wf_values f ?vl" "vs_numval vs = int (length ?vl)"
      using wf False by (auto simp: wf_set_def)
    have fmt: "ldn m (24 + v + 8) = Some (word_of_int f)" and at12: "bytes_at m (24 + v + 12) (net_values ?vl vb)"
      using at(1) f(1) False by (auto simp: net_set_def bytes_at_append add.assoc intro!: bytes_at_ldn)
    have n: "0 < length ?vl" "int (length ?vl) < (INT_MAX - 20) div 8" "int (length ?vl) \<le> int len"
      using False bnd(1,2,8) by (auto simp: set_size_def INT_MAX_def)
    have sn: "sint (word_of_nat (length ?vl) :: u32) = int (length ?vl)"
      using n(2) by (intro sint_pdu_len) (simp add: INT_MAX_def)
    have s1: "s32 (int v + 8) = int v + 8" "s32 (int nv + 32) = int nv + 32"
      "s32 (int v + 8 + 4 + 8 * int (length ?vl)) = int v + 8 + 4 + 8 * int (length ?vl)"
      "s32 (int nv + 32 + 16 * (int (length ?vl) - 1)) = int nv + 32 + 16 * (int (length ?vl) - 1)"
      using n bnd(6,8) False Suc_leI [OF n(1)] by (auto simp: is_int32_def set_size_def nv_size_def INT_MAX_def intro!: s32_id)
    have s2: "s32 (int v + (12 + int (length ?vl) * 8)) = int v + (12 + int (length ?vl) * 8)"
      "s32 (int nv + (16 + int (length ?vl) * 16)) = int nv + (16 + int (length ?vl) * 16)"
      using n bnd(6,8) False by (auto simp: is_int32_def set_size_def nv_size_def INT_MAX_def intro!: s32_id)
    have sc: "scan_values (length ?vl) (int (24 + v + 12)) (int len) vsp (int vbs) m =
        Some (Some (min vsp (int vb), int vbs + int (bsize ?vl)), upd m vb (blocks host_blk ?vl))"
      if "f \<noteq> PM_VAL_INSITU"
      using scan_values_spec [OF f(3) that at12 at(2), of len "int vbs" vsp] bnd False
      by (simp add: set_size_def)
    show ?thesis
    proof (cases "f = PM_VAL_INSITU")
      case True
      then have b0: "bsize ?vl = 0" using bsize_insitu [of ?vl] f(3) by simp
      then have "blocks host_blk ?vl = []" using length_host_blocks [of ?vl] by (simp del: length_host_blocks)
      then show ?thesis
        using True b0 False n nv fmt f u bnd(1,2) unfolding scan_sets.simps Let_def
        by (simp add: set_size_def nv_size_def sn s1 e del: of_nat_add) (simp add: algebra_simps sn s1(1,2) s2)
    next
      case insitu: False
      then show ?thesis
        using bsize_ptr [OF f(3) insitu False] sc [OF insitu] False n nv fmt f u bnd(1,2) unfolding scan_sets.simps Let_def
        by (simp add: set_size_def nv_size_def sn s1 e del: of_nat_add) (simp add: algebra_simps sn s1(1,2) s2)
    qed
  qed
qed

lemma scan_sets_spec:
  assumes "list_all wf_set vss" "bytes_at m (24 + v) (net_sets vss vb)" "bytes_at m vb (set_blocks net_blk vss)"
    "24 + v + ssize vss \<le> vb" "vb + sbsize vss \<le> len" "len < 2 ^ 31" "read_slack vss len m" "len \<le> length m" "4 dvd vb"
    "nv + nvsize vss < 2 ^ 31" "vbs + sbsize vss < 2 ^ 31" "v + ssize vss \<le> nat (INT_MAX div 4)"
  shows "scan_sets (length vss) (int len) \<lparr>sc_vsize = int v, sc_nvsize = int nv, sc_vbsize = int vbs, sc_vsplit = vsp\<rparr> m =
    Some (Some \<lparr>sc_vsize = int (v + ssize vss), sc_nvsize = int (nv + nvsize vss), sc_vbsize = int (vbs + sbsize vss),
      sc_vsplit = (if sbsize vss = 0 then vsp else min vsp (int vb))\<rparr>, upd m vb (set_blocks host_blk vss))"
  using assms
proof (induction vss arbitrary: v vb m nv vbs vsp)
  case (Cons vs vss)
  let ?b = "bsize (vs_vlist vs)"
  let ?m = "upd m vb (blocks host_blk (vs_vlist vs))"
  have wf: "wf_set vs" "list_all wf_set vss" using Cons.prems(1) by auto
  have at: "bytes_at m (24 + v) (net_set vs vb)" "bytes_at m (24 + (v + set_size vs)) (net_sets vss (vb + ?b))"
    "bytes_at m vb (blocks net_blk (vs_vlist vs))" "bytes_at m (vb + ?b) (set_blocks net_blk vss)"
    using Cons.prems(2,3) wf by (auto simp: bytes_at_append add.assoc)
  have lm: "vb + ?b + sbsize vss \<le> length m" using Cons.prems(5,8) by simp
  have rs: "read_slack vss len m" "vs_vlist vs = [] \<Longrightarrow> 24 + v + 12 \<le> length m"
    using read_slack_Cons [OF Cons.prems(7), of v] Cons.prems(4,5,8) by auto
  have "scan_sets (length (vs # vss)) (int len) \<lparr>sc_vsize = int v, sc_nvsize = int nv, sc_vbsize = int vbs, sc_vsplit = vsp\<rparr> m =
    scan_sets (length vss) (int len) \<lparr>sc_vsize = int (v + set_size vs), sc_nvsize = int (nv + nv_size vs),
      sc_vbsize = int (vbs + ?b), sc_vsplit = (if ?b = 0 then vsp else min vsp (int vb))\<rparr> ?m"
    unfolding list.size(4) add_Suc_right add_0_right using Cons.prems rs by (intro scan_sets_step wf at) auto
  also have "\<dots> = Some (Some \<lparr>sc_vsize = int (v + set_size vs + ssize vss), sc_nvsize = int (nv + nv_size vs + nvsize vss),
      sc_vbsize = int (vbs + ?b + sbsize vss), sc_vsplit = (if sbsize vss = 0 then if ?b = 0 then vsp else min vsp (int vb)
        else min (if ?b = 0 then vsp else min vsp (int vb)) (int (vb + ?b)))\<rparr>, upd ?m (vb + ?b) (set_blocks host_blk vss))"
  proof (rule Cons.IH [OF wf(2)])
    show "bytes_at ?m (24 + (v + set_size vs)) (net_sets vss (vb + ?b))" "bytes_at ?m (vb + ?b) (set_blocks net_blk vss)"
      using at(2,4) lm Cons.prems(4) by (simp_all add: bytes_at_upd_other)
  qed (use Cons.prems lm rs in \<open>auto simp: read_slack_def\<close>)
  also have "upd ?m (vb + ?b) (set_blocks host_blk vss) = upd m vb (set_blocks host_blk (vs # vss))"
    using lm by (simp add: upd_upd_append)
  finally show ?case by (simp add: add.assoc)
qed simp

section \<open>What the decoder delivers\<close>

text \<open>Following the pointers of a received result into its buffer.\<close>

fun view_value :: "mem \<Rightarrow> int pmvalue \<Rightarrow> mem pmvalue option" where
  "view_value nb (Lval w) = Some (Lval w)"
| "view_value nb (Pval i) = (if i < 0 then None else do {
     h \<leftarrow> ld32 nb (nat i);
     b \<leftarrow> ld nb (nat i) (vb_vlen h);
     Some (Pval b)
   })"

fun view_values :: "mem \<Rightarrow> (u32 \<times> int pmvalue) list \<Rightarrow> (u32 \<times> mem pmvalue) list option" where
  "view_values nb [] = Some []"
| "view_values nb ((inst, v) # vs) = do {
     v \<leftarrow> view_value nb v;
     vs \<leftarrow> view_values nb vs;
     Some ((inst, v) # vs)
   }"

fun view_sets :: "mem \<Rightarrow> int pmValueSet list \<Rightarrow> mem pmValueSet list option" where
  "view_sets nb [] = Some []"
| "view_sets nb (vs # vss) = do {
     vl \<leftarrow> view_values nb (vs_vlist vs);
     vss \<leftarrow> view_sets nb vss;
     Some (\<lparr>vs_pmid = vs_pmid vs, vs_numval = vs_numval vs, vs_valfmt = vs_valfmt vs, vs_vlist = vl\<rparr> # vss)
   }"

definition view_result :: "mem \<Rightarrow> int pmResult \<Rightarrow> mem pmResult option" where
  "view_result nb r = map_option (\<lambda>vss. \<lparr>rs_sec = rs_sec r, rs_usec = rs_usec r, rs_vset = vss\<rparr>) (view_sets nb (rs_vset r))"

text \<open>
  What arrives: the same value sets, without the format of the empty ones, and the time stamp
  as unsigned 32-bit numbers.
\<close>

definition recv_set :: "mem pmValueSet \<Rightarrow> mem pmValueSet" where
  "recv_set vs = vs\<lparr>vs_valfmt := if vs_vlist vs = [] then None else vs_valfmt vs\<rparr>"

definition recv_result :: "mem pmResult \<Rightarrow> mem pmResult" where
  "recv_result r = \<lparr>rs_sec = rs_sec r mod 2 ^ 32, rs_usec = rs_usec r mod 2 ^ 32, rs_vset = map recv_set (rs_vset r)\<rparr>"

lemma fill_values_view:
  assumes "wf_values fmt vs" "bytes_at m a (net_values vs vb)" "bytes_at nb k (blocks host_blk vs)"
    "int vb + off = int k" "4 dvd vb" "vb + bsize vs < 2 ^ 31" "k + bsize vs < 2 ^ 31"
  shows "\<exists>xs. fill_values fmt (length vs) (int a) off m = Some xs \<and> view_values nb xs = Some vs"
  using assms
proof (induction vs arbitrary: a vb k)
  case (Cons iv vs)
  obtain i v where iv: "iv = (i, v)" by (cases iv)
  have wf: "wf_value fmt v" "wf_values fmt vs" using Cons.prems(1) iv by auto
  have at: "ldn m a = Some i" "ldn m (a + 4) = Some (value_word v vb)" "bytes_at m (a + 8) (net_values vs (vb + blk_size v))"
    using Cons.prems(2) iv by (auto simp: bytes_at_append add.assoc intro: bytes_at_ldn)
  have ab: "bytes_at nb k (host_blk v)" "bytes_at nb (k + blk_size v) (blocks host_blk vs)"
    using Cons.prems(3) iv by (auto simp: bytes_at_append)
  obtain xs where xs: "fill_values fmt (length vs) (int (a + 8)) off m = Some xs" "view_values nb xs = Some vs"
    using Cons.IH [OF wf(2) at(3) ab(2)] Cons.prems iv by auto
  let ?x = "if fmt = PM_VAL_INSITU then Lval (value_word v vb) else Pval (s32 (4 * uint (value_word v vb) + off))"
  have "view_value nb ?x = Some v"
  proof (cases v)
    case (Pval b)
    have b: "wf_ptr b" "fmt \<noteq> PM_VAL_INSITU" using wf Pval by auto
    have at: "bytes_at nb k b" using ab(1) Pval by (simp add: bytes_at_append)
    obtain h where h: "ld32 nb k = Some h" "vb_vlen h = length b" using wf_ptr_vlen [OF b(1) at] by blast
    have "uint (word_of_nat (vb div 4) :: u32) = int (vb div 4)"
      using Cons.prems(6) by (simp add: unsigned_of_nat take_bit_nat_eq_self)
    moreover have "4 * int (vb div 4) = int vb" using Cons.prems(5) by auto
    ultimately have "s32 (4 * uint (value_word v vb) + off) = int k"
      using Cons.prems(4,7) Pval by (simp add: is_int32_def)
    then show ?thesis using h b bytes_at_ld [OF at] Pval by simp
  qed (use wf in auto)
  with at(1,2) xs show ?case using iv by (simp add: add.commute)
qed simp

lemma fill_sets_view:
  assumes "list_all wf_set vss" "bytes_at m (24 + v) (net_sets vss vb)" "bytes_at nb k (set_blocks host_blk vss)"
    "int vb + off = int k" "4 dvd vb" "vb + sbsize vss < 2 ^ 31" "k + sbsize vss < 2 ^ 31" "v + ssize vss < 2 ^ 31"
  shows "\<exists>xs. fill_sets (length vss) (int v) off m = Some xs \<and> view_sets nb xs = Some (map recv_set vss)"
  using assms
proof (induction vss arbitrary: v vb k)
  case (Cons vs vss)
  let ?vl = "vs_vlist vs"
  have wf: "wf_set vs" "list_all wf_set vss" using Cons.prems(1) by auto
  have at: "bytes_at m (24 + v) (net_set vs vb)" "bytes_at m (24 + (v + set_size vs)) (net_sets vss (vb + bsize ?vl))"
    "bytes_at nb k (blocks host_blk ?vl)" "bytes_at nb (k + bsize ?vl) (set_blocks host_blk vss)"
    using Cons.prems(2,3) by (auto simp: bytes_at_append add.assoc)
  obtain xs where xs: "fill_sets (length vss) (int (v + set_size vs)) off m = Some xs" "view_sets nb xs = Some (map recv_set vss)"
    using Cons.IH [OF wf(2) at(2,4)] Cons.prems by auto
  have hd: "ldn m (24 + v) = Some (vs_pmid vs)" "ldn m (24 + v + 4) = Some (word_of_int (vs_numval vs))"
    using at(1) by (auto simp: net_set_def bytes_at_append intro: bytes_at_ldn)
  have n: "sint (word_of_int (vs_numval vs) :: u32) = vs_numval vs" using wf(1) by (simp add: wf_set_def)
  have e: "24 + int v = int (24 + v)" by simp
  have s: "s32 (int v + int (set_size vs)) = int v + int (set_size vs)" using Cons.prems(8) by (simp add: is_int32_def)
  show ?case
  proof (cases "?vl = []")
    case True
    then have "vs_numval vs \<le> 0" using wf(1) by (simp add: wf_set_def)
    then show ?thesis
      using hd n xs s True by (simp add: e recv_set_def [of vs] set_size_def del: of_nat_add) simp
  next
    case False
    obtain f where f: "vs_valfmt vs = Some f" "is_int32 f" "wf_values f ?vl" "vs_numval vs = int (length ?vl)"
      using wf(1) False by (auto simp: wf_set_def)
    have fa: "ldn m (24 + v + 8) = Some (word_of_int f)" "bytes_at m (24 + v + 12) (net_values ?vl vb)"
      using at(1) f(1) False by (auto simp: net_set_def bytes_at_append add.assoc intro!: bytes_at_ldn)
    obtain ys where ys: "fill_values f (length ?vl) (int (24 + v + 12)) off m = Some ys" "view_values nb ys = Some ?vl"
      using fill_values_view [OF f(3) fa(2) at(3)] Cons.prems by auto
    have sn: "sint (word_of_nat (length ?vl) :: u32) = int (length ?vl)" using n f(4) by simp
    show ?thesis
      using hd n xs s False f fa(1) ys sn
      by (simp add: e recv_set_def [of vs] set_size_def del: of_nat_add) (simp add: add.assoc add.commute)
  qed
qed simp

section \<open>Round trip\<close>

definition wf_result :: "mem pmResult \<Rightarrow> bool" where
  "wf_result r \<longleftrightarrow> list_all wf_set (rs_vset r) \<and>
     24 + ssize (rs_vset r) + sbsize (rs_vset r) \<le> nat (INT_MAX - 2 * PDU_CHUNK) \<and>
     nvsize (rs_vset r) + sbsize (rs_vset r) \<le> nat (INT_MAX - PDU_CHUNK) \<and>
     ssize (rs_vset r) \<le> nat (INT_MAX div 4) \<and> sbsize (rs_vset r) \<le> nat (INT_MAX div 8)"

definition result_body :: "mem pmResult \<Rightarrow> mem" where
  "result_body r = n2b (word_of_int (rs_sec r)) @ n2b (word_of_int (rs_usec r)) @ n2b (word_of_nat (length (rs_vset r))) @
     net_sets (rs_vset r) (24 + ssize (rs_vset r)) @ set_blocks net_blk (rs_vset r)"

definition result_len :: "mem pmResult \<Rightarrow> nat" where
  "result_len r = 24 + ssize (rs_vset r) + sbsize (rs_vset r)"

definition result_scan :: "mem pmResult \<Rightarrow> scan" where
  "result_scan r = \<lparr>sc_vsize = int (ssize (rs_vset r)), sc_nvsize = int (nvsize (rs_vset r)),
     sc_vbsize = int (sbsize (rs_vset r)), sc_vsplit = int (24 + ssize (rs_vset r))\<rparr>"

text \<open>\<open>__pmSendResult\<close> is the common pattern of the senders, with the header's sender filled in last.\<close>

definition build_result :: "u32 \<Rightarrow> mem pmResult \<Rightarrow> mem \<Rightarrow> mem option" where
  "build_result fr r m = do {
     (need, vneed) \<leftarrow> result_need r;
     m \<leftarrow> encode_result need vneed r m;
     st32 m 8 fr
   }"

lemma result_need_wf: "wf_result r \<Longrightarrow> result_need r = Some (24 + ssize (rs_vset r), sbsize (rs_vset r))"
  by (simp add: result_need_def wf_result_def sets_need_wf)

lemma pmSendResult_pdu_send:
  assumes "result_need r = Some (n, v)"
  shows "pmSendResult e x writes fr r s = pdu_send e x writes (s32 (int (n + v))) (build_result fr r) s"
proof -
  have "find_buf (e (s32 (int (n + v)))) (s32 (int (n + v))) (io_pool s) = None \<or>
    (\<exists>b p. find_buf (e (s32 (int (n + v)))) (s32 (int (n + v))) (io_pool s) = Some (b, p))" by (cases "find_buf (e (s32 (int (n + v)))) (s32 (int (n + v))) (io_pool s)") auto
  then show ?thesis
    using assms
    by (auto simp: pmSendResult_def pmEncodeResult_def pdu_send_def build_result_def Let_def ENOMEM_def
        split: option.splits bind_splits)
qed

lemma length_result_body: "wf_result r \<Longrightarrow> 12 + length (result_body r) = result_len r"
  by (simp add: result_body_def result_len_def wf_result_def)

lemma build_result_spec:
  assumes wf: "wf_result r" and len: "int (result_len r) \<le> int (length m)"
  shows "\<exists>m'. build_result fr r m = Some m' \<and> length m' = length m \<and>
    bytes_at m' 0 (mk_pdu PDU_RESULT fr (result_body r))"
proof -
  let ?v = "rs_vset r" and ?n = "24 + ssize (rs_vset r)"
  have w: "list_all wf_set ?v" using wf by (simp add: wf_result_def)
  have n4: "4 * (?n div 4) = ?n" by (simp add: dvd_mult_div_cancel)
  let ?m = "upd (upd (upd (upd (upd m 0 (w2b (word_of_nat (?n + sbsize ?v)))) 4 (w2b (word_of_int PDU_RESULT)))
    12 (n2b (word_of_int (rs_sec r)))) 16 (n2b (word_of_int (rs_usec r)))) 20 (n2b (word_of_nat (length ?v)))"
  have L: "?n + sbsize ?v \<le> length m" using len by (simp add: result_len_def)
  have "put_sets ?v 24 ?n ?m = Some (upd (upd ?m 24 (net_sets ?v ?n)) ?n (set_blocks net_blk ?v))"
    using L w by (intro put_sets_spec) auto
  then have "build_result fr r m = Some (upd (upd (upd ?m 24 (net_sets ?v ?n)) ?n (set_blocks net_blk ?v)) 8 (w2b fr))"
    using result_need_wf [OF wf] L w n4 by (simp add: build_result_def encode_result_def mem_simps)
  then show ?thesis
    using L w length_result_body [OF wf]
    by (auto simp: pdu_def bytes_at_append result_body_def result_len_def mem_simps add.assoc)
qed

lemma decode_scan_spec:
  assumes wf: "wf_result r" and at: "bytes_at m 0 (mk_pdu PDU_RESULT fr (result_body r))" and slack: "read_slack (rs_vset r) (result_len r) m"
  shows "decode_scan True m = Some (Inr (length (rs_vset r), rs_sec r mod 2 ^ 32, rs_usec r mod 2 ^ 32, result_scan r),
    upd m (24 + ssize (rs_vset r)) (set_blocks host_blk (rs_vset r)))"
proof -
  let ?v = "rs_vset r" and ?n = "24 + ssize (rs_vset r)"
  have W: "list_all wf_set ?v" "?n + sbsize ?v < 2 ^ 31" "nvsize ?v + sbsize ?v < 2 ^ 31"
      "ssize ?v \<le> nat (INT_MAX div 4)" "sbsize ?v \<le> nat (INT_MAX div 8)"
    using wf by (auto simp: wf_result_def INT_MAX_def PDU_CHUNK_def)
  have L: "pdu_len m = Some (int (result_len r))"
    using pdu_len_pdu [OF at] W(2) length_result_body [OF wf] sint_pdu_len [of "result_len r"] by (simp add: result_len_def)
  have ats: "ldn m 12 = Some (word_of_int (rs_sec r))" "ldn m 16 = Some (word_of_int (rs_usec r))"
    "ldn m 20 = Some (word_of_nat (length ?v))" "bytes_at m (24 + 0) (net_sets ?v ?n)" "bytes_at m ?n (set_blocks net_blk ?v)"
    using pdu_body [OF at] by (simp_all add: result_body_def bytes_at_append bytes_at_ldn)
  have lm: "result_len r \<le> length m" using bytes_at_bound [OF at] length_result_body [OF wf] by simp
  have lv: "8 * length ?v \<le> ssize ?v" by (rule ssize_ge)
  have sn: "sint (word_of_nat (length ?v) :: u32) = int (length ?v)"
    using lv W(2) by (intro sint_pdu_len) simp
  have "scan_sets (length ?v) (int (result_len r)) \<lparr>sc_vsize = int 0, sc_nvsize = int 0, sc_vbsize = int 0, sc_vsplit = int (result_len r)\<rparr> m =
    Some (Some \<lparr>sc_vsize = int (0 + ssize ?v), sc_nvsize = int (0 + nvsize ?v), sc_vbsize = int (0 + sbsize ?v),
      sc_vsplit = (if sbsize ?v = 0 then int (result_len r) else min (int (result_len r)) (int ?n))\<rparr>, upd m ?n (set_blocks host_blk ?v))"
    by (rule scan_sets_spec [OF W(1) ats(4,5)]) (use W slack lm in \<open>simp_all add: result_len_def\<close>)
  then have sc: "scan_sets (length ?v) (int (result_len r)) \<lparr>sc_vsize = 0, sc_nvsize = 0, sc_vbsize = 0, sc_vsplit = int (result_len r)\<rparr> m =
    Some (Some (result_scan r), upd m ?n (set_blocks host_blk ?v))"
    by (simp add: result_scan_def result_len_def)
  have u: "uint (word_of_int x :: u32) = x mod 2 ^ 32" for x by (simp add: unsigned_of_int take_bit_eq_mod)
  have "is_int32 (int (nvsize ?v) + int (sbsize ?v))" "is_int32 (24 + int (ssize ?v))"
    using W by (simp_all add: is_int32_def)
  then show ?thesis
    using L ats(1-3) sn sc lv W u
    by (simp add: decode_scan_def result_len_def INT_MAX_def) (simp add: result_scan_def)
qed

interpretation result_codec: pdu_codec "\<lambda>x. wf_result (snd x)" PDU_RESULT fst "\<lambda>x. int (result_len (snd x))"
    "\<lambda>x. result_len (snd x) - 12" "\<lambda>x body. body = result_body (snd x)" "\<lambda>x. build_result (fst x) (snd x)"
    "\<lambda>m. map_option fst (decode_scan True (m @ replicate 4 0))"
    "\<lambda>x. (length (rs_vset (snd x)), rs_sec (snd x) mod 2 ^ 32, rs_usec (snd x) mod 2 ^ 32, result_scan (snd x))"
proof
  show "0 \<le> PDU_RESULT" "PDU_RESULT < 2 ^ 31" by (simp_all add: PDU_defs)
next
  fix x :: "u32 \<times> mem pmResult" and m body
  assume wf: "wf_result (snd x)"
  show "12 + (result_len (snd x) - 12) \<le> nat (INT_MAX - 2 * PDU_CHUNK)"
    using wf by (simp add: wf_result_def result_len_def)
  show "length body = result_len (snd x) - 12" if "body = result_body (snd x)"
    using length_result_body [OF wf] that by simp
  show "\<exists>m' body. build_result (fst x) (snd x) m = Some m' \<and> length m' = length m \<and> body = result_body (snd x) \<and>
      bytes_at m' 0 (mk_pdu PDU_RESULT (fst x) body)" if "int (result_len (snd x)) \<le> int (length m)"
    using build_result_spec [OF wf that] by blast
  show "map_option fst (decode_scan True (m @ replicate 4 0)) =
      Some (Inr (length (rs_vset (snd x)), rs_sec (snd x) mod 2 ^ 32, rs_usec (snd x) mod 2 ^ 32, result_scan (snd x)))"
    if "body = result_body (snd x)" "bytes_at m 0 (mk_pdu PDU_RESULT (fst x) body)"
  proof -
    have "bytes_at (m @ replicate 4 0) 0 (mk_pdu PDU_RESULT (fst x) (result_body (snd x)))"
      using that by (auto simp: bytes_at_split)
    moreover have "read_slack (rs_vset (snd x)) (result_len (snd x)) (m @ replicate 4 0)"
      using bytes_at_bound [OF that(2)] that(1) length_result_body [OF wf] by (simp add: read_slack_def)
    ultimately show ?thesis using decode_scan_spec [OF wf] by simp
  qed
qed

lemma pmDecodeResult_spec:
  assumes wf: "wf_result r" and at: "bytes_at (heap s a) 0 (mk_pdu PDU_RESULT fr (result_body r))"
    and slack: "read_slack (rs_vset r) (result_len r) (heap s a)" and pin: "0 < pin_held s a"
    and send: "can_send e (int (nvsize (rs_vset r) + sbsize (rs_vset r))) s"
  shows "\<exists>b res s'. pmDecodeResult True e a s = Some (Inr (b, res), s') \<and>
    view_result (heap s' b) res = Some (recv_result r) \<and> a \<noteq> b \<and>
    pin_held s' = (pin_held s)(b := if rs_vset r = [] then 0 else 1) \<and> io_ok s'"
proof -
  let ?v = "rs_vset r" and ?n = "24 + ssize (rs_vset r)" and ?need = "int (nvsize (rs_vset r) + sbsize (rs_vset r))"
  have W: "list_all wf_set ?v" "?n + sbsize ?v < 2 ^ 31" "nvsize ?v + sbsize ?v < 2 ^ 31"
    using wf by (auto simp: wf_result_def INT_MAX_def PDU_CHUNK_def)
  let ?m = "upd (heap s a) ?n (set_blocks host_blk ?v)"
  let ?s = "s\<lparr>heap := (heap s)(a := ?m)\<rparr>"
  have la: "?n + sbsize ?v \<le> length (heap s a)"
    using bytes_at_bound [OF at] length_result_body [OF wf] by (simp add: result_len_def)
  then have lm: "length ?m = length (heap s a)" by simp
  have ok: "io_ok s" and e: "env_ok e ?need s" using send by (auto simp: can_send_def)
  obtain b p where f: "find_buf (e ?need) ?need (io_pool s) = Some (Some b, p)" using send by (auto simp: can_send_def)
  from env_ok_find [OF ok e] f have ok1: "io_ok (s\<lparr>io_pool := p\<rparr>)"
    and h1: "pin_held (s\<lparr>io_pool := p\<rparr>) = (pin_held s)(b := 1)" "pin_held s b = 0"
    and b: "pinmap p b = Some 1" "?need \<le> int (length (heap s b))" by auto
  have ab: "a \<noteq> b" using h1(2) pin by auto
  let ?nb = "upd (heap s b) (nvsize ?v) (set_blocks host_blk ?v)"
  have lb: "nvsize ?v + sbsize ?v \<le> length (heap s b)" using b(2) by simp
  have mb: "bytes_at ?m ?n (set_blocks host_blk ?v)"
    using la by (intro bytes_at_upd_same) simp
  have cp: "copy_blocks (result_scan r) ?m (heap s b) = Some ?nb"
  proof (cases "sbsize ?v = 0")
    case True
    then have "set_blocks host_blk ?v = []" using length_host_set_blocks [of ?v] by (simp del: length_host_set_blocks)
    then show ?thesis using True lb by (simp add: copy_blocks_def result_scan_def)
  next
    case False
    then show ?thesis
      using lb bytes_at_ld [OF mb, of "sbsize ?v"] by (simp add: copy_blocks_def result_scan_def nat_add_distrib mem_simps)
  qed
  have "bytes_at (heap s a) (24 + 0) (net_sets ?v ?n)"
    using pdu_body [OF at] by (auto simp: result_body_def bytes_at_append)
  then have mn: "bytes_at ?m (24 + 0) (net_sets ?v ?n)"
    using la by (simp add: bytes_at_upd_other)
  let ?off = "int (nvsize ?v) - int (ssize ?v) - 24"
  have nbb: "bytes_at ?nb (nvsize ?v) (set_blocks host_blk ?v)" using lb by (intro bytes_at_upd_same) simp
  obtain vss where vss: "fill_sets (length ?v) (int 0) ?off ?m = Some vss" "view_sets ?nb vss = Some (map recv_set ?v)"
    using fill_sets_view [OF W(1) mn nbb, of ?off] W(2,3) by auto
  have i: "is_int32 (int (nvsize ?v) + int (sbsize ?v))" "is_int32 ?off"
    using W by (auto simp: is_int32_def)
  obtain q where q: "(if ?v = [] then map_option snd (pmUnpinPDUBuf b p) else Some p) = Some q" "pool_inv q"
      "held (pinmap q) = (pin_held s)(b := if ?v = [] then 0 else 1)" "sizemap q = sizemap p"
  proof (cases "?v = []")
    case True
    have "pool_inv p" "backed (heap s) (sizemap p)" using ok1 by (simp_all add: io_ok_def)
    from pdubuf.unpin_held [OF this(1) b(1) this(2)] show ?thesis
      using True h1(1) that by (simp add: pin_held_def) (metis fun_upd_upd)
  next
    case False
    then show ?thesis using ok1 h1(1) that by (simp add: io_ok_def pin_held_def)
  qed
  let ?s' = "s\<lparr>heap := (heap s)(a := ?m, b := ?nb), io_pool := q\<rparr>"
  have "pmDecodeResult True e a s =
      Some (Inr (b, \<lparr>rs_sec = rs_sec r mod 2 ^ 32, rs_usec = rs_usec r mod 2 ^ 32, rs_vset = vss\<rparr>), ?s')"
    using decode_scan_spec [OF wf at slack] f cp vss(1) q(1) i ab
    by (simp add: pmDecodeResult_def result_scan_def Let_def)
  moreover have "io_ok ?s'"
    using ok1 q(2,4) lm lb ab by (simp add: io_ok_def backed_def)
  ultimately show ?thesis
    using vss(2) q(3) ab by (auto simp: view_result_def recv_result_def pin_held_def)
qed

lemma ldn_inside: "a + 4 \<le> length m \<Longrightarrow> \<exists>w. ldn m a = Some w"
  using ldn_None_iff [of m a] by (cases "ldn m a") auto

lemma u64_beyond: "x < y \<Longrightarrow> y < 2 ^ 62 \<Longrightarrow> 2 ^ 63 \<le> u64 (int x - int y)"
  by (intro u64_negative) auto

section \<open>Properties\<close>

text \<open>C2: a result sent with \<open>__pmSendResult\<close>, whatever mix of error codes, in-situ values and
  value blocks (event arrays included) it has, and read through any fragmentation is decoded by
  \<open>__pmDecodeResult\<close> to the same result: following the decoded pointers into the second buffer
  gives every value block back in host order. That buffer is another one than the PDU's and is
  pinned once, unless the result is empty and nothing points into it. When the last value set has
  no values the PDU's buffer must have a word to spare.\<close>

theorem result_end_to_end:
  assumes "wf_result r" and "can_send e (int (result_len r)) s" and "drains writes (result_len r)"
  shows "\<exists>sent s'. pmSendResult e x writes fr r s = Some (int (result_len r), sent, s') \<and>
    pin_held s' = pin_held s \<and> length sent = result_len r \<and>
    (\<forall>g mode timeout trips q rest.
       can_recv g mode timeout (int (result_len r)) trips q \<longrightarrow> stream trips = sent @ rest \<longrightarrow>
       (\<exists>a ts q'. pmGetPDU g mode timeout trips q = Some ((PDU_RESULT, Some a), ts, q') \<and> stream ts = rest \<and>
         pin_held q' = (pin_held q)(a := 1) \<and> io_ok q' \<and> sizes_kept (io_pool q) (io_pool q') \<and>
         (\<forall>e2. can_send e2 (int (nvsize (rs_vset r) + sbsize (rs_vset r))) q' \<longrightarrow>
            read_slack (rs_vset r) (result_len r) (heap q' a) \<longrightarrow>
            (\<exists>b res q''. pmDecodeResult True e2 a q' = Some (Inr (b, res), q'') \<and>
               view_result (heap q'' b) res = Some (recv_result r) \<and> a \<noteq> b \<and>
               pin_held q'' = (pin_held q')(b := if rs_vset r = [] then 0 else 1)))))"
proof -
  have len: "12 + (result_len r - 12) = result_len r" "12 + int (result_len r - 12) = int (result_len r)"
    by (simp_all add: result_len_def)
  have "s32 (int (24 + ssize (rs_vset r) + sbsize (rs_vset r))) = int (result_len r)"
    using assms(1) by (simp add: wf_result_def result_len_def is_int32_def INT_MAX_def PDU_CHUNK_def)
  then have snd: "pmSendResult e x writes fr r s = pdu_send e x writes (int (result_len r)) (build_result fr r) s"
    using pmSendResult_pdu_send [OF result_need_wf [OF assms(1)]] by simp
  have dec: "\<exists>b res q''. pmDecodeResult True e2 a q = Some (Inr (b, res), q'') \<and>
      view_result (heap q'' b) res = Some (recv_result r) \<and> a \<noteq> b \<and>
      pin_held q'' = (pin_held q)(b := if rs_vset r = [] then 0 else 1)"
    if "bytes_at (heap q a) 0 (mk_pdu PDU_RESULT fr (result_body r))" "pin_held q = h(a := 1)"
      "can_send e2 (int (nvsize (rs_vset r) + sbsize (rs_vset r))) q" "read_slack (rs_vset r) (result_len r) (heap q a)"
    for e2 a q h
    using pmDecodeResult_spec [OF assms(1) that(1,4) _ that(3)] that(2) by auto
  have "drains writes (12 + (result_len (snd (fr, r)) - 12))" "can_send e (int (result_len (snd (fr, r)))) s"
    using assms(2,3) len by simp_all
  from result_codec.end_to_end_bytes [of "(fr, r)" e s writes x, OF _ this(2,1)] assms(1) len
  obtain sent s' where S: "pdu_send e x writes (int (result_len r)) (build_result fr r) s = Some (int (result_len r), sent, s')"
    "pin_held s' = pin_held s" "length sent = result_len r"
    "\<And>g mode timeout trips q rest. can_recv g mode timeout (int (result_len r)) trips q \<Longrightarrow> stream trips = sent @ rest \<Longrightarrow>
       (\<exists>a ts q'. pmGetPDU g mode timeout trips q = Some ((PDU_RESULT, Some a), ts, q') \<and>
         bytes_at (heap q' a) 0 (mk_pdu PDU_RESULT fr (result_body r)) \<and> stream ts = rest \<and>
         pin_held q' = (pin_held q)(a := 1) \<and> io_ok q' \<and> sizes_kept (io_pool q) (io_pool q'))"
    by auto
  have "\<exists>a ts q'. pmGetPDU g mode timeout trips q = Some ((PDU_RESULT, Some a), ts, q') \<and> stream ts = rest \<and>
      pin_held q' = (pin_held q)(a := 1) \<and> io_ok q' \<and> sizes_kept (io_pool q) (io_pool q') \<and>
      (\<forall>e2. can_send e2 (int (nvsize (rs_vset r) + sbsize (rs_vset r))) q' \<longrightarrow>
         read_slack (rs_vset r) (result_len r) (heap q' a) \<longrightarrow>
         (\<exists>b res q''. pmDecodeResult True e2 a q' = Some (Inr (b, res), q'') \<and>
            view_result (heap q'' b) res = Some (recv_result r) \<and> a \<noteq> b \<and>
            pin_held q'' = (pin_held q')(b := if rs_vset r = [] then 0 else 1)))"
    if "can_recv g mode timeout (int (result_len r)) trips q" "stream trips = sent @ rest" for g mode timeout trips q rest
  proof -
    from S(4) [OF that] obtain a ts q' where A: "pmGetPDU g mode timeout trips q = Some ((PDU_RESULT, Some a), ts, q')"
      "bytes_at (heap q' a) 0 (mk_pdu PDU_RESULT fr (result_body r))" "stream ts = rest"
      "pin_held q' = (pin_held q)(a := 1)" "io_ok q'" "sizes_kept (io_pool q) (io_pool q')" by blast
    show ?thesis by (intro exI [of _ a] exI [of _ ts] exI [of _ q'] conjI allI impI A dec [OF A(2,4)])
  qed
  with snd S(1-3) show ?thesis by (intro exI [of _ sent] exI [of _ s']) simp
qed

text \<open>C34: \<open>__pmDecodeResult\<close> checks the index of a value block, a count of words, against the
  PDU's length in bytes, and its second check computes the room behind the block as an unsigned
  number. A PDU with an index whose block lies behind the end of the buffer passes both, and
  the conversion of the block to host order happens outside the buffer.\<close>

theorem result_block_overrun:
  assumes at: "bytes_at m 0 (mk_pdu PDU_RESULT fr (t @ n2b 1 @ n2b pmid @ n2b 1 @ n2b 1 @ n2b inst @ n2b (word_of_nat index) @ rest))"
    and t: "length t = 8" and len: "44 + length rest < 2 ^ 29"
    and index: "44 + length rest < 4 * index" "index \<le> 44 + length rest" "length m < 4 * index + 4"
  shows "decode_scan True m = None"
proof -
  let ?len = "44 + length rest"
  have L: "pdu_len m = Some (int ?len)"
    using pdu_len_pdu [OF at] t len sint_pdu_len [of ?len] by (simp add: add.commute)
  have lds: "ldn m 20 = Some 1" "ldn m 28 = Some 1" "ldn m 32 = Some 1" "ldn m 40 = Some (word_of_nat index)"
    using pdu_body [OF at] t by (simp_all add: bytes_at_append bytes_at_ldn)
  have "44 \<le> length m" using bytes_at_bound [OF at] t by simp
  then obtain w1 w2 where w: "ldn m 12 = Some w1" "ldn m 16 = Some w2"
    using ldn_inside [of 12 m] ldn_inside [of 16 m] by auto
  have i: "sint (word_of_nat index :: u32) = int index" using index(2) len by (intro sint_pdu_len) simp
  have u: "u64 (int ?len - 24) = int ?len - 24" "u64 (int ?len - 36) = int ?len - 36" using len by (auto intro!: u64_id)
  have v: "2 ^ 63 \<le> u64 (int ?len - 4 * int index)" using u64_beyond [of ?len "4 * index"] index len by simp
  have n: "pm_ntohpmValueBlock (4 * index) m = None"
  proof -
    have "ld32 m (4 * index) = None" using index(3) by simp
    then show ?thesis by (simp only: pm_ntohpmValueBlock_def bind.simps)
  qed
  have "scan_values (Suc 0) 36 (int ?len) (int ?len) 0 m = None"
    using lds(4) i u(2) v n index(2) by (simp add: ldi_def nat_mult_distrib)
  then have "scan_sets (Suc 0) (int ?len) \<lparr>sc_vsize = 0, sc_nvsize = 0, sc_vbsize = 0, sc_vsplit = int ?len\<rparr> m = None"
    using lds u(1) len by (simp add: ldi_def INT_MAX_def PM_VAL_INSITU_def is_int32_def Let_def del: scan_values.simps)
  then show ?thesis
    using L lds(1) w len by (simp add: decode_scan_def INT_MAX_def del: scan_sets.simps)
qed

text \<open>the room for a value list in the PDU is an unsigned number too, and the number of in-situ
  values of a list is checked only against the PDU's length in bytes. A PDU with two lists, the
  first of which announces more values than the PDU holds, makes \<open>__pmDecodeResult\<close> look for the
  second list behind the end of the buffer.\<close>

theorem result_list_overrun:
  assumes at: "bytes_at m 0 (mk_pdu PDU_RESULT fr (t @ n2b 2 @ n2b pmid @ n2b (word_of_nat numval) @ n2b 0 @ rest))"
    and t: "length t = 8" and len: "36 + length rest < 2 ^ 26"
    and numval: "0 < numval" "numval \<le> 36 + length rest" "length rest < 8 * numval" "length m < 8 * numval + 44"
  shows "decode_scan True m = None"
proof -
  let ?len = "36 + length rest"
  have L: "pdu_len m = Some (int ?len)"
    using pdu_len_pdu [OF at] t len sint_pdu_len [of ?len] by (simp add: add.commute)
  have lds: "ldn m 20 = Some 2" "ldn m 28 = Some (word_of_nat numval)" "ldn m 32 = Some 0"
    using pdu_body [OF at] t by (simp_all add: bytes_at_append bytes_at_ldn)
  have "36 \<le> length m" using bytes_at_bound [OF at] t by simp
  then obtain w1 w2 where w: "ldn m 12 = Some w1" "ldn m 16 = Some w2"
    using ldn_inside [of 12 m] ldn_inside [of 16 m] by auto
  have i: "sint (word_of_nat numval :: u32) = int numval" using numval(2) len by (intro sint_pdu_len) simp
  have u: "u64 (int ?len - 24) = int ?len - 24" using len by (auto intro!: u64_id)
  have v: "2 ^ 63 \<le> u64 (int ?len - int (36 + 8 * numval))" using u64_beyond [of ?len "36 + 8 * numval"] numval len by simp
  have n: "ldn m (40 + 8 * numval) = None" using numval(4) by simp
  let ?sc = "\<lparr>sc_vsize = 12 + 8 * int numval, sc_nvsize = 16 + 16 * int numval, sc_vbsize = 0, sc_vsplit = int ?len\<rparr>"
  have 2: "scan_sets (Suc 0) (int ?len) ?sc m = None"
    using v by (simp add: ldi_def nat_add_distrib nat_mult_distrib n Let_def)
  have s: "s32 (12 + 8 * int numval) = 12 + 8 * int numval" "s32 (32 + 16 * (int numval - 1)) = 16 + 16 * int numval"
    using numval(2) len by (simp_all add: is_int32_def)
  have "scan_sets (Suc (Suc 0)) (int ?len) \<lparr>sc_vsize = 0, sc_nvsize = 0, sc_vbsize = 0, sc_vsplit = int ?len\<rparr> m =
      scan_sets (Suc 0) (int ?len) ?sc m"
    unfolding scan_sets.simps(2) [of "Suc 0"]
    using lds(2,3) i u len numval(1,2) s
    by (simp add: ldi_def INT_MAX_def PM_VAL_INSITU_def is_int32_def Let_def del: scan_sets.simps)
  then have "scan_sets 2 (int ?len) \<lparr>sc_vsize = 0, sc_nvsize = 0, sc_vbsize = 0, sc_vsplit = int ?len\<rparr> m = None"
    using 2 by (simp add: numeral_2_eq_2)
  then show ?thesis
    using L lds(1) w len by (simp add: decode_scan_def INT_MAX_def)
qed

section \<open>Examples\<close>

definition sample_result :: "mem pmResult" where
  "sample_result = \<lparr>rs_sec = 100, rs_usec = 5, rs_vset =
     [\<lparr>vs_pmid = 1, vs_numval = - 12357, vs_valfmt = None, vs_vlist = []\<rparr>,
      \<lparr>vs_pmid = 2, vs_numval = 2, vs_valfmt = Some 0, vs_vlist = [(0, Lval 42), (1, Lval 43)]\<rparr>,
      \<lparr>vs_pmid = 3, vs_numval = 1, vs_valfmt = Some 1, vs_vlist = [(7, Pval (w2b 0x06000006 @ [104, 105]))]\<rparr>]\<rparr>"

lemma sample_ptr: "wf_ptr (w2b 0x06000006 @ [104, 105])"
  unfolding wf_ptr_def
proof (intro conjI exI [of _ "Plain 0x06000006 [104, 105]"])
  show "wf_block (Plain 0x06000006 [104, 105])"
    by (simp add: vb_vtype_def block_value_size_def PM_TYPE_defs)
  show "blk_vlen (w2b 0x06000006 @ [104, 105]) = Some (length (w2b 0x06000006 @ [104, 105]))"
    by (simp add: blk_vlen_def ld32_def ld_def vb_vlen_def)
qed simp

lemma sample_sizes: "ssize (rs_vset sample_result) = 56" "sbsize (rs_vset sample_result) = 8"
  "nvsize (rs_vset sample_result) = 112" "result_len sample_result = 88"
  by (simp_all add: sample_result_def set_size_def nv_size_def PM_PDU_SIZE_BYTES_def PM_PDU_SIZE_def result_len_def)

lemma wf_sample_result: "wf_result sample_result"
  unfolding wf_result_def sample_sizes
  by (simp add: INT_MAX_def PDU_CHUNK_def) (simp add: sample_result_def wf_set_def is_int32_def PM_VAL_INSITU_def sample_ptr)

lemma sample_second_buffer:
  assumes ok: "io_ok q" and kept: "sizes_kept (io_pool sample_io) (io_pool q)" and pins: "pin_held q = (pin_held sample_io)(a := 1)"
    and n: "0 \<le> n" "n \<le> 1024"
  shows "can_send (\<lambda>_. (False, None)) n q"
proof -
  obtain b :: int where b: "b \<noteq> a" "sizemap (io_pool sample_io) b = Some 1024" "pin_held sample_io b = 0"
  proof (cases "a = 4096")
    case True
    then show ?thesis by (intro that [of 8192]) (simp_all add: sample_io_def sizemap_def buf_field_def pin_held_def held_def pinmap_def)
  next
    case False
    then show ?thesis by (intro that [of 4096]) (simp_all add: sample_io_def sizemap_def buf_field_def pin_held_def held_def pinmap_def)
  qed
  have inv: "pool_inv (io_pool q)" using ok by (simp add: io_ok_def)
  have sz: "sizemap (io_pool q) b = Some 1024" using b(2) kept unfolding sizes_kept_def map_le_def by (metis domI)
  then have "pinmap (io_pool q) b \<noteq> None" using inv buf_field_buf(1) [OF inv] by (auto simp: sizemap_Some)
  moreover have "pin_held q b = 0" using pins b by simp
  ultimately have "pinmap (io_pool q) b = Some 0" by (auto simp: pin_held_def held_def)
  moreover have e: "env_ok (\<lambda>_. (False, None)) n q" using n no_memory_ok [of n] by (simp add: INT_MAX_def PDU_CHUNK_def)
  ultimately have "\<exists>c p. find_buf (False, None) n (io_pool q) = Some (Some c, p)"
    using pdubuf.find_free_law [OF inv _ _ sz n(2)] by (simp add: env_ok_def)
  then show ?thesis using ok e by (simp add: can_send_def)
qed

lemma result_end_to_end_witness:
  "\<exists>sent s' a ts q' b res q''. pmSendResult (\<lambda>_. (False, None)) sample_xenv [88] 0 sample_result sample_io = Some (88, sent, s') \<and>
    pmGetPDU sample_env ANY_SIZE TIMEOUT_NEVER [Chunk (1, 0) (take 5 sent), Chunk (2, 0) (drop 5 sent)] sample_io =
      Some ((PDU_RESULT, Some a), ts, q') \<and>
    pmDecodeResult True (\<lambda>_. (False, None)) a q' = Some (Inr (b, res), q'') \<and>
    view_result (heap q'' b) res = Some sample_result"
proof -
  let ?e = "\<lambda>_::int. (False, None :: int option)"
  have r: "recv_result sample_result = sample_result"
    by (simp add: recv_result_def recv_set_def sample_result_def)
  have slack: "read_slack (rs_vset sample_result) n m" for n m by (simp add: read_slack_def sample_result_def)
  note E = result_end_to_end [OF wf_sample_result, of ?e sample_io "[88]" sample_xenv 0, unfolded sample_sizes r]
  obtain sent s' where S: "pmSendResult ?e sample_xenv [88] 0 sample_result sample_io = Some (int 88, sent, s')" "length sent = 88"
    and R: "\<forall>g mode timeout trips q rest. can_recv g mode timeout (int 88) trips q \<longrightarrow> stream trips = sent @ rest \<longrightarrow>
       (\<exists>a ts q'. pmGetPDU g mode timeout trips q = Some ((PDU_RESULT, Some a), ts, q') \<and> stream ts = rest \<and>
         pin_held q' = (pin_held q)(a := 1) \<and> io_ok q' \<and> sizes_kept (io_pool q) (io_pool q') \<and>
         (\<forall>e2. can_send e2 (int (112 + 8)) q' \<longrightarrow> read_slack (rs_vset sample_result) 88 (heap q' a) \<longrightarrow>
            (\<exists>b res q''. pmDecodeResult True e2 a q' = Some (Inr (b, res), q'') \<and>
               view_result (heap q'' b) res = Some sample_result \<and> a \<noteq> b \<and>
               pin_held q'' = (pin_held q')(b := if rs_vset sample_result = [] then 0 else 1))))"
    using E sample_can_send [of 88] by force
  let ?trips = "[Chunk (1, 0) (take 5 sent), Chunk (2, 0) (drop 5 sent)]"
  have "can_recv sample_env ANY_SIZE TIMEOUT_NEVER (int 88) ?trips sample_io" "stream ?trips = sent @ []"
    using sample_trips [of sent] S(2) by simp_all
  from R [rule_format, OF this] obtain a ts q' where A: "pmGetPDU sample_env ANY_SIZE TIMEOUT_NEVER ?trips sample_io = Some ((PDU_RESULT, Some a), ts, q')"
    "pin_held q' = (pin_held sample_io)(a := 1)" "io_ok q'" "sizes_kept (io_pool sample_io) (io_pool q')"
    and D: "\<forall>e2. can_send e2 (int (112 + 8)) q' \<longrightarrow> read_slack (rs_vset sample_result) 88 (heap q' a) \<longrightarrow>
            (\<exists>b res q''. pmDecodeResult True e2 a q' = Some (Inr (b, res), q'') \<and>
               view_result (heap q'' b) res = Some sample_result \<and> a \<noteq> b \<and>
               pin_held q'' = (pin_held q')(b := if rs_vset sample_result = [] then 0 else 1))" by blast
  have "can_send ?e (int (112 + 8)) q'" by (intro sample_second_buffer [OF A(3,4,2)]) simp_all
  from D [rule_format, OF this slack] obtain b res q'' where "pmDecodeResult True ?e a q' = Some (Inr (b, res), q'')"
    "view_result (heap q'' b) res = Some sample_result" by blast
  moreover have "pmSendResult ?e sample_xenv [88] 0 sample_result sample_io = Some (88, sent, s')" using S(1) by simp
  ultimately show ?thesis using A(1) by blast
qed

lemma result_block_overrun_witness:
  "decode_scan True (mk_pdu PDU_RESULT 0 (replicate 8 0 @ n2b 1 @ n2b 7 @ n2b 1 @ n2b 1 @ n2b 0 @ n2b 1020 @ replicate 976 0) @ replicate 4 0) = None"
proof -
  let ?p = "mk_pdu PDU_RESULT 0 (replicate 8 0 @ n2b 1 @ n2b 7 @ n2b 1 @ n2b 1 @ n2b 0 @ n2b 1020 @ replicate 976 0)"
  have "bytes_at (?p @ replicate 4 0) 0 ?p" by (auto simp: bytes_at_split)
  then show ?thesis using result_block_overrun [of "?p @ replicate 4 0" "replicate 8 0" 7 0 1020 "replicate 976 0" 0] by simp
qed

lemma result_list_overrun_witness:
  "decode_scan True (mk_pdu PDU_RESULT 0 (replicate 8 0 @ n2b 2 @ n2b 7 @ n2b 1020 @ n2b 0 @ replicate 984 0) @ replicate 4 0) = None"
proof -
  let ?p = "mk_pdu PDU_RESULT 0 (replicate 8 0 @ n2b 2 @ n2b 7 @ n2b 1020 @ n2b 0 @ replicate 984 0)"
  have "bytes_at (?p @ replicate 4 0) 0 ?p" by (auto simp: bytes_at_split)
  then show ?thesis using result_list_overrun [of "?p @ replicate 4 0" "replicate 8 0" 7 1020 "replicate 984 0" 0] by simp
qed

end
