(* ===== verification/Pdu_Lcontrol.thy ===== *)
theory Pdu_Lcontrol
  imports Pdu_Result
begin

text \<open>
  Requests to change what a logger records, \<^verbatim>\<open>p_lcontrol.c\<close>. The request is a result whose value
  sets name metrics and instances; the decoder rebuilds it value set by value set and, when it finds
  the PDU corrupt, frees what it has allocated by walking the array of sets backwards.
\<close>

section \<open>Operations\<close>

definition PM_LOG_MAYBE :: int where "PM_LOG_MAYBE = 1"
definition PM_LOG_ADVISORY :: int where "PM_LOG_ADVISORY = 12"

definition log_set_need :: "'p pmValueSet \<Rightarrow> int" where
  "log_set_need vs = (if vs_numval vs > 0 then 16 + (vs_numval vs - 1) * 8 else 8)"

definition log_need :: "'p pmValueSet list \<Rightarrow> int" where
  "log_need vss = s32 (28 + sum_list (map log_set_need vss))"

text \<open>The values are words; what a value set with pointers would put in the PDU is an address and
  not modelled.\<close>

fun put_log_values :: "(u32 \<times> 'p pmvalue) list \<Rightarrow> nat \<Rightarrow> mem \<Rightarrow> mem option" where
  "put_log_values [] a m = Some m"
| "put_log_values ((inst, v) # vs) a m = do {
     m \<leftarrow> stn m a inst;
     w \<leftarrow> lval v;
     m \<leftarrow> stn m (a + 4) w;
     put_log_values vs (a + 8) m
   }"

fun put_log_sets :: "'p pmValueSet list \<Rightarrow> nat \<Rightarrow> mem \<Rightarrow> mem option" where
  "put_log_sets [] vp m = Some m"
| "put_log_sets (vs # vss) vp m = do {
     m \<leftarrow> stn m vp (vs_pmid vs);
     m \<leftarrow> stn m (vp + 4) (word_of_int (vs_numval vs));
     vl \<leftarrow> vlist_of vs;
     m \<leftarrow> put_log_values vl (vp + 8) m;
     put_log_sets vss (vp + nat (log_set_need vs)) m
   }"

definition build_log_control :: "'p pmValueSet list \<Rightarrow> int \<Rightarrow> int \<Rightarrow> int \<Rightarrow> mem \<Rightarrow> mem option" where
  "build_log_control vss control state delta m = do {
     m \<leftarrow> st32 m 0 (word_of_int (log_need vss));
     m \<leftarrow> st32 m 4 (word_of_int PDU_LOG_CONTROL);
     m \<leftarrow> st32 m 8 0;
     m \<leftarrow> stn m 12 (word_of_int control);
     m \<leftarrow> stn m 16 (word_of_int state);
     m \<leftarrow> stn m 20 (word_of_int delta);
     m \<leftarrow> stn m 24 (word_of_nat (length vss));
     put_log_sets vss 28 m
   }"

definition pmSendLogControl :: "(int \<Rightarrow> bool \<times> int option) \<Rightarrow> xmit_env \<Rightarrow> int list \<Rightarrow> 'p pmValueSet list \<Rightarrow> int \<Rightarrow> int \<Rightarrow> int \<Rightarrow>
    io \<Rightarrow> (int \<times> mem \<times> io) option" where
  "pmSendLogControl e x writes vss control state delta s =
     (if delta < 0 \<or> control = PM_LOG_ADVISORY \<and> state = PM_LOG_MAYBE then Some (- EINVAL, [], s)
      else pdu_send e x writes (log_need vss) (build_log_control vss control state delta) s)"

text \<open>
  \<open>corrupt\<close>: \<open>while (i) free(req->vset[i--])\<close> when the first \<open>n\<close> entries of the array have been
  assigned. Freeing an entry that has not been, or that is not in the array, is a fault.
\<close>

definition log_corrupt :: "int \<Rightarrow> nat \<Rightarrow> int \<Rightarrow> 'a c_result" where
  "log_corrupt i n sts = (if i = 0 \<or> 0 < i \<and> i < int n then Some (Inl sts) else None)"

fun get_log_values :: "nat \<Rightarrow> nat \<Rightarrow> mem \<Rightarrow> (u32 \<times> 'p pmvalue) list option" where
  "get_log_values 0 a m = Some []"
| "get_log_values (Suc n) a m = do {
     inst \<leftarrow> ldn m a;
     w \<leftarrow> ldn m (a + 4);
     vs \<leftarrow> get_log_values n (a + 8) m;
     Some ((inst, Lval w) # vs)
   }"

text \<open>The checks of one value set that lead to \<open>corrupt\<close>, once its \<open>numval\<close> is known.\<close>

definition log_set_bad :: "int \<Rightarrow> int \<Rightarrow> nat \<Rightarrow> bool" where
  "log_set_bad nv len vp \<longleftrightarrow> nv > len \<or>
     (if nv \<le> 0 then u64 (len - int vp) < 8
      else nv \<ge> (INT_MAX - 32) div 16 \<or> nv \<ge> (INT_MAX - 16) div 8 \<or> u64 (len - int vp) < 16 + (nv - 1) * 8)"

fun get_log_sets :: "(nat \<Rightarrow> bool) \<Rightarrow> nat \<Rightarrow> nat \<Rightarrow> nat \<Rightarrow> int \<Rightarrow> mem \<Rightarrow> 'p pmValueSet list c_result" where
  "get_log_sets mal 0 i vp len m = Some (Inr [])"
| "get_log_sets mal (Suc n) i vp len m =
     (if u64 (len - int vp) < 8 then log_corrupt (int i) i PM_ERR_IPC
      else do {
        w \<leftarrow> ldn m (vp + 4);
        let nv = sint w;
        (if log_set_bad nv len vp then log_corrupt (int i) i PM_ERR_IPC
         else if \<not> mal (Suc i) then log_corrupt (int i - 1) i (- ENOMEM)
         else do {
           pmid \<leftarrow> ldn m vp;
           vl \<leftarrow> get_log_values (nat nv) (vp + 8) m;
           let vs = \<lparr>vs_pmid = pmid, vs_numval = nv, vs_valfmt = Some PM_VAL_INSITU, vs_vlist = vl\<rparr>;
           r \<leftarrow> get_log_sets mal n (Suc i) (vp + nat (log_set_need vs)) len m;
           (case r of
              Inl e \<Rightarrow> Some (Inl e)
            | Inr vss \<Rightarrow> Some (Inr (vs # vss)))
         })
      })"

definition pmDecodeLogControl :: "(nat \<Rightarrow> bool) \<Rightarrow> mem \<Rightarrow> ('p pmValueSet list \<times> int \<times> int \<times> int) c_result" where
  "pmDecodeLogControl mal m = do {
     len \<leftarrow> pdu_len m;
     (if u64 len < 32 then Some (Inl PM_ERR_IPC)
      else do {
        control \<leftarrow> ldn m 12;
        state \<leftarrow> ldn m 16;
        delta \<leftarrow> ldn m 20;
        n \<leftarrow> ldn m 24;
        let numpmid = sint n;
        (if numpmid < 0 \<or> numpmid > len then Some (Inl PM_ERR_IPC)
         else if numpmid \<ge> (INT_MAX - 32) div 8 then Some (Inl PM_ERR_IPC)
         else if \<not> mal 0 then Some (Inl (- ENOMEM))
         else do {
           r \<leftarrow> get_log_sets mal (nat numpmid) 0 28 len m;
           (case r of
              Inl e \<Rightarrow> Some (Inl e)
            | Inr vss \<Rightarrow> Some (Inr (vss, sint control, sint state, sint delta)))
         })
      })
   }"

section \<open>Layout\<close>

definition wf_log_set :: "mem pmValueSet \<Rightarrow> bool" where
  "wf_log_set vs \<longleftrightarrow> is_int32 (vs_numval vs) \<and> wf_values PM_VAL_INSITU (vs_vlist vs) \<and>
     (if vs_vlist vs = [] then vs_numval vs \<le> 0 else vs_numval vs = int (length (vs_vlist vs)))"

definition log_set_bytes :: "mem pmValueSet \<Rightarrow> mem" where
  "log_set_bytes vs = n2b (vs_pmid vs) @ n2b (word_of_int (vs_numval vs)) @ net_values (vs_vlist vs) 0"

definition log_bytes :: "mem pmValueSet list \<Rightarrow> mem" where
  "log_bytes vss = concat (map log_set_bytes vss)"

definition log_size :: "mem pmValueSet list \<Rightarrow> nat" where
  "log_size vss = length (log_bytes vss)"

text \<open>The sets as they arrive: the decoder marks every one as having values in situ.\<close>

definition recv_log_set :: "mem pmValueSet \<Rightarrow> mem pmValueSet" where
  "recv_log_set vs = vs\<lparr>vs_valfmt := Some PM_VAL_INSITU\<rparr>"

lemma log_bytes_simps [simp]: "log_bytes [] = []" "log_bytes (vs # vss) = log_set_bytes vs @ log_bytes vss"
  "log_size [] = 0" "log_size (vs # vss) = length (log_set_bytes vs) + log_size vss" "length (log_bytes vss) = log_size vss"
  by (simp_all add: log_bytes_def log_size_def)

lemma log_set_need_wf: "wf_log_set vs \<Longrightarrow> log_set_need vs = int (length (log_set_bytes vs))"
  by (auto simp: wf_log_set_def log_set_need_def log_set_bytes_def split: if_splits)

lemma vlist_of_log: "wf_log_set vs \<Longrightarrow> vlist_of vs = Some (vs_vlist vs)"
  by (auto simp: wf_log_set_def vlist_of_def split: if_splits)

lemma put_log_values_spec:
  assumes "wf_values PM_VAL_INSITU vs" "a + 8 * length vs \<le> length m"
  shows "put_log_values vs a m = Some (upd m a (net_values vs b))"
  using assms
proof (induction vs arbitrary: a m b)
  case (Cons iv vs)
  then obtain i w where iv: "iv = (i, Lval w)" by (cases iv; cases "snd iv") auto
  then show ?case using Cons.IH [of "a + 8" _ b] Cons.prems by (simp add: mem_simps upd_upd_append)
qed simp

lemma put_log_sets_spec:
  assumes "list_all wf_log_set vss" "vp + log_size vss \<le> length m"
  shows "put_log_sets vss vp m = Some (upd m vp (log_bytes vss))"
  using assms
proof (induction vss arbitrary: vp m)
  case (Cons vs vss)
  have wf: "wf_log_set vs" and v: "wf_values PM_VAL_INSITU (vs_vlist vs)"
    using Cons.prems(1) by (auto simp: wf_log_set_def)
  let ?n = "length (log_set_bytes vs)"
  have n: "?n = 8 + 8 * length (vs_vlist vs)" by (simp add: log_set_bytes_def)
  have "put_log_sets (vs # vss) vp m = put_log_sets vss (vp + ?n) (upd m vp (log_set_bytes vs))"
    using Cons.prems(2) n log_set_need_wf [OF wf] vlist_of_log [OF wf] put_log_values_spec [OF v, of _ _ 0]
    by (simp add: mem_simps upd_upd_append log_set_bytes_def nat_add_distrib nat_mult_distrib)
  also have "\<dots> = Some (upd (upd m vp (log_set_bytes vs)) (vp + ?n) (log_bytes vss))"
    using Cons.prems by (intro Cons.IH) auto
  finally show ?case using Cons.prems(2) by (simp add: upd_upd_append)
qed simp

lemma get_log_values_spec:
  "wf_values PM_VAL_INSITU vs \<Longrightarrow> bytes_at m a (net_values vs b) \<Longrightarrow> get_log_values (length vs) a m = Some vs"
proof (induction vs arbitrary: a b)
  case (Cons iv vs)
  then obtain i w where iv: "iv = (i, Lval w)" by (cases iv; cases "snd iv") auto
  then have "ldn m a = Some i" "ldn m (a + 4) = Some w" "bytes_at m (a + 8) (net_values vs b)"
    using Cons.prems(2) by (auto simp: bytes_at_append add.assoc intro: bytes_at_ldn)
  then show ?case using Cons iv by simp
qed simp

lemma get_log_sets_step:
  assumes wf: "wf_log_set vs" and at: "bytes_at m vp (log_set_bytes vs)"
    and len: "vp + length (log_set_bytes vs) \<le> len" "len < 2 ^ 29" and mal: "mal (Suc i)"
  shows "get_log_sets mal (Suc n) i vp (int len) m =
    do { r \<leftarrow> get_log_sets mal n (Suc i) (vp + length (log_set_bytes vs)) (int len) m;
         case r of Inl e \<Rightarrow> Some (Inl e) | Inr vss \<Rightarrow> Some (Inr (recv_log_set vs # vss)) }"
proof -
  let ?n = "length (log_set_bytes vs)" and ?vl = "vs_vlist vs"
  have v: "wf_values PM_VAL_INSITU ?vl" using wf by (auto simp: wf_log_set_def)
  have n: "?n = 8 + 8 * length ?vl" by (simp add: log_set_bytes_def)
  have ats: "ldn m vp = Some (vs_pmid vs)" "ldn m (vp + 4) = Some (word_of_int (vs_numval vs))"
      "bytes_at m (vp + 8) (net_values ?vl 0)"
    using at by (auto simp: log_set_bytes_def bytes_at_append add.assoc intro: bytes_at_ldn)
  have u: "u64 (int len - int vp) = int len - int vp" using len by (intro u64_id) auto
  have i: "sint (word_of_int (vs_numval vs) :: u32) = vs_numval vs" using wf by (simp add: wf_log_set_def)
  have bad: "\<not> log_set_bad (vs_numval vs) (int len) vp"
    using wf len n u by (auto simp: log_set_bad_def wf_log_set_def INT_MAX_def split: if_splits)
  have nv: "nat (vs_numval vs) = length ?vl" using wf by (auto simp: wf_log_set_def split: if_splits)
  let ?vs = "\<lparr>vs_pmid = vs_pmid vs, vs_numval = vs_numval vs, vs_valfmt = Some PM_VAL_INSITU, vs_vlist = ?vl\<rparr>"
  have "nat (log_set_need ?vs) = ?n" using log_set_need_wf [OF wf] by (simp add: log_set_need_def split: if_splits)
  moreover have "recv_log_set vs = ?vs" by (simp add: recv_log_set_def)
  ultimately show ?thesis
    using ats get_log_values_spec [OF v ats(3)] u i bad nv len mal n by (simp add: Let_def)
qed

lemma get_log_sets_spec:
  assumes "list_all wf_log_set vss" "bytes_at m vp (log_bytes vss)" "vp + log_size vss \<le> len" "len < 2 ^ 29"
  shows "get_log_sets (\<lambda>_. True) (length vss) i vp (int len) m = Some (Inr (map recv_log_set vss))"
  using assms
proof (induction vss arbitrary: vp i)
  case (Cons vs vss)
  have "get_log_sets (\<lambda>_. True) (length vss) (Suc i) (vp + length (log_set_bytes vs)) (int len) m = Some (Inr (map recv_log_set vss))"
    using Cons.prems by (intro Cons.IH) (auto simp: bytes_at_append)
  moreover have "wf_log_set vs" "bytes_at m vp (log_set_bytes vs)" "vp + length (log_set_bytes vs) \<le> len"
    using Cons.prems by (auto simp: bytes_at_append)
  ultimately show ?case
    using get_log_sets_step [of vs m vp len "\<lambda>_. True" i "length vss"] Cons.prems(4) by (simp del: get_log_sets.simps)
qed simp

text \<open>A set that does not fit, after at least one that does, ends in a bad \<open>free\<close>.\<close>

lemma get_log_sets_bad_free:
  assumes "list_all wf_log_set vss" "bytes_at m vp (log_bytes vss)" "vp + log_size vss \<le> len" "len < vp + log_size vss + 8"
    "len < 2 ^ 29" "0 < i + length vss"
  shows "get_log_sets (\<lambda>_. True) (length vss + Suc k) i vp (int len) m = (None :: mem pmValueSet list c_result)"
  using assms
proof (induction vss arbitrary: vp i)
  case Nil
  then have "u64 (int len - int vp) = int len - int vp" by (intro u64_id) auto
  with Nil show ?case by (simp add: log_corrupt_def)
next
  case (Cons vs vss)
  have "get_log_sets (\<lambda>_. True) (length vss + Suc k) (Suc i) (vp + length (log_set_bytes vs)) (int len) m =
      (None :: mem pmValueSet list c_result)"
    using Cons.prems by (intro Cons.IH) (auto simp: bytes_at_append)
  moreover have "wf_log_set vs" "bytes_at m vp (log_set_bytes vs)" "vp + length (log_set_bytes vs) \<le> len"
    using Cons.prems by (auto simp: bytes_at_append)
  ultimately show ?case
    using get_log_sets_step [of vs m vp len "\<lambda>_. True" i "length vss + Suc k"] Cons.prems(5) by (simp del: get_log_sets.simps)
qed

section \<open>Round trip\<close>

definition wf_log_control :: "mem pmValueSet list \<Rightarrow> int \<times> int \<times> int \<Rightarrow> bool" where
  "wf_log_control vss c \<longleftrightarrow> vss \<noteq> [] \<and> list_all wf_log_set vss \<and> 28 + log_size vss < 2 ^ 29 \<and>
     (case c of (control, state, delta) \<Rightarrow> is_int32 control \<and> is_int32 state \<and> is_int32 delta)"

fun log_body :: "mem pmValueSet list \<times> int \<times> int \<times> int \<Rightarrow> mem" where
  "log_body (vss, control, state, delta) = n2b (word_of_int control) @ n2b (word_of_int state) @ n2b (word_of_int delta) @
     n2b (word_of_nat (length vss)) @ log_bytes vss"

lemma log_size_ge: "8 * length vss \<le> log_size vss"
  by (induction vss) (auto simp: log_set_bytes_def)

lemma sum_log_set_need: "list_all wf_log_set vss \<Longrightarrow> sum_list (map log_set_need vss) = int (log_size vss)"
  by (induction vss) (auto simp: log_set_need_wf)

lemma log_need_wf: "wf_log_control vss c \<Longrightarrow> log_need vss = int (28 + log_size vss)"
  by (simp add: log_need_def wf_log_control_def sum_log_set_need is_int32_def)

lemma build_log_control_spec:
  assumes wf: "wf_log_control vss c" and len: "28 + log_size vss \<le> length m" and c: "c = (control, state, delta)"
  shows "\<exists>m'. build_log_control vss control state delta m = Some m' \<and> length m' = length m \<and>
    bytes_at m' 0 (mk_pdu PDU_LOG_CONTROL 0 (log_body (vss, c)))"
proof -
  let ?m = "upd (upd (upd (upd (upd (upd (upd m 0 (w2b (word_of_int (log_need vss)))) 4 (w2b (word_of_int PDU_LOG_CONTROL)))
    8 (w2b 0)) 12 (n2b (word_of_int control))) 16 (n2b (word_of_int state))) 20 (n2b (word_of_int delta)))
    24 (n2b (word_of_nat (length vss)))"
  have "put_log_sets vss 28 ?m = Some (upd ?m 28 (log_bytes vss))"
    using wf len by (intro put_log_sets_spec) (auto simp: wf_log_control_def)
  then have "build_log_control vss control state delta m = Some (upd ?m 28 (log_bytes vss))"
    using len by (simp add: build_log_control_def mem_simps)
  then show ?thesis
    using len log_need_wf [OF wf] c by (auto simp: pdu_def bytes_at_append mem_simps add.assoc)
qed

lemma pmDecodeLogControl_spec:
  assumes wf: "wf_log_control vss (control, state, delta)" and at: "bytes_at m 0 (mk_pdu PDU_LOG_CONTROL 0 (log_body (vss, control, state, delta)))"
  shows "pmDecodeLogControl (\<lambda>_. True) m = Some (Inr (map recv_log_set vss, control, state, delta))"
proof -
  have W: "vss \<noteq> []" "list_all wf_log_set vss" "28 + log_size vss < 2 ^ 29" "is_int32 control" "is_int32 state" "is_int32 delta"
    using wf by (auto simp: wf_log_control_def)
  have L: "pdu_len m = Some (int (28 + log_size vss))"
    using pdu_len_pdu [OF at] sint_pdu_len [of "28 + log_size vss"] W(3) by (simp add: add.commute)
  have ats: "ldn m 12 = Some (word_of_int control)" "ldn m 16 = Some (word_of_int state)" "ldn m 20 = Some (word_of_int delta)"
      "ldn m 24 = Some (word_of_nat (length vss))" "bytes_at m 28 (log_bytes vss)"
    using pdu_body [OF at] by (simp_all add: bytes_at_append bytes_at_ldn)
  have n: "8 * length vss \<le> log_size vss" "0 < length vss" using log_size_ge W(1) by auto
  have n8: "\<not> log_size vss < 4" using n by linarith
  have sn: "sint (word_of_nat (length vss) :: u32) = int (length vss)" using n W(3) by (intro sint_pdu_len) simp
  have g: "get_log_sets (\<lambda>_. True) (length vss) 0 28 (int (28 + log_size vss)) m = Some (Inr (map recv_log_set vss))"
    using W ats(5) by (intro get_log_sets_spec) auto
  have u: "u64 (int (28 + log_size vss)) = int (28 + log_size vss)" using W(3) by (intro u64_id) auto
  show ?thesis using L ats(1-4) n n8 sn g u W(3-6) by (simp add: pmDecodeLogControl_def INT_MAX_def)
qed

interpretation log_control_codec: pdu_codec "\<lambda>x. wf_log_control (fst x) (snd x)" PDU_LOG_CONTROL "\<lambda>_. 0"
    "\<lambda>x. log_need (fst x)" "\<lambda>x. 16 + log_size (fst x)" "\<lambda>x body. body = log_body x"
    "\<lambda>(vss, control, state, delta). build_log_control vss control state delta" "pmDecodeLogControl (\<lambda>_. True)"
    "\<lambda>(vss, c). (map recv_log_set vss, c)"
proof
  show "0 \<le> PDU_LOG_CONTROL" "PDU_LOG_CONTROL < 2 ^ 31" by (simp_all add: PDU_defs)
next
  fix x :: "mem pmValueSet list \<times> int \<times> int \<times> int" and m body
  assume wf: "wf_log_control (fst x) (snd x)"
  obtain vss control state delta where x: "x = (vss, control, state, delta)" by (cases x) auto
  show "12 + (16 + log_size (fst x)) \<le> nat (INT_MAX - 2 * PDU_CHUNK)"
    using wf by (simp add: wf_log_control_def INT_MAX_def PDU_CHUNK_def)
  show "length body = 16 + log_size (fst x)" if "body = log_body x" using that x by simp
  show "\<exists>m' body. (case x of (vss, control, state, delta) \<Rightarrow> build_log_control vss control state delta) m = Some m' \<and>
      length m' = length m \<and> body = log_body x \<and> bytes_at m' 0 (mk_pdu PDU_LOG_CONTROL 0 body)"
    if "log_need (fst x) \<le> int (length m)"
    using build_log_control_spec [of vss "(control, state, delta)" m] wf that x log_need_wf [OF wf] by auto
  show "pmDecodeLogControl (\<lambda>_. True) m = Some (Inr (case x of (vss, c) \<Rightarrow> (map recv_log_set vss, c)))"
    if "body = log_body x" "bytes_at m 0 (mk_pdu PDU_LOG_CONTROL 0 body)"
    using pmDecodeLogControl_spec [of vss control state delta m] wf that x by simp
qed

section \<open>Properties\<close>

text \<open>a logging request for one or more metrics with any instances sent with \<open>__pmSendLogControl\<close> and read through any
  fragmentation is decoded by \<open>__pmDecodeLogControl\<close> to the same control, state, interval and
  value sets, each marked as in situ; a request that asks for retrospective or for advisory
  "maybe" logging is refused with \<open>-EINVAL\<close> and sends nothing.\<close>

theorem log_control_end_to_end:
  assumes "wf_log_control vss (control, state, delta)" and "can_send e (int (28 + log_size vss)) s" and "drains writes (28 + log_size vss)"
  shows "if delta < 0 \<or> control = PM_LOG_ADVISORY \<and> state = PM_LOG_MAYBE
    then pmSendLogControl e x writes vss control state delta s = Some (- EINVAL, [], s)
    else \<exists>sent s'. pmSendLogControl e x writes vss control state delta s = Some (int (28 + log_size vss), sent, s') \<and>
      pin_held s' = pin_held s \<and> length sent = 28 + log_size vss \<and>
      (\<forall>g mode timeout trips r rest.
         can_recv g mode timeout (int (28 + log_size vss)) trips r \<longrightarrow> stream trips = sent @ rest \<longrightarrow>
         (\<exists>a ts r'. pmGetPDU g mode timeout trips r = Some ((PDU_LOG_CONTROL, Some a), ts, r') \<and>
           pmDecodeLogControl (\<lambda>_. True) (heap r' a) = Some (Inr (map recv_log_set vss, control, state, delta)) \<and>
           stream ts = rest \<and> pin_held r' = (pin_held r)(a := 1)))"
proof -
  have l: "12 + (16 + log_size vss) = 28 + log_size vss" "12 + int (16 + log_size vss) = int (28 + log_size vss)" by simp_all
  note E = log_control_codec.end_to_end [of "(vss, control, state, delta)" e s writes x,
      unfolded fst_conv snd_conv log_need_wf [OF assms(1)] prod.case l, OF assms]
  show ?thesis using E by (simp add: pmSendLogControl_def log_need_wf [OF assms(1)])
qed

text \<open>when the second or a later value set of a request does not fit in the PDU,
  \<open>__pmDecodeLogControl\<close> frees an entry of its array that it has not set.\<close>

theorem log_control_bad_free:
  assumes at: "bytes_at m 0 (mk_pdu PDU_LOG_CONTROL 0 (t @ n2b (word_of_nat numpmid) @ log_bytes vss @ rest))"
    and t: "length t = 12" and vss: "vss \<noteq> []" "list_all wf_log_set vss" "length vss < numpmid" "numpmid \<le> 28 + log_size vss"
    and rest: "length rest < 8" and len: "36 + log_size vss < 2 ^ 27"
  shows "pmDecodeLogControl (\<lambda>_. True) m = (None :: (mem pmValueSet list \<times> int \<times> int \<times> int) c_result)"
proof -
  let ?len = "28 + log_size vss + length rest"
  have L: "pdu_len m = Some (int ?len)"
    using pdu_len_pdu [OF at] t rest len sint_pdu_len [of ?len] by (simp add: add.commute add.left_commute)
  have ats: "ldn m 24 = Some (word_of_nat numpmid)" "bytes_at m 28 (log_bytes vss)"
    using pdu_body [OF at] t by (simp_all add: bytes_at_append bytes_at_ldn)
  have "28 \<le> length m" using bytes_at_bound [OF ats(2)] by simp
  then obtain c st d where w: "ldn m 12 = Some c" "ldn m 16 = Some st" "ldn m 20 = Some d"
    using ldn_inside [of 12 m] ldn_inside [of 16 m] ldn_inside [of 20 m] by auto
  have n8: "\<not> log_size vss < 4" using log_size_ge [of vss] vss(1) by (cases vss) auto
  have sn: "sint (word_of_nat numpmid :: u32) = int numpmid" using vss(4) len by (intro sint_pdu_len) simp
  obtain k where k: "numpmid = length vss + Suc k" using less_imp_Suc_add [OF vss(3)] by auto
  have "get_log_sets (\<lambda>_. True) (length vss + Suc k) 0 28 (int ?len) m = (None :: mem pmValueSet list c_result)"
    using vss rest len ats(2) by (intro get_log_sets_bad_free) auto
  then have g: "get_log_sets (\<lambda>_. True) numpmid 0 28 (28 + int (log_size vss) + int (length rest)) m = (None :: mem pmValueSet list c_result)"
    using k by (simp add: add.assoc)
  have u: "u64 (int ?len) = int ?len" using rest len by (intro u64_id) auto
  show ?thesis
    using L ats(1) w n8 sn u vss(4) len rest
    by (simp add: pmDecodeLogControl_def INT_MAX_def g del: get_log_sets.simps)
qed

section \<open>Examples\<close>

definition sample_log_sets :: "mem pmValueSet list" where
  "sample_log_sets = [\<lparr>vs_pmid = 7, vs_numval = 2, vs_valfmt = Some 0, vs_vlist = [(1, Lval 0), (5, Lval 0)]\<rparr>,
     \<lparr>vs_pmid = 9, vs_numval = 0, vs_valfmt = Some 0, vs_vlist = []\<rparr>]"

lemma sample_log_sets_wf: "list_all wf_log_set sample_log_sets" "log_size sample_log_sets = 32" "map recv_log_set sample_log_sets = sample_log_sets"
  by (simp_all add: sample_log_sets_def wf_log_set_def is_int32_def PM_VAL_INSITU_def log_set_bytes_def recv_log_set_def)

lemma log_control_end_to_end_witness:
  "\<exists>sent s' a ts r'. pmSendLogControl (\<lambda>_. (False, None)) sample_xenv [60] sample_log_sets 11 2 5000 sample_io = Some (60, sent, s') \<and>
    pmGetPDU sample_env ANY_SIZE TIMEOUT_NEVER [Chunk (1, 0) (take 5 sent), Chunk (2, 0) (drop 5 sent)] sample_io =
      Some ((PDU_LOG_CONTROL, Some a), ts, r') \<and>
    pmDecodeLogControl (\<lambda>_. True) (heap r' a) = Some (Inr (sample_log_sets, 11, 2, 5000))"
proof -
  let ?e = "\<lambda>_::int. (False, None :: int option)"
  have wf: "wf_log_control sample_log_sets (11, 2, 5000)"
    using sample_log_sets_wf by (simp add: wf_log_control_def is_int32_def) (simp add: sample_log_sets_def)
  obtain sent s' where S: "pmSendLogControl ?e sample_xenv [60] sample_log_sets 11 2 5000 sample_io = Some (60, sent, s')" "length sent = 60"
    and R: "\<forall>g mode timeout trips r rest. can_recv g mode timeout 60 trips r \<longrightarrow> stream trips = sent @ rest \<longrightarrow>
       (\<exists>a ts r'. pmGetPDU g mode timeout trips r = Some ((PDU_LOG_CONTROL, Some a), ts, r') \<and>
         pmDecodeLogControl (\<lambda>_. True) (heap r' a) = Some (Inr (sample_log_sets, 11, 2, 5000)) \<and>
         stream ts = rest \<and> pin_held r' = (pin_held r)(a := 1))"
    using log_control_end_to_end [OF wf, of ?e sample_io "[60]" sample_xenv] sample_can_send [of 60]
    by (auto simp: sample_log_sets_wf PM_LOG_ADVISORY_def)
  let ?trips = "[Chunk (1, 0) (take 5 sent), Chunk (2, 0) (drop 5 sent)]"
  have "can_recv sample_env ANY_SIZE TIMEOUT_NEVER 60 ?trips sample_io" "stream ?trips = sent @ []"
    using sample_trips [of sent] S(2) by simp_all
  with R S(1) show ?thesis by blast
qed

lemma log_control_bad_free_witness:
  "pmDecodeLogControl (\<lambda>_. True) (mk_pdu PDU_LOG_CONTROL 0 (replicate 12 0 @ n2b 3 @ log_bytes sample_log_sets)) =
    (None :: (mem pmValueSet list \<times> int \<times> int \<times> int) c_result)"
proof -
  let ?p = "mk_pdu PDU_LOG_CONTROL 0 (replicate 12 0 @ n2b 3 @ log_bytes sample_log_sets)"
  have at: "bytes_at ?p 0 ?p" by (simp add: bytes_at_def ld_def)
  have "length sample_log_sets = 2" "sample_log_sets \<noteq> []" by (simp_all add: sample_log_sets_def)
  then show ?thesis
    using log_control_bad_free [of ?p "replicate 12 0" 3 sample_log_sets "[]"] at sample_log_sets_wf by simp
qed

end
