(* ===== verification/Optfetch.thy ===== *)
theory Optfetch
  imports Prelude "HOL-Library.Multiset"
begin

text \<open>
  The bundling of fetches, \<^verbatim>\<open>optfetch.c\<close>. A client's requests, each for some or all instances of a
  metric, are put into groups that are fetched together. A group has its requests by instance
  domain and metric, with the union of the instances at both levels. A new request is tried in
  every group and in a new one, stays in the one where the cost grows least, and is taken out of
  the others again. The linked lists of the code are lists, requests and groups are identified by
  their addresses, and costs are unbounded integers. Running out of memory ends the process.
\<close>

section \<open>Data\<close>

record optcost =
  c_pmid :: int
  c_indom :: int
  c_fetch :: int
  c_indomsize :: int
  c_xtrainst :: int
  c_scope :: int

definition default_optcost :: optcost where
  "default_optcost = \<lparr>c_pmid = 4, c_indom = 1, c_fetch = 15, c_indomsize = 10, c_xtrainst = 2, c_scope = 0\<rparr>"

text \<open>An empty list of instances asks for all of them.\<close>

record optreq =
  r_addr :: nat
  r_fetch :: "nat option"
  r_indom :: u32
  r_pmid :: u32
  r_instlist :: "int list"

record pmidctl =
  p_pmid :: u32
  p_rqp :: "optreq list"
  p_numinst :: int
  p_instlist :: "int list"

record indomctl =
  i_indom :: u32
  i_pmp :: "pmidctl list"
  i_numinst :: int
  i_instlist :: "int list"

record fetchctl =
  f_addr :: nat
  f_idp :: "indomctl list"
  f_state :: u32
  f_cost :: int
  f_newcost :: int
  f_pmidlist :: "u32 list"

definition OPT_STATE_NEW :: u32 where "OPT_STATE_NEW = 1"
definition OPT_STATE_PMID :: u32 where "OPT_STATE_PMID = 2"
definition OPT_STATE_PROFILE :: u32 where "OPT_STATE_PROFILE = 4"
definition OPT_STATE_UMASK :: u32 where "OPT_STATE_UMASK = 7"
definition OPT_STATE_XREQ :: u32 where "OPT_STATE_XREQ = 8"
definition OPT_STATE_XPMID :: u32 where "OPT_STATE_XPMID = 16"
definition OPT_STATE_XINDOM :: u32 where "OPT_STATE_XINDOM = 32"
definition OPT_STATE_XFETCH :: u32 where "OPT_STATE_XFETCH = 64"
definition OPT_STATE_XPROFILE :: u32 where "OPT_STATE_XPROFILE = 128"
definition OPT_COST_INFINITY :: int where "OPT_COST_INFINITY = 0x7fffffff"

text \<open>Metric and instance domain identifiers have the agent's domain in bits 22 to 30.\<close>

definition pmid_domain :: "u32 \<Rightarrow> u32" where
  "pmid_domain pmid = take_bit 9 (drop_bit 22 pmid)"

definition pmInDom_domain :: "u32 \<Rightarrow> u32" where
  "pmInDom_domain indom = take_bit 9 (drop_bit 22 indom)"

section \<open>Lists of metrics and instances\<close>

text \<open>Insertion into the descending list of metrics, with the result of \<open>addpmid\<close>.\<close>

fun add_desc :: "u32 \<Rightarrow> u32 list \<Rightarrow> int \<times> u32 list" where
  "add_desc pmid [] = (1, [pmid])"
| "add_desc pmid (x # xs) =
     (if pmid = x then (0, x # xs)
      else if pmid > x then (1, pmid # x # xs)
      else let (r, ys) = add_desc pmid xs in (r, x # ys))"

definition addpmid :: "fetchctl \<Rightarrow> u32 \<Rightarrow> int \<times> fetchctl" where
  "addpmid fp pmid = (let (r, l) = add_desc pmid (f_pmidlist fp) in (r, fp\<lparr>f_pmidlist := l\<rparr>))"

fun ins_inst :: "int \<Rightarrow> int list \<Rightarrow> int list" where
  "ins_inst x [] = [x]"
| "ins_inst x (y # ys) = (if y = x then y # ys else if y > x then x # y # ys else y # ins_inst x ys)"

fun ins_insts :: "int list \<Rightarrow> int list \<Rightarrow> int list" where
  "ins_insts il [] = il"
| "ins_insts il (x # xs) = ins_insts (ins_inst x il) xs"

text \<open>The number of instances is 0 for all of them and -1 when there is no request yet.\<close>

definition addinst :: "int \<times> int list \<Rightarrow> optreq \<Rightarrow> int \<times> int \<times> int list" where
  "addinst ni new = (case ni of (numinst, instlist) \<Rightarrow>
     if numinst = 0 then (0, numinst, instlist)
     else if r_instlist new = [] then (1, 0, [])
     else let il = ins_insts (take (nat (if numinst = - 1 then 0 else numinst)) instlist) (r_instlist new)
       in (1, int (length il), il))"

fun add_reqs :: "int \<times> int list \<Rightarrow> optreq list \<Rightarrow> int \<times> int list" where
  "add_reqs ni [] = ni"
| "add_reqs ni (r # rs) = add_reqs (snd (addinst ni r)) rs"

fun merge_miss :: "int list \<Rightarrow> int list \<Rightarrow> int" where
  "merge_miss [] bs = int (length bs)"
| "merge_miss as [] = int (length as)"
| "merge_miss (a # as) (b # bs) =
     (if a = b then merge_miss as bs
      else if a < b then 1 + merge_miss as (b # bs)
      else 1 + merge_miss (a # as) bs)"

definition missinst :: "optcost \<Rightarrow> int \<times> int list \<Rightarrow> int \<times> int list \<Rightarrow> int" where
  "missinst oc a b = (case (a, b) of ((numa, lista), (numb, listb)) \<Rightarrow>
     if numa = 0 then (if numb \<noteq> 0 \<and> numb < c_indomsize oc then c_indomsize oc - numb else 0)
     else if numa < 0 \<or> numb < 0 then numa + numb
     else merge_miss (take (nat numa) lista) (take (nat numb) listb))"

definition idp_reqs :: "indomctl \<Rightarrow> optreq list" where
  "idp_reqs idp = concat (map p_rqp (i_pmp idp))"

definition redo_pmid :: "pmidctl \<Rightarrow> pmidctl" where
  "redo_pmid pmp = (case add_reqs (- 1, p_instlist pmp) (p_rqp pmp) of (n, l) \<Rightarrow> pmp\<lparr>p_numinst := n, p_instlist := l\<rparr>)"

definition redo_indom :: "indomctl \<Rightarrow> indomctl" where
  "redo_indom idp = (case add_reqs (- 1, i_instlist idp) (idp_reqs idp) of (n, l) \<Rightarrow>
     idp\<lparr>i_pmp := map redo_pmid (i_pmp idp), i_numinst := n, i_instlist := l\<rparr>)"

definition redoinst :: "fetchctl \<Rightarrow> fetchctl" where
  "redoinst fp = fp\<lparr>f_idp := map redo_indom (f_idp fp)\<rparr>"

definition group_pmids :: "indomctl list \<Rightarrow> u32 list" where
  "group_pmids idps = concat (map (\<lambda>idp. map p_pmid (i_pmp idp)) idps)"

definition redopmid :: "fetchctl \<Rightarrow> fetchctl" where
  "redopmid fp = foldl (\<lambda>fp pmid. snd (addpmid fp pmid)) (fp\<lparr>f_pmidlist := []\<rparr>) (group_pmids (f_idp fp))"

section \<open>Cost\<close>

text \<open>How many of the domains are seen for the first time.\<close>

fun first_seen :: "u32 list \<Rightarrow> u32 list \<Rightarrow> int" where
  "first_seen seen [] = 0"
| "first_seen seen (d # ds) = (if List.member seen d then 0 else 1) + first_seen (seen @ [d]) ds"

definition indom_miss :: "optcost \<Rightarrow> indomctl \<Rightarrow> int" where
  "indom_miss oc idp = sum_list (map (\<lambda>pmp. c_xtrainst oc *
     missinst oc (i_numinst idp, i_instlist idp) (p_numinst pmp, p_instlist pmp)) (i_pmp idp))"

text \<open>The sum is kept in an \<open>int\<close>: it wraps around at every step, which is the same as once at the end.\<close>

definition optCost :: "optcost \<Rightarrow> fetchctl \<Rightarrow> int" where
  "optCost oc fp = s32 (
     c_pmid oc * first_seen [] (map pmid_domain (group_pmids (f_idp fp))) +
     c_indom oc * first_seen [] (map (pmInDom_domain \<circ> i_indom) (f_idp fp)) +
     sum_list (map (indom_miss oc) (f_idp fp)))"

section \<open>Adding a request\<close>

definition pmp_add :: "optreq \<Rightarrow> pmidctl \<Rightarrow> pmidctl" where
  "pmp_add new pmp = (case addinst (p_numinst pmp, p_instlist pmp) new of (_, n, l) \<Rightarrow>
     pmp\<lparr>p_numinst := n, p_instlist := l\<rparr>)"

text \<open>Change the first element with a property.\<close>

fun upd_first :: "('a \<Rightarrow> bool) \<Rightarrow> ('a \<Rightarrow> 'a) \<Rightarrow> 'a list \<Rightarrow> 'a list" where
  "upd_first P f [] = []"
| "upd_first P f (x # xs) = (if P x then f x # xs else x # upd_first P f xs)"

definition has_pmid :: "u32 \<Rightarrow> indomctl \<Rightarrow> bool" where
  "has_pmid pmid idp \<longleftrightarrow> list_ex (\<lambda>p. p_pmid p = pmid) (i_pmp idp)"

definition new_pmp :: "u32 \<Rightarrow> pmidctl" where
  "new_pmp pmid = \<lparr>p_pmid = pmid, p_rqp = [], p_numinst = - 1, p_instlist = []\<rparr>"

definition new_idp :: "u32 \<Rightarrow> indomctl" where
  "new_idp indom = \<lparr>i_indom = indom, i_pmp = [], i_numinst = - 1, i_instlist = []\<rparr>"

definition idp_add :: "optreq \<Rightarrow> indomctl \<Rightarrow> indomctl" where
  "idp_add new idp = (
     let pmps = (if has_pmid (r_pmid new) idp then i_pmp idp else new_pmp (r_pmid new) # i_pmp idp) in
     case addinst (i_numinst idp, i_instlist idp) new of (_, n, l) \<Rightarrow>
       idp\<lparr>i_pmp := upd_first (\<lambda>p. p_pmid p = r_pmid new) (pmp_add new) pmps, i_numinst := n, i_instlist := l\<rparr>)"

text \<open>One turn of the first loop of \<open>__pmOptFetchAdd\<close>: try the request in a group.\<close>

definition try_change :: "optreq \<Rightarrow> indomctl list \<Rightarrow> u32" where
  "try_change new idps = (case find (\<lambda>idp. i_indom idp = r_indom new) idps of
     None \<Rightarrow> OPT_STATE_XINDOM OR OPT_STATE_XPMID OR OPT_STATE_XREQ
   | Some idp \<Rightarrow> if has_pmid (r_pmid new) idp then OPT_STATE_XREQ else OPT_STATE_XPMID OR OPT_STATE_XREQ)"

definition try_add :: "optcost \<Rightarrow> bool \<Rightarrow> optreq \<Rightarrow> fetchctl \<Rightarrow> fetchctl" where
  "try_add oc is_root new fp = (
     let cost = optCost oc fp;
         change = try_change new (f_idp fp) OR (if is_root then OPT_STATE_XFETCH else 0);
         idps = (if change AND OPT_STATE_XINDOM \<noteq> 0 then new_idp (r_indom new) # f_idp fp else f_idp fp);
         changed = (case find (\<lambda>idp. i_indom idp = r_indom new) idps of
           None \<Rightarrow> 0 | Some idp \<Rightarrow> fst (addinst (i_numinst idp, i_instlist idp) new));
         fp = fp\<lparr>f_cost := cost,
           f_state := (f_state fp AND OPT_STATE_UMASK) OR change OR (if changed \<noteq> 0 then OPT_STATE_XPROFILE else 0),
           f_idp := upd_first (\<lambda>idp. i_indom idp = r_indom new) (idp_add new) idps\<rparr>
     in fp\<lparr>f_newcost := (if is_root then s32 (optCost oc fp + c_fetch oc) else optCost oc fp)\<rparr>)"

text \<open>The second loop finds the cheapest group.\<close>

definition add_cost :: "optcost \<Rightarrow> fetchctl \<Rightarrow> int" where
  "add_cost oc fp = (if c_scope oc \<noteq> 0 then f_newcost fp else s32 (f_newcost fp - f_cost fp))"

fun cheapest :: "optcost \<Rightarrow> nat \<Rightarrow> int \<Rightarrow> nat option \<Rightarrow> fetchctl list \<Rightarrow> nat option" where
  "cheapest oc i mincost tfp [] = tfp"
| "cheapest oc i mincost tfp (fp # fps) =
     (if add_cost oc fp < mincost then cheapest oc (Suc i) (add_cost oc fp) (Some i) fps
      else cheapest oc (Suc i) mincost tfp fps)"

text \<open>The third loop keeps the request in the chosen group and takes it out of the others.\<close>

definition placed :: "optreq \<Rightarrow> fetchctl \<Rightarrow> bool" where
  "placed new fp \<longleftrightarrow> (case find (\<lambda>idp. i_indom idp = r_indom new) (f_idp fp) of
     None \<Rightarrow> False | Some idp \<Rightarrow> has_pmid (r_pmid new) idp)"

definition link_req :: "optreq \<Rightarrow> indomctl \<Rightarrow> indomctl" where
  "link_req new idp = idp\<lparr>i_pmp := upd_first (\<lambda>p. p_pmid p = r_pmid new) (\<lambda>p. p\<lparr>p_rqp := new # p_rqp p\<rparr>) (i_pmp idp)\<rparr>"

definition keep_add :: "optreq \<Rightarrow> fetchctl \<Rightarrow> fetchctl" where
  "keep_add new fp = (
     let (r, fp') = addpmid fp (r_pmid new);
         state = f_state fp OR (if f_state fp AND OPT_STATE_XFETCH \<noteq> 0 then OPT_STATE_NEW else 0)
           OR (if r \<noteq> 0 then OPT_STATE_PMID else 0)
           OR (if f_state fp AND OPT_STATE_XPROFILE \<noteq> 0 then OPT_STATE_PROFILE else 0)
     in fp'\<lparr>f_idp := upd_first (\<lambda>idp. i_indom idp = r_indom new) (link_req (new\<lparr>r_fetch := Some (f_addr fp)\<rparr>)) (f_idp fp),
          f_cost := f_newcost fp, f_state := state AND OPT_STATE_UMASK\<rparr>)"

definition after_first :: "('a \<Rightarrow> bool) \<Rightarrow> 'a list \<Rightarrow> 'a list" where
  "after_first P xs = tl (dropWhile (\<lambda>x. \<not> P x) xs)"

definition undo_idps :: "optreq \<Rightarrow> u32 \<Rightarrow> indomctl list \<Rightarrow> indomctl list" where
  "undo_idps new state idps = (
     let idps = (if state AND OPT_STATE_XPMID \<noteq> 0
           then upd_first (\<lambda>idp. i_indom idp = r_indom new)
             (\<lambda>idp. idp\<lparr>i_pmp := after_first (\<lambda>p. p_pmid p = r_pmid new) (i_pmp idp)\<rparr>) idps
           else idps)
     in if state AND OPT_STATE_XINDOM \<noteq> 0 then after_first (\<lambda>idp. i_indom idp = r_indom new) idps else idps)"

definition undo_add :: "optreq \<Rightarrow> fetchctl \<Rightarrow> fetchctl option" where
  "undo_add new fp = (
     if f_state fp AND OPT_STATE_XFETCH \<noteq> 0 then None
     else Some ((redoinst (fp\<lparr>f_idp := undo_idps new (f_state fp) (f_idp fp)\<rparr>))\<lparr>f_state := f_state fp AND OPT_STATE_UMASK\<rparr>))"

text \<open>A failed \<open>assert\<close> is \<^const>\<open>None\<close>.\<close>

fun settle :: "optreq \<Rightarrow> nat \<Rightarrow> nat option \<Rightarrow> fetchctl list \<Rightarrow> fetchctl list option" where
  "settle new i tfp [] = Some []"
| "settle new i tfp (fp # fps) =
     (if \<not> placed new fp then None
      else do {
        rest \<leftarrow> settle new (Suc i) tfp fps;
        Some ((if tfp = Some i then [keep_add new fp] else case undo_add new fp of None \<Rightarrow> [] | Some fp' \<Rightarrow> [fp']) @ rest)
      })"

definition new_fetch :: "nat \<Rightarrow> fetchctl" where
  "new_fetch a = \<lparr>f_addr = a, f_idp = [], f_state = 0, f_cost = 0, f_newcost = 0, f_pmidlist = []\<rparr>"

definition tried :: "optcost \<Rightarrow> nat \<Rightarrow> optreq \<Rightarrow> fetchctl list \<Rightarrow> fetchctl list" where
  "tried oc a new root = try_add oc True new (new_fetch a) # map (try_add oc False new) root"

definition pmOptFetchAdd :: "optcost \<Rightarrow> nat \<Rightarrow> optreq \<Rightarrow> fetchctl list \<Rightarrow> fetchctl list option" where
  "pmOptFetchAdd oc a new root = (
     let fps = tried oc a new root in settle new 0 (cheapest oc 0 OPT_COST_INFINITY None fps) fps)"

section \<open>Removing a request, and adding all again\<close>

fun del_req :: "nat \<Rightarrow> optreq list \<Rightarrow> optreq list option" where
  "del_req a [] = None"
| "del_req a (r # rs) = (if r_addr r = a then Some rs else map_option ((#) r) (del_req a rs))"

fun del_pmp :: "nat \<Rightarrow> pmidctl list \<Rightarrow> pmidctl list option" where
  "del_pmp a [] = None"
| "del_pmp a (p # ps) = (case del_req a (p_rqp p) of
     None \<Rightarrow> map_option ((#) p) (del_pmp a ps)
   | Some rs \<Rightarrow> Some (if rs = [] then ps else p\<lparr>p_rqp := rs\<rparr> # ps))"

fun del_idp :: "nat \<Rightarrow> indomctl list \<Rightarrow> indomctl list option" where
  "del_idp a [] = None"
| "del_idp a (idp # idps) = (case del_pmp a (i_pmp idp) of
     None \<Rightarrow> map_option ((#) idp) (del_idp a idps)
   | Some ps \<Rightarrow> Some (if ps = [] then idps else idp\<lparr>i_pmp := ps\<rparr> # idps))"

definition redo_fetch :: "optcost \<Rightarrow> fetchctl \<Rightarrow> fetchctl" where
  "redo_fetch oc fp = (
     let fp = redopmid (redoinst fp);
         fp = fp\<lparr>f_state := OPT_STATE_PMID OR OPT_STATE_PROFILE\<rparr>
     in fp\<lparr>f_cost := optCost oc fp\<rparr>)"

fun del_fetch :: "optcost \<Rightarrow> nat \<Rightarrow> fetchctl list \<Rightarrow> fetchctl list option" where
  "del_fetch oc a [] = None"
| "del_fetch oc a (fp # fps) = (case del_idp a (f_idp fp) of
     None \<Rightarrow> map_option ((#) fp) (del_fetch oc a fps)
   | Some idps \<Rightarrow> Some (if idps = [] then fps else redo_fetch oc (fp\<lparr>f_idp := idps\<rparr>) # fps))"

definition pmOptFetchDel :: "optcost \<Rightarrow> nat \<Rightarrow> fetchctl list \<Rightarrow> int \<times> fetchctl list" where
  "pmOptFetchDel oc a root = (case del_fetch oc a root of None \<Rightarrow> (- 1, root) | Some root' \<Rightarrow> (0, root'))"

definition fetch_reqs :: "fetchctl \<Rightarrow> optreq list" where
  "fetch_reqs fp = concat (map idp_reqs (f_idp fp))"

definition root_reqs :: "fetchctl list \<Rightarrow> optreq list" where
  "root_reqs root = concat (map fetch_reqs root)"

text \<open>The list of all requests is cut after a random element and spliced; \<open>alloc\<close> are the addresses of
  the new groups.\<close>

definition cut_splice :: "nat \<Rightarrow> optreq list \<Rightarrow> optreq list" where
  "cut_splice k rlist = (if k = 0 then rlist else drop (Suc k) rlist @ take (Suc k) rlist)"

fun add_all :: "optcost \<Rightarrow> (nat \<Rightarrow> nat) \<Rightarrow> optreq list \<Rightarrow> fetchctl list \<Rightarrow> fetchctl list option" where
  "add_all oc alloc [] root = Some root"
| "add_all oc alloc (r # rs) root = do {
     root \<leftarrow> pmOptFetchAdd oc (alloc (length rs)) r root;
     add_all oc alloc rs root
   }"

definition pmOptFetchRedo :: "optcost \<Rightarrow> (nat \<Rightarrow> nat) \<Rightarrow> nat \<Rightarrow> fetchctl list \<Rightarrow> fetchctl list option" where
  "pmOptFetchRedo oc alloc lrand48 root = (
     let rlist = rev (root_reqs root); numreq = length rlist in
     if numreq = 0 then Some []
     else add_all oc alloc (cut_splice (lrand48 mod numreq) rlist) [])"

definition pmOptFetchGetParams :: "optcost \<Rightarrow> optcost" where
  "pmOptFetchGetParams oc = oc"

definition pmOptFetchPutParams :: "optcost \<Rightarrow> optcost \<Rightarrow> optcost" where
  "pmOptFetchPutParams ocp oc = ocp"

section \<open>Unions of instances\<close>

lemma ins_inst_spec: "sorted_wrt (<) ys \<Longrightarrow> sorted_wrt (<) (ins_inst x ys) \<and> set (ins_inst x ys) = insert x (set ys)"
  by (induction ys) auto

lemma ins_insts_spec:
  "sorted_wrt (<) il \<Longrightarrow> sorted_wrt (<) (ins_insts il xs) \<and> set (ins_insts il xs) = set il \<union> set xs"
proof (induction xs arbitrary: il)
  case (Cons x xs)
  then show ?case using Cons.IH [of "ins_inst x il"] ins_inst_spec [of il x] by auto
qed simp

lemma ins_insts_eq: "sorted_wrt (<) il \<Longrightarrow> ins_insts il xs = sorted_list_of_set (set il \<union> set xs)"
  using ins_insts_spec [of il xs] strict_sorted_list_of_set [of "set il \<union> set xs"]
  by (intro strict_sorted_equal) auto

text \<open>What the two counts and lists of a group must be: all instances, or the union in order.\<close>

definition insts_of :: "optreq list \<Rightarrow> int \<times> int list" where
  "insts_of rs = (if list_ex (\<lambda>r. r_instlist r = []) rs then (0, [])
     else let l = sorted_list_of_set (\<Union>r \<in> set rs. set (r_instlist r)) in (int (length l), l))"

lemma insts_of_alt:
  "insts_of rs = (if [] \<in> r_instlist ` set rs then (0, [])
     else let l = sorted_list_of_set (\<Union> (set ` r_instlist ` set rs)) in (int (length l), l))"
proof -
  have "list_ex (\<lambda>r. r_instlist r = []) rs \<longleftrightarrow> [] \<in> r_instlist ` set rs" unfolding list_ex_iff image_iff by (metis (mono_tags))
  then show ?thesis by (simp add: insts_of_def image_image)
qed

lemma insts_of_cong: "r_instlist ` set rs = r_instlist ` set qs \<Longrightarrow> insts_of rs = insts_of qs"
  by (simp add: insts_of_alt)

lemma insts_of_nonzero:
  assumes "rs \<noteq> []" "\<not> list_ex (\<lambda>r. r_instlist r = []) rs"
  shows "0 < fst (insts_of rs)"
proof -
  let ?A = "\<Union>r \<in> set rs. set (r_instlist r)"
  obtain r where "r \<in> set rs" "r_instlist r \<noteq> []" using assms by (cases rs) (auto simp: list_ex_iff)
  then have "?A \<noteq> {}" by fastforce
  then have "0 < card ?A" by (simp add: card_gt_0_iff)
  then show ?thesis using assms(2) by (simp add: insts_of_def)
qed

lemma addinst_first: "snd (addinst (- 1, l) r) = insts_of [r]"
  by (simp add: addinst_def insts_of_def ins_insts_eq)

lemma addinst_more:
  assumes "rs \<noteq> []"
  shows "snd (addinst (insts_of rs) r) = insts_of (r # rs)"
proof (cases "list_ex (\<lambda>r. r_instlist r = []) rs")
  case True
  then show ?thesis by (simp add: insts_of_def addinst_def)
next
  case False
  let ?A = "\<Union>r \<in> set rs. set (r_instlist r)"
  have n: "0 < length (sorted_list_of_set ?A)" using insts_of_nonzero [OF assms False] False by (simp add: insts_of_def)
  have "ins_insts (sorted_list_of_set ?A) (r_instlist r) = sorted_list_of_set (set (sorted_list_of_set ?A) \<union> set (r_instlist r))"
    by (intro ins_insts_eq) simp
  moreover have "\<exists>x \<in> set rs. r_instlist x \<noteq> []" using assms False by (cases rs) (auto simp: list_ex_iff)
  ultimately show ?thesis using n False by (auto simp: insts_of_def addinst_def Let_def Un_commute)
qed

lemma add_reqs_more: "rs \<noteq> [] \<Longrightarrow> add_reqs (insts_of rs) qs = insts_of (rs @ qs)"
proof (induction qs arbitrary: rs)
  case (Cons q qs)
  have "add_reqs (insts_of rs) (q # qs) = insts_of ((q # rs) @ qs)"
    using Cons.IH [of "q # rs"] Cons.prems by (simp add: addinst_more)
  also have "\<dots> = insts_of (rs @ q # qs)" by (rule insts_of_cong) auto
  finally show ?case .
qed simp

lemma add_reqs_all: "rs \<noteq> [] \<Longrightarrow> add_reqs (- 1, l) rs = insts_of rs"
proof (cases rs)
  case (Cons r qs)
  then show "add_reqs (- 1, l) rs = insts_of rs" using add_reqs_more [of "[r]" qs] by (simp add: addinst_first)
qed simp

section \<open>Invariant\<close>

definition wf_pmp :: "u32 \<Rightarrow> pmidctl \<Rightarrow> bool" where
  "wf_pmp indom p \<longleftrightarrow> p_rqp p \<noteq> [] \<and> (\<forall>r \<in> set (p_rqp p). r_pmid r = p_pmid p \<and> r_indom r = indom) \<and>
     (p_numinst p, p_instlist p) = insts_of (p_rqp p)"

definition wf_idp :: "indomctl \<Rightarrow> bool" where
  "wf_idp idp \<longleftrightarrow> i_pmp idp \<noteq> [] \<and> distinct (map p_pmid (i_pmp idp)) \<and> list_all (wf_pmp (i_indom idp)) (i_pmp idp) \<and>
     (i_numinst idp, i_instlist idp) = insts_of (idp_reqs idp)"

definition wf_fetch :: "fetchctl \<Rightarrow> bool" where
  "wf_fetch fp \<longleftrightarrow> f_idp fp \<noteq> [] \<and> distinct (map i_indom (f_idp fp)) \<and> list_all wf_idp (f_idp fp) \<and>
     sorted_wrt (>) (f_pmidlist fp) \<and> set (f_pmidlist fp) = set (group_pmids (f_idp fp)) \<and>
     f_state fp AND OPT_STATE_UMASK = f_state fp \<and> (\<forall>r \<in> set (fetch_reqs fp). r_fetch r = Some (f_addr fp))"

definition root_ok :: "fetchctl list \<Rightarrow> bool" where
  "root_ok root \<longleftrightarrow> list_all wf_fetch root \<and> distinct (map f_addr root) \<and> distinct (map r_addr (root_reqs root))"

text \<open>A request as its owner made it, without the pointer to its group; all requests of the groups.\<close>

definition strip :: "optreq \<Rightarrow> optreq" where
  "strip r = r\<lparr>r_fetch := None\<rparr>"

definition requests :: "fetchctl list \<Rightarrow> optreq multiset" where
  "requests root = image_mset strip (mset (root_reqs root))"

text \<open>The shape of an indom control without its instances, from which \<open>redoinst\<close> restores them.\<close>

definition shape :: "indomctl \<Rightarrow> u32 \<times> (u32 \<times> optreq list) list" where
  "shape idp = (i_indom idp, map (\<lambda>p. (p_pmid p, p_rqp p)) (i_pmp idp))"

lemma redo_pmid_shape: "wf_pmp indom p \<Longrightarrow> p_pmid q = p_pmid p \<Longrightarrow> p_rqp q = p_rqp p \<Longrightarrow> redo_pmid q = p"
  by (cases p; cases q) (auto simp: redo_pmid_def wf_pmp_def add_reqs_all split: prod.splits)

lemma map_eq_pointwise: "map f xs = map g ys \<Longrightarrow> (\<And>x y. y \<in> set ys \<Longrightarrow> f x = g y \<Longrightarrow> h x = y) \<Longrightarrow> map h xs = ys"
proof (induction ys arbitrary: xs)
  case (Cons y ys)
  then obtain x zs where "xs = x # zs" by (cases xs) auto
  with Cons show ?case by auto
qed simp

lemma concat_shape: "map (\<lambda>p. (f p, g p)) xs = map (\<lambda>p. (f p, g p)) ys \<Longrightarrow> concat (map g xs) = concat (map g ys)"
  by (drule arg_cong [of _ _ "\<lambda>l. concat (map snd l)"]) (simp add: comp_def)

lemma redo_indom_shape:
  assumes wf: "wf_idp idp" and sh: "shape idp' = shape idp"
  shows "redo_indom idp' = idp"
proof -
  have eq: "map (\<lambda>p. (p_pmid p, p_rqp p)) (i_pmp idp') = map (\<lambda>p. (p_pmid p, p_rqp p)) (i_pmp idp)" and i: "i_indom idp' = i_indom idp"
    using sh by (auto simp: shape_def)
  have "map redo_pmid (i_pmp idp') = i_pmp idp"
    using eq by (rule map_eq_pointwise) (use wf in \<open>auto simp: wf_idp_def list_all_iff intro: redo_pmid_shape\<close>)
  moreover have "idp_reqs idp' = idp_reqs idp" using concat_shape [OF eq] by (simp add: idp_reqs_def)
  moreover have "idp_reqs idp \<noteq> []" using wf by (cases "i_pmp idp") (auto simp: wf_idp_def wf_pmp_def idp_reqs_def)
  ultimately show ?thesis
    using wf i by (cases idp; cases idp') (auto simp: redo_indom_def wf_idp_def add_reqs_all split: prod.splits)
qed

lemma redoinst_shape:
  assumes "list_all wf_idp idps" "map shape idps' = map shape idps"
  shows "map redo_indom idps' = idps"
  using assms(2) by (rule map_eq_pointwise) (use assms(1) in \<open>auto simp: list_all_iff intro: redo_indom_shape\<close>)

section \<open>Trying a request\<close>

text \<open>Masks of the state word.\<close>

lemma state_bits: "((s AND OPT_STATE_UMASK) OR c) AND k = c AND k" if "OPT_STATE_UMASK AND k = 0" for s c k :: u32
  using that by (simp add: word_ao_dist word_bw_assocs)

lemma state_umask: "((s AND OPT_STATE_UMASK) OR c) AND OPT_STATE_UMASK = s AND OPT_STATE_UMASK" if "c AND OPT_STATE_UMASK = 0" for s c :: u32
  using that by (simp add: word_ao_dist word_bw_assocs)

lemmas state_defs = OPT_STATE_NEW_def OPT_STATE_PMID_def OPT_STATE_PROFILE_def OPT_STATE_UMASK_def OPT_STATE_XREQ_def
  OPT_STATE_XPMID_def OPT_STATE_XINDOM_def OPT_STATE_XFETCH_def OPT_STATE_XPROFILE_def

lemma upd_first_none: "(\<And>x. x \<in> set xs \<Longrightarrow> \<not> P x) \<Longrightarrow> upd_first P f xs = xs"
  by (induction xs) auto

lemma upd_first_split: "(\<And>x. x \<in> set xs \<Longrightarrow> \<not> P x) \<Longrightarrow> P y \<Longrightarrow> upd_first P f (xs @ y # ys) = xs @ f y # ys"
  by (induction xs) auto

lemma find_split: "(\<And>x. x \<in> set xs \<Longrightarrow> \<not> P x) \<Longrightarrow> P y \<Longrightarrow> find P (xs @ y # ys) = Some y"
  by (induction xs) auto

lemma find_NoneI: "(\<And>x. x \<in> set xs \<Longrightarrow> \<not> P x) \<Longrightarrow> find P xs = None"
  by (induction xs) auto

lemma after_first_split: "(\<And>x. x \<in> set xs \<Longrightarrow> \<not> P x) \<Longrightarrow> P y \<Longrightarrow> after_first P (xs @ y # ys) = ys"
  by (induction xs) (auto simp: after_first_def)

text \<open>
  The indom controls with the request tried in them: the one for its domain, an old one or a new
  one at the front, is changed by \<^const>\<open>idp_add\<close>.
\<close>

lemma indom_cases:
  obtains (old) pre idp post where "idps = pre @ idp # post" "i_indom idp = indom" "\<forall>x \<in> set pre. i_indom x \<noteq> indom"
  | (new) "\<forall>x \<in> set idps. i_indom x \<noteq> indom"
proof (cases "\<exists>x \<in> set idps. i_indom x = indom")
  case True
  then obtain pre idp post where "idps = pre @ idp # post" "i_indom idp = indom" "\<forall>x \<in> set pre. i_indom x \<noteq> indom"
    using split_list_first_prop [of idps "\<lambda>x. i_indom x = indom"] by blast
  then show ?thesis by (rule old)
qed (use new in blast)

lemma pmid_cases:
  obtains (old) pre p post where "pmps = pre @ p # post" "p_pmid p = pmid" "\<forall>x \<in> set pre. p_pmid x \<noteq> pmid"
  | (new) "\<forall>x \<in> set pmps. p_pmid x \<noteq> pmid"
proof (cases "\<exists>x \<in> set pmps. p_pmid x = pmid")
  case True
  then obtain pre p post where "pmps = pre @ p # post" "p_pmid p = pmid" "\<forall>x \<in> set pre. p_pmid x \<noteq> pmid"
    using split_list_first_prop [of pmps "\<lambda>x. p_pmid x = pmid"] by blast
  then show ?thesis by (rule old)
qed (use new in blast)

lemma idp_add_old:
  assumes "i_pmp idp = pre @ p # post" "p_pmid p = r_pmid new" "\<forall>x \<in> set pre. p_pmid x \<noteq> r_pmid new"
  shows "i_pmp (idp_add new idp) = pre @ pmp_add new p # post" "has_pmid (r_pmid new) idp"
proof -
  show h: "has_pmid (r_pmid new) idp" using assms by (auto simp: has_pmid_def)
  show "i_pmp (idp_add new idp) = pre @ pmp_add new p # post"
    using assms h by (simp add: idp_add_def upd_first_split split: prod.split)
qed

lemma idp_add_new:
  assumes "\<forall>x \<in> set (i_pmp idp). p_pmid x \<noteq> r_pmid new"
  shows "i_pmp (idp_add new idp) = pmp_add new (new_pmp (r_pmid new)) # i_pmp idp" "\<not> has_pmid (r_pmid new) idp"
proof -
  show h: "\<not> has_pmid (r_pmid new) idp" using assms by (auto simp: has_pmid_def list_ex_iff)
  show "i_pmp (idp_add new idp) = pmp_add new (new_pmp (r_pmid new)) # i_pmp idp"
    using h by (simp add: idp_add_def new_pmp_def split: prod.split)
qed

lemma add_fields [simp]: "i_indom (idp_add new idp) = i_indom idp" "p_pmid (pmp_add new p) = p_pmid p" "p_rqp (pmp_add new p) = p_rqp p"
  "p_pmid (new_pmp pmid) = pmid" "p_rqp (new_pmp pmid) = []" "i_indom (new_idp indom) = indom" "i_pmp (new_idp indom) = []"
  by (auto simp: idp_add_def pmp_add_def new_pmp_def new_idp_def Let_def split: prod.split)

text \<open>The three ways a request can enter a group, and what is tried in each.\<close>

lemma try_add_old:
  assumes "f_idp fp = pre @ idp # post" "i_indom idp = r_indom new" "\<forall>x \<in> set pre. i_indom x \<noteq> r_indom new"
  shows "f_idp (try_add oc is_root new fp) = pre @ idp_add new idp # post"
    "\<exists>c. f_state (try_add oc is_root new fp) = (f_state fp AND OPT_STATE_UMASK) OR c \<and> c AND OPT_STATE_UMASK = 0 \<and>
       (c AND OPT_STATE_XPMID \<noteq> 0 \<longleftrightarrow> \<not> has_pmid (r_pmid new) idp) \<and> c AND OPT_STATE_XINDOM = 0 \<and>
       (c AND OPT_STATE_XFETCH \<noteq> 0 \<longleftrightarrow> is_root)"
proof -
  have f: "find (\<lambda>idp. i_indom idp = r_indom new) (f_idp fp) = Some idp"
    using assms by (simp add: find_split)
  then show "f_idp (try_add oc is_root new fp) = pre @ idp_add new idp # post"
    using assms by (auto simp: try_add_def try_change_def Let_def state_defs upd_first_split)
  show "\<exists>c. f_state (try_add oc is_root new fp) = (f_state fp AND OPT_STATE_UMASK) OR c \<and> c AND OPT_STATE_UMASK = 0 \<and>
       (c AND OPT_STATE_XPMID \<noteq> 0 \<longleftrightarrow> \<not> has_pmid (r_pmid new) idp) \<and> c AND OPT_STATE_XINDOM = 0 \<and>
       (c AND OPT_STATE_XFETCH \<noteq> 0 \<longleftrightarrow> is_root)"
    using f by (auto simp: try_add_def try_change_def Let_def state_defs word_bw_assocs split: option.split if_splits)
qed

lemma try_add_new:
  assumes "\<forall>x \<in> set (f_idp fp). i_indom x \<noteq> r_indom new"
  shows "f_idp (try_add oc is_root new fp) = idp_add new (new_idp (r_indom new)) # f_idp fp"
    "\<exists>c. f_state (try_add oc is_root new fp) = (f_state fp AND OPT_STATE_UMASK) OR c \<and> c AND OPT_STATE_UMASK = 0 \<and>
       c AND OPT_STATE_XPMID \<noteq> 0 \<and> c AND OPT_STATE_XINDOM \<noteq> 0 \<and> (c AND OPT_STATE_XFETCH \<noteq> 0 \<longleftrightarrow> is_root)"
proof -
  have f: "find (\<lambda>idp. i_indom idp = r_indom new) (f_idp fp) = None"
    using assms by (intro find_NoneI) auto
  then show "f_idp (try_add oc is_root new fp) = idp_add new (new_idp (r_indom new)) # f_idp fp"
    by (simp add: try_add_def try_change_def Let_def state_defs)
  show "\<exists>c. f_state (try_add oc is_root new fp) = (f_state fp AND OPT_STATE_UMASK) OR c \<and> c AND OPT_STATE_UMASK = 0 \<and>
       c AND OPT_STATE_XPMID \<noteq> 0 \<and> c AND OPT_STATE_XINDOM \<noteq> 0 \<and> (c AND OPT_STATE_XFETCH \<noteq> 0 \<longleftrightarrow> is_root)"
    using f by (auto simp: try_add_def try_change_def Let_def state_defs word_bw_assocs split: option.split if_splits)
qed

lemma try_add_fields [simp]: "f_addr (try_add oc is_root new fp) = f_addr fp" "f_pmidlist (try_add oc is_root new fp) = f_pmidlist fp"
  "f_cost (try_add oc is_root new fp) = optCost oc fp"
  by (simp_all add: try_add_def Let_def)

lemma fetchctl_eqI:
  fixes x y :: fetchctl
  shows "f_addr x = f_addr y \<Longrightarrow> f_idp x = f_idp y \<Longrightarrow> f_state x = f_state y \<Longrightarrow> f_cost x = f_cost y \<Longrightarrow> f_newcost x = f_newcost y \<Longrightarrow>
    f_pmidlist x = f_pmidlist y \<Longrightarrow> x = y"
  by (cases x; cases y) simp

lemma undo_idps_try: "map shape (undo_idps new (f_state (try_add oc is_root new fp)) (f_idp (try_add oc is_root new fp))) = map shape (f_idp fp)"
proof (cases rule: indom_cases [of "f_idp fp" "r_indom new"])
  case (old pre idp post)
  let ?t = "try_add oc is_root new fp"
  obtain c where c: "f_state ?t = (f_state fp AND OPT_STATE_UMASK) OR c"
      "c AND OPT_STATE_XPMID \<noteq> 0 \<longleftrightarrow> \<not> has_pmid (r_pmid new) idp" "c AND OPT_STATE_XINDOM = 0"
    using try_add_old(2) [OF old, of oc is_root] by auto
  have x: "f_state ?t AND OPT_STATE_XPMID \<noteq> 0 \<longleftrightarrow> \<not> has_pmid (r_pmid new) idp" "f_state ?t AND OPT_STATE_XINDOM = 0"
    unfolding c(1) using c(2,3) by (subst state_bits; simp add: state_defs)+
  have t: "f_idp ?t = pre @ idp_add new idp # post" by (rule try_add_old(1) [OF old])
  show ?thesis
  proof (cases rule: pmid_cases [of "i_pmp idp" "r_pmid new"])
    case o: (old ps p qs)
    then show ?thesis using x t idp_add_old [OF o] old by (simp add: shape_def undo_idps_def)
  next
    case n: new
    then show ?thesis
      using x t idp_add_new [OF n] old by (simp add: shape_def upd_first_split after_first_def undo_idps_def)
  qed
next
  case new
  let ?t = "try_add oc is_root new fp"
  obtain c where c: "f_state ?t = (f_state fp AND OPT_STATE_UMASK) OR c" "c AND OPT_STATE_XINDOM \<noteq> 0"
    using try_add_new(2) [OF new, of oc is_root] by auto
  have x: "f_state ?t AND OPT_STATE_XINDOM \<noteq> 0"
    unfolding c(1) using c(2) by (subst state_bits; simp add: state_defs)
  show ?thesis using x try_add_new(1) [OF new, of oc is_root] by (simp add: after_first_def undo_idps_def)
qed

lemma try_add_state:
  "\<exists>c. f_state (try_add oc is_root new fp) = (f_state fp AND OPT_STATE_UMASK) OR c \<and> c AND OPT_STATE_UMASK = 0 \<and>
     (c AND OPT_STATE_XFETCH \<noteq> 0 \<longleftrightarrow> is_root)"
proof (cases rule: indom_cases [of "f_idp fp" "r_indom new"])
  case (old pre idp post)
  then show ?thesis using try_add_old(2) [OF old, of oc is_root] by blast
next
  case new
  then show ?thesis using try_add_new(2) [OF new, of oc is_root] by blast
qed

lemma try_add_masks:
  "f_state (try_add oc is_root new fp) AND OPT_STATE_XFETCH \<noteq> 0 \<longleftrightarrow> is_root"
  "f_state (try_add oc is_root new fp) AND OPT_STATE_UMASK = f_state fp AND OPT_STATE_UMASK"
proof -
  obtain c where c: "f_state (try_add oc is_root new fp) = (f_state fp AND OPT_STATE_UMASK) OR c" "c AND OPT_STATE_UMASK = 0"
      "c AND OPT_STATE_XFETCH \<noteq> 0 \<longleftrightarrow> is_root"
    using try_add_state by blast
  show "f_state (try_add oc is_root new fp) AND OPT_STATE_XFETCH \<noteq> 0 \<longleftrightarrow> is_root"
    unfolding c(1) using c(3) by (subst state_bits) (simp_all add: state_defs)
  show "f_state (try_add oc is_root new fp) AND OPT_STATE_UMASK = f_state fp AND OPT_STATE_UMASK"
    unfolding c(1) using c(2) by (rule state_umask)
qed

text \<open>A trial in an existing group leaves no trace but the costs.\<close>

lemma undo_try:
  assumes wf: "wf_fetch fp"
  shows "undo_add new (try_add oc False new fp) =
    Some (fp\<lparr>f_cost := optCost oc fp, f_newcost := f_newcost (try_add oc False new fp)\<rparr>)"
proof -
  have "list_all wf_idp (f_idp fp)" "f_state fp AND OPT_STATE_UMASK = f_state fp" using wf by (auto simp: wf_fetch_def)
  then show ?thesis
    using redoinst_shape [OF _ undo_idps_try [of new oc False fp]] try_add_masks [of oc False new fp]
    by (auto simp: undo_add_def redoinst_def intro!: fetchctl_eqI)
qed

lemma undo_try_root: "undo_add new (try_add oc True new fp) = None"
  using try_add_masks(1) [of oc True new fp] by (simp add: undo_add_def)

section \<open>Keeping a request\<close>

lemma link_fields [simp]: "i_indom (link_req r idp) = i_indom idp" "i_numinst (link_req r idp) = i_numinst idp"
  "i_instlist (link_req r idp) = i_instlist idp"
  by (simp_all add: link_req_def)

lemma pmp_insts: "(p_numinst (pmp_add new p), p_instlist (pmp_add new p)) = snd (addinst (p_numinst p, p_instlist p) new)"
  by (simp add: pmp_add_def split: prod.split)

lemma idp_insts: "(i_numinst (idp_add new idp), i_instlist (idp_add new idp)) = snd (addinst (i_numinst idp, i_instlist idp) new)"
  by (simp add: idp_add_def Let_def split: prod.split)

lemma insts_of_new: "r_instlist r = r_instlist new \<Longrightarrow> insts_of (r # rs) = insts_of (new # rs)"
  by (rule insts_of_cong) simp

lemma enter_pmp:
  assumes r: "r_pmid r = p_pmid p" "r_indom r = indom" "r_instlist r = r_instlist new"
    and p: "wf_pmp indom p \<or> p = new_pmp (p_pmid p)"
  shows "wf_pmp indom ((pmp_add new p)\<lparr>p_rqp := r # p_rqp p\<rparr>)"
proof -
  have "snd (addinst (p_numinst p, p_instlist p) new) = insts_of (r # p_rqp p)"
  proof (cases "wf_pmp indom p")
    case True
    then show ?thesis using insts_of_new [OF r(3), of "p_rqp p"] by (simp add: wf_pmp_def addinst_more)
  next
    case False
    then have "p = new_pmp (p_pmid p)" using p by simp
    then have "p_numinst p = - 1" "p_rqp p = []" by (metis new_pmp_def pmidctl.select_convs)+
    then show ?thesis using insts_of_new [OF r(3), of "[]"] by (simp add: addinst_first)
  qed
  moreover have "\<forall>q \<in> set (p_rqp p). r_pmid q = p_pmid p \<and> r_indom q = indom"
    using p by (auto simp: wf_pmp_def) (metis add_fields(5) list.set(1) empty_iff)+
  ultimately show ?thesis using r pmp_insts [of new p] by (auto simp: wf_pmp_def)
qed

lemma enter_idp:
  assumes r: "r_pmid r = r_pmid new" "r_indom r = r_indom new" "r_instlist r = r_instlist new"
    and i: "i_indom idp = r_indom new" and idp: "wf_idp idp \<or> idp = new_idp (r_indom new)"
  shows "wf_idp (link_req r (idp_add new idp)) \<and> mset (idp_reqs (link_req r (idp_add new idp))) = add_mset r (mset (idp_reqs idp)) \<and>
    set (map p_pmid (i_pmp (link_req r (idp_add new idp)))) = insert (r_pmid new) (set (map p_pmid (i_pmp idp)))"
proof -
  have d: "distinct (map p_pmid (i_pmp idp))" "list_all (wf_pmp (i_indom idp)) (i_pmp idp)"
    using idp by (auto simp: wf_idp_def)
  let ?x = "link_req r (idp_add new idp)"
  have main: "i_pmp ?x \<noteq> [] \<and> distinct (map p_pmid (i_pmp ?x)) \<and> list_all (wf_pmp (i_indom idp)) (i_pmp ?x) \<and>
      mset (idp_reqs ?x) = add_mset r (mset (idp_reqs idp)) \<and>
      set (map p_pmid (i_pmp ?x)) = insert (r_pmid new) (set (map p_pmid (i_pmp idp)))"
  proof (cases rule: pmid_cases [of "i_pmp idp" "r_pmid new"])
    case o: (old ps p qs)
    have "i_pmp ?x = ps @ (pmp_add new p)\<lparr>p_rqp := r # p_rqp p\<rparr> # qs"
      using idp_add_old(1) [OF o] o r(1) by (simp add: link_req_def upd_first_split)
    moreover have "wf_pmp (i_indom idp) ((pmp_add new p)\<lparr>p_rqp := r # p_rqp p\<rparr>)"
      using d(2) o r i by (intro enter_pmp) auto
    ultimately show ?thesis using o d by (auto simp: idp_reqs_def)
  next
    case n: new
    let ?p = "new_pmp (r_pmid new)"
    have "i_pmp ?x = (pmp_add new ?p)\<lparr>p_rqp := r # p_rqp ?p\<rparr> # i_pmp idp"
      using idp_add_new(1) [OF n] r(1) by (simp add: link_req_def)
    moreover have "wf_pmp (i_indom idp) ((pmp_add new ?p)\<lparr>p_rqp := r # p_rqp ?p\<rparr>)"
      using r i by (intro enter_pmp) auto
    ultimately show ?thesis using n d by (auto simp: idp_reqs_def)
  qed
  have "snd (addinst (i_numinst idp, i_instlist idp) new) = insts_of (r # idp_reqs idp)"
  proof (cases "wf_idp idp")
    case True
    then have "idp_reqs idp \<noteq> []" by (cases "i_pmp idp") (auto simp: wf_idp_def wf_pmp_def idp_reqs_def)
    then show ?thesis using True insts_of_new [OF r(3), of "idp_reqs idp"] by (simp add: wf_idp_def addinst_more)
  next
    case False
    then have "idp = new_idp (r_indom new)" using idp by simp
    then show ?thesis using insts_of_new [OF r(3), of "[]"] by (simp add: new_idp_def idp_reqs_def addinst_first)
  qed
  also have "\<dots> = insts_of (idp_reqs ?x)"
    using main by (intro insts_of_cong) (metis set_mset_mset set_mset_add_mset_insert list.simps(15))
  finally show ?thesis using main idp_insts [of new idp] by (simp add: wf_idp_def)
qed

lemma add_desc_spec: "sorted_wrt (>) l \<Longrightarrow> sorted_wrt (>) (snd (add_desc p l)) \<and> set (snd (add_desc p l)) = insert p (set l)"
  by (induction l) (auto split: prod.splits)

text \<open>The indom controls of a group after a request has been tried and kept.\<close>

lemma keep_idps:
  "f_idp (keep_add new t) = upd_first (\<lambda>idp. i_indom idp = r_indom new) (link_req (new\<lparr>r_fetch := Some (f_addr t)\<rparr>)) (f_idp t)"
  "f_addr (keep_add new t) = f_addr t" "f_state (keep_add new t) AND OPT_STATE_UMASK = f_state (keep_add new t)"
  "f_pmidlist (keep_add new t) = snd (add_desc (r_pmid new) (f_pmidlist t))"
  by (simp_all add: keep_add_def addpmid_def Let_def word_bw_assocs split: prod.split)

lemma fetch_wf_idps:
  assumes d: "distinct (map i_indom (pre @ post))" "list_all wf_idp (pre @ post)" "i_indom x = indom" "indom \<notin> i_indom ` set (pre @ post)"
    and x: "wf_idp x" "mset (idp_reqs x) = add_mset r (mset rs)" "set (map p_pmid (i_pmp x)) = insert pmid ps"
  shows "distinct (map i_indom (pre @ x # post))" "list_all wf_idp (pre @ x # post)"
    "mset (concat (map idp_reqs (pre @ x # post))) = add_mset r (mset (concat (map idp_reqs pre) @ rs @ concat (map idp_reqs post)))"
    "set (group_pmids (pre @ x # post)) = insert pmid (set (group_pmids (pre @ post)) \<union> ps)"
  using assms by (auto simp: group_pmids_def)

lemma keep_wf:
  assumes fp: "wf_fetch fp \<or> fp = new_fetch a"
  shows "wf_fetch (keep_add new (try_add oc is_root new fp)) \<and> placed new (try_add oc is_root new fp) \<and>
    mset (fetch_reqs (keep_add new (try_add oc is_root new fp))) = add_mset (new\<lparr>r_fetch := Some (f_addr fp)\<rparr>) (mset (fetch_reqs fp))"
proof -
  let ?t = "try_add oc is_root new fp" and ?r = "new\<lparr>r_fetch := Some (f_addr fp)\<rparr>"
  let ?k = "keep_add new ?t"
  have F: "distinct (map i_indom (f_idp fp))" "list_all wf_idp (f_idp fp)" "sorted_wrt (>) (f_pmidlist fp)"
      "set (f_pmidlist fp) = set (group_pmids (f_idp fp))" "\<forall>r \<in> set (fetch_reqs fp). r_fetch r = Some (f_addr fp)"
    using fp by (auto simp: wf_fetch_def new_fetch_def group_pmids_def fetch_reqs_def)
  have P: "sorted_wrt (>) (f_pmidlist ?k)" "set (f_pmidlist ?k) = insert (r_pmid new) (set (group_pmids (f_idp fp)))"
    using add_desc_spec [OF F(3), of "r_pmid new"] F(4) by (simp_all add: keep_idps)
  have main: "f_idp ?k \<noteq> [] \<and> distinct (map i_indom (f_idp ?k)) \<and> list_all wf_idp (f_idp ?k) \<and> placed new ?t \<and>
    mset (fetch_reqs ?k) = add_mset ?r (mset (fetch_reqs fp)) \<and>
    set (group_pmids (f_idp ?k)) = insert (r_pmid new) (set (group_pmids (f_idp fp)))"
  proof (cases rule: indom_cases [of "f_idp fp" "r_indom new"])
    case o: (old pre idp post)
    let ?x = "link_req ?r (idp_add new idp)"
    have E: "wf_idp ?x" "mset (idp_reqs ?x) = add_mset ?r (mset (idp_reqs idp))"
        "set (map p_pmid (i_pmp ?x)) = insert (r_pmid new) (set (map p_pmid (i_pmp idp)))"
      using enter_idp [of ?r new idp] F(2) o by auto
    have t: "f_idp ?t = pre @ idp_add new idp # post" by (rule try_add_old(1) [OF o])
    then have k: "f_idp ?k = pre @ ?x # post" using o by (simp add: keep_idps upd_first_split)
    have "has_pmid (r_pmid new) (idp_add new idp)"
      using E(3) by (cases rule: pmid_cases [of "i_pmp idp" "r_pmid new"])
        (auto simp: has_pmid_def idp_add_old(1) idp_add_new(1))
    then have "placed new ?t" using t o by (simp add: placed_def find_split)
    moreover have "distinct (map i_indom (pre @ post))" "list_all wf_idp (pre @ post)" "i_indom ?x = r_indom new"
        "r_indom new \<notin> i_indom ` set (pre @ post)"
      using F(1,2) o by auto
    note W = fetch_wf_idps [OF this E]
    ultimately show ?thesis using k W o by (auto simp: fetch_reqs_def group_pmids_def)
  next
    case n: new
    let ?x = "link_req ?r (idp_add new (new_idp (r_indom new)))"
    have E: "wf_idp ?x" "mset (idp_reqs ?x) = add_mset ?r (mset [])"
        "set (map p_pmid (i_pmp ?x)) = insert (r_pmid new) {}"
      using enter_idp [of ?r new "new_idp (r_indom new)"] by (auto simp: idp_reqs_def)
    have t: "f_idp ?t = idp_add new (new_idp (r_indom new)) # f_idp fp" by (rule try_add_new(1) [OF n])
    then have k: "f_idp ?k = [] @ ?x # f_idp fp" by (simp add: keep_idps)
    have "i_pmp (idp_add new (new_idp (r_indom new))) = [pmp_add new (new_pmp (r_pmid new))]"
      using idp_add_new(1) [of "new_idp (r_indom new)" new] by simp
    then have "placed new ?t" using t by (simp add: placed_def has_pmid_def)
    moreover have "distinct (map i_indom ([] @ f_idp fp))" "list_all wf_idp ([] @ f_idp fp)" "i_indom ?x = r_indom new"
        "r_indom new \<notin> i_indom ` set ([] @ f_idp fp)"
      using F(1,2) n by auto
    note W = fetch_wf_idps [OF this E]
    ultimately show ?thesis using k W by (auto simp: fetch_reqs_def)
  qed
  have "set (fetch_reqs ?k) = insert ?r (set (fetch_reqs fp))" using main by (metis set_mset_mset set_mset_add_mset_insert)
  then have "\<forall>r \<in> set (fetch_reqs ?k). r_fetch r = Some (f_addr ?k)" using F(5) by (simp add: keep_idps(2))
  with main P show ?thesis by (simp add: wf_fetch_def keep_idps(3))
qed

section \<open>The effect of adding a request\<close>

lemma cheapest_spec:
  "(case cheapest oc i m t fps of
      None \<Rightarrow> t = None \<and> (\<forall>fp \<in> set fps. m \<le> add_cost oc fp)
    | Some k \<Rightarrow> (t = Some k \<and> (\<forall>fp \<in> set fps. m \<le> add_cost oc fp)) \<or>
        (i \<le> k \<and> k < i + length fps \<and> add_cost oc (fps ! (k - i)) < m \<and> (\<forall>fp \<in> set fps. add_cost oc (fps ! (k - i)) \<le> add_cost oc fp)))"
proof (induction fps arbitrary: i m t)
  case (Cons fp fps)
  show ?case
  proof (cases "add_cost oc fp < m")
    case True
    then show ?thesis
      using Cons.IH [of "Some i" "add_cost oc fp" "Suc i"]
      by (auto split: option.splits simp: nth_Cons' Suc_le_eq)
  next
    case False
    then show ?thesis
      using Cons.IH [of t m "Suc i"]
      by (auto split: option.splits simp: nth_Cons' Suc_le_eq)
  qed
qed (simp split: option.split)

definition undone :: "optreq \<Rightarrow> fetchctl list \<Rightarrow> fetchctl list" where
  "undone new fps = List.map_filter (undo_add new) fps"

lemma undone_simps [simp]: "undone new [] = []"
  "undone new (fp # fps) = (case undo_add new fp of None \<Rightarrow> [] | Some fp' \<Rightarrow> [fp']) @ undone new fps"
  by (simp_all add: undone_def map_filter_simps split: option.split)

lemma settle_after: "list_all (placed new) fps \<Longrightarrow> k < i \<Longrightarrow> settle new i (Some k) fps = Some (undone new fps)"
  by (induction fps arbitrary: i) auto

lemma settle_at:
  "list_all (placed new) fps \<Longrightarrow> j < length fps \<Longrightarrow>
   settle new i (Some (i + j)) fps = Some (undone new (take j fps) @ keep_add new (fps ! j) # undone new (drop (Suc j) fps))"
proof (induction fps arbitrary: i j)
  case (Cons fp fps)
  show ?case
  proof (cases j)
    case 0
    then show ?thesis using Cons.prems settle_after [of new fps i "Suc i"] by simp
  next
    case (Suc k)
    then show ?thesis using Cons.IH [of k "Suc i"] Cons.prems by simp
  qed
qed simp

text \<open>A group as it is left when a request has been tried in it and taken out again.\<close>

definition same_group :: "fetchctl \<Rightarrow> fetchctl \<Rightarrow> bool" where
  "same_group fp fp' \<longleftrightarrow> (\<exists>c n. fp' = fp\<lparr>f_cost := c, f_newcost := n\<rparr>)"

lemma same_group_facts: "same_group fp fp' \<Longrightarrow> f_addr fp' = f_addr fp \<and> fetch_reqs fp' = fetch_reqs fp \<and> (wf_fetch fp \<longrightarrow> wf_fetch fp')"
  by (auto simp: same_group_def wf_fetch_def fetch_reqs_def)

lemma same_groups_facts:
  "list_all2 same_group fps fps' \<Longrightarrow> map f_addr fps' = map f_addr fps \<and> root_reqs fps' = root_reqs fps \<and>
    (list_all wf_fetch fps \<longrightarrow> list_all wf_fetch fps')"
  by (induction rule: list_all2_induct) (auto simp: root_reqs_def dest: same_group_facts)

lemma undone_tried: "list_all wf_fetch fps \<Longrightarrow> list_all2 same_group fps (undone new (map (try_add oc False new) fps))"
  by (induction fps) (auto simp: undo_try same_group_def)

text \<open>
  The cost of a group of its own, which bounds what the optimizer pays for any request. It has to be
  below \<^const>\<open>OPT_COST_INFINITY\<close>, the largest \<open>int\<close>, where the search for the cheapest group starts.
\<close>

definition own_cost :: "optcost \<Rightarrow> int" where
  "own_cost oc = s32 (c_pmid oc + c_indom oc + c_fetch oc)"

lemma s32_add: "s32 (s32 a + b) = s32 (a + b)"
  by (simp add: s32_def)

lemma s32_0 [simp]: "s32 0 = 0"
  by (simp add: s32_def)

lemma merge_miss_self [simp]: "merge_miss l l = 0"
  by (induction l) auto

lemma missinst_self: "0 \<le> fst a \<Longrightarrow> missinst oc a a = 0"
  by (auto simp: missinst_def split: prod.split)

lemma insts_of_nonneg: "0 \<le> fst (insts_of rs)"
  by (simp add: insts_of_def Let_def)

lemma new_group_cost: "add_cost oc (try_add oc True new (new_fetch a)) = own_cost oc"
proof -
  let ?i = "insts_of [new]"
  let ?t = "try_add oc True new (new_fetch a)"
  have t: "f_idp ?t = [idp_add new (new_idp (r_indom new))]"
    using try_add_new(1) [of "new_fetch a" new] by (simp add: new_fetch_def)
  have p: "i_pmp (idp_add new (new_idp (r_indom new))) = [pmp_add new (new_pmp (r_pmid new))]"
    using idp_add_new(1) [of "new_idp (r_indom new)" new] by simp
  have i: "(i_numinst (idp_add new (new_idp (r_indom new))), i_instlist (idp_add new (new_idp (r_indom new)))) = ?i"
    by (simp add: idp_insts new_idp_def addinst_first)
  have q: "(p_numinst (pmp_add new (new_pmp (r_pmid new))), p_instlist (pmp_add new (new_pmp (r_pmid new)))) = ?i"
    by (simp add: pmp_insts new_pmp_def addinst_first)
  have "optCost oc ?t = s32 (c_pmid oc + c_indom oc)"
    by (simp add: optCost_def t p group_pmids_def indom_miss_def i q missinst_self insts_of_nonneg)
  moreover have "f_newcost ?t = s32 (optCost oc ?t + c_fetch oc)"
    by (simp add: try_add_def Let_def optCost_def)
  moreover have "f_cost ?t = 0" by (simp add: optCost_def new_fetch_def group_pmids_def)
  ultimately show ?thesis by (simp add: add_cost_def own_cost_def s32_add)
qed

lemma add_chooses:
  assumes ok: "list_all wf_fetch root" and oc: "own_cost oc < OPT_COST_INFINITY"
  obtains k where "k \<le> length root" "\<forall>fp \<in> set (tried oc a new root). add_cost oc (tried oc a new root ! k) \<le> add_cost oc fp"
    "pmOptFetchAdd oc a new root = Some (undone new (take k (tried oc a new root)) @
       keep_add new (tried oc a new root ! k) # undone new (drop (Suc k) (tried oc a new root)))"
proof -
  let ?T = "tried oc a new root"
  have pl: "list_all (placed new) ?T"
    using ok keep_wf [of "new_fetch a" a new oc True] keep_wf [of _ a new oc False]
    by (auto simp: tried_def list_all_iff)
  have "\<exists>fp \<in> set ?T. add_cost oc fp < OPT_COST_INFINITY"
    using oc new_group_cost [of oc new a] by (auto simp: tried_def)
  then obtain k where k: "cheapest oc 0 OPT_COST_INFINITY None ?T = Some k" "k < length ?T"
      "\<forall>fp \<in> set ?T. add_cost oc (?T ! k) \<le> add_cost oc fp"
    using cheapest_spec [where t = None and m = OPT_COST_INFINITY and fps = ?T and oc = oc and i = 0] by (fastforce split: option.splits)
  show thesis
  proof (rule that [of k])
    show "pmOptFetchAdd oc a new root = Some (undone new (take k ?T) @ keep_add new (?T ! k) # undone new (drop (Suc k) ?T))"
      using settle_at [OF pl k(2), of 0] k(1) by (simp add: pmOptFetchAdd_def Let_def)
  qed (use k in \<open>auto simp: tried_def\<close>)
qed

lemma root_reqs_simps [simp]: "root_reqs [] = []" "root_reqs (fp # fps) = fetch_reqs fp @ root_reqs fps"
  "root_reqs (fps @ gps) = root_reqs fps @ root_reqs gps"
  by (simp_all add: root_reqs_def)

lemma strip_fields [simp]: "r_addr (strip r) = r_addr r" "strip (r\<lparr>r_fetch := x\<rparr>) = strip r"
  by (simp_all add: strip_def)

lemma requests_addrs: "r_addr ` set_mset (requests root) = r_addr ` set (root_reqs root)"
  by (auto simp: requests_def image_iff)

text \<open>A group that takes the request, in place of an old one or as a new one.\<close>

lemma add_root_ok:
  assumes pre: "list_all2 same_group pre pre'" and post: "list_all2 same_group post post'"
    and ok: "list_all wf_fetch (pre @ post)" "distinct (map f_addr (pre @ post))" "f_addr fp \<notin> f_addr ` set (pre @ post)"
      "distinct (map r_addr (root_reqs pre @ fetch_reqs fp @ root_reqs post))"
      "r_addr new \<notin> r_addr ` set (root_reqs pre @ fetch_reqs fp @ root_reqs post)"
    and fp: "wf_fetch fp \<or> fp = new_fetch a"
  shows "root_ok (pre' @ keep_add new (try_add oc b new fp) # post')"
    "requests (pre' @ keep_add new (try_add oc b new fp) # post') =
      add_mset (strip new) (image_mset strip (mset (root_reqs pre @ fetch_reqs fp @ root_reqs post)))"
proof -
  let ?k = "keep_add new (try_add oc b new fp)"
  note K = keep_wf [OF fp, of new oc b]
  note A = same_groups_facts [OF pre] same_groups_facts [OF post]
  have r: "mset (root_reqs (pre' @ ?k # post')) = add_mset (new\<lparr>r_fetch := Some (f_addr fp)\<rparr>) (mset (root_reqs pre @ fetch_reqs fp @ root_reqs post))"
    using K A by simp
  show q: "requests (pre' @ ?k # post') = add_mset (strip new) (image_mset strip (mset (root_reqs pre @ fetch_reqs fp @ root_reqs post)))"
    unfolding requests_def r by simp
  have "mset (map r_addr (root_reqs (pre' @ ?k # post'))) = mset (r_addr new # map r_addr (root_reqs pre @ fetch_reqs fp @ root_reqs post))"
    using r by (metis (no_types, lifting) image_mset_add_mset mset.simps(2) mset_map optreq.select_convs(1) optreq.surjective optreq.update_convs(2))
  then have "distinct (map r_addr (root_reqs (pre' @ ?k # post')))"
    using ok(4,5) mset_eq_imp_distinct_iff by (metis distinct.simps(2) list.set_map)
  moreover have "map f_addr (pre' @ ?k # post') = map f_addr pre @ f_addr fp # map f_addr post"
    using A by (simp add: keep_idps(2))
  ultimately show "root_ok (pre' @ ?k # post')"
    using A K ok by (auto simp: root_ok_def simp del: root_reqs_simps)
qed

text \<open>The result of an addition: a new group at the front, or one of the old ones changed.\<close>

lemma add_cases:
  assumes ok: "list_all wf_fetch root" and oc: "own_cost oc < OPT_COST_INFINITY"
  obtains pre fp post pre' post' b c where
    "pmOptFetchAdd oc a new root = Some (pre' @ keep_add new (try_add oc b new fp) # post')"
    "list_all2 same_group pre pre'" "list_all2 same_group post post'"
    "fp = new_fetch a \<and> root = pre @ post \<and> c = own_cost oc \<or> root = pre @ fp # post \<and> c = add_cost oc (try_add oc False new fp)"
    "c \<le> own_cost oc" "\<forall>fp \<in> set root. c \<le> add_cost oc (try_add oc False new fp)"
proof -
  let ?T = "tried oc a new root"
  obtain k where k: "k \<le> length root" "\<forall>fp \<in> set ?T. add_cost oc (?T ! k) \<le> add_cost oc fp"
    "pmOptFetchAdd oc a new root = Some (undone new (take k ?T) @ keep_add new (?T ! k) # undone new (drop (Suc k) ?T))"
    using add_chooses [OF ok oc] by metis
  have min: "add_cost oc (?T ! k) \<le> own_cost oc" "\<forall>fp \<in> set root. add_cost oc (?T ! k) \<le> add_cost oc (try_add oc False new fp)"
    using k(2) new_group_cost [of oc new a] by (auto simp: tried_def)
  show thesis
  proof (cases k)
    case 0
    then have "pmOptFetchAdd oc a new root = Some ([] @ keep_add new (try_add oc True new (new_fetch a)) # undone new (map (try_add oc False new) root))"
      using k(3) by (simp add: tried_def)
    from that [OF this _ undone_tried [OF ok], of "[]" "own_cost oc"] show thesis
      using min 0 new_group_cost [of oc new a] by (simp add: tried_def)
  next
    case (Suc j)
    have "j < length root" using k(1) Suc by simp
    then obtain pre fp post where root: "root = pre @ fp # post" "length pre = j"
      by (intro that [of "take j root" "root ! j" "drop (Suc j) root"] id_take_nth_drop) simp_all
    have r: "pmOptFetchAdd oc a new root = Some (undone new (map (try_add oc False new) pre) @
        keep_add new (try_add oc False new fp) # undone new (map (try_add oc False new) post))"
      using k(3) Suc root by (auto simp: tried_def undo_try_root nth_append)
    have wf: "list_all wf_fetch pre" "list_all wf_fetch post" using ok root by auto
    from that [OF r undone_tried [OF wf(1)] undone_tried [OF wf(2)], of "add_cost oc (try_add oc False new fp)"] show thesis
      using min Suc root by (simp add: tried_def nth_append)
  qed
qed

lemma add_spec:
  assumes ok: "root_ok root" and oc: "own_cost oc < OPT_COST_INFINITY" and a: "a \<notin> f_addr ` set root"
    and new: "r_addr new \<notin> r_addr ` set (root_reqs root)"
  shows "\<exists>root'. pmOptFetchAdd oc a new root = Some root' \<and> root_ok root' \<and>
    requests root' = add_mset (strip new) (requests root)"
proof -
  have W: "list_all wf_fetch root" "distinct (map f_addr root)" "distinct (map r_addr (root_reqs root))"
    using ok by (auto simp: root_ok_def)
  obtain pre fp post pre' post' b c where
    r: "pmOptFetchAdd oc a new root = Some (pre' @ keep_add new (try_add oc b new fp) # post')"
      "list_all2 same_group pre pre'" "list_all2 same_group post post'"
    and fp: "fp = new_fetch a \<and> root = pre @ post \<and> c = own_cost oc \<or> root = pre @ fp # post \<and> c = add_cost oc (try_add oc False new fp)"
    by (rule add_cases [OF W(1) oc])
  have f: "f_addr (new_fetch a) = a" "fetch_reqs (new_fetch a) = []" by (simp_all add: new_fetch_def fetch_reqs_def)
  have "list_all wf_fetch (pre @ post)" "distinct (map f_addr (pre @ post))" "f_addr fp \<notin> f_addr ` set (pre @ post)"
      "root_reqs root = root_reqs pre @ fetch_reqs fp @ root_reqs post" "wf_fetch fp \<or> fp = new_fetch a"
    by (use fp in \<open>elim disjE conjE; use W a f in \<open>simp add: image_Un\<close>\<close>)+
  then show ?thesis using add_root_ok [OF r(2,3), of fp new a oc b] W(3) new r(1) by (simp add: requests_def)
qed

section \<open>The effect of removing a request\<close>

text \<open>What remains true of the controls while their instances are out of date.\<close>

definition swf_pmp :: "u32 \<Rightarrow> pmidctl \<Rightarrow> bool" where
  "swf_pmp indom p \<longleftrightarrow> p_rqp p \<noteq> [] \<and> (\<forall>r \<in> set (p_rqp p). r_pmid r = p_pmid p \<and> r_indom r = indom)"

definition swf_idp :: "indomctl \<Rightarrow> bool" where
  "swf_idp idp \<longleftrightarrow> i_pmp idp \<noteq> [] \<and> distinct (map p_pmid (i_pmp idp)) \<and> list_all (swf_pmp (i_indom idp)) (i_pmp idp)"

lemma wf_swf: "wf_idp idp \<Longrightarrow> swf_idp idp"
  by (auto simp: wf_idp_def swf_idp_def wf_pmp_def swf_pmp_def list_all_iff)

lemma redo_pmid_wf: "swf_pmp indom p \<Longrightarrow> wf_pmp indom (redo_pmid p)"
  by (auto simp: swf_pmp_def wf_pmp_def redo_pmid_def add_reqs_all split: prod.splits)

lemma redo_pmid_fields [simp]: "p_pmid (redo_pmid p) = p_pmid p" "p_rqp (redo_pmid p) = p_rqp p"
  by (simp_all add: redo_pmid_def split: prod.split)

lemma redo_indom_fields [simp]: "i_indom (redo_indom idp) = i_indom idp" "i_pmp (redo_indom idp) = map redo_pmid (i_pmp idp)"
  "idp_reqs (redo_indom idp) = idp_reqs idp"
  by (simp_all add: redo_indom_def idp_reqs_def comp_def split: prod.split)

lemma redo_indom_wf:
  assumes "swf_idp idp"
  shows "wf_idp (redo_indom idp)"
proof -
  have "idp_reqs idp \<noteq> []" using assms by (cases "i_pmp idp") (auto simp: swf_idp_def swf_pmp_def idp_reqs_def)
  then have "(i_numinst (redo_indom idp), i_instlist (redo_indom idp)) = insts_of (idp_reqs idp)"
    by (simp add: redo_indom_def add_reqs_all split: prod.split)
  then show ?thesis using assms by (simp add: wf_idp_def swf_idp_def list_all_iff redo_pmid_wf comp_def)
qed

lemma redopmid_spec:
  "sorted_wrt (>) (f_pmidlist (redopmid fp)) \<and> set (f_pmidlist (redopmid fp)) = set (group_pmids (f_idp fp)) \<and>
   f_idp (redopmid fp) = f_idp fp \<and> f_addr (redopmid fp) = f_addr fp"
proof -
  have "sorted_wrt (>) (f_pmidlist g) \<Longrightarrow> (let h = foldl (\<lambda>fp pmid. snd (addpmid fp pmid)) g ps in
      sorted_wrt (>) (f_pmidlist h) \<and> set (f_pmidlist h) = set (f_pmidlist g) \<union> set ps \<and> f_idp h = f_idp g \<and> f_addr h = f_addr g)" for g ps
  proof (induction ps arbitrary: g)
    case (Cons p ps)
    have "sorted_wrt (>) (f_pmidlist (snd (addpmid g p))) \<and> set (f_pmidlist (snd (addpmid g p))) = insert p (set (f_pmidlist g)) \<and>
        f_idp (snd (addpmid g p)) = f_idp g \<and> f_addr (snd (addpmid g p)) = f_addr g"
      using add_desc_spec [OF Cons.prems, of p] by (cases "add_desc p (f_pmidlist g)") (simp add: addpmid_def)
    then show ?case using Cons.IH [of "snd (addpmid g p)"] by (simp add: Let_def)
  qed simp
  from this [of "fp\<lparr>f_pmidlist := []\<rparr>" "group_pmids (f_idp fp)"] show ?thesis by (simp add: redopmid_def Let_def)
qed

lemma redo_fetch_wf:
  assumes "f_idp fp \<noteq> []" "distinct (map i_indom (f_idp fp))" "list_all swf_idp (f_idp fp)" "\<forall>r \<in> set (fetch_reqs fp). r_fetch r = Some (f_addr fp)"
  shows "wf_fetch (redo_fetch oc fp) \<and> f_addr (redo_fetch oc fp) = f_addr fp \<and> fetch_reqs (redo_fetch oc fp) = fetch_reqs fp"
proof -
  let ?g = "redopmid (redoinst fp)"
  have i: "f_idp (redoinst fp) = map redo_indom (f_idp fp)" "f_addr (redoinst fp) = f_addr fp" by (simp_all add: redoinst_def)
  note R = redopmid_spec [of "redoinst fp", unfolded i]
  have "fetch_reqs ?g = fetch_reqs fp" using R by (simp add: fetch_reqs_def comp_def)
  moreover have "list_all wf_idp (f_idp ?g)" using R assms(3) by (auto simp: list_all_iff redo_indom_wf)
  moreover have "distinct (map i_indom (f_idp ?g))" using R assms(2) by (simp add: comp_def)
  ultimately show ?thesis
    using R assms(1,4) by (simp add: redo_fetch_def Let_def wf_fetch_def fetch_reqs_def state_defs)
qed

lemma del_req_spec: "case del_req a rs of None \<Rightarrow> a \<notin> r_addr ` set rs
    | Some rs' \<Rightarrow> \<exists>r. r_addr r = a \<and> mset rs = add_mset r (mset rs') \<and> set rs' \<subseteq> set rs"
  by (induction rs) (auto split: option.splits)

lemma del_pmp_spec: "case del_pmp a ps of None \<Rightarrow> a \<notin> r_addr ` set (concat (map p_rqp ps))
    | Some ps' \<Rightarrow> (\<exists>r. r_addr r = a \<and> mset (concat (map p_rqp ps)) = add_mset r (mset (concat (map p_rqp ps')))) \<and>
        set (map p_pmid ps') \<subseteq> set (map p_pmid ps) \<and> (distinct (map p_pmid ps) \<longrightarrow> distinct (map p_pmid ps')) \<and>
        (list_all (swf_pmp indom) ps \<longrightarrow> list_all (swf_pmp indom) ps')"
proof (induction ps)
  case (Cons p ps)
  show ?case
  proof (cases "del_req a (p_rqp p)")
    case None
    then show ?thesis using Cons.IH del_req_spec [of a "p_rqp p"] by (auto split: option.splits)
  next
    case (Some rs)
    then show ?thesis using del_req_spec [of a "p_rqp p"] by (auto simp: swf_pmp_def)
  qed
qed simp

lemma del_idp_spec: "case del_idp a idps of None \<Rightarrow> a \<notin> r_addr ` set (concat (map idp_reqs idps))
    | Some idps' \<Rightarrow> (\<exists>r. r_addr r = a \<and> mset (concat (map idp_reqs idps)) = add_mset r (mset (concat (map idp_reqs idps')))) \<and>
        set (map i_indom idps') \<subseteq> set (map i_indom idps) \<and> (distinct (map i_indom idps) \<longrightarrow> distinct (map i_indom idps')) \<and>
        (list_all swf_idp idps \<longrightarrow> list_all swf_idp idps')"
proof (induction idps)
  case (Cons idp idps)
  show ?case
  proof (cases "del_pmp a (i_pmp idp)")
    case None
    then show ?thesis using Cons.IH del_pmp_spec [of a "i_pmp idp", folded idp_reqs_def] by (auto split: option.splits)
  next
    case (Some ps)
    then show ?thesis using del_pmp_spec [of a "i_pmp idp" "i_indom idp"] by (auto simp: idp_reqs_def swf_idp_def)
  qed
qed simp

lemma del_fetch_spec:
  assumes "list_all wf_fetch root"
  shows "case del_fetch oc a root of None \<Rightarrow> a \<notin> r_addr ` set (root_reqs root)
    | Some root' \<Rightarrow> (\<exists>r. r_addr r = a \<and> mset (root_reqs root) = add_mset r (mset (root_reqs root'))) \<and>
        f_addr ` set root' \<subseteq> f_addr ` set root \<and> (distinct (map f_addr root) \<longrightarrow> distinct (map f_addr root')) \<and> list_all wf_fetch root'"
  using assms
proof (induction root)
  case (Cons fp fps)
  note D = del_idp_spec [of a "f_idp fp", folded fetch_reqs_def]
  show ?case
  proof (cases "del_idp a (f_idp fp)")
    case None
    then show ?thesis using Cons D by (auto split: option.splits)
  next
    case (Some idps)
    let ?fp = "fp\<lparr>f_idp := idps\<rparr>"
    obtain r where r: "r_addr r = a" "mset (fetch_reqs fp) = add_mset r (mset (fetch_reqs ?fp))"
      using D Some by (auto simp: fetch_reqs_def)
    have wf: "list_all swf_idp (f_idp fp)" "distinct (map i_indom (f_idp fp))" "\<forall>r \<in> set (fetch_reqs fp). r_fetch r = Some (f_addr fp)"
      using Cons.prems by (auto simp: wf_fetch_def list_all_iff wf_swf)
    have "set (fetch_reqs ?fp) \<subseteq> set (fetch_reqs fp)" using r(2) by (metis set_mset_add_mset_insert set_mset_mset subset_insertI)
    then have "idps \<noteq> [] \<Longrightarrow> wf_fetch (redo_fetch oc ?fp) \<and> f_addr (redo_fetch oc ?fp) = f_addr fp \<and> fetch_reqs (redo_fetch oc ?fp) = fetch_reqs ?fp"
      using redo_fetch_wf [of ?fp oc] D Some wf by auto
    then show ?thesis using Some r Cons.prems by (auto simp: fetch_reqs_def)
  qed
qed simp

lemma del_spec:
  assumes ok: "root_ok root"
  shows "a \<notin> r_addr ` set (root_reqs root) \<Longrightarrow> pmOptFetchDel oc a root = (- 1, root)"
    "a \<in> r_addr ` set (root_reqs root) \<Longrightarrow> \<exists>root' r. pmOptFetchDel oc a root = (0, root') \<and> root_ok root' \<and>
      r_addr r = a \<and> requests root = add_mset r (requests root')"
proof -
  have wf: "list_all wf_fetch root" using ok by (simp add: root_ok_def)
  note D = del_fetch_spec [OF wf, where oc = oc and a = a]
  have some: "root_ok root' \<and> (\<exists>r. r_addr r = a \<and> requests root = add_mset r (requests root')) \<and> a \<in> r_addr ` set (root_reqs root)"
    if del: "del_fetch oc a root = Some root'" for root'
  proof -
    obtain r where r: "r_addr r = a" "mset (root_reqs root) = add_mset r (mset (root_reqs root'))" using D del by auto
    have "mset (map r_addr (root_reqs root)) = mset (map r_addr (r # root_reqs root'))" using r(2) by simp
    then have "distinct (map r_addr (r # root_reqs root'))" using ok by (metis root_ok_def mset_eq_imp_distinct_iff)
    then have "root_ok root'" using D del ok by (simp add: root_ok_def)
    moreover have "r_addr (strip r) = a \<and> requests root = add_mset (strip r) (requests root')" using r by (simp add: requests_def)
    moreover have "r \<in> set (root_reqs root)" using r(2) by (metis set_mset_mset union_single_eq_member)
    ultimately show ?thesis using r(1) by (intro conjI exI [of _ "strip r"] image_eqI [of _ _ r]) simp_all
  qed
  show "a \<notin> r_addr ` set (root_reqs root) \<Longrightarrow> pmOptFetchDel oc a root = (- 1, root)"
    using some by (auto simp: pmOptFetchDel_def split: option.split)
  assume "a \<in> r_addr ` set (root_reqs root)"
  then obtain root' where "del_fetch oc a root = Some root'" using D by (cases "del_fetch oc a root") auto
  then show "\<exists>root' r. pmOptFetchDel oc a root = (0, root') \<and> root_ok root' \<and>
      r_addr r = a \<and> requests root = add_mset r (requests root')"
    using some [of root'] by (auto simp: pmOptFetchDel_def)
qed

section \<open>The effect of adding all requests again\<close>

lemma settle_addrs: "settle new i tfp fps = Some fps' \<Longrightarrow> f_addr ` set fps' \<subseteq> f_addr ` set fps"
proof (induction fps arbitrary: i fps')
  case (Cons fp fps)
  have k: "f_addr (keep_add new fp) = f_addr fp" by (simp add: keep_add_def addpmid_def split: prod.split)
  have u: "f_addr fp' = f_addr fp" if "undo_add new fp = Some fp'" for fp'
    using that by (auto simp: undo_add_def redoinst_def split: if_splits)
  obtain rest where rest: "settle new (Suc i) tfp fps = Some rest"
      "fps' = (if tfp = Some i then [keep_add new fp] else case undo_add new fp of None \<Rightarrow> [] | Some fp' \<Rightarrow> [fp']) @ rest"
    using Cons.prems by (auto split: if_splits bind_splits)
  let ?h = "if tfp = Some i then [keep_add new fp] else case undo_add new fp of None \<Rightarrow> [] | Some fp' \<Rightarrow> [fp']"
  have "f_addr ` set ?h \<subseteq> {f_addr fp}"
  proof (cases "undo_add new fp")
    case (Some fp')
    then show ?thesis using u [OF Some] k by simp
  qed (simp add: k)
  then have "f_addr ` set ?h \<union> f_addr ` set rest \<subseteq> {f_addr fp} \<union> f_addr ` set fps"
    using Cons.IH [OF rest(1)] by (rule Un_mono)
  then show ?case unfolding rest(2) set_append image_Un by (simp only: list.set image_insert insert_is_Un [symmetric])
qed simp

lemma add_addrs: "pmOptFetchAdd oc a new root = Some root' \<Longrightarrow> f_addr ` set root' \<subseteq> insert a (f_addr ` set root)"
proof -
  assume "pmOptFetchAdd oc a new root = Some root'"
  then have "f_addr ` set root' \<subseteq> f_addr ` set (tried oc a new root)" unfolding pmOptFetchAdd_def Let_def by (rule settle_addrs)
  also have "\<dots> = insert a (f_addr ` set root)" by (auto simp: tried_def new_fetch_def image_iff)
  finally show ?thesis .
qed

lemma add_all_spec:
  assumes "root_ok root" "own_cost oc < OPT_COST_INFINITY" "inj_on alloc {..<length rs}" "alloc ` {..<length rs} \<inter> f_addr ` set root = {}"
    "distinct (map r_addr (rs @ root_reqs root))"
  shows "\<exists>root'. add_all oc alloc rs root = Some root' \<and> root_ok root' \<and> requests root' = image_mset strip (mset rs) + requests root"
  using assms
proof (induction rs arbitrary: root)
  case (Cons r rs)
  let ?a = "alloc (length rs)"
  have a: "?a \<notin> f_addr ` set root" "r_addr r \<notin> r_addr ` set (root_reqs root)" using Cons.prems by auto
  obtain root1 where r1: "pmOptFetchAdd oc ?a r root = Some root1" "root_ok root1" "requests root1 = add_mset (strip r) (requests root)"
    using add_spec [OF Cons.prems(1,2) a] by blast
  have L: "inj_on alloc {..<length rs}" "?a \<notin> alloc ` {..<length rs}"
    using Cons.prems(3) by (auto simp: lessThan_Suc)
  have "alloc ` {..<length rs} \<inter> f_addr ` set root = {}" using Cons.prems(4) by (auto simp: lessThan_Suc)
  then have "alloc ` {..<length rs} \<inter> insert ?a (f_addr ` set root) = {}" using L(2) by (simp only: Int_insert_right if_False)
  then have d: "alloc ` {..<length rs} \<inter> f_addr ` set root1 = {}" 
    using Int_mono [OF order_refl add_addrs [OF r1(1)], of "alloc ` {..<length rs}"] by (simp only: subset_empty)
  have "r_addr ` set (root_reqs root1) = insert (r_addr r) (r_addr ` set (root_reqs root))"
    using r1(3) by (simp add: requests_addrs [symmetric])
  then have "distinct (map r_addr (rs @ root_reqs root1))" using r1(2) Cons.prems(5) by (auto simp: root_ok_def)
  then show ?case using Cons.IH [OF r1(2) Cons.prems(2) L(1) d] r1 by auto
qed simp

lemma cut_splice_mset: "mset (cut_splice k rs) = mset rs"
proof -
  have "mset (drop n rs) + mset (take n rs) = mset rs" for n
    using mset_append [of "take n rs" "drop n rs"] by (simp add: union_commute)
  then show ?thesis by (simp add: cut_splice_def)
qed

lemma redo_spec:
  assumes "root_ok root" "own_cost oc < OPT_COST_INFINITY" "inj alloc"
  shows "\<exists>root'. pmOptFetchRedo oc alloc k root = Some root' \<and> root_ok root' \<and> requests root' = requests root"
proof (cases "root_reqs root = []")
  case True
  then show ?thesis by (simp add: pmOptFetchRedo_def root_ok_def requests_def)
next
  case False
  let ?rs = "cut_splice (k mod length (rev (root_reqs root))) (rev (root_reqs root))"
  have m: "mset ?rs = mset (root_reqs root)" by (simp add: cut_splice_mset)
  then have "mset (map r_addr ?rs) = mset (map r_addr (root_reqs root))" unfolding mset_map by simp
  then have "distinct (map r_addr ?rs)" using assms(1) mset_eq_imp_distinct_iff unfolding root_ok_def by blast
  then have "\<exists>root'. add_all oc alloc ?rs [] = Some root' \<and> root_ok root' \<and> requests root' = image_mset strip (mset ?rs) + requests []"
    using assms(2,3) by (intro add_all_spec) (auto simp: root_ok_def inj_on_def)
  then show ?thesis using False m by (simp add: pmOptFetchRedo_def Let_def requests_def)
qed

section \<open>All uses of the optimizer\<close>

text \<open>
  What a client can do: the specification keeps only the multiset of the requests that are in. A
  request may not be added twice, and a new group has an address no group has. The costs can be set
  to anything; while requests are added, one at a time or all again, the cost of a group of its own
  has to be finite.
\<close>

inductive opt_reach :: "optcost \<Rightarrow> fetchctl list \<Rightarrow> optreq multiset \<Rightarrow> bool" where
  opt_init: "opt_reach default_optcost [] {#}"
| opt_put: "opt_reach oc root M \<Longrightarrow> opt_reach (pmOptFetchPutParams ocp oc) root M"
| opt_add: "opt_reach oc root M \<Longrightarrow> own_cost oc < OPT_COST_INFINITY \<Longrightarrow> a \<notin> f_addr ` set root \<Longrightarrow> r_addr new \<notin> r_addr ` set_mset M \<Longrightarrow>
    pmOptFetchAdd oc a new root = Some root' \<Longrightarrow> opt_reach oc root' (add_mset (strip new) M)"
| opt_del: "opt_reach oc root M \<Longrightarrow> r \<in># M \<Longrightarrow> pmOptFetchDel oc (r_addr r) root = (sts, root') \<Longrightarrow> opt_reach oc root' (M - {#r#})"
| opt_redo: "opt_reach oc root M \<Longrightarrow> own_cost oc < OPT_COST_INFINITY \<Longrightarrow> inj alloc \<Longrightarrow> pmOptFetchRedo oc alloc k root = Some root' \<Longrightarrow> opt_reach oc root' M"

lemma same_groups_member: "list_all2 same_group fps fps' \<Longrightarrow> x \<in> set fps \<Longrightarrow> \<exists>c n. x\<lparr>f_cost := c, f_newcost := n\<rparr> \<in> set fps'"
  by (induction rule: list_all2_induct) (auto simp: same_group_def)

lemma insts_of_covers:
  "q \<in> set rs \<Longrightarrow> (n, l) = insts_of rs \<Longrightarrow> n = 0 \<and> l = [] \<or>
    r_instlist q \<noteq> [] \<and> set (r_instlist q) \<subseteq> set l \<and> n = int (length l) \<and> sorted_wrt (<) l"
  by (auto simp: insts_of_def list_ex_iff Let_def split: if_splits)

lemma requests_inj: "root_ok root \<Longrightarrow> inj_on r_addr (set_mset (requests root))"
  by (auto simp: root_ok_def requests_def distinct_map inj_on_def)

lemma opt_reach_ok: "opt_reach oc root M \<Longrightarrow> root_ok root \<and> requests root = M"
proof (induction rule: opt_reach.induct)
  case opt_init
  show ?case by (simp add: root_ok_def requests_def)
next
  case (opt_put oc root M ocp)
  then show ?case by simp
next
  case (opt_add oc root M a new root')
  then have "r_addr new \<notin> r_addr ` set (root_reqs root)" using requests_addrs [of root] by simp
  then show ?case using add_spec [of root oc a new] opt_add by auto
next
  case (opt_del oc root M r sts root')
  then have "r_addr r \<in> r_addr ` set (root_reqs root)" using requests_addrs [of root] by auto
  then obtain root1 r' where d: "pmOptFetchDel oc (r_addr r) root = (0, root1)" "root_ok root1" "r_addr r' = r_addr r"
      "requests root = add_mset r' (requests root1)"
    using del_spec(2) [of root "r_addr r" oc] opt_del by blast
  have "r' = r" using requests_inj [of root] d(3,4) opt_del by (auto dest!: inj_onD)
  then show ?case using d opt_del by auto
next
  case (opt_redo oc root M alloc k root')
  then show ?case using redo_spec [of root oc alloc k] by auto
qed

lemma default_own_cost: "own_cost default_optcost < OPT_COST_INFINITY"
  by (simp add: own_cost_def default_optcost_def OPT_COST_INFINITY_def is_int32_def)

text \<open>
  A request that would cost \<^const>\<open>OPT_COST_INFINITY\<close> in a group of its own is not put anywhere when there
  is no other group: it is lost, and the caller is not told.
\<close>

lemma add_lost: "\<not> own_cost oc < OPT_COST_INFINITY \<Longrightarrow> pmOptFetchAdd oc a new [] = Some []"
proof -
  assume oc: "\<not> own_cost oc < OPT_COST_INFINITY"
  let ?t = "try_add oc True new (new_fetch a)"
  have "placed new ?t" using keep_wf [of "new_fetch a" a new oc True] by simp
  moreover have "f_state ?t AND OPT_STATE_XFETCH \<noteq> 0"
    by (simp add: try_add_def try_change_def new_fetch_def Let_def state_defs)
  then have "undo_add new ?t = None" by (simp add: undo_add_def)
  ultimately show ?thesis using oc new_group_cost [of oc new a] by (simp add: pmOptFetchAdd_def tried_def)
qed

text \<open>Two requests that share an instance domain, and the groups after the first and after both.\<close>

definition opt_req1 :: optreq where
  "opt_req1 = \<lparr>r_addr = 10, r_fetch = None, r_indom = 5, r_pmid = 7, r_instlist = [3, 1]\<rparr>"

definition opt_req2 :: optreq where
  "opt_req2 = \<lparr>r_addr = 20, r_fetch = None, r_indom = 5, r_pmid = 8, r_instlist = [2]\<rparr>"

definition opt_root1 :: "fetchctl list" where
  "opt_root1 = [\<lparr>f_addr = 100, f_idp = [\<lparr>i_indom = 5,
     i_pmp = [\<lparr>p_pmid = 7, p_rqp = [opt_req1\<lparr>r_fetch := Some 100\<rparr>], p_numinst = 2, p_instlist = [1, 3]\<rparr>],
     i_numinst = 2, i_instlist = [1, 3]\<rparr>], f_state = 7, f_cost = 20, f_newcost = 20, f_pmidlist = [7]\<rparr>]"

definition opt_root2 :: "fetchctl list" where
  "opt_root2 = [\<lparr>f_addr = 100, f_idp = [\<lparr>i_indom = 5,
     i_pmp = [\<lparr>p_pmid = 8, p_rqp = [opt_req2\<lparr>r_fetch := Some 100\<rparr>], p_numinst = 1, p_instlist = [2]\<rparr>,
       \<lparr>p_pmid = 7, p_rqp = [opt_req1\<lparr>r_fetch := Some 100\<rparr>], p_numinst = 2, p_instlist = [1, 3]\<rparr>],
     i_numinst = 3, i_instlist = [1, 2, 3]\<rparr>], f_state = 7, f_cost = 11, f_newcost = 11, f_pmidlist = [8, 7]\<rparr>]"

lemma opt_reach_root1: "opt_reach default_optcost opt_root1 {#opt_req1#}"
proof -
  have "pmOptFetchAdd default_optcost 100 opt_req1 [] = Some opt_root1" by code_simp
  from opt_add [OF opt_init default_own_cost _ _ this] show ?thesis by (simp add: strip_def opt_req1_def)
qed

lemma opt_reach_root2: "opt_reach default_optcost opt_root2 {#opt_req1, opt_req2#}"
proof -
  have "pmOptFetchAdd default_optcost 200 opt_req2 opt_root1 = Some opt_root2" by code_simp
  from opt_add [OF opt_reach_root1 default_own_cost _ _ this] have "opt_reach default_optcost opt_root2 {#opt_req2, opt_req1#}"
    by (simp add: strip_def opt_req1_def opt_req2_def opt_root1_def)
  then show ?thesis by (simp only: add_mset_commute)
qed

text \<open>
  C12: The groups implement a multiset of requests. After any sequence of additions, removals, rebuilds and
  changes of the costs, starting from no groups, every group is well formed (its metrics and instance domains
  are distinct, the instances at both levels are the union of what its requests ask, the list of
  metrics is exact and in order, every request points to its group) and the groups hold exactly
  the requests that were added and not removed. Removing returns 0 for a request that is in, and -1
  and changes nothing for any other. As long as the cost of a group of its own, the sum of \<open>c_pmid\<close>,
  \<open>c_indom\<close> and \<open>c_fetch\<close> as an \<open>int\<close>, is below \<^const>\<open>OPT_COST_INFINITY\<close>, adding a new request succeeds, no
  \<open>assert\<close> fails, and adding all requests again in any order succeeds and keeps them all; the
  sequences add requests only then. Otherwise a request that is added to no groups is lost.
\<close>

theorem optfetch_refines:
  assumes "opt_reach oc root M"
  shows "root_ok root \<and> requests root = M \<and>
    (\<forall>a new. own_cost oc < OPT_COST_INFINITY \<and> a \<notin> f_addr ` set root \<and> r_addr new \<notin> r_addr ` set_mset M \<longrightarrow>
      (\<exists>root'. pmOptFetchAdd oc a new root = Some root' \<and> opt_reach oc root' (add_mset (strip new) M))) \<and>
    (\<forall>a new. \<not> own_cost oc < OPT_COST_INFINITY \<and> root = [] \<longrightarrow> pmOptFetchAdd oc a new root = Some []) \<and>
    (\<forall>r \<in># M. \<exists>root'. pmOptFetchDel oc (r_addr r) root = (0, root') \<and> opt_reach oc root' (M - {#r#})) \<and>
    (\<forall>a. a \<notin> r_addr ` set_mset M \<longrightarrow> pmOptFetchDel oc a root = (- 1, root)) \<and>
    (\<forall>alloc k. own_cost oc < OPT_COST_INFINITY \<and> inj alloc \<longrightarrow> (\<exists>root'. pmOptFetchRedo oc alloc k root = Some root' \<and> opt_reach oc root' M))"
proof -
  have ok: "root_ok root" "requests root = M" using opt_reach_ok [OF assms] by auto
  have A: "r_addr ` set_mset M = r_addr ` set (root_reqs root)" using requests_addrs [of root] ok(2) by simp
  have add: "\<exists>root'. pmOptFetchAdd oc a new root = Some root' \<and> opt_reach oc root' (add_mset (strip new) M)"
    if "own_cost oc < OPT_COST_INFINITY" "a \<notin> f_addr ` set root" "r_addr new \<notin> r_addr ` set_mset M" for a new
    using add_spec [OF ok(1) that(1,2), of new] that(3) [unfolded A] opt_add [OF assms that] by blast
  have del: "\<exists>root'. pmOptFetchDel oc (r_addr r) root = (0, root') \<and> opt_reach oc root' (M - {#r#})" if "r \<in># M" for r
  proof -
    have "r_addr r \<in> r_addr ` set (root_reqs root)" using that A by blast
    then obtain root' where "pmOptFetchDel oc (r_addr r) root = (0, root')" using del_spec(2) [OF ok(1)] by blast
    then show ?thesis using opt_del [OF assms that] by blast
  qed
  have out: "pmOptFetchDel oc a root = (- 1, root)" if "a \<notin> r_addr ` set_mset M" for a
    using del_spec(1) [OF ok(1)] that A by auto
  have redo: "\<exists>root'. pmOptFetchRedo oc alloc k root = Some root' \<and> opt_reach oc root' M" if "own_cost oc < OPT_COST_INFINITY" "inj alloc" for alloc k
    using redo_spec [OF ok(1) that, of k] opt_redo [OF assms that] by blast
  have lost: "pmOptFetchAdd oc a new root = Some []" if "\<not> own_cost oc < OPT_COST_INFINITY" "root = []" for a new
    using add_lost that by simp
  show ?thesis
    by (intro conjI allI impI ballI; (elim conjE)?) (rule ok add del out redo lost; assumption?)+
qed

theorem optfetch_refines_witness:
  "opt_reach default_optcost opt_root2 {#opt_req1, opt_req2#} \<and> root_ok opt_root2 \<and>
   (\<exists>root'. pmOptFetchDel default_optcost 10 opt_root2 = (0, root') \<and> opt_reach default_optcost root' {#opt_req2#})"
  using optfetch_refines [OF opt_reach_root2] opt_reach_root2 by (auto simp: opt_req1_def opt_req2_def)

text \<open>
  C13: A new request is put where it costs least. The group that takes it, an old one
  or a new one of its own, has the least cost among all groups in which it could be put, the new
  one included; the request points to it; and every other group is as it was, apart from its
  costs, although the request was tried there. The cost of a group of its own has to be below
  \<^const>\<open>OPT_COST_INFINITY\<close>; costs are compared as the \<open>int\<close> values the code computes.
\<close>

theorem optfetch_greedy:
  assumes "opt_reach oc root M" "own_cost oc < OPT_COST_INFINITY" "a \<notin> f_addr ` set root"
  shows "\<exists>root' g c. pmOptFetchAdd oc a new root = Some root' \<and> g \<in> set root' \<and> new\<lparr>r_fetch := Some (f_addr g)\<rparr> \<in> set (fetch_reqs g) \<and>
    (f_addr g = a \<and> c = own_cost oc \<or> (\<exists>fp \<in> set root. f_addr g = f_addr fp \<and> c = add_cost oc (try_add oc False new fp))) \<and>
    c \<le> own_cost oc \<and> (\<forall>fp \<in> set root. c \<le> add_cost oc (try_add oc False new fp)) \<and>
    (\<forall>fp \<in> set root. f_addr fp \<noteq> f_addr g \<longrightarrow> (\<exists>c n. fp\<lparr>f_cost := c, f_newcost := n\<rparr> \<in> set root'))"
proof -
  have ok: "list_all wf_fetch root" using opt_reach_ok [OF assms(1)] by (auto simp: root_ok_def)
  obtain pre fp post pre' post' b c where
    r: "pmOptFetchAdd oc a new root = Some (pre' @ keep_add new (try_add oc b new fp) # post')"
      "list_all2 same_group pre pre'" "list_all2 same_group post post'"
    and fp: "fp = new_fetch a \<and> root = pre @ post \<and> c = own_cost oc \<or> root = pre @ fp # post \<and> c = add_cost oc (try_add oc False new fp)"
    and c: "c \<le> own_cost oc" "\<forall>fp \<in> set root. c \<le> add_cost oc (try_add oc False new fp)"
    by (rule add_cases [OF ok assms(2)])
  let ?g = "keep_add new (try_add oc b new fp)"
  have "wf_fetch fp \<or> fp = new_fetch a" using fp ok by auto
  note K = keep_wf [OF this, of new oc b]
  have g: "f_addr ?g = f_addr fp" by (simp add: keep_add_def addpmid_def split: prod.split)
  have "new\<lparr>r_fetch := Some (f_addr fp)\<rparr> \<in> set (fetch_reqs ?g)" using K by (metis set_mset_mset union_single_eq_member)
  moreover have "f_addr ?g = a \<and> c = own_cost oc \<or> (\<exists>fp \<in> set root. f_addr ?g = f_addr fp \<and> c = add_cost oc (try_add oc False new fp))"
    using fp g by (auto simp: new_fetch_def)
  moreover have "\<exists>c n. x\<lparr>f_cost := c, f_newcost := n\<rparr> \<in> set (pre' @ ?g # post')" if "x \<in> set root" "f_addr x \<noteq> f_addr ?g" for x
  proof -
    have "x \<in> set (pre @ post)" using that g fp by auto
    then show ?thesis using same_groups_member [OF r(2), of x] same_groups_member [OF r(3), of x] by auto
  qed
  ultimately show ?thesis using r(1) c g
    by (intro exI [of _ "pre' @ ?g # post'"] exI [of _ ?g] exI [of _ c]) simp
qed

theorem optfetch_greedy_witness:
  "opt_reach default_optcost opt_root1 {#opt_req1#} \<and> own_cost default_optcost < OPT_COST_INFINITY \<and> 200 \<notin> f_addr ` set opt_root1 \<and>
   (\<exists>root' g. pmOptFetchAdd default_optcost 200 opt_req2 opt_root1 = Some root' \<and> g \<in> set root' \<and>
     opt_req2\<lparr>r_fetch := Some (f_addr g)\<rparr> \<in> set (fetch_reqs g))"
proof -
  have a: "200 \<notin> f_addr ` set opt_root1" by (simp add: opt_root1_def)
  show ?thesis using optfetch_greedy [OF opt_reach_root1 default_own_cost a, of opt_req2] a opt_reach_root1 default_own_cost by blast
qed

text \<open>
  C14: What a client asked for is fetched, and no metric besides. After any sequence of operations,
  every request that is in has a group whose list of metrics has its metric, and the group's
  instance control for its instance domain takes all instances or at least the ones asked for;
  and every metric in the list of a group is the metric of a request that is in.
\<close>

theorem optfetch_covers:
  assumes "opt_reach oc root M"
  shows "(\<forall>r \<in># M. \<exists>fp \<in> set root. r_pmid r \<in> set (f_pmidlist fp) \<and>
      (\<exists>idp \<in> set (f_idp fp). i_indom idp = r_indom r \<and>
        (i_numinst idp = 0 \<and> i_instlist idp = [] \<or> r_instlist r \<noteq> [] \<and> set (r_instlist r) \<subseteq> set (i_instlist idp) \<and>
          i_numinst idp = int (length (i_instlist idp)) \<and> sorted_wrt (<) (i_instlist idp)))) \<and>
    (\<forall>fp \<in> set root. \<forall>pmid \<in> set (f_pmidlist fp). \<exists>r \<in># M. r_pmid r = pmid)"
proof -
  have ok: "list_all wf_fetch root" "requests root = M" using opt_reach_ok [OF assms] by (auto simp: root_ok_def)
  show ?thesis
  proof (intro conjI ballI)
    fix r assume "r \<in># M"
    then obtain q fp idp p where q: "r = strip q" "fp \<in> set root" "idp \<in> set (f_idp fp)" "p \<in> set (i_pmp idp)" "q \<in> set (p_rqp p)"
      using ok(2) by (auto simp: requests_def root_reqs_def fetch_reqs_def idp_reqs_def)
    have wf: "wf_fetch fp" "wf_idp idp" "wf_pmp (i_indom idp) p" using q ok(1) by (auto simp: list_all_iff wf_fetch_def wf_idp_def)
    have "r_pmid r \<in> set (f_pmidlist fp)" using wf q by (force simp: wf_fetch_def group_pmids_def wf_pmp_def strip_def)
    moreover have "i_indom idp = r_indom r" using wf(3) q by (simp add: wf_pmp_def strip_def)
    moreover have "q \<in> set (idp_reqs idp)" using q by (auto simp: idp_reqs_def)
    ultimately show "\<exists>fp \<in> set root. r_pmid r \<in> set (f_pmidlist fp) \<and>
      (\<exists>idp \<in> set (f_idp fp). i_indom idp = r_indom r \<and>
        (i_numinst idp = 0 \<and> i_instlist idp = [] \<or> r_instlist r \<noteq> [] \<and> set (r_instlist r) \<subseteq> set (i_instlist idp) \<and>
          i_numinst idp = int (length (i_instlist idp)) \<and> sorted_wrt (<) (i_instlist idp)))"
      using q wf(2) insts_of_covers [of q "idp_reqs idp" "i_numinst idp" "i_instlist idp"]
      by (intro bexI [of _ fp] conjI bexI [of _ idp]) (simp_all add: wf_idp_def strip_def)
  next
    fix fp pmid assume fp: "fp \<in> set root" "pmid \<in> set (f_pmidlist fp)"
    then obtain idp p where i: "idp \<in> set (f_idp fp)" "p \<in> set (i_pmp idp)" "p_pmid p = pmid"
      using ok(1) by (auto simp: list_all_iff wf_fetch_def group_pmids_def)
    then have "wf_pmp (i_indom idp) p" using fp ok(1) by (auto simp: list_all_iff wf_fetch_def wf_idp_def)
    then obtain q where "q \<in> set (p_rqp p)" "r_pmid q = pmid" using i(3) by (cases "p_rqp p") (auto simp: wf_pmp_def)
    moreover from this have "q \<in> set (root_reqs root)" using fp(1) i by (auto simp: root_reqs_def fetch_reqs_def idp_reqs_def)
    ultimately have "strip q \<in># M \<and> r_pmid (strip q) = pmid" using ok(2) by (auto simp: requests_def strip_def)
    then show "\<exists>r \<in># M. r_pmid r = pmid" by blast
  qed
qed

theorem optfetch_covers_witness:
  "opt_reach default_optcost opt_root2 {#opt_req1, opt_req2#} \<and>
   (\<exists>fp \<in> set opt_root2. r_pmid opt_req1 \<in> set (f_pmidlist fp) \<and> (\<exists>idp \<in> set (f_idp fp). i_indom idp = r_indom opt_req1)) \<and>
   (\<exists>r \<in># {#opt_req1, opt_req2#}. r_pmid r = hd (f_pmidlist (hd opt_root2)))"
proof -
  have "hd opt_root2 \<in> set opt_root2" "hd (f_pmidlist (hd opt_root2)) \<in> set (f_pmidlist (hd opt_root2))" by (simp_all add: opt_root2_def)
  then show ?thesis using optfetch_covers [OF opt_reach_root2] opt_reach_root2 union_single_eq_member [of opt_req1 "{#opt_req2#}"] by blast
qed

end
