(* ===== verification/Access.thy ===== *)
theory Access
  imports Prelude "HOL-Library.Multiset"
begin

text \<open>
  Host access control, \<^verbatim>\<open>access.c\<close>, with the addresses of \<^verbatim>\<open>auxconnect.c\<close>. A list of hosts and
  wildcards, the more specific ones first, says which operations a client may not perform and how
  many connections its hosts may have. Names are resolved by the system: the resolver is an
  argument that gives the addresses of a name. There is one thread, and an allocation that fails
  ends the process, as it does in the code everywhere but for socket addresses.
\<close>

section \<open>Addresses\<close>

definition AF_INET :: int where "AF_INET = 2"
definition AF_INET6 :: int where "AF_INET6 = 10"

text \<open>The address is four or sixteen bytes in network order.\<close>

record sockaddr =
  sa_family :: int
  sa_addr :: "byte list"

definition pmSockAddrMask :: "sockaddr \<Rightarrow> sockaddr \<Rightarrow> sockaddr" where
  "pmSockAddrMask addr msk = (
     if sa_family addr \<noteq> sa_family msk then addr
     else if sa_family addr = AF_INET \<or> sa_family addr = AF_INET6
     then addr\<lparr>sa_addr := map2 (\<lambda>x y. x AND y) (sa_addr addr) (sa_addr msk)\<rparr>
     else addr)"

fun memcmp :: "byte list \<Rightarrow> byte list \<Rightarrow> int" where
  "memcmp (a # as) (b # bs) = (if a = b then memcmp as bs else uint a - uint b)"
| "memcmp _ _ = 0"

definition pmSockAddrCompare :: "sockaddr \<Rightarrow> sockaddr \<Rightarrow> int" where
  "pmSockAddrCompare addr1 addr2 = (
     if sa_family addr1 \<noteq> sa_family addr2 then sa_family addr1 - sa_family addr2
     else if sa_family addr1 = AF_INET then s32 (uint (b2w (sa_addr addr1)) - uint (b2w (sa_addr addr2)))
     else if sa_family addr1 = AF_INET6 then memcmp (sa_addr addr1) (sa_addr addr2)
     else 1)"

definition pmLoopBackAddress :: "int \<Rightarrow> sockaddr" where
  "pmLoopBackAddress family =
     \<lparr>sa_family = family, sa_addr = (if family = AF_INET then [127, 0, 0, 1] else replicate 15 0 @ [1])\<rparr>"

definition pmSockAddrIsLoopBack :: "sockaddr \<Rightarrow> bool" where
  "pmSockAddrIsLoopBack addr \<longleftrightarrow> pmSockAddrCompare addr (pmLoopBackAddress (sa_family addr)) = 0"

section \<open>Numbers in strings\<close>

definition ascii :: "char \<Rightarrow> nat" where
  "ascii c = of_char c"

definition isspace :: "char \<Rightarrow> bool" where
  "isspace c \<longleftrightarrow> ascii c = 32 \<or> 9 \<le> ascii c \<and> ascii c \<le> 13"

definition digit_val :: "char \<Rightarrow> nat option" where
  "digit_val c = (
     if 48 \<le> ascii c \<and> ascii c \<le> 57 then Some (ascii c - 48)
     else if 97 \<le> ascii c \<and> ascii c \<le> 102 then Some (ascii c - 87)
     else if 65 \<le> ascii c \<and> ascii c \<le> 70 then Some (ascii c - 55)
     else None)"

definition digit_of :: "nat \<Rightarrow> char \<Rightarrow> nat option" where
  "digit_of radix c = (case digit_val c of Some d \<Rightarrow> if d < radix then Some d else None | None \<Rightarrow> None)"

fun number :: "nat \<Rightarrow> nat \<Rightarrow> string \<Rightarrow> nat \<times> string" where
  "number radix acc [] = (acc, [])"
| "number radix acc (c # cs) = (case digit_of radix c of Some d \<Rightarrow> number radix (acc * radix + d) cs | None \<Rightarrow> (acc, c # cs))"

definition LONG_MAX :: int where "LONG_MAX = 2 ^ 63 - 1"

definition skip_0x :: "nat \<Rightarrow> string \<Rightarrow> string" where
  "skip_0x radix s = (case s of
       z # x # d # cs \<Rightarrow> if radix = 16 \<and> z = CHR ''0'' \<and> (x = CHR ''x'' \<or> x = CHR ''X'') \<and> digit_of 16 d \<noteq> None then d # cs else s
     | _ \<Rightarrow> s)"

text \<open>\<open>strtol\<close>, with the rest of the string; without a digit the string is the rest.\<close>

definition take_sign :: "string \<Rightarrow> bool \<times> string" where
  "take_sign t = (case t of c # cs \<Rightarrow> if c = CHR ''-'' then (True, cs) else if c = CHR ''+'' then (False, cs) else (False, t)
     | [] \<Rightarrow> (False, []))"

definition strtol :: "nat \<Rightarrow> string \<Rightarrow> int \<times> string" where
  "strtol radix s = (case take_sign (dropWhile isspace s) of (neg, u) \<Rightarrow>
     let u = skip_0x radix u in
     if u = [] \<or> digit_of radix (hd u) = None then (0, s)
     else case number radix 0 u of (v, rest) \<Rightarrow>
       (if neg then max (- LONG_MAX - 1) (- int v) else min LONG_MAX (int v), rest))"

definition digit_char :: "nat \<Rightarrow> char" where
  "digit_char d = char_of (if d < 10 then d + 48 else d + 87)"

fun show_dec :: "nat \<Rightarrow> string" where
  "show_dec n = (if n < 10 then [digit_char n] else show_dec (n div 10) @ [digit_char (n mod 10)])"

fun show_hex :: "nat \<Rightarrow> string" where
  "show_hex n = (if n < 16 then [digit_char n] else show_hex (n div 16) @ [digit_char (n mod 16)])"

declare show_dec.simps [simp del] show_hex.simps [simp del]

section \<open>Addresses as strings\<close>

fun split_at :: "char \<Rightarrow> string \<Rightarrow> string list" where
  "split_at d [] = [[]]"
| "split_at d (c # cs) = (if c = d then [] # split_at d cs
     else case split_at d cs of g # gs \<Rightarrow> (c # g) # gs | [] \<Rightarrow> [[c]])"

text \<open>One part of a dotted address: digits without leading zeros, at most 255.\<close>

definition octet :: "string \<Rightarrow> byte option" where
  "octet s = (case number 10 0 s of (v, rest) \<Rightarrow>
     if s \<noteq> [] \<and> rest = [] \<and> v \<le> 255 \<and> (hd s = CHR ''0'' \<longrightarrow> length s = 1) then Some (of_nat v) else None)"

fun all_some :: "'a option list \<Rightarrow> 'a list option" where
  "all_some [] = Some []"
| "all_some (x # xs) = do { a \<leftarrow> x; as \<leftarrow> all_some xs; Some (a # as) }"

definition inet_pton4 :: "string \<Rightarrow> byte list option" where
  "inet_pton4 s = (let gs = split_at (CHR ''.'') s in if length gs = 4 then all_some (map octet gs) else None)"

text \<open>One group of an IPv6 address: up to four hexadecimal digits.\<close>

definition hextet :: "string \<Rightarrow> byte list option" where
  "hextet s = (case number 16 0 s of (v, rest) \<Rightarrow>
     if s \<noteq> [] \<and> length s \<le> 4 \<and> rest = [] then Some [of_nat (v div 256), of_nat (v mod 256)] else None)"

fun find_gap :: "string \<Rightarrow> (string \<times> string) option" where
  "find_gap (a # b # cs) = (if a = CHR '':'' \<and> b = CHR '':'' then Some ([], cs)
     else map_option (\<lambda>(l, r). (a # l, r)) (find_gap (b # cs)))"
| "find_gap _ = None"

definition groups :: "string \<Rightarrow> byte list list option" where
  "groups s = (if s = [] then Some [] else all_some (map hextet (split_at (CHR '':'') s)))"

definition inet_pton6 :: "string \<Rightarrow> byte list option" where
  "inet_pton6 s = (case find_gap s of
       None \<Rightarrow> do { gs \<leftarrow> groups s; if length gs = 8 then Some (concat gs) else None }
     | Some (l, r) \<Rightarrow> do { ls \<leftarrow> groups l; rs \<leftarrow> groups r;
         if length ls + length rs < 8 then Some (concat ls @ replicate (16 - 2 * (length ls + length rs)) 0 @ concat rs) else None })"

definition pmStringToSockAddr :: "string \<Rightarrow> sockaddr option" where
  "pmStringToSockAddr cp = (
     if cp = ''INADDR_ANY'' then Some \<lparr>sa_family = 0, sa_addr = [0, 0, 0, 0]\<rparr>
     else if CHR '':'' \<notin> set cp then map_option (\<lambda>a. \<lparr>sa_family = AF_INET, sa_addr = a\<rparr>) (inet_pton4 cp)
     else map_option (\<lambda>a. \<lparr>sa_family = AF_INET6, sa_addr = a\<rparr>) (inet_pton6 cp))"

section \<open>Wildcards\<close>

lemma number_length: "number radix acc s = (v, rest) \<Longrightarrow> length rest \<le> length s"
  by (induction s arbitrary: acc) (auto split: option.splits dest: le_SucI)

lemma skip_0x_length: "length (skip_0x radix s) \<le> length s"
  by (auto simp: skip_0x_def split: list.split)

lemma take_sign_length: "take_sign t = (neg, u) \<Longrightarrow> length u \<le> length t"
  by (cases t) (auto simp: take_sign_def split: if_splits)

lemma strtol_length: "length (snd (strtol radix s)) \<le> length s"
proof -
  obtain neg u where u: "take_sign (dropWhile isspace s) = (neg, u)" by (cases "take_sign (dropWhile isspace s)")
  obtain v rest where n: "number radix 0 (skip_0x radix u) = (v, rest)" by (cases "number radix 0 (skip_0x radix u)")
  have "length u \<le> length (dropWhile isspace s)" using take_sign_length u by blast
  then have "length rest \<le> length s"
    using number_length [OF n] skip_0x_length [of radix u] length_dropWhile_le [of isspace s] by linarith
  then show ?thesis by (simp add: strtol_def u n Let_def)
qed

text \<open>The part that is written for one number or one wildcarded level.\<close>

definition put_part :: "char \<Rightarrow> string \<Rightarrow> string \<Rightarrow> string" where
  "put_part sep part s = s @ (if s \<noteq> [] then [sep] else []) @ part"

function (sequential) inet_parts :: "string \<Rightarrow> int \<Rightarrow> string \<Rightarrow> string \<Rightarrow> (int \<times> string \<times> string) option" where
  "inet_parts [] level ip msk = Some (level, ip, msk)"
| "inet_parts (c # cs) level ip msk = (
     if c = CHR ''*'' then Some (level, ip, msk)
     else case strtol 10 (c # cs) of (v, p) \<Rightarrow>
       let n = s32 v in
       case p of
         [] \<Rightarrow> None
       | d # ds \<Rightarrow>
           if d \<noteq> CHR ''.'' \<and> d \<noteq> CHR ''*'' \<or> n < 0 \<or> n > 255 then None
           else if level - 1 < 1 then None
           else inet_parts ds (level - 1) (put_part (CHR ''.'') (show_dec (nat n)) ip) (put_part (CHR ''.'') ''255'' msk))"
  by pat_completeness auto
termination
proof (relation "measure (\<lambda>(s, _). length s)", goal_cases)
  case (2 c cs level ip msk v p n d ds)
  then show ?case using strtol_length [of 10 "c # cs"] by (cases "strtol 10 (c # cs)") auto
qed simp

definition parseInetWildCard :: "string \<Rightarrow> (int \<times> string \<times> string) option" where
  "parseInetWildCard name = (
     let bad = (case name of c # d # _ \<Rightarrow> c = CHR ''.'' \<and> d \<noteq> CHR ''*'' | [c] \<Rightarrow> c = CHR ''.'' | [] \<Rightarrow> False);
         p = (case name of c # cs \<Rightarrow> if c = CHR ''.'' then cs else name | [] \<Rightarrow> [])
     in if bad then None
        else do {
          (level, ip, msk) \<leftarrow> inet_parts p 4 [] [];
          let fill = ((put_part (CHR ''.'') ''0'') ^^ nat level);
          Some (level, fill ip, fill msk)
        })"

function (sequential) ipv6_parts :: "string \<Rightarrow> int \<Rightarrow> bool \<Rightarrow> string \<Rightarrow> string \<Rightarrow> (int \<times> bool \<times> string \<times> string) option" where
  "ipv6_parts [] level emptyRegion ip msk = Some (level, emptyRegion, ip, msk)"
| "ipv6_parts (c # cs) level emptyRegion ip msk = (
     if c = CHR ''*'' then Some (level, emptyRegion, ip, msk)
     else if c = CHR '':'' then
       if emptyRegion \<or> level - 1 < 1 then None
       else ipv6_parts cs (level - 1) True (ip @ '':'') (msk @ '':'')
     else case strtol 16 (c # cs) of (v, p) \<Rightarrow>
       let n = s32 v in
       case p of
         [] \<Rightarrow> None
       | d # ds \<Rightarrow>
           if d \<noteq> CHR '':'' \<and> d \<noteq> CHR ''*'' \<or> n < 0 \<or> n > 0xffff then None
           else if level - 1 < 1 then None
           else ipv6_parts ds (level - 1) emptyRegion (put_part (CHR '':'') (show_hex (nat n)) ip) (put_part (CHR '':'') ''ffff'' msk))"
  by pat_completeness auto
termination
proof (relation "measure (\<lambda>(s, _). length s)", goal_cases)
  case (3 c cs level emptyRegion ip msk v p n d ds)
  then show ?case using strtol_length [of 16 "c # cs"] by (cases "strtol 16 (c # cs)") auto
qed simp_all

definition parseIPv6WildCard :: "string \<Rightarrow> (int \<times> string \<times> string) option" where
  "parseIPv6WildCard name = (
     let colon = (case name of c # _ \<Rightarrow> c = CHR '':'' | [] \<Rightarrow> False);
         p = (if colon then tl name else name);
         star = (case p of c # _ \<Rightarrow> c = CHR ''*'' | [] \<Rightarrow> False);
         second = (case p of c # _ \<Rightarrow> c = CHR '':'' | [] \<Rightarrow> False)
     in if colon \<and> \<not> star \<and> \<not> second then None
        else do {
          let ip0 = (if colon \<and> \<not> star then '':'' else []);
          (level, emptyRegion, ip, msk) \<leftarrow> ipv6_parts p 8 False ip0 ip0;
          (if level = 8 \<or> level = 7 \<and> emptyRegion then Some (8, ''::'', ''::'')
           else if emptyRegion then Some (level, ip @ '':0'', msk @ '':0'')
           else Some (level, ip @ ''::'', msk @ ''::''))
        })"

definition parseWildCard :: "string \<Rightarrow> (int \<times> string \<times> string) option" where
  "parseWildCard name = (
     if CHR '':'' \<in> set name then parseIPv6WildCard name
     else if CHR ''.'' \<in> set name then parseInetWildCard name
     else None)"

section \<open>Access specifications\<close>

record accessSpec =
  sp_name :: string
  sp_hostid :: sockaddr
  sp_hostmask :: sockaddr
  sp_level :: int

definition getWildCardSpec :: "string \<Rightarrow> int + accessSpec" where
  "getWildCardSpec name = (case parseWildCard name of
       None \<Rightarrow> Inl (- EINVAL)
     | Some (level, ip, msk) \<Rightarrow> (case (pmStringToSockAddr ip, pmStringToSockAddr msk) of
           (Some hostid, Some hostmask) \<Rightarrow> Inr \<lparr>sp_name = name, sp_hostid = hostid, sp_hostmask = hostmask, sp_level = level\<rparr>
         | _ \<Rightarrow> Inl (- ENOMEM)))"

text \<open>
  What the system answers: the addresses of a name, the name of this host, and whether IPv6 is
  supported.
\<close>

record host_env =
  resolve :: "string \<Rightarrow> sockaddr list option"
  hostname :: "string option"
  cando_ipv6 :: bool

definition getmyhostid :: "host_env \<Rightarrow> (string \<times> sockaddr list) option" where
  "getmyhostid env = (case hostname env of None \<Rightarrow> None | Some n \<Rightarrow> map_option (Pair n) (resolve env n))"

record hostinfo =
  h_hostspec :: string
  h_hostid :: sockaddr
  h_hostmask :: sockaddr
  h_level :: int
  h_specOps :: u32
  h_denyOps :: u32
  h_maxcons :: int
  h_curcons :: int

record acc =
  all_ops :: u32
  hostlist :: "hostinfo list"
  saved :: bool
  oldhostlist :: "hostinfo list"
  myhost :: "(string \<times> sockaddr list) option"

definition lower :: "char \<Rightarrow> char" where
  "lower c = (if 65 \<le> ascii c \<and> ascii c \<le> 90 then char_of (ascii c + 32) else c)"

definition host_spec :: "string \<Rightarrow> sockaddr \<Rightarrow> accessSpec list" where
  "host_spec name addr = (
     if sa_family addr = AF_INET then case pmStringToSockAddr ''255.255.255.255'' of
         Some m \<Rightarrow> [\<lparr>sp_name = name, sp_hostid = addr, sp_hostmask = m, sp_level = 0\<rparr>] | None \<Rightarrow> []
     else if sa_family addr = AF_INET6 then case pmStringToSockAddr ''ffff:ffff:ffff:ffff:ffff:ffff:ffff:ffff'' of
         Some m \<Rightarrow> [\<lparr>sp_name = name, sp_hostid = addr, sp_hostmask = m, sp_level = 0\<rparr>] | None \<Rightarrow> []
     else [])"

definition getAccessSpecs :: "host_env \<Rightarrow> string \<Rightarrow> acc \<Rightarrow> (int + accessSpec list) \<times> acc" where
  "getAccessSpecs env name s = (
     if name = ''*'' then
       (Inr (case getWildCardSpec ''.*'' of Inl _ \<Rightarrow> []
          | Inr sp \<Rightarrow> sp # (if cando_ipv6 env then case getWildCardSpec '':*'' of Inl _ \<Rightarrow> [] | Inr sp6 \<Rightarrow> [sp6] else [])), s)
     else if CHR ''*'' \<in> set name then
       if tl (dropWhile (\<lambda>c. c \<noteq> CHR ''*'') name) \<noteq> [] then (Inl (- EINVAL), s)
       else (Inr (case getWildCardSpec name of Inl _ \<Rightarrow> [] | Inr sp \<Rightarrow> [sp]), s)
     else
       let local = map lower name = ''localhost'';
           me = (if local \<and> myhost s = None then getmyhostid env else myhost s);
           s' = s\<lparr>myhost := me\<rparr>
       in if local \<and> me = None then (Inl (- EHOSTDOWN), s)
          else
            let realname = (if local then fst (the me) else name);
                specs = (case resolve env realname of None \<Rightarrow> [] | Some addrs \<Rightarrow> concat (map (host_spec name) addrs))
            in (if specs = [] then Inl (- EHOSTUNREACH) else Inr specs, s'))"

section \<open>Operations and hosts\<close>

fun lowest_bit :: "nat \<Rightarrow> nat \<Rightarrow> u32 \<Rightarrow> nat" where
  "lowest_bit 0 i op = i"
| "lowest_bit (Suc n) i op = (if bit op i then i else lowest_bit n (Suc i) op)"

definition pmAccAddOp :: "u32 \<Rightarrow> acc \<Rightarrow> int \<times> acc" where
  "pmAccAddOp op s = (
     if op = 0 \<or> op AND all_ops s \<noteq> 0 then (- EINVAL, s)
     else let msk = push_bit (lowest_bit 32 0 op) 1 in
       if op AND NOT msk \<noteq> 0 then (- EINVAL, s)
       else (0, s\<lparr>all_ops := all_ops s OR msk\<rparr>))"

definition pmAccSaveHosts :: "acc \<Rightarrow> int \<times> acc" where
  "pmAccSaveHosts s = (if saved s then (- 1, s) else (0, s\<lparr>saved := True, oldhostlist := hostlist s, hostlist := []\<rparr>))"

definition pmAccRestoreHosts :: "acc \<Rightarrow> int \<times> acc" where
  "pmAccRestoreHosts s = (if \<not> saved s then (- 1, s) else (0, s\<lparr>saved := False, hostlist := oldhostlist s\<rparr>))"

definition pmAccFreeSavedHosts :: "acc \<Rightarrow> acc" where
  "pmAccFreeSavedHosts s = (if \<not> saved s then s else s\<lparr>saved := False\<rparr>)"

text \<open>The place of a specification in the list, and whether the entry there is for the same hosts.\<close>

fun find_host :: "accessSpec \<Rightarrow> hostinfo list \<Rightarrow> nat \<times> bool" where
  "find_host spec [] = (0, False)"
| "find_host spec (h # hs) = (
     if h_level h > sp_level spec then (0, False)
     else if pmSockAddrCompare (sp_hostid spec) (h_hostid h) = 0 \<and> sp_level spec = h_level h then (0, True)
     else case find_host spec hs of (i, found) \<Rightarrow> (Suc i, found))"

definition clash :: "hostinfo \<Rightarrow> u32 \<Rightarrow> u32 \<Rightarrow> int \<Rightarrow> bool" where
  "clash hp specOps denyOps maxcons \<longleftrightarrow>
     h_maxcons hp \<noteq> 0 \<and> maxcons \<noteq> 0 \<and> h_maxcons hp \<noteq> maxcons \<or>
     h_specOps hp AND specOps \<noteq> 0 \<and> (h_specOps hp AND h_denyOps hp) XOR (specOps AND denyOps) \<noteq> 0"

definition new_host :: "accessSpec \<Rightarrow> u32 \<Rightarrow> u32 \<Rightarrow> int \<Rightarrow> hostinfo" where
  "new_host spec specOps denyOps maxcons = \<lparr>h_hostspec = sp_name spec, h_hostid = sp_hostid spec, h_hostmask = sp_hostmask spec,
     h_level = sp_level spec, h_specOps = specOps, h_denyOps = specOps AND denyOps, h_maxcons = maxcons, h_curcons = 0\<rparr>"

definition augment :: "hostinfo \<Rightarrow> u32 \<Rightarrow> u32 \<Rightarrow> int \<Rightarrow> hostinfo" where
  "augment hp specOps denyOps maxcons = hp\<lparr>h_specOps := h_specOps hp OR specOps,
     h_denyOps := h_denyOps hp OR (specOps AND denyOps), h_maxcons := (if maxcons \<noteq> 0 then maxcons else h_maxcons hp)\<rparr>"

definition add_spec :: "u32 \<Rightarrow> u32 \<Rightarrow> int \<Rightarrow> accessSpec \<Rightarrow> nat \<times> hostinfo list \<Rightarrow> nat \<times> hostinfo list" where
  "add_spec specOps denyOps maxcons spec acc = (case acc of (found, hosts) \<Rightarrow>
     case find_host spec hosts of (i, same) \<Rightarrow>
       if same then
         if clash (hosts ! i) specOps denyOps maxcons then (found, hosts)
         else (Suc found, hosts[i := augment (hosts ! i) specOps denyOps maxcons])
       else (Suc found, take i hosts @ new_host spec specOps denyOps maxcons # drop i hosts))"

definition pmAccAddHost :: "host_env \<Rightarrow> string \<Rightarrow> u32 \<Rightarrow> u32 \<Rightarrow> int \<Rightarrow> acc \<Rightarrow> int \<times> acc" where
  "pmAccAddHost env name specOps denyOps maxcons s = (
     if specOps AND NOT (all_ops s) \<noteq> 0 then (- EINVAL, s)
     else if maxcons < 0 then (- EINVAL, s)
     else case getAccessSpecs env name s of
         (Inl sts, s) \<Rightarrow> (sts, s)
       | (Inr specs, s) \<Rightarrow> (case fold (add_spec specOps denyOps maxcons) specs (0, hostlist s) of (found, hosts) \<Rightarrow>
           (if found \<noteq> 0 then 0 else - EINVAL, s\<lparr>hostlist := hosts\<rparr>)))"

section \<open>Clients\<close>

definition getClientIds :: "host_env \<Rightarrow> sockaddr \<Rightarrow> acc \<Rightarrow> (int + sockaddr list) \<times> acc" where
  "getClientIds env hostid s = (
     if \<not> pmSockAddrIsLoopBack hostid then (Inr [hostid], s)
     else let me = (if myhost s = None then getmyhostid env else myhost s); s = s\<lparr>myhost := me\<rparr> in
       case me of None \<Rightarrow> (Inl PM_ERR_PERMISSION, s)
       | Some (_, addrs) \<Rightarrow> (if addrs = [] then Inl PM_ERR_PERMISSION else Inr addrs, s))"

definition matches :: "sockaddr \<Rightarrow> hostinfo \<Rightarrow> bool" where
  "matches clientId hp \<longleftrightarrow> sa_family clientId = sa_family (h_hostmask hp) \<and>
     pmSockAddrCompare (pmSockAddrMask clientId (h_hostmask hp)) (h_hostid hp) = 0"

text \<open>The loop from the last, least specific host to the first, with the last match.\<close>

fun accumulate :: "sockaddr \<Rightarrow> hostinfo list \<Rightarrow> u32 \<times> hostinfo option \<Rightarrow> u32 \<times> hostinfo option" where
  "accumulate clientId [] dl = dl"
| "accumulate clientId (hp # hosts) dl = (case accumulate clientId hosts dl of (deny, lastmatch) \<Rightarrow>
     if matches clientId hp then ((deny AND NOT (h_specOps hp)) OR h_denyOps hp, Some hp) else (deny, lastmatch))"

definition count_con :: "int \<Rightarrow> sockaddr \<Rightarrow> hostinfo \<Rightarrow> hostinfo" where
  "count_con d clientId hp = (if matches clientId hp \<and> h_maxcons hp \<noteq> 0 then hp\<lparr>h_curcons := h_curcons hp + d\<rparr> else hp)"

text \<open>
  \<open>lastmatch\<close> is a pointer into the list: the entry that an earlier address has matched is seen with
  the connections counted since.
\<close>

fun add_clients :: "u32 \<Rightarrow> sockaddr list \<Rightarrow> u32 \<Rightarrow> hostinfo option \<Rightarrow> hostinfo list \<Rightarrow> int \<times> u32 \<times> hostinfo list" where
  "add_clients ops [] deny lastmatch hosts = (0, deny, hosts)"
| "add_clients ops (clientId # ids) deny lastmatch hosts = (
     case accumulate clientId hosts (deny, lastmatch) of (deny, lastmatch) \<Rightarrow>
       if deny = ops then (PM_ERR_PERMISSION, deny, hosts)
       else if (case lastmatch of None \<Rightarrow> False | Some hp \<Rightarrow> h_maxcons hp \<noteq> 0 \<and> h_curcons hp \<ge> h_maxcons hp)
       then (PM_ERR_CONNLIMIT, ops, hosts)
       else add_clients ops ids deny (map_option (count_con 1 clientId) lastmatch) (map (count_con 1 clientId) hosts))"

definition pmAccAddClient :: "host_env \<Rightarrow> sockaddr \<Rightarrow> u32 \<Rightarrow> acc \<Rightarrow> int \<times> u32 \<times> acc" where
  "pmAccAddClient env hostid deny s = (case getClientIds env hostid s of
       (Inl sts, s) \<Rightarrow> (sts, deny, s)
     | (Inr ids, s) \<Rightarrow>
         if hostlist s = [] then (0, 0, s)
         else case add_clients (all_ops s) ids 0 None (hostlist s) of (sts, deny, hosts) \<Rightarrow> (sts, deny, s\<lparr>hostlist := hosts\<rparr>))"

definition pmAccDelClient :: "host_env \<Rightarrow> sockaddr \<Rightarrow> acc \<Rightarrow> acc" where
  "pmAccDelClient env hostid s = (case getClientIds env hostid s of
       (Inl sts, s) \<Rightarrow> s
     | (Inr ids, s) \<Rightarrow> s\<lparr>hostlist := fold (\<lambda>clientId. map (count_con (- 1) clientId)) ids (hostlist s)\<rparr>)"

section \<open>Comparing addresses\<close>

definition wf_addr :: "sockaddr \<Rightarrow> bool" where
  "wf_addr a \<longleftrightarrow> sa_family a = AF_INET \<and> length (sa_addr a) = 4 \<or> sa_family a = AF_INET6 \<and> length (sa_addr a) = 16"

lemma memcmp_eq: "length as = length bs \<Longrightarrow> memcmp as bs = 0 \<longleftrightarrow> as = bs"
  by (induction as bs rule: list_induct2) (auto simp: word_uint_eq_iff)

lemma memcmp_sym: "memcmp as bs = 0 \<longleftrightarrow> memcmp bs as = 0"
  by (induction as bs rule: memcmp.induct) auto

lemma s32_diff_zero: "s32 (uint (v :: u32) - uint w) = 0 \<longleftrightarrow> v = w"
proof -
  have "s32 (uint v - uint w) = sint (v - w)" by (simp add: s32_def)
  then show ?thesis by (metis right_minus_eq sint_0 signed_word_eqI)
qed

lemma compare_sym: "pmSockAddrCompare a b = 0 \<longleftrightarrow> pmSockAddrCompare b a = 0"
  using memcmp_sym by (auto simp: pmSockAddrCompare_def s32_diff_zero)

lemma compare_eq: "wf_addr a \<Longrightarrow> wf_addr b \<Longrightarrow> pmSockAddrCompare a b = 0 \<longleftrightarrow> a = b"
  by (cases a; cases b)
    (auto simp: pmSockAddrCompare_def wf_addr_def s32_diff_zero memcmp_eq AF_INET_def AF_INET6_def dest: arg_cong [of _ _ w2b])

section \<open>The decision for a client\<close>


definition ops_ok :: "hostinfo \<Rightarrow> bool" where
  "ops_ok h \<longleftrightarrow> h_denyOps h AND NOT (h_specOps h) = 0"

lemma ops_ok_bit: "ops_ok h \<Longrightarrow> bit (h_denyOps h) n \<Longrightarrow> bit (h_specOps h) n"
proof -
  assume ok: "ops_ok h" and b: "bit (h_denyOps h) n"
  then have "n < 32" using bit_imp_le_length [of "h_denyOps h" n] by simp
  moreover have "\<not> bit (h_denyOps h AND NOT (h_specOps h)) n" using ok by (simp add: ops_ok_def)
  ultimately show ?thesis using b by (simp add: bit_simps)
qed


lemma accumulate_match: "snd (accumulate c hosts (d, None)) = find (matches c) hosts"
  by (induction hosts) (auto split: prod.splits)





text \<open>The network 10, where operation 0 is denied, with a limit of two clients.\<close>

definition net10 :: hostinfo where
  "net10 = \<lparr>h_hostspec = ''10.*'', h_hostid = \<lparr>sa_family = AF_INET, sa_addr = [10, 0, 0, 0]\<rparr>,
     h_hostmask = \<lparr>sa_family = AF_INET, sa_addr = [255, 0, 0, 0]\<rparr>, h_level = 3, h_specOps = 1, h_denyOps = 1, h_maxcons = 2, h_curcons = 0\<rparr>"

definition net10_acc :: acc where
  "net10_acc = \<lparr>all_ops = 3, hostlist = [net10], saved = False, oldhostlist = [], myhost = None\<rparr>"

definition no_env :: host_env where
  "no_env = \<lparr>resolve = \<lambda>_. None, hostname = None, cando_ipv6 = False\<rparr>"

definition host10 :: sockaddr where
  "host10 = \<lparr>sa_family = AF_INET, sa_addr = [10, 1, 2, 3]\<rparr>"

lemma host10_facts: "\<not> pmSockAddrIsLoopBack host10" "matches host10 net10" "ops_ok net10"
  by (code_simp, code_simp, code_simp)


section \<open>The list of hosts\<close>

definition host_before :: "hostinfo \<Rightarrow> hostinfo \<Rightarrow> bool" where
  "host_before a b \<longleftrightarrow> h_level a \<le> h_level b \<and> \<not> (h_level a = h_level b \<and> pmSockAddrCompare (h_hostid a) (h_hostid b) = 0)"

definition hosts_ok :: "u32 \<Rightarrow> hostinfo list \<Rightarrow> bool" where
  "hosts_ok ops hosts \<longleftrightarrow> sorted_wrt host_before hosts \<and>
     list_all (\<lambda>h. ops_ok h \<and> h_specOps h AND NOT ops = 0 \<and> 0 \<le> h_maxcons h) hosts"

lemma find_host_spec:
  assumes "sorted_wrt host_before hosts"
  shows "case find_host spec hosts of (i, same) \<Rightarrow> i \<le> length hosts \<and> (same \<longrightarrow> i < length hosts) \<and>
    (\<not> same \<longrightarrow> list_all (\<lambda>h. host_before h (new_host spec so d m)) (take i hosts) \<and>
       list_all (\<lambda>h. host_before (new_host spec so d m) h) (drop i hosts))"
  using assms
proof (induction hosts)
  case (Cons h hosts)
  show ?case
  proof (cases "h_level h > sp_level spec")
    case True
    moreover have "list_all (\<lambda>x. h_level h \<le> h_level x) hosts" using Cons.prems by (auto simp: list_all_iff host_before_def)
    ultimately show ?thesis by (auto simp: list_all_iff host_before_def new_host_def)
  next
    case le: False
    show ?thesis
    proof (cases "pmSockAddrCompare (sp_hostid spec) (h_hostid h) = 0 \<and> sp_level spec = h_level h")
      case True
      then show ?thesis by simp
    next
      case False
      then have "host_before h (new_host spec so d m)" using le compare_sym by (auto simp: host_before_def new_host_def)
      then show ?thesis using Cons False le by (auto split: prod.splits)
    qed
  qed
qed simp

lemma sorted_wrt_insert:
  "sorted_wrt P xs \<Longrightarrow> list_all (\<lambda>x. P x y) (take i xs) \<Longrightarrow> list_all (\<lambda>x. P y x) (drop i xs) \<Longrightarrow> sorted_wrt P (take i xs @ y # drop i xs)"
  using sorted_wrt_append [of P "take i xs" "drop i xs"] by (auto simp: sorted_wrt_append list_all_iff)

lemma sorted_wrt_update:
  assumes "sorted_wrt P xs" "i < length xs" "\<And>x. P x (xs ! i) \<Longrightarrow> P x y" "\<And>x. P (xs ! i) x \<Longrightarrow> P y x"
  shows "sorted_wrt P (xs[i := y])"
  using assms by (auto simp: sorted_wrt_iff_nth_less nth_list_update)

lemma ops_ok_new: "ops_ok (new_host spec so d m)"
  by (auto simp: ops_ok_def new_host_def bit_simps intro!: bit_eqI)

lemma ops_ok_augment: "ops_ok h \<Longrightarrow> ops_ok (augment h so d m)"
proof -
  assume "ops_ok h"
  then have "bit (h_denyOps h) n \<Longrightarrow> bit (h_specOps h) n" for n by (rule ops_ok_bit)
  then show ?thesis by (auto simp: ops_ok_def augment_def bit_simps intro!: bit_eqI)
qed

lemma and_not_or: "(a :: u32) AND NOT c = 0 \<Longrightarrow> b AND NOT c = 0 \<Longrightarrow> (a OR b) AND NOT c = 0"
  by (simp add: word_ao_dist)

lemma add_spec_ok:
  assumes "hosts_ok ops hosts" "so AND NOT ops = 0" "0 \<le> m"
  shows "hosts_ok ops (snd (add_spec so d m spec (found, hosts)))"
proof (cases "find_host spec hosts")
  case (Pair i same)
  have s: "sorted_wrt host_before hosts" and a: "list_all (\<lambda>h. ops_ok h \<and> h_specOps h AND NOT ops = 0 \<and> 0 \<le> h_maxcons h) hosts"
    using assms(1) by (auto simp: hosts_ok_def)
  note F = find_host_spec [OF s, of spec so d m, unfolded Pair prod.case]
  show ?thesis
  proof (cases same)
    case True
    let ?h = "augment (hosts ! i) so d m"
    have i: "i < length hosts" using F True by simp
    have "sorted_wrt host_before (hosts[i := ?h])"
      by (rule sorted_wrt_update [OF s i]) (auto simp: host_before_def augment_def)
    moreover have "ops_ok ?h \<and> h_specOps ?h AND NOT ops = 0 \<and> 0 \<le> h_maxcons ?h"
    proof -
      have "ops_ok (hosts ! i)" "h_specOps (hosts ! i) AND NOT ops = 0" "0 \<le> h_maxcons (hosts ! i)" using a i by (auto simp: list_all_length)
      then show ?thesis using ops_ok_augment [of "hosts ! i" so d m] assms(2,3) by (simp add: and_not_or augment_def)
    qed
    ultimately have "hosts_ok ops (hosts[i := ?h])"
      using a set_update_subset_insert [of hosts i ?h] unfolding hosts_ok_def list_all_iff by blast
    then show ?thesis using Pair True assms(1) by (simp add: add_spec_def)
  next
    case False
    have "sorted_wrt host_before (take i hosts @ new_host spec so d m # drop i hosts)"
      using F False by (intro sorted_wrt_insert [OF s]) auto
    moreover have "list_all (\<lambda>h. ops_ok h \<and> h_specOps h AND NOT ops = 0 \<and> 0 \<le> h_maxcons h) (take i hosts @ new_host spec so d m # drop i hosts)"
      using a assms(2,3) by (auto simp: list_all_iff ops_ok_new dest: in_set_takeD in_set_dropD) (simp_all add: new_host_def)
    ultimately show ?thesis using Pair False by (simp add: add_spec_def hosts_ok_def)
  qed
qed

lemma add_specs_ok:
  assumes "so AND NOT ops = 0" "0 \<le> m"
  shows "hosts_ok ops (snd fh) \<Longrightarrow> hosts_ok ops (snd (fold (add_spec so d m) specs fh))"
proof (induction specs arbitrary: fh)
  case (Cons spec specs)
  then show ?case using add_spec_ok [OF _ assms, of "snd fh" d spec "fst fh"] by simp
qed simp

lemma count_con_fields [simp]: "h_hostspec (count_con k c h) = h_hostspec h" "h_hostid (count_con k c h) = h_hostid h"
  "h_hostmask (count_con k c h) = h_hostmask h" "h_level (count_con k c h) = h_level h" "h_specOps (count_con k c h) = h_specOps h"
  "h_denyOps (count_con k c h) = h_denyOps h" "h_maxcons (count_con k c h) = h_maxcons h"
  by (simp_all add: count_con_def)

lemma count_con_preds [simp]: "host_before (count_con k c a) (count_con l d b) = host_before a b"
  "ops_ok (count_con k c h) = ops_ok h" "matches x (count_con k c h) = matches x h"
  by (simp_all add: host_before_def ops_ok_def matches_def)

lemma hosts_ok_Nil [simp]: "hosts_ok ops []"
  by (simp add: hosts_ok_def)

lemma hosts_ok_count: "hosts_ok ops (map (count_con k c) hosts) \<longleftrightarrow> hosts_ok ops hosts"
  by (simp add: hosts_ok_def sorted_wrt_map list_all_iff)

lemma hosts_ok_more: "hosts_ok ops hosts \<Longrightarrow> hosts_ok (ops OR m) hosts"
proof -
  have "(a :: u32) AND NOT ops = 0 \<Longrightarrow> a AND NOT (ops OR m) = 0" for a
    by (simp add: bit.de_Morgan_disj flip: and.assoc)
  then show "hosts_ok ops hosts \<Longrightarrow> hosts_ok (ops OR m) hosts" by (auto simp: hosts_ok_def list_all_iff)
qed

lemma add_clients_ok: "hosts_ok ops hosts \<Longrightarrow> hosts_ok ops (snd (snd (add_clients ops' ids d l hosts)))"
  by (induction ops' ids d l hosts rule: add_clients.induct) (auto simp: hosts_ok_count Let_def split: prod.split)

definition acc_ok :: "acc \<Rightarrow> bool" where
  "acc_ok s \<longleftrightarrow> hosts_ok (all_ops s) (hostlist s) \<and> (saved s \<longrightarrow> hosts_ok (all_ops s) (oldhostlist s))"

lemma getAccessSpecs_state: "getAccessSpecs env name s = (r, s') \<Longrightarrow> hostlist s' = hostlist s \<and> all_ops s' = all_ops s \<and> saved s' = saved s \<and> oldhostlist s' = oldhostlist s"
  by (auto simp: getAccessSpecs_def Let_def split: if_splits)

lemma getClientIds_state: "getClientIds env c s = (r, s') \<Longrightarrow> hostlist s' = hostlist s \<and> all_ops s' = all_ops s \<and> saved s' = saved s \<and> oldhostlist s' = oldhostlist s"
  by (auto simp: getClientIds_def Let_def split: if_splits option.splits)

text \<open>What can be done with the access control list.\<close>

inductive acc_reach :: "host_env \<Rightarrow> acc \<Rightarrow> bool" for env where
  acc_init: "acc_reach env \<lparr>all_ops = 0, hostlist = [], saved = False, oldhostlist = [], myhost = None\<rparr>"
| acc_op: "acc_reach env s \<Longrightarrow> acc_reach env (snd (pmAccAddOp op s))"
| acc_host: "acc_reach env s \<Longrightarrow> acc_reach env (snd (pmAccAddHost env name specOps denyOps maxcons s))"
| acc_save: "acc_reach env s \<Longrightarrow> acc_reach env (snd (pmAccSaveHosts s))"
| acc_restore: "acc_reach env s \<Longrightarrow> acc_reach env (snd (pmAccRestoreHosts s))"
| acc_free: "acc_reach env s \<Longrightarrow> acc_reach env (pmAccFreeSavedHosts s)"
| acc_client: "acc_reach env s \<Longrightarrow> acc_reach env (snd (snd (pmAccAddClient env c d s)))"
| acc_del: "acc_reach env s \<Longrightarrow> acc_reach env (pmAccDelClient env c s)"

lemma AddHost_ok: "acc_ok s \<Longrightarrow> acc_ok (snd (pmAccAddHost env name so d m s))"
proof -
  assume ok: "acc_ok s"
  obtain r s' where g: "getAccessSpecs env name s = (r, s')" by (cases "getAccessSpecs env name s")
  note G = getAccessSpecs_state [OF g]
  show ?thesis
  proof (cases "so AND NOT (all_ops s) \<noteq> 0 \<or> m < 0")
    case True
    then show ?thesis using ok by (auto simp: pmAccAddHost_def)
  next
    case False
    then have so: "so AND NOT (all_ops s) = 0" "0 \<le> m" by auto
    have "hosts_ok (all_ops s) (snd (fold (add_spec so d m) specs (0, hostlist s)))" for specs
      using add_specs_ok [OF so, of "(0, hostlist s)"] ok by (simp add: acc_ok_def)
    then show ?thesis using ok so g G by (cases r) (simp_all add: pmAccAddHost_def acc_ok_def case_prod_beta)
  qed
qed

lemma AddClient_ok: "acc_ok s \<Longrightarrow> acc_ok (snd (snd (pmAccAddClient env c d s)))"
proof -
  assume ok: "acc_ok s"
  obtain r s' where g: "getClientIds env c s = (r, s')" by (cases "getClientIds env c s")
  note G = getClientIds_state [OF g]
  show ?thesis using ok g G add_clients_ok [of "all_ops s" "hostlist s" "all_ops s"]
    by (cases r) (simp_all add: pmAccAddClient_def acc_ok_def case_prod_beta)
qed

lemma DelClient_ok: "acc_ok s \<Longrightarrow> acc_ok (pmAccDelClient env c s)"
proof -
  assume ok: "acc_ok s"
  obtain r s' where g: "getClientIds env c s = (r, s')" by (cases "getClientIds env c s")
  have "hosts_ok ops hosts \<Longrightarrow> hosts_ok ops (fold (\<lambda>clientId. map (count_con (- 1) clientId)) ids hosts)" for ops hosts ids
    by (induction ids arbitrary: hosts) (simp_all add: hosts_ok_count)
  then show ?thesis using ok g getClientIds_state [OF g] by (cases r) (simp_all add: pmAccDelClient_def acc_ok_def)
qed

text \<open>
  C17: However the list is built and used, its entries are ordered by the level of wildcarding,
  the specific ones first, no two entries are for the same hosts at the same level, every entry
  denies only operations it mentions and mentions only operations that have been declared, and
  limits are not negative. The saved list is so as well.
\<close>

theorem access_list_invariant:
  assumes "acc_reach env s"
  shows "hosts_ok (all_ops s) (hostlist s) \<and> (saved s \<longrightarrow> hosts_ok (all_ops s) (oldhostlist s))"
proof -
  from assms have "acc_ok s"
  proof (induction rule: acc_reach.induct)
    case (acc_op s op)
    then show ?case by (auto simp: pmAccAddOp_def acc_ok_def hosts_ok_more Let_def)
  next
    case (acc_save s)
    then show ?case by (auto simp: pmAccSaveHosts_def acc_ok_def hosts_ok_def)
  next
    case (acc_restore s)
    then show ?case by (auto simp: pmAccRestoreHosts_def acc_ok_def)
  next
    case (acc_free s)
    then show ?case by (auto simp: pmAccFreeSavedHosts_def acc_ok_def)
  qed (simp_all add: AddHost_ok AddClient_ok DelClient_ok, simp add: acc_ok_def hosts_ok_def)
  then show ?thesis by (simp add: acc_ok_def)
qed


lemma access_list_invariant_witness:
  "let s = snd (pmAccAddHost no_env ''10.*'' 1 1 2 (snd (pmAccAddOp 1 \<lparr>all_ops = 0, hostlist = [], saved = False, oldhostlist = [], myhost = None\<rparr>)))
   in hosts_ok (all_ops s) (hostlist s)"
  using access_list_invariant [OF acc_reach.acc_host [OF acc_reach.acc_op [OF acc_reach.acc_init]], of no_env "''10.*''" 1 1 2 1]
  by (simp add: Let_def)

section \<open>Counting connections\<close>

text \<open>The clients that are connected, for hosts that are set up before the first one comes.\<close>

inductive acc_run :: "host_env \<Rightarrow> acc \<Rightarrow> sockaddr multiset \<Rightarrow> bool" for env where
  run_start: "list_all (\<lambda>h. h_curcons h = 0) (hostlist s) \<Longrightarrow> acc_run env s {#}"
| run_connect: "acc_run env s C \<Longrightarrow> \<not> pmSockAddrIsLoopBack a \<Longrightarrow> pmAccAddClient env a d s = (0, deny, s') \<Longrightarrow> acc_run env s' (add_mset a C)"
| run_refuse: "acc_run env s C \<Longrightarrow> \<not> pmSockAddrIsLoopBack a \<Longrightarrow> pmAccAddClient env a d s = (sts, deny, s') \<Longrightarrow> sts \<noteq> 0 \<Longrightarrow> acc_run env s' C"
| run_leave: "acc_run env s C \<Longrightarrow> a \<in># C \<Longrightarrow> acc_run env (pmAccDelClient env a s) (C - {#a#})"

definition conns :: "sockaddr multiset \<Rightarrow> hostinfo \<Rightarrow> int" where
  "conns C h = int (size (filter_mset (\<lambda>a. matches a h) C))"

lemma connect_one:
  assumes "\<not> pmSockAddrIsLoopBack a"
  shows "hostlist (snd (snd (pmAccAddClient env a d s))) = (if fst (pmAccAddClient env a d s) = 0 then map (count_con 1 a) (hostlist s) else hostlist s)"
  using assms by (simp add: pmAccAddClient_def getClientIds_def PM_ERR_PERMISSION_def PM_ERR_CONNLIMIT_def PM_ERR_BASE2_def split: prod.split)

lemma conns_count: "conns C (count_con k c h) = conns C h"
  by (simp add: conns_def)

lemma run_counts:
  "acc_run env s C \<Longrightarrow> (\<forall>a \<in># C. \<not> pmSockAddrIsLoopBack a) \<and> (\<forall>h \<in> set (hostlist s). h_maxcons h \<noteq> 0 \<longrightarrow> h_curcons h = conns C h)"
proof (induction rule: acc_run.induct)
  case (run_start s)
  then show ?case by (simp add: list_all_iff conns_def)
next
  case (run_connect s C a d deny s')
  have "hostlist s' = map (count_con 1 a) (hostlist s)" using connect_one [OF run_connect.hyps(2), of env d s] run_connect.hyps(3) by simp
  then show ?case using run_connect by (auto simp: conns_count) (auto simp: count_con_def conns_def)
next
  case (run_refuse s C a d sts deny s')
  have "hostlist s' = hostlist s" using connect_one [OF run_refuse.hyps(2), of env d s] run_refuse.hyps(3,4) by simp
  then show ?case using run_refuse by simp
next
  case (run_leave s C a)
  then have "\<not> pmSockAddrIsLoopBack a" by blast
  then have h: "hostlist (pmAccDelClient env a s) = map (count_con (- 1) a) (hostlist s)" by (simp add: pmAccDelClient_def getClientIds_def)
  obtain D where D: "C = add_mset a D" using run_leave.hyps(2) by (metis insert_DiffM)
  show ?case using run_leave.IH unfolding h D by (auto simp: conns_count) (auto simp: count_con_def conns_def)
qed

text \<open>
  The connection counters are exact for hosts that are set up before the first client comes and
  clients that do not come through the loopback address. While such clients connect, are refused and leave, every entry
  with a limit counts the connected clients whose address it matches. When a client is accepted
  whose first matching entry has a limit, fewer clients than that were connected from its hosts.
\<close>

theorem access_counts:
  assumes "acc_run env s C"
  shows "(\<forall>h \<in> set (hostlist s). h_maxcons h \<noteq> 0 \<longrightarrow> h_curcons h = conns C h) \<and>
    (\<forall>a d deny s' hp. \<not> pmSockAddrIsLoopBack a \<and> pmAccAddClient env a d s = (0, deny, s') \<and> find (matches a) (hostlist s) = Some hp \<and>
      h_maxcons hp \<noteq> 0 \<longrightarrow> conns C hp < h_maxcons hp)"
proof -
  have "conns C hp < h_maxcons hp" if a: "\<not> pmSockAddrIsLoopBack a" "pmAccAddClient env a d s = (0, deny, s')"
    and f: "find (matches a) (hostlist s) = Some hp" and m: "h_maxcons hp \<noteq> 0" for a d deny s' hp
  proof -
    have "hp \<in> set (hostlist s)" using f by (metis find_Some_iff nth_mem)
    then have "h_curcons hp = conns C hp" using run_counts [OF assms] m by blast
    moreover have "h_curcons hp < h_maxcons hp"
      using a f m accumulate_match [of a "hostlist s" 0]
      by (auto simp: pmAccAddClient_def getClientIds_def PM_ERR_PERMISSION_def PM_ERR_CONNLIMIT_def PM_ERR_BASE2_def split: prod.splits if_splits)
    ultimately show ?thesis by simp
  qed
  then show ?thesis using run_counts [OF assms] by blast
qed


lemma access_counts_witness:
  "list_all (\<lambda>h. h_curcons h = conns {#host10#} h) [net10\<lparr>h_curcons := 1\<rparr>] \<and> h_curcons (net10\<lparr>h_curcons := 1\<rparr>) = 1"
proof -
  have "acc_run env net10_acc {#}" for env by (rule acc_run.run_start) (simp add: net10_acc_def net10_def)
  moreover have "pmAccAddClient env host10 0 net10_acc = (0, 1, net10_acc\<lparr>hostlist := [net10\<lparr>h_curcons := 1\<rparr>]\<rparr>)" for env
    using host10_facts by (simp add: pmAccAddClient_def getClientIds_def net10_acc_def net10_def count_con_def)
  ultimately have "acc_run env (net10_acc\<lparr>hostlist := [net10\<lparr>h_curcons := 1\<rparr>]\<rparr>) {#host10#}" for env
    using acc_run.run_connect host10_facts(1) by blast
  from access_counts [OF this] show ?thesis by (simp add: net10_def)
qed

text \<open>
  A refused client can stay counted. When a client on this host connects through the
  loopback address, the addresses of the host are tried in turn. If the first one is accepted
  and the second one is refused, the client is refused, but the connection has been counted in
  the entries that match the first address, and nobody takes it back.
\<close>

theorem access_refused_counted:
  assumes "pmSockAddrIsLoopBack c" "myhost s = Some (n, [a1, a2])" "hostlist s \<noteq> []"
    "fst (add_clients (all_ops s) [a1] 0 None (hostlist s)) = 0" "fst (add_clients (all_ops s) [a1, a2] 0 None (hostlist s)) \<noteq> 0"
  shows "fst (pmAccAddClient env c d s) \<noteq> 0 \<and> hostlist (snd (snd (pmAccAddClient env c d s))) = map (count_con 1 a1) (hostlist s)"
proof -
  obtain d1 l1 where 1: "accumulate a1 (hostlist s) (0, None) = (d1, l1)" by (cases "accumulate a1 (hostlist s) (0, None)")
  obtain d2 l2 where 2: "accumulate a2 (map (count_con 1 a1) (hostlist s)) (d1, map_option (count_con 1 a1) l1) = (d2, l2)"
    by (cases "accumulate a2 (map (count_con 1 a1) (hostlist s)) (d1, map_option (count_con 1 a1) l1)")
  note E = PM_ERR_PERMISSION_def PM_ERR_CONNLIMIT_def PM_ERR_BASE2_def
  have "d1 \<noteq> all_ops s \<and> \<not> (case l1 of None \<Rightarrow> False | Some hp \<Rightarrow> h_maxcons hp \<noteq> 0 \<and> h_curcons hp \<ge> h_maxcons hp)"
    using assms(4) 1 by (simp add: E split: if_splits)
  then show ?thesis using assms(1-3,5) 1 2 by (simp add: pmAccAddClient_def getClientIds_def E case_prod_beta split: if_splits)
qed


text \<open>This host has the addresses 192.168.1.1 and 10.1.2.3, and the second one may do nothing.\<close>

definition two_acc :: acc where
  "two_acc = \<lparr>all_ops = 3, hostlist =
     [\<lparr>h_hostspec = ''a'', h_hostid = \<lparr>sa_family = AF_INET, sa_addr = [192, 168, 1, 1]\<rparr>,
        h_hostmask = \<lparr>sa_family = AF_INET, sa_addr = [255, 255, 255, 255]\<rparr>, h_level = 0, h_specOps = 0, h_denyOps = 0, h_maxcons = 5, h_curcons = 0\<rparr>,
      \<lparr>h_hostspec = ''b'', h_hostid = host10,
        h_hostmask = \<lparr>sa_family = AF_INET, sa_addr = [255, 255, 255, 255]\<rparr>, h_level = 0, h_specOps = 3, h_denyOps = 3, h_maxcons = 0, h_curcons = 0\<rparr>],
     saved = False, oldhostlist = [], myhost = Some (''me'', [\<lparr>sa_family = AF_INET, sa_addr = [192, 168, 1, 1]\<rparr>, host10])\<rparr>"

lemma access_refused_counted_witness:
  "fst (pmAccAddClient no_env (pmLoopBackAddress AF_INET) 0 two_acc) \<noteq> 0 \<and>
    map h_curcons (hostlist (snd (snd (pmAccAddClient no_env (pmLoopBackAddress AF_INET) 0 two_acc)))) = [1, 0]"
proof -
  let ?a = "\<lparr>sa_family = AF_INET, sa_addr = [192, 168, 1, 1]\<rparr>"
  have h: "pmSockAddrIsLoopBack (pmLoopBackAddress AF_INET)" "fst (add_clients (all_ops two_acc) [?a] 0 None (hostlist two_acc)) = 0"
    "fst (add_clients (all_ops two_acc) [?a, host10] 0 None (hostlist two_acc)) \<noteq> 0" "map h_curcons (map (count_con 1 ?a) (hostlist two_acc)) = [1, 0]"
    by (code_simp, code_simp, code_simp, code_simp)
  show ?thesis using access_refused_counted [OF h(1) _ _ h(2,3), of "''me''" no_env 0] h(4) by (simp add: two_acc_def)
qed

section \<open>What a wildcard matches\<close>

text \<open>The name \<open>a.b.*\<close> for the numbers \<open>a, b\<close>.\<close>

definition wildcard :: "nat list \<Rightarrow> string" where
  "wildcard os = concat (map (\<lambda>n. show_dec n @ ''.'') os) @ ''*''"

lemma digits_ok: "list_all (\<lambda>d. digit_of 10 (digit_char d) = Some d \<and> digit_char d \<notin> set ''.:*-+'' \<and> \<not> isspace (digit_char d) \<and>
    (digit_char d = CHR ''0'' \<longrightarrow> d = 0)) [0..<10]"
  by code_simp

lemma digit_char_facts:
  assumes "d < 10"
  shows "digit_of 10 (digit_char d) = Some d" "digit_char d \<noteq> CHR ''.''" "digit_char d \<noteq> CHR '':''" "digit_char d \<noteq> CHR ''*''"
    "digit_char d \<noteq> CHR ''-''" "digit_char d \<noteq> CHR ''+''" "\<not> isspace (digit_char d)" "digit_char d = CHR ''0'' \<Longrightarrow> d = 0"
  using digits_ok assms by (auto simp: list_all_iff)

lemma show_dec_cases:
  assumes "n \<le> 255"
  obtains "n < 10" "show_dec n = [digit_char n]"
  | a b where "0 < a" "a < 10" "b < 10" "n = 10 * a + b" "show_dec n = [digit_char a, digit_char b]"
  | a b c where "0 < a" "a < 10" "b < 10" "c < 10" "n = 100 * a + 10 * b + c" "show_dec n = [digit_char a, digit_char b, digit_char c]"
proof -
  consider "n < 10" | "10 \<le> n" "n < 100" | "100 \<le> n" by linarith
  then show thesis
  proof cases
    case 1
    then show thesis using that(1) by (simp add: show_dec.simps)
  next
    case 2
    show thesis by (rule that(2) [of "n div 10" "n mod 10"]) (use 2 in \<open>auto simp: show_dec.simps [of n] show_dec.simps [of "n div 10"]\<close>)
  next
    case 3
    have h1: "n div 10 div 10 = n div 100" by (simp add: div_mult2_eq)
    have h2: "100 * (n div 100) + 10 * (n div 10 mod 10) + n mod 10 = n"
      using mult_div_mod_eq [of 10 n] mult_div_mod_eq [of 10 "n div 10"] unfolding h1 by linarith
    have r: "0 < n div 100" "n div 100 < 10" using 3 assms by auto
    have s: "show_dec n = [digit_char (n div 100), digit_char (n div 10 mod 10), digit_char (n mod 10)]"
      using 3 r by (simp add: show_dec.simps [of n] show_dec.simps [of "n div 10"] h1 show_dec.simps [of "n div 100"])
    show thesis by (rule that(3) [OF r _ _ h2 [symmetric] s]) simp_all
  qed
qed

lemma show_dec_facts:
  assumes "n \<le> 255"
  shows "number 10 0 (show_dec n @ r) = number 10 n r" "octet (show_dec n) = Some (of_nat n)" "CHR ''.'' \<notin> set (show_dec n)"
    "CHR '':'' \<notin> set (show_dec n)" "strtol 10 (show_dec n @ CHR ''.'' # r) = (int n, CHR ''.'' # r)"
    "\<exists>c cs. show_dec n = c # cs \<and> c \<noteq> CHR ''*''"
proof -
  show n: "number 10 0 (show_dec n @ r) = number 10 n r" for r
    using assms by (cases rule: show_dec_cases) (auto simp: digit_char_facts mult.commute)
  show "octet (show_dec n) = Some (of_nat n)"
  proof -
    have "show_dec n \<noteq> [] \<and> (hd (show_dec n) = CHR ''0'' \<longrightarrow> length (show_dec n) = 1)"
      using assms
    proof (cases rule: show_dec_cases)
      case (2 a b)
      then show ?thesis using digit_char_facts(8) [of a] by auto
    next
      case (3 a b c)
      then show ?thesis using digit_char_facts(8) [of a] by auto
    qed simp
    then show ?thesis using n [of "[]"] assms by (simp add: octet_def)
  qed
  show "CHR ''.'' \<notin> set (show_dec n)" "CHR '':'' \<notin> set (show_dec n)" "\<exists>c cs. show_dec n = c # cs \<and> c \<noteq> CHR ''*''"
    using assms by (cases rule: show_dec_cases; simp add: digit_char_facts digit_char_facts(2-4) [symmetric])+
  obtain c cs where c: "show_dec n = c # cs" "\<not> isspace c" "c \<noteq> CHR ''-''" "c \<noteq> CHR ''+''" "digit_of 10 c \<noteq> None"
    using assms by (cases rule: show_dec_cases) (auto simp: digit_char_facts)
  have "skip_0x 10 u = u" for u by (auto simp: skip_0x_def split: list.split)
  moreover have "number 10 0 (c # cs @ CHR ''.'' # r) = (n, CHR ''.'' # r)"
    using n [of "CHR ''.'' # r"] c(1) by (simp add: digit_of_def digit_val_def ascii_def)
  ultimately show "strtol 10 (show_dec n @ CHR ''.'' # r) = (int n, CHR ''.'' # r)"
    using c assms by (simp add: strtol_def take_sign_def LONG_MAX_def)
qed

lemma inet_parts_wildcard:
  assumes "n \<le> 255" "1 < level"
  shows "inet_parts (show_dec n @ CHR ''.'' # r) level ip msk =
    inet_parts r (level - 1) (put_part (CHR ''.'') (show_dec n) ip) (put_part (CHR ''.'') ''255'' msk)"
proof -
  obtain c cs where c: "show_dec n = c # cs" "c \<noteq> CHR ''*''" using show_dec_facts(6) [OF assms(1)] by blast
  have t: "strtol 10 (c # cs @ CHR ''.'' # r) = (int n, CHR ''.'' # r)" using show_dec_facts(5) [OF assms(1), of r] c(1) by simp
  have "s32 (int n) = int n" using assms(1) by (intro s32_id) (simp add: is_int32_def)
  then show ?thesis using c t assms by simp
qed

lemma split_at_ne: "split_at d s \<noteq> []"
  by (induction s) (auto split: list.split)

lemma split_at_none: "d \<notin> set s \<Longrightarrow> split_at d s = [s]"
  by (induction s) auto

lemma split_at_snoc: "d \<notin> set p \<Longrightarrow> split_at d (s @ d # p) = split_at d s @ [p]"
proof (induction s)
  case (Cons c s)
  then show ?case using split_at_ne [of d s] by (auto split: list.split)
qed (simp add: split_at_none)

lemma split_dotted:
  "list_all (\<lambda>p. d \<notin> set p) ps \<Longrightarrow> s \<noteq> [] \<Longrightarrow> split_at d (fold (put_part d) ps s) = split_at d s @ ps"
  by (induction ps arbitrary: s) (simp_all add: put_part_def split_at_snoc)

lemma set_dotted: "set (fold (put_part d) ps s) \<subseteq> insert d (set s \<union> \<Union> (set ` set ps))"
proof (induction ps arbitrary: s)
  case (Cons p ps)
  show ?case using Cons.IH [of "put_part d p s"] by (auto simp: put_part_def split: if_splits)
qed auto

lemma all_some_map: "list_all2 (\<lambda>x y. f x = Some y) xs ys \<Longrightarrow> all_some (map f xs) = Some ys"
  by (induction rule: list_all2_induct) auto

lemma list_all2_left: "list_all2 P xs ys \<Longrightarrow> (\<And>x y. P x y \<Longrightarrow> Q x) \<Longrightarrow> \<forall>x \<in> set xs. Q x"
  by (induction rule: list_all2_induct) auto

lemma dotted_addr:
  assumes p: "list_all2 (\<lambda>p b. octet p = Some b \<and> CHR ''.'' \<notin> set p \<and> CHR '':'' \<notin> set p \<and> p \<noteq> []) ps bs" and len: "length ps = 4"
  shows "pmStringToSockAddr (fold (put_part (CHR ''.'')) ps []) = Some \<lparr>sa_family = AF_INET, sa_addr = bs\<rparr>"
proof -
  let ?s = "fold (put_part (CHR ''.'')) ps []"
  obtain q qs where q: "ps = q # qs" using len by (cases ps) auto
  have "\<forall>p \<in> set ps. CHR ''.'' \<notin> set p \<and> CHR '':'' \<notin> set p \<and> p \<noteq> []"
    using p by (rule list_all2_left) simp
  then have P: "q \<noteq> []" "list_all (\<lambda>p. CHR ''.'' \<notin> set p) ps" "CHR '':'' \<notin> \<Union> (set ` set ps)"
    using q by (auto simp: list_all_iff)
  have sp: "split_at (CHR ''.'') ?s = ps" using P(1,2) q by (simp add: split_dotted put_part_def split_at_none)
  have "?s \<noteq> ''INADDR_ANY''"
  proof
    assume "?s = ''INADDR_ANY''"
    then have "split_at (CHR ''.'') ?s = [''INADDR_ANY'']" by simp
    then show False using sp len by simp
  qed
  moreover have "CHR '':'' \<notin> set ?s" using set_dotted [of "CHR ''.''" ps "[]"] P(3) by auto
  moreover have "inet_pton4 ?s = Some bs"
    using all_some_map [of octet ps bs] p len sp by (simp add: inet_pton4_def list_all2_mono)
  ultimately show ?thesis by (simp add: pmStringToSockAddr_def)
qed

lemma inet_parts_all:
  "list_all (\<lambda>n. n \<le> 255) os \<Longrightarrow> int (length os) < level \<Longrightarrow> inet_parts (wildcard os) level ip msk =
    Some (level - int (length os), fold (put_part (CHR ''.'')) (map show_dec os) ip, fold (put_part (CHR ''.'')) (replicate (length os) ''255'') msk)"
proof (induction os arbitrary: level ip msk)
  case (Cons n os)
  have "wildcard (n # os) = show_dec n @ CHR ''.'' # wildcard os" by (simp add: wildcard_def)
  then show ?case using Cons inet_parts_wildcard [of n level "wildcard os" ip msk] by (simp del: inet_parts.simps)
qed (simp add: wildcard_def)

lemma parseInet_nodot:
  "name \<noteq> [] \<Longrightarrow> hd name \<noteq> CHR ''.'' \<Longrightarrow> inet_parts name 4 [] [] = Some (level, ip, msk) \<Longrightarrow>
    parseInetWildCard name = Some (level, (put_part (CHR ''.'') ''0'' ^^ nat level) ip, (put_part (CHR ''.'') ''0'' ^^ nat level) msk)"
  by (cases name) (simp_all add: parseInetWildCard_def Let_def del: inet_parts.simps split: list.split)

lemma fold_const: "(put_part d p ^^ k) x = fold (put_part d) (replicate k p) x"
  by (induction k arbitrary: x) (simp_all add: funpow_swap1)

lemma parse_wildcard:
  assumes os: "list_all (\<lambda>n. n \<le> 255) os" "0 < length os" "length os < 4"
  shows "getWildCardSpec (wildcard os) = Inr \<lparr>sp_name = wildcard os,
    sp_hostid = \<lparr>sa_family = AF_INET, sa_addr = map of_nat os @ replicate (4 - length os) 0\<rparr>,
    sp_hostmask = \<lparr>sa_family = AF_INET, sa_addr = replicate (length os) 255 @ replicate (4 - length os) 0\<rparr>, sp_level = 4 - int (length os)\<rparr>"
proof -
  let ?k = "4 - length os"
  have "show_dec 0 = ''0''" "show_dec 255 = ''255''" by code_simp+
  then have o: "octet ''0'' = Some 0" "octet ''255'' = Some 255" using show_dec_facts(2) [of 0] show_dec_facts(2) [of 255] by simp_all
  obtain n ns where n: "os = n # ns" using os(2) by (cases os) auto
  obtain c cs where c: "show_dec n = c # cs" using show_dec_facts(6) [of n] os(1) n by auto
  have "c \<noteq> CHR ''.''" using show_dec_facts(3) [of n] os(1) n c by auto
  then have dot: "hd (wildcard os) \<noteq> CHR ''.''" "wildcard os \<noteq> []" using n c by (simp_all add: wildcard_def)
  have set: "CHR '':'' \<notin> set (wildcard os)" "CHR ''.'' \<in> set (wildcard os)"
  proof -
    have "\<forall>n \<in> set os. CHR '':'' \<notin> set (show_dec n)" using os(1) show_dec_facts(4) unfolding list_all_iff by blast
    then show "CHR '':'' \<notin> set (wildcard os)" by (simp add: wildcard_def)
    show "CHR ''.'' \<in> set (wildcard os)" using n by (simp add: wildcard_def)
  qed
  have P: "parseWildCard (wildcard os) = Some (4 - int (length os),
      fold (put_part (CHR ''.'')) (map show_dec os @ replicate ?k ''0'') [], fold (put_part (CHR ''.'')) (replicate (length os) ''255'' @ replicate ?k ''0'') [])"
  proof -
    have k: "int (length os) < 4" "nat (4 - int (length os)) = ?k" using os(3) by linarith+
    have "parseWildCard (wildcard os) = parseInetWildCard (wildcard os)" using set by (simp only: parseWildCard_def if_False if_True)
    also have "\<dots> = Some (4 - int (length os),
        (put_part (CHR ''.'') ''0'' ^^ nat (4 - int (length os))) (fold (put_part (CHR ''.'')) (map show_dec os) []),
        (put_part (CHR ''.'') ''0'' ^^ nat (4 - int (length os))) (fold (put_part (CHR ''.'')) (replicate (length os) ''255'') []))"
      by (rule parseInet_nodot [OF dot(2,1) inet_parts_all [OF os(1) k(1)]])
    finally show ?thesis unfolding k(2) fold_const fold_append comp_apply .
  qed
  have A: "list_all2 (\<lambda>p b. octet p = Some b \<and> CHR ''.'' \<notin> set p \<and> CHR '':'' \<notin> set p \<and> p \<noteq> [])
      (map show_dec os @ replicate ?k ''0'') (map of_nat os @ replicate ?k 0)"
  proof (rule list_all2_appendI)
    have "octet (show_dec n) = Some (of_nat n) \<and> CHR ''.'' \<notin> set (show_dec n) \<and> CHR '':'' \<notin> set (show_dec n) \<and> show_dec n \<noteq> []" if "n \<le> 255" for n
      using show_dec_facts(2,3,4,6) [OF that] by force
    then show "list_all2 (\<lambda>p b. octet p = Some b \<and> CHR ''.'' \<notin> set p \<and> CHR '':'' \<notin> set p \<and> p \<noteq> []) (map show_dec os) (map of_nat os)"
      using os(1) by (simp add: list_all2_conv_all_nth list_all_length)
  qed (simp add: o(1) list_all2_conv_all_nth)
  have B: "list_all2 (\<lambda>p b. octet p = Some b \<and> CHR ''.'' \<notin> set p \<and> CHR '':'' \<notin> set p \<and> p \<noteq> [])
      (replicate (length os) ''255'' @ replicate ?k ''0'') (replicate (length os) 255 @ replicate ?k 0)"
    using o by (intro list_all2_appendI) (auto simp: list_all2_conv_all_nth)
  have L: "length (map show_dec os @ replicate ?k ''0'') = 4" "length (replicate (length os) ''255'' @ replicate ?k ''0'') = 4" using os(3) by simp_all
  show ?thesis unfolding getWildCardSpec_def P option.case prod.case dotted_addr [OF A L(1)] dotted_addr [OF B L(2)] by (rule refl)
qed

lemma mask_prefix:
  fixes bs :: "byte list"
  assumes "length bs = 4" "0 < n" "n < 4"
  shows "map2 (\<lambda>x y. x AND y) bs (replicate n 255 @ replicate (4 - n) 0) = take n bs @ replicate (4 - n) 0"
proof -
  have x: "(x :: byte) AND 255 = x" for x
  proof -
    have "(255 :: byte) = - 1" by simp
    show ?thesis unfolding \<open>(255 :: byte) = - 1\<close> by (rule and.right_neutral)
  qed
  obtain p q r t where b: "bs = [p, q, r, t]" using assms(1) by (auto simp: numeral_eq_Suc length_Suc_conv)
  consider "n = 1" | "n = 2" | "n = 3" using assms by linarith
  then show ?thesis by cases (simp_all add: b x numeral_2_eq_2 numeral_3_eq_3)
qed

text \<open>
  C18: A wildcard stands for a network. A name of one, two or three numbers up to 255, each with a
  dot, and a star is accepted at the level of the numbers that are missing, and the entry made of
  it matches exactly the IPv4 addresses that start with these numbers.
\<close>

theorem access_wildcard:
  assumes "list_all (\<lambda>n. n \<le> 255) os" "0 < length os" "length os < 4"
  shows "\<exists>spec. getWildCardSpec (wildcard os) = Inr spec \<and> sp_level spec = 4 - int (length os) \<and>
    (\<forall>a. wf_addr a \<longrightarrow> (matches a (new_host spec so d m) \<longleftrightarrow> sa_family a = AF_INET \<and> take (length os) (sa_addr a) = map of_nat os))"
proof -
  let ?k = "4 - length os"
  let ?mask = "\<lparr>sa_family = AF_INET, sa_addr = replicate (length os) 255 @ replicate ?k 0\<rparr>"
    and ?id = "\<lparr>sa_family = AF_INET, sa_addr = map of_nat os @ replicate ?k 0\<rparr>"
  have C: "pmSockAddrCompare (pmSockAddrMask a ?mask) ?id = 0 \<longleftrightarrow> take (length os) (sa_addr a) = map of_nat os"
    if "wf_addr a" "sa_family a = AF_INET" for a
  proof -
    have len: "length (sa_addr a) = 4" using that by (auto simp: wf_addr_def AF_INET_def AF_INET6_def)
    have m: "sa_addr (pmSockAddrMask a ?mask) = take (length os) (sa_addr a) @ replicate ?k 0"
      using mask_prefix [OF len assms(2,3)] that(2) by (simp add: pmSockAddrMask_def)
    have "wf_addr (pmSockAddrMask a ?mask)" using that(2) len assms(3) m by (simp add: wf_addr_def) (simp add: pmSockAddrMask_def)
    moreover have "wf_addr ?id" using assms(3) by (simp add: wf_addr_def)
    ultimately have "pmSockAddrCompare (pmSockAddrMask a ?mask) ?id = 0 \<longleftrightarrow> pmSockAddrMask a ?mask = ?id" by (rule compare_eq)
    also have "\<dots> \<longleftrightarrow> sa_addr (pmSockAddrMask a ?mask) = sa_addr ?id"
      using that(2) by (cases a) (auto simp: pmSockAddrMask_def)
    finally show ?thesis using m by simp
  qed
  let ?spec = "\<lparr>sp_name = wildcard os, sp_hostid = ?id, sp_hostmask = ?mask, sp_level = 4 - int (length os)\<rparr>"
  have "matches a (new_host ?spec so d m) \<longleftrightarrow> sa_family a = AF_INET \<and> take (length os) (sa_addr a) = map of_nat os" if "wf_addr a" for a
    using C [OF that] unfolding matches_def new_host_def by auto
  then show ?thesis using parse_wildcard [OF assms] by (intro exI [of _ ?spec]) simp
qed

lemma access_wildcard_witness:
  "\<exists>spec. getWildCardSpec (wildcard [10, 1]) = Inr spec \<and> sp_level spec = 2 \<and>
    matches host10 (new_host spec 1 1 2) \<and> \<not> matches \<lparr>sa_family = AF_INET, sa_addr = [10, 2, 2, 3]\<rparr> (new_host spec 1 1 2)"
  using access_wildcard [of "[10, 1]" 1 1 2] by (auto simp: wf_addr_def host10_def)

end
