(* ===== verification/Af.thy ===== *)
theory Af
  imports Prelude
begin

text \<open>
  The queue of timed events, \<^verbatim>\<open>AF.c\<close>, in the version for POSIX systems. Events wait in the order of
  their times; the interval timer is set for the first one, and the handler of its signal runs the
  callbacks of the events that are due and schedules them again. The clock is an argument that
  gives the result of every reading in turn. What a callback does to the queue is an argument as
  well, as the calls it makes. The number of the last event is an \<open>int\<close> in the code and unbounded here.
  Handlers run one at a time: that a callback which releases the signal can be interrupted by another
  alarm, and that the system restores the mask of signals when a handler returns, is not in the model.
\<close>

section \<open>Times\<close>

record timeval =
  tv_sec :: int
  tv_usec :: int

definition tadd :: "timeval \<Rightarrow> timeval \<Rightarrow> timeval" where
  "tadd a b = (let u = tv_usec a + tv_usec b in
     if u > 1000000 then \<lparr>tv_sec = tv_sec a + 1 + tv_sec b, tv_usec = u - 1000000\<rparr>
     else \<lparr>tv_sec = tv_sec a + tv_sec b, tv_usec = u\<rparr>)"

definition tsub_real :: "timeval \<Rightarrow> timeval \<Rightarrow> timeval" where
  "tsub_real a b = (let u = tv_usec a - tv_usec b in
     if u < 0 then \<lparr>tv_sec = tv_sec a - 1 - tv_sec b, tv_usec = u + 1000000\<rparr>
     else \<lparr>tv_sec = tv_sec a - tv_sec b, tv_usec = u\<rparr>)"

definition tsub :: "timeval \<Rightarrow> timeval \<Rightarrow> timeval" where
  "tsub a b = (let t = tsub_real a b in if tv_sec t < 0 then \<lparr>tv_sec = 0, tv_usec = 0\<rparr> else t)"

definition tcmp :: "timeval \<Rightarrow> timeval \<Rightarrow> int" where
  "tcmp a b = (let res = s32 (tv_sec a - tv_sec b) in if res = 0 then s32 (tv_usec a - tv_usec b) else res)"

section \<open>The queue\<close>

text \<open>The callback function is a number, under which its calls are found.\<close>

record qelt =
  q_afid :: int
  q_when :: timeval
  q_delta :: timeval
  q_func :: nat

text \<open>
  Beside the variables of the code: whether the signal is held, whether its handler is installed,
  the interval timer, whether it has gone off and the signal is pending, the number of readings of
  the clock and the events whose callbacks have been run.
\<close>

record af =
  root :: "qelt list"
  afid :: int
  block :: bool
  held :: bool
  armed :: bool
  itimer :: "timeval option"
  pending :: bool
  readings :: nat
  ran :: "int list"

datatype af_call = Register timeval nat bool | Unregister int | Block | Unblock

type_synonym clock = "nat \<Rightarrow> timeval"
type_synonym callbacks = "nat \<Rightarrow> int \<Rightarrow> af_call list"

definition af_init :: af where
  "af_init = \<lparr>root = [], afid = 0x8000, block = False, held = False, armed = False, itimer = None, pending = False, readings = 0, ran = []\<rparr>"

definition timevalNow :: "clock \<Rightarrow> af \<Rightarrow> timeval \<times> af" where
  "timevalNow clk s = (clk (readings s), s\<lparr>readings := Suc (readings s)\<rparr>)"

definition AFhold :: "af \<Rightarrow> af" where "AFhold s = s\<lparr>held := True\<rparr>"
definition AFrelse :: "af \<Rightarrow> af" where "AFrelse s = s\<lparr>held := False\<rparr>"
definition AFrearm :: "af \<Rightarrow> af" where "AFrearm s = s\<lparr>armed := True\<rparr>"

text \<open>\<open>setitimer\<close> fails for a time that is not normalized, and stops the timer for zero.\<close>

definition AFsetitimer :: "timeval \<Rightarrow> af \<Rightarrow> af" where
  "AFsetitimer interval s = (
     if tv_sec interval < 0 \<or> tv_usec interval < 0 \<or> tv_usec interval > 999999 then s
     else s\<lparr>itimer := (if tv_sec interval = 0 \<and> tv_usec interval = 0 then None else Some interval)\<rparr>)"

definition MIN_ITIMER_USEC :: int where "MIN_ITIMER_USEC = 100"

definition set_head :: "clock \<Rightarrow> qelt \<Rightarrow> af \<Rightarrow> af" where
  "set_head clk qp s = (case timevalNow clk s of (now, s) \<Rightarrow>
     let interval = tsub (q_when qp) now in
     AFsetitimer (if tv_sec interval = 0 \<and> tv_usec interval < MIN_ITIMER_USEC then interval\<lparr>tv_usec := MIN_ITIMER_USEC\<rparr> else interval) s)"

fun enqueue :: "qelt \<Rightarrow> qelt list \<Rightarrow> qelt list" where
  "enqueue qp [] = [qp]"
| "enqueue qp (tqp # rest) = (if tcmp (q_when qp) (q_when tqp) \<ge> 0 then tqp # enqueue qp rest else qp # tqp # rest)"

section \<open>Operations\<close>

definition pmAFregister :: "clock \<Rightarrow> timeval \<Rightarrow> nat \<Rightarrow> bool \<Rightarrow> af \<Rightarrow> int \<times> af" where
  "pmAFregister clk delta func mem s = (
     let s = (if block s then s else AFhold s);
         s = (if afid s = 0x8000 \<and> \<not> block s then AFrearm s else s)
     in if \<not> mem then (- ENOMEM, s)
        else let s = s\<lparr>afid := afid s + 1\<rparr> in
          case timevalNow clk s of (now, s) \<Rightarrow>
            let qp = \<lparr>q_afid = afid s, q_when = tadd now delta, q_delta = delta, q_func = func\<rparr>;
                s = s\<lparr>root := enqueue qp (root s)\<rparr>;
                s = (if hd (root s) = qp then set_head clk qp s else s)
            in (q_afid qp, if block s then s else AFrelse s))"

fun remove :: "int \<Rightarrow> qelt list \<Rightarrow> qelt list" where
  "remove aid [] = []"
| "remove aid (qp # rest) = (if q_afid qp = aid then rest else qp # remove aid rest)"

definition pmAFunregister :: "clock \<Rightarrow> int \<Rightarrow> af \<Rightarrow> int \<times> af" where
  "pmAFunregister clk aid s = (
     let s = (if block s then s else AFhold s) in
     if aid \<notin> q_afid ` set (root s) then (- 1, if block s then s else AFrelse s)
     else
       let first = q_afid (hd (root s)) = aid;
           s = s\<lparr>root := remove aid (root s)\<rparr>;
           s = (if first \<and> root s \<noteq> [] then set_head clk (hd (root s)) s else s)
       in (0, if block s then s else AFrelse s))"

definition pmAFblock :: "af \<Rightarrow> af" where
  "pmAFblock s = AFhold (s\<lparr>block := True\<rparr>)"

definition pmAFunblock :: "af \<Rightarrow> af" where
  "pmAFunblock s = AFrelse (AFrearm (s\<lparr>block := False\<rparr>))"

definition pmAFisempty :: "af \<Rightarrow> int" where
  "pmAFisempty s = (if root s = [] then 1 else 0)"

section \<open>The handler\<close>

fun do_call :: "clock \<Rightarrow> af_call \<Rightarrow> af \<Rightarrow> af" where
  "do_call clk (Register delta func mem) s = snd (pmAFregister clk delta func mem s)"
| "do_call clk (Unregister aid) s = snd (pmAFunregister clk aid s)"
| "do_call clk Block s = pmAFblock s"
| "do_call clk Unblock s = pmAFunblock s"

definition callback :: "clock \<Rightarrow> callbacks \<Rightarrow> qelt \<Rightarrow> af \<Rightarrow> af" where
  "callback clk prog qp s = fold (do_call clk) (prog (q_func qp) (q_afid qp)) (s\<lparr>ran := ran s @ [q_afid qp]\<rparr>)"

text \<open>The next time of an event; without a positive period the loop need not end.\<close>

partial_function (option) catchup :: "timeval \<Rightarrow> timeval \<Rightarrow> timeval \<Rightarrow> timeval option" where
  "catchup now delta when = (
     let when = tadd when delta; tmp = tadd (tsub_real when now) delta in
     if tv_sec tmp \<ge> 0 then Some when else catchup now delta when)"

definition single_shot :: "timeval \<Rightarrow> bool" where
  "single_shot delta \<longleftrightarrow> tv_sec delta = 0 \<and> tv_usec delta = 0"

definition due :: "timeval \<Rightarrow> timeval \<Rightarrow> bool" where
  "due when now \<longleftrightarrow> (let tmp = tsub when now in tv_sec tmp = 0 \<and> tv_usec tmp \<le> 10000)"

partial_function (option) alarm_loop :: "clock \<Rightarrow> callbacks \<Rightarrow> af \<Rightarrow> af option" where
  "alarm_loop clk prog s = (case root s of
       [] \<Rightarrow> Some s
     | qp # rest \<Rightarrow> (case timevalNow clk s of (now, s) \<Rightarrow>
         if \<not> due (q_when qp) now then Some s
         else let s = callback clk prog qp (s\<lparr>root := rest\<rparr>) in
           if single_shot (q_delta qp) then alarm_loop clk prog s
           else case timevalNow clk s of (now, s) \<Rightarrow>
             Option.bind (catchup now (q_delta qp) (q_when qp))
               (\<lambda>when. alarm_loop clk prog (s\<lparr>root := enqueue (qp\<lparr>q_when := when\<rparr>) (root s)\<rparr>))))"

definition onalarm :: "clock \<Rightarrow> callbacks \<Rightarrow> af \<Rightarrow> af option" where
  "onalarm clk prog s = do {
     let s = (if block s then s else AFhold s);
     s \<leftarrow> (if root s = [] then Some s
           else do {
             s \<leftarrow> alarm_loop clk prog s;
             Some (case root s of [] \<Rightarrow> s | qp # _ \<Rightarrow> set_head clk qp s)
           });
     Some (if block s then s else AFrelse (AFrearm s))
   }"

section \<open>Times in microseconds\<close>

definition us :: "timeval \<Rightarrow> int" where
  "us t = tv_sec t * 1000000 + tv_usec t"

text \<open>Sums are normalized up to a full second that is left in the microseconds.\<close>

definition wk :: "timeval \<Rightarrow> bool" where "wk t \<longleftrightarrow> 0 \<le> tv_usec t \<and> tv_usec t \<le> 1000000"
definition nm :: "timeval \<Rightarrow> bool" where "nm t \<longleftrightarrow> 0 \<le> tv_usec t \<and> tv_usec t < 1000000"

definition delta_ok :: "timeval \<Rightarrow> bool" where
  "delta_ok d \<longleftrightarrow> nm d \<and> 0 \<le> tv_sec d \<and> tv_sec d < 2 ^ 29"

lemma us_tadd [simp]: "us (tadd a b) = us a + us b"
  by (simp add: us_def tadd_def Let_def)

lemma us_tsub_real [simp]: "us (tsub_real a b) = us a - us b"
  by (simp add: us_def tsub_real_def Let_def)

lemma wk_tadd: "wk a \<Longrightarrow> nm b \<Longrightarrow> wk (tadd a b)"
  by (auto simp: wk_def nm_def tadd_def Let_def)

lemma wk_tsub_real: "wk a \<Longrightarrow> nm b \<Longrightarrow> wk (tsub_real a b)"
  by (auto simp: wk_def nm_def tsub_real_def Let_def)

lemma nm_wk: "nm a \<Longrightarrow> wk a"
  by (simp add: nm_def wk_def)

lemma tadd_sec: "0 \<le> tv_sec b \<Longrightarrow> tv_sec a \<le> tv_sec (tadd a b)"
  by (simp add: tadd_def Let_def)

lemma sec_us: "wk t \<Longrightarrow> tv_sec t \<ge> 0 \<Longrightarrow> us t \<ge> 0" "wk t \<Longrightarrow> tv_sec t < 0 \<Longrightarrow> us t \<le> 0"
  by (auto simp: wk_def us_def)

lemma due_iff: "wk a \<Longrightarrow> nm b \<Longrightarrow> due a b \<longleftrightarrow> us a \<le> us b + 10000"
  using wk_tsub_real [of a b] us_tsub_real [of a b]
  by (auto simp: due_def tsub_def Let_def wk_def us_def simp del: us_tsub_real)

lemma tcmp_us:
  assumes "wk a" "wk b" "\<bar>tv_sec a - tv_sec b\<bar> < 2 ^ 31"
  shows "tcmp a b \<ge> 0 \<Longrightarrow> us b \<le> us a" "tcmp a b < 0 \<Longrightarrow> us a \<le> us b"
proof -
  have "s32 (tv_sec a - tv_sec b) = tv_sec a - tv_sec b" "s32 (tv_usec a - tv_usec b) = tv_usec a - tv_usec b"
    using assms by (auto simp: wk_def is_int32_def intro!: s32_id)
  then show "tcmp a b \<ge> 0 \<Longrightarrow> us b \<le> us a" "tcmp a b < 0 \<Longrightarrow> us a \<le> us b"
    using assms(1,2) by (auto simp: tcmp_def Let_def us_def wk_def split: if_splits)
qed

lemma catchup_spec:
  assumes "wk when" "nm now" "delta_ok delta" "us delta > 0"
  shows "\<exists>next k. catchup now delta when = Some next \<and> k \<ge> 1 \<and> us next = us when + k * us delta \<and>
    us now \<le> us next + us delta \<and> (k = 1 \<or> us next \<le> us now) \<and> wk next \<and> tv_sec when \<le> tv_sec next"
  using assms(1)
proof (induction "nat (us now - us when)" arbitrary: "when" rule: less_induct)
  case less
  let ?w = "tadd when delta" and ?t = "tadd (tsub_real (tadd when delta) now) delta"
  have d: "nm delta" "0 \<le> tv_sec delta" using assms(3) by (auto simp: delta_ok_def)
  have w: "wk ?w" "wk ?t" "tv_sec when \<le> tv_sec ?w" using less.prems assms(2) d by (auto intro: wk_tadd wk_tsub_real tadd_sec)
  show ?case
  proof (cases "tv_sec ?t \<ge> 0")
    case True
    then have "catchup now delta when = Some ?w" by (subst catchup.simps) (simp add: Let_def)
    moreover have "us now \<le> us ?w + us delta" using sec_us(1) [OF w(2) True] by simp
    ultimately show ?thesis using w by (intro exI [of _ ?w] exI [of _ 1]) simp
  next
    case False
    then have e: "catchup now delta when = catchup now delta ?w" by (subst catchup.simps) (simp add: Let_def)
    have l: "us ?w + us delta \<le> us now" using sec_us(2) [OF w(2)] False by simp
    then have "nat (us now - us ?w) < nat (us now - us when)" using assms(4) by simp
    from less.hyps [OF this w(1)] obtain next' k where k: "catchup now delta ?w = Some next'" "k \<ge> 1" "us next' = us ?w + k * us delta"
      "us now \<le> us next' + us delta" "k = 1 \<or> us next' \<le> us now" "wk next'" "tv_sec ?w \<le> tv_sec next'" by blast
    then show ?thesis using e l w(3) by (intro exI [of _ next'] exI [of _ "k + 1"]) (auto simp: algebra_simps)
  qed
qed

section \<open>The queue in order\<close>

definition clk_ok :: "int \<Rightarrow> clock \<Rightarrow> bool" where
  "clk_ok t0 clk \<longleftrightarrow> (\<forall>n. nm (clk n) \<and> t0 \<le> tv_sec (clk n) \<and> tv_sec (clk n) < t0 + 2 ^ 30)"

definition elt_ok :: "int \<Rightarrow> qelt \<Rightarrow> bool" where
  "elt_ok t0 q \<longleftrightarrow> wk (q_when q) \<and> t0 \<le> tv_sec (q_when q) \<and> tv_sec (q_when q) < t0 + 2 ^ 31 \<and> delta_ok (q_delta q)"

definition sched_ok :: "int \<Rightarrow> qelt list \<Rightarrow> bool" where
  "sched_ok t0 qs \<longleftrightarrow> (\<forall>q \<in> set qs. elt_ok t0 q) \<and> distinct (map q_afid qs) \<and> sorted (map (\<lambda>q. us (q_when q)) qs)"

lemma set_enqueue [simp]: "set (enqueue q qs) = insert q (set qs)"
  by (induction qs) auto

lemma enqueue_not_Nil [simp]: "enqueue q qs \<noteq> []"
  by (cases qs) auto

lemma distinct_enqueue [simp]: "distinct (map q_afid (enqueue q qs)) \<longleftrightarrow> q_afid q \<notin> q_afid ` set qs \<and> distinct (map q_afid qs)"
  by (induction qs) auto

lemma sorted_enqueue:
  "\<forall>q \<in> set (q # qs). elt_ok t0 q \<Longrightarrow> sorted (map (\<lambda>q. us (q_when q)) qs) \<Longrightarrow> sorted (map (\<lambda>q. us (q_when q)) (enqueue q qs))"
proof (induction qs)
  case (Cons p qs)
  have p: "wk (q_when q)" "wk (q_when p)" "\<bar>tv_sec (q_when q) - tv_sec (q_when p)\<bar> < 2 ^ 31"
    using Cons.prems(1) by (auto simp: elt_ok_def)
  show ?case using Cons tcmp_us [OF p] by (force simp: elt_ok_def)
qed simp

lemma enqueue_ok: "sched_ok t0 qs \<Longrightarrow> elt_ok t0 q \<Longrightarrow> q_afid q \<notin> q_afid ` set qs \<Longrightarrow> sched_ok t0 (enqueue q qs)"
  using sorted_enqueue [of q qs t0] by (simp add: sched_ok_def)

lemma set_remove: "distinct (map q_afid qs) \<Longrightarrow> set (remove i qs) = {q \<in> set qs. q_afid q \<noteq> i}"
  by (induction qs) (auto simp: image_iff)

lemma remove_facts: "distinct (map q_afid qs) \<Longrightarrow> distinct (map q_afid (remove i qs)) \<and>
    (sorted (map (\<lambda>q. us (q_when q)) qs) \<longrightarrow> sorted (map (\<lambda>q. us (q_when q)) (remove i qs)))"
  by (induction qs) (auto simp: set_remove)

lemma remove_ok: "sched_ok t0 qs \<Longrightarrow> sched_ok t0 (remove i qs)"
  by (simp add: sched_ok_def remove_facts set_remove)

lemma sched_ok_Cons: "sched_ok t0 (q # qs) \<Longrightarrow> sched_ok t0 qs \<and> elt_ok t0 q \<and> q_afid q \<notin> q_afid ` set qs"
  by (auto simp: sched_ok_def)

section \<open>The state\<close>

definition af_ok :: "int \<Rightarrow> af \<Rightarrow> bool" where
  "af_ok t0 s \<longleftrightarrow> sched_ok t0 (root s) \<and> (\<forall>q \<in> set (root s). 0x8000 < q_afid q \<and> q_afid q \<le> afid s) \<and> 0x8000 \<le> afid s \<and> (block s \<longrightarrow> held s) \<and>
     (armed s \<or> block s \<or> afid s = 0x8000 \<and> root s = [] \<and> itimer s = None \<and> \<not> pending s)"

fun call_ok :: "af_call \<Rightarrow> bool" where
  "call_ok (Register delta func mem) = delta_ok delta"
| "call_ok _ = True"

definition prog_ok :: "callbacks \<Rightarrow> bool" where
  "prog_ok prog \<longleftrightarrow> (\<forall>f i. list_all call_ok (prog f i))"

lemma set_head_simps [simp]:
  "root (set_head clk q s) = root s" "afid (set_head clk q s) = afid s" "block (set_head clk q s) = block s" "held (set_head clk q s) = held s"
  "armed (set_head clk q s) = armed s" "pending (set_head clk q s) = pending s" "ran (set_head clk q s) = ran s"
  "readings (set_head clk q s) = Suc (readings s)"
  by (simp_all add: set_head_def timevalNow_def AFsetitimer_def Let_def)

lemma new_elt_ok: "clk_ok t0 clk \<Longrightarrow> delta_ok d \<Longrightarrow> elt_ok t0 \<lparr>q_afid = i, q_when = tadd (clk n) d, q_delta = d, q_func = f\<rparr>"
  using wk_tadd [of "clk n" d] tadd_sec [of d "clk n"]
  by (auto simp: clk_ok_def elt_ok_def delta_ok_def nm_wk) (auto simp: tadd_def Let_def dest: spec [of _ n])

lemmas signal_defs = AFhold_def AFrelse_def AFrearm_def

lemma register_ok: "clk_ok t0 clk \<Longrightarrow> delta_ok d \<Longrightarrow> af_ok t0 s \<Longrightarrow> af_ok t0 (snd (pmAFregister clk d f mem s))"
  by (auto simp: af_ok_def pmAFregister_def timevalNow_def signal_defs Let_def new_elt_ok intro!: enqueue_ok)

lemma unregister_ok: "af_ok t0 s \<Longrightarrow> af_ok t0 (snd (pmAFunregister clk i s))"
  by (auto simp: af_ok_def pmAFunregister_def signal_defs Let_def remove_ok remove_facts set_remove sched_ok_def)

lemma call_keeps: "clk_ok t0 clk \<Longrightarrow> call_ok c \<Longrightarrow> af_ok t0 s \<Longrightarrow> af_ok t0 (do_call clk c s)"
  by (cases c) (auto simp: register_ok unregister_ok, auto simp: af_ok_def pmAFblock_def pmAFunblock_def signal_defs)

text \<open>An event that is not in the queue stays out of it, unless it is registered anew.\<close>

lemma call_out:
  assumes "af_ok t0 s" "x \<le> afid s" "x \<notin> q_afid ` set (root s)"
  shows "x \<le> afid (do_call clk c s) \<and> x \<notin> q_afid ` set (root (do_call clk c s))"
  using assms by (cases c) (auto simp: pmAFregister_def pmAFunregister_def pmAFblock_def pmAFunblock_def timevalNow_def signal_defs Let_def
      af_ok_def sched_ok_def set_remove)

lemma calls_keep:
  assumes "clk_ok t0 clk" "list_all call_ok cs" "af_ok t0 s" "x \<le> afid s" "x \<notin> q_afid ` set (root s)"
  shows "af_ok t0 (fold (do_call clk) cs s) \<and> x \<le> afid (fold (do_call clk) cs s) \<and> x \<notin> q_afid ` set (root (fold (do_call clk) cs s))"
  using assms
proof (induction cs arbitrary: s)
  case (Cons c cs)
  then show ?case using call_keeps [of t0 clk c s] call_out [of t0 s x clk c] by simp
qed simp

lemma callback_keeps:
  assumes "clk_ok t0 clk" "prog_ok prog" "af_ok t0 s" "root s = q # rest"
  shows "let s' = callback clk prog q (s\<lparr>readings := n, root := rest\<rparr>) in af_ok t0 s' \<and> q_afid q \<le> afid s' \<and> q_afid q \<notin> q_afid ` set (root s')"
proof -
  have "af_ok t0 (s\<lparr>readings := n, root := rest, ran := r\<rparr>)" "q_afid q \<le> afid s" "q_afid q \<notin> q_afid ` set rest" for r
    using assms(3,4) sched_ok_Cons [of t0 q rest] by (auto simp: af_ok_def)
  then show ?thesis using calls_keep [OF assms(1), of "prog (q_func q) (q_afid q)"] assms(2)
    by (simp add: callback_def prog_ok_def Let_def)
qed

lemma next_elt_ok:
  assumes "clk_ok t0 clk" "elt_ok t0 q" "due (q_when q) (clk m)" "\<not> single_shot (q_delta q)" "catchup (clk n) (q_delta q) (q_when q) = Some w"
  shows "elt_ok t0 (q\<lparr>q_when := w\<rparr>) \<and> us (q_when q) < us w"
proof -
  have q: "wk (q_when q)" "delta_ok (q_delta q)" "t0 \<le> tv_sec (q_when q)" using assms(2) by (auto simp: elt_ok_def)
  have c: "nm (clk i)" "us (clk i) < (t0 + 2 ^ 30) * 1000000" for i using assms(1) by (auto simp: clk_ok_def nm_def us_def dest: spec [of _ i])
  have d: "0 < us (q_delta q)" "us (q_delta q) \<le> 2 ^ 29 * 1000000" using q(2) assms(4) by (auto simp: delta_ok_def nm_def us_def single_shot_def)
  obtain k where k: "k \<ge> 1" "us w = us (q_when q) + k * us (q_delta q)" "k = 1 \<or> us w \<le> us (clk n)" "wk w" "tv_sec (q_when q) \<le> tv_sec w"
    using catchup_spec [OF q(1) c(1) q(2) d(1), of n] assms(5) by auto
  have "us (q_when q) \<le> us (clk m) + 10000" using due_iff [OF q(1) c(1)] assms(3) by blast
  then have "us w < (t0 + 2 ^ 31) * 1000000" using k(2,3) c(2) [of m] c(2) [of n] d(2) by auto
  then have "tv_sec w < t0 + 2 ^ 31" using k(4) by (auto simp: us_def wk_def)
  moreover have "us (q_when q) < us w" using k(1,2) d(1) by (simp add: mult_pos_pos)
  ultimately show ?thesis using k(4,5) q by (simp add: elt_ok_def)
qed

lemma loop_keeps:
  "alarm_loop clk prog s = Some s' \<Longrightarrow> clk_ok t0 clk \<Longrightarrow> prog_ok prog \<Longrightarrow> af_ok t0 s \<Longrightarrow> af_ok t0 s'"
proof (induction clk prog s s' rule: alarm_loop.raw_induct [rotated 1, consumes 1, case_names step])
  case (step loop clk prog s s')
  show ?case
  proof (cases "root s")
    case (Cons q rest)
    let ?s = "callback clk prog q (s\<lparr>readings := Suc (readings s), root := rest\<rparr>)"
    have k: "af_ok t0 ?s" "q_afid q \<le> afid ?s" "q_afid q \<notin> q_afid ` set (root ?s)"
      using callback_keeps [OF step.prems Cons, of "Suc (readings s)"] by (simp_all add: Let_def)
    have q: "elt_ok t0 q" "0x8000 < q_afid q" using step.prems(3) Cons by (simp_all add: af_ok_def sched_ok_def)
    have n: "af_ok t0 (?s\<lparr>readings := n, root := enqueue (q\<lparr>q_when := w\<rparr>) (root ?s)\<rparr>)" if "elt_ok t0 (q\<lparr>q_when := w\<rparr>)" for w n
      using k that q(2) by (auto simp: af_ok_def intro!: enqueue_ok)
    have r: "af_ok t0 (s\<lparr>readings := n\<rparr>)" for n using step.prems(3) by (simp add: af_ok_def)
    show ?thesis using step.hyps Cons k(1) n next_elt_ok [OF step.prems(1) q(1)] r step.IH [OF _ step.prems(1,2)]
      by (auto simp: timevalNow_def Let_def split: if_splits bind_splits)
  qed (use step in simp)
qed

section \<open>The process\<close>

text \<open>
  The program makes calls, the timer goes off and the signal is delivered when it is not held. A
  timer that goes off while the handler runs is seen after it.
\<close>

inductive af_reach :: "clock \<Rightarrow> callbacks \<Rightarrow> af \<Rightarrow> bool" for clk prog where
  af_start: "af_reach clk prog af_init"
| af_step: "af_reach clk prog s \<Longrightarrow> call_ok c \<Longrightarrow> af_reach clk prog (do_call clk c s)"
| af_expire: "af_reach clk prog s \<Longrightarrow> itimer s \<noteq> None \<Longrightarrow> af_reach clk prog (s\<lparr>itimer := None, pending := True\<rparr>)"
| af_deliver: "af_reach clk prog s \<Longrightarrow> pending s \<Longrightarrow> \<not> held s \<Longrightarrow> onalarm clk prog (s\<lparr>pending := False\<rparr>) = Some s' \<Longrightarrow> af_reach clk prog s'"

lemma onalarm_cases:
  assumes "onalarm clk prog s = Some s'" "clk_ok t0 clk" "prog_ok prog" "af_ok t0 s"
  obtains u where "af_ok t0 u"
    "s' = (let u = (case root u of [] \<Rightarrow> u | q # _ \<Rightarrow> set_head clk q u) in if block u then u else AFrelse (AFrearm u))"
proof -
  let ?h = "if block s then s else AFhold s"
  have h: "af_ok t0 ?h" "root ?h = root s" using assms(4) by (auto simp: af_ok_def signal_defs)
  show thesis
  proof (cases "root s = []")
    case True
    then show thesis using assms(1) h that [of ?h] by (simp add: onalarm_def Let_def split: if_splits)
  next
    case False
    then obtain u where u: "alarm_loop clk prog ?h = Some u" "s' = (let u = (case root u of [] \<Rightarrow> u | q # _ \<Rightarrow> set_head clk q u) in if block u then u else AFrelse (AFrearm u))"
      using assms(1) h(2) by (auto simp: onalarm_def Let_def split: bind_splits)
    have "af_ok t0 u" by (rule loop_keeps [OF u(1) assms(2,3) h(1)])
    then show thesis using u(2) by (rule that)
  qed
qed

lemma onalarm_keeps:
  assumes "onalarm clk prog s = Some s'" "clk_ok t0 clk" "prog_ok prog" "af_ok t0 s"
  shows "af_ok t0 s'"
proof -
  obtain u where u: "af_ok t0 u"
    "s' = (let u = (case root u of [] \<Rightarrow> u | q # _ \<Rightarrow> set_head clk q u) in if block u then u else AFrelse (AFrearm u))"
    by (rule onalarm_cases [OF assms])
  show ?thesis using u(1) unfolding u(2) Let_def
    by (cases "root u") (auto simp: af_ok_def signal_defs)
qed

lemma reach_ok: "af_reach clk prog s \<Longrightarrow> clk_ok t0 clk \<Longrightarrow> prog_ok prog \<Longrightarrow> af_ok t0 s"
proof (induction rule: af_reach.induct)
  case af_start
  then show ?case by (simp add: af_ok_def af_init_def sched_ok_def)
next
  case (af_expire s)
  then show ?case by (auto simp: af_ok_def)
next
  case (af_deliver s s')
  then have "af_ok t0 (s\<lparr>pending := False\<rparr>)" by (auto simp: af_ok_def)
  then show ?case using onalarm_keeps af_deliver by blast
qed (simp_all add: call_keeps)

text \<open>
  However events are registered and removed, by the program or by callbacks, and
  however alarms come, the queue is ordered by time and every event is in it once. The signal is
  held while events are blocked, and a signal that can be delivered finds its handler installed.
  This is for a clock that stays within \<open>2 ^ 30\<close> seconds of some time and for periods below \<open>2 ^ 29\<close>
  seconds.
\<close>

theorem af_invariant:
  assumes "clk_ok t0 clk" "prog_ok prog" "af_reach clk prog s"
  shows "sorted (map (\<lambda>q. us (q_when q)) (root s)) \<and> distinct (map q_afid (root s)) \<and>
    (block s \<longrightarrow> held s) \<and> (pending s \<and> \<not> held s \<longrightarrow> armed s)"
  using reach_ok [OF assms(3,1,2)] by (auto simp: af_ok_def sched_ok_def)

section \<open>The timer is never forgotten\<close>

definition clk_pos :: "clock \<Rightarrow> bool" where
  "clk_pos clk \<longleftrightarrow> (\<forall>n. tv_usec (clk n) > 0)"

definition alive :: "af \<Rightarrow> bool" where
  "alive s \<longleftrightarrow> (root s \<noteq> [] \<longrightarrow> itimer s \<noteq> None \<or> pending s)"

lemma set_head_timer:
  assumes "clk_ok t0 clk" "clk_pos clk" "elt_ok t0 q"
  shows "itimer (set_head clk q s) \<noteq> None"
proof -
  have "wk (q_when q)" "nm (clk n)" "0 < tv_usec (clk n)" for n using assms by (auto simp: clk_ok_def clk_pos_def elt_ok_def)
  from this(1) this(2,3) [of "readings s"] show ?thesis
    by (auto simp: set_head_def timevalNow_def AFsetitimer_def MIN_ITIMER_USEC_def tsub_def tsub_real_def wk_def nm_def Let_def)
qed

lemma call_alive:
  assumes "clk_ok t0 clk" "clk_pos clk" "call_ok c" "af_ok t0 s" "alive s"
  shows "alive (do_call clk c s)"
proof (cases c)
  case (Register d f mem)
  have "elt_ok t0 \<lparr>q_afid = i, q_when = tadd (clk n) d, q_delta = d, q_func = f\<rparr>" for i n
    using Register assms(1,3) by (simp add: new_elt_ok)
  from set_head_timer [OF assms(1,2) this] show ?thesis using assms(5) unfolding Register
    by (cases "root s") (auto simp: alive_def pmAFregister_def timevalNow_def signal_defs Let_def)
next
  case (Unregister i)
  have "itimer (set_head clk (hd (remove i (root s))) u) \<noteq> None" if "remove i (root s) \<noteq> []" for u
  proof (rule set_head_timer [OF assms(1,2)])
    have "sched_ok t0 (remove i (root s))" using assms(4) remove_ok by (simp add: af_ok_def)
    then show "elt_ok t0 (hd (remove i (root s)))" using that by (simp add: sched_ok_def)
  qed
  then show ?thesis using assms(5) unfolding Unregister
    by (auto simp: alive_def pmAFunregister_def signal_defs Let_def)
qed (use assms(5) in \<open>auto simp: alive_def pmAFblock_def pmAFunblock_def signal_defs\<close>)

text \<open>
  C10: Events are not forgotten. In every reachable state with an event in the queue the
  timer is running or its signal is pending, whatever has been registered, removed, blocked and run
  before. This is for a clock that is never read at a whole second.
\<close>

theorem af_never_stuck:
  assumes "clk_ok t0 clk" "clk_pos clk" "prog_ok prog" "af_reach clk prog s"
  shows "root s \<noteq> [] \<longrightarrow> itimer s \<noteq> None \<or> pending s"
proof -
  from assms(4) have "alive s"
  proof (induction rule: af_reach.induct)
    case (af_step s c)
    then show ?case using call_alive assms(1,2) reach_ok [OF af_step.hyps(1) assms(1,3)] by blast
  next
    case (af_deliver s s')
    have "af_ok t0 (s\<lparr>pending := False\<rparr>)" using reach_ok [OF af_deliver.hyps(1) assms(1,3)] by (auto simp: af_ok_def)
    from onalarm_cases [OF af_deliver.hyps(4) assms(1,3) this] obtain u where u: "af_ok t0 u"
      "s' = (let u = (case root u of [] \<Rightarrow> u | q # _ \<Rightarrow> set_head clk q u) in if block u then u else AFrelse (AFrearm u))" .
    show ?case
    proof (cases "root u")
      case (Cons q rest)
      then have "elt_ok t0 q" using u(1) by (simp add: af_ok_def sched_ok_def)
      from set_head_timer [OF assms(1,2) this, of u] show ?thesis using Cons unfolding u(2)
        by (auto simp: alive_def signal_defs Let_def)
    qed (simp add: u(2) alive_def signal_defs Let_def)
  qed (auto simp: alive_def af_init_def)
  then show ?thesis by (simp add: alive_def)
qed

section \<open>What is due is run\<close>

text \<open>Callbacks that make at most \<open>R\<close> calls and register nothing.\<close>

fun quiet_call :: "af_call \<Rightarrow> bool" where
  "quiet_call (Register delta func mem) = False"
| "quiet_call _ = True"

definition quiet :: "nat \<Rightarrow> callbacks \<Rightarrow> bool" where
  "quiet R prog \<longleftrightarrow> (\<forall>f i. length (prog f i) \<le> R \<and> list_all quiet_call (prog f i))"

definition unreg :: "callbacks \<Rightarrow> int \<Rightarrow> bool" where
  "unreg prog i \<longleftrightarrow> (\<exists>f j. Unregister i \<in> set (prog f j))"

text \<open>How often the events can still be due before time \<open>T\<close>, at the most.\<close>

definition work :: "int \<Rightarrow> qelt list \<Rightarrow> nat" where
  "work T qs = (\<Sum>q\<leftarrow>qs. nat (T + 10001 - us (q_when q)))"

lemma work_Cons [simp]: "work T (q # qs) = nat (T + 10001 - us (q_when q)) + work T qs"
  by (simp add: work_def)

lemma work_enqueue: "work T (enqueue q qs) = nat (T + 10001 - us (q_when q)) + work T qs"
  by (induction qs) (auto simp: work_def)

lemma work_remove: "work T (remove i qs) \<le> work T qs"
  by (induction qs) auto

lemma quiet_call_step:
  assumes "quiet_call c" "distinct (map q_afid (root s))"
  shows "readings (do_call clk c s) \<le> Suc (readings s) \<and> ran (do_call clk c s) = ran s \<and> distinct (map q_afid (root (do_call clk c s))) \<and>
    work T (root (do_call clk c s)) \<le> work T (root s) \<and> (\<forall>q \<in> set (root s). q \<in> set (root (do_call clk c s)) \<or> c = Unregister (q_afid q))"
  using assms by (cases c) (auto simp: pmAFunregister_def pmAFblock_def pmAFunblock_def signal_defs Let_def work_remove set_remove remove_facts)

lemma quiet_calls:
  "list_all quiet_call cs \<Longrightarrow> distinct (map q_afid (root s)) \<Longrightarrow>
    readings (fold (do_call clk) cs s) \<le> readings s + length cs \<and> ran (fold (do_call clk) cs s) = ran s \<and>
    work T (root (fold (do_call clk) cs s)) \<le> work T (root s) \<and> (\<forall>q \<in> set (root s). q \<in> set (root (fold (do_call clk) cs s)) \<or> Unregister (q_afid q) \<in> set cs)"
proof (induction cs arbitrary: s)
  case (Cons c cs)
  note c = quiet_call_step [of c s clk T]
  have "readings (fold (do_call clk) cs (do_call clk c s)) \<le> readings (do_call clk c s) + length cs"
    "ran (fold (do_call clk) cs (do_call clk c s)) = ran (do_call clk c s)"
    "work T (root (fold (do_call clk) cs (do_call clk c s))) \<le> work T (root (do_call clk c s))"
    "\<forall>q \<in> set (root (do_call clk c s)). q \<in> set (root (fold (do_call clk) cs (do_call clk c s))) \<or> Unregister (q_afid q) \<in> set cs"
    using Cons c by auto
  then show ?case using c Cons.prems by force
qed simp

definition ran_due :: "clock \<Rightarrow> callbacks \<Rightarrow> af \<Rightarrow> af \<Rightarrow> bool" where
  "ran_due clk prog s s' \<longleftrightarrow> (\<exists>new. ran s' = ran s @ new \<and>
     (\<forall>q \<in> set (root s'). readings s < readings s' \<and> us (clk (readings s' - 1)) + 10000 < us (q_when q)) \<and>
     (\<forall>q \<in> set (root s). (q \<in> set (root s') \<or> q_afid q \<in> set new \<or> unreg prog (q_afid q)) \<and>
       (single_shot (q_delta q) \<or> q_afid q \<in> q_afid ` set (root s') \<or> unreg prog (q_afid q))))"

lemma ran_due_step:
  assumes "ran_due clk prog u s'" "root s = q # rest" "ran u = ran s @ [q_afid q]" "readings s < readings u"
    "\<forall>p \<in> set rest. p \<in> set (root u) \<or> unreg prog (q_afid p)" "single_shot (q_delta q) \<or> q\<lparr>q_when := w\<rparr> \<in> set (root u)"
  shows "ran_due clk prog s s'"
proof -
  obtain new where n: "ran s' = ran u @ new" "\<forall>q \<in> set (root s'). readings u < readings s' \<and> us (clk (readings s' - 1)) + 10000 < us (q_when q)"
    "\<forall>q \<in> set (root u). (q \<in> set (root s') \<or> q_afid q \<in> set new \<or> unreg prog (q_afid q)) \<and>
       (single_shot (q_delta q) \<or> q_afid q \<in> q_afid ` set (root s') \<or> unreg prog (q_afid q))"
    using assms(1) unfolding ran_due_def by blast
  have "single_shot (q_delta q) \<or> q_afid q \<in> q_afid ` set (root s') \<or> unreg prog (q_afid q)"
    using assms(6) n(3) by (metis qelt.select_convs(1,3) qelt.surjective qelt.update_convs(2))
  then show ?thesis unfolding ran_due_def using n assms(2-5) by (intro exI [of _ "q_afid q # new"]) fastforce
qed

lemma calls_read: "readings s \<le> readings (fold (do_call clk) cs s)"
proof (induction cs arbitrary: s)
  case (Cons c cs)
  have "readings s \<le> readings (do_call clk c s)"
    by (cases c) (auto simp: pmAFregister_def pmAFunregister_def pmAFblock_def pmAFunblock_def timevalNow_def signal_defs Let_def)
  then show ?case using Cons [of "do_call clk c s"] by simp
qed simp

lemma callback_quiet:
  assumes "quiet R prog" "distinct (map q_afid rest)"
  shows "let u = callback clk prog q (s\<lparr>root := rest\<rparr>) in readings u \<le> readings s + R \<and> readings s \<le> readings u \<and> ran u = ran s @ [q_afid q] \<and>
    work T (root u) \<le> work T rest \<and> (\<forall>p \<in> set rest. p \<in> set (root u) \<or> unreg prog (q_afid p))"
proof -
  let ?cs = "prog (q_func q) (q_afid q)"
  have cs: "list_all quiet_call ?cs" "length ?cs \<le> R" using assms(1) by (auto simp: quiet_def)
  show ?thesis using quiet_calls [OF cs(1), of "s\<lparr>root := rest, ran := ran s @ [q_afid q]\<rparr>" clk T] assms(2) cs(2)
    calls_read [of "s\<lparr>root := rest, ran := ran s @ [q_afid q]\<rparr>" clk ?cs] unfolding callback_def Let_def unreg_def by force
qed

lemma loop_reads: "alarm_loop clk prog s = Some s' \<Longrightarrow> readings s + (if root s = [] then 0 else 1) \<le> readings s'"
proof (induction clk prog s s' rule: alarm_loop.raw_induct [rotated 1, consumes 1, case_names step])
  case (step loop clk prog s s')
  have c: "Suc (readings s) \<le> readings (callback clk prog q (s\<lparr>readings := Suc (readings s), root := rest\<rparr>))" for q rest
    using calls_read [of "s\<lparr>readings := Suc (readings s), root := rest, ran := ran s @ [q_afid q]\<rparr>"] by (simp add: callback_def)
  have IH: "readings u \<le> readings s'" if "loop clk prog u = Some s'" for u using step.IH [OF that] by simp
  show ?case
  proof (cases "root s")
    case (Cons q rest)
    then show ?thesis using step.hyps c [of q rest]
      by (auto simp: timevalNow_def Let_def split: if_splits bind_splits dest!: IH)
  qed (use step.hyps in simp)
qed

lemma loop_total:
  assumes "clk_ok t0 clk" "prog_ok prog" "quiet R prog" "\<forall>n < N. us (clk n) \<le> T"
  shows "af_ok t0 s \<Longrightarrow> readings s + (R + 2) * work T (root s) < N \<Longrightarrow> \<exists>s'. alarm_loop clk prog s = Some s' \<and> ran_due clk prog s s'"
proof (induction "work T (root s)" arbitrary: s rule: less_induct)
  case less
  show ?case
  proof (cases "root s")
    case Nil
    then have "alarm_loop clk prog s = Some s" by (subst alarm_loop.simps) simp
    then show ?thesis using Nil by (auto simp: ran_due_def)
  next
    case (Cons q rest)
    let ?n = "readings s"
    have q: "elt_ok t0 q" "wk (q_when q)" "distinct (map q_afid rest)" "sorted (map (\<lambda>q. us (q_when q)) (q # rest))"
      using less.prems(1) Cons by (auto simp: af_ok_def sched_ok_def elt_ok_def)
    have now: "nm (clk n)" for n using assms(1) by (simp add: clk_ok_def)
    show ?thesis
    proof (cases "due (q_when q) (clk ?n)")
      case False
      then have "alarm_loop clk prog s = Some (s\<lparr>readings := Suc ?n\<rparr>)" by (subst alarm_loop.simps) (simp add: Cons timevalNow_def)
      moreover have "us (clk ?n) + 10000 < us (q_when p)" if "p \<in> set (root s)" for p
        using False due_iff [OF q(2) now] q(4) that Cons by fastforce
      ultimately show ?thesis by (auto simp: ran_due_def)
    next
      case True
      let ?u = "callback clk prog q (s\<lparr>readings := Suc ?n, root := rest\<rparr>)"
      have u: "readings ?u \<le> Suc ?n + R" "Suc ?n \<le> readings ?u" "ran ?u = ran s @ [q_afid q]" "work T (root ?u) \<le> work T rest"
        "\<forall>p \<in> set rest. p \<in> set (root ?u) \<or> unreg prog (q_afid p)"
        using callback_quiet [OF assms(3) q(3), of clk q "s\<lparr>readings := Suc ?n\<rparr>" T] by (simp_all add: Let_def)
      have k: "af_ok t0 ?u" "q_afid q \<le> afid ?u" "q_afid q \<notin> q_afid ` set (root ?u)"
        using callback_keeps [OF assms(1,2) less.prems(1) Cons, of "Suc ?n"] by (simp_all add: Let_def)
      have k4: "0x8000 < q_afid q" using less.prems(1) Cons by (simp add: af_ok_def)
      have "?n < N" using less.prems(2) by simp
      then have w: "us (q_when q) \<le> T + 10000" using True due_iff [OF q(2) now] assms(4) by force
      have fuel: "m + (R + 2) * v < N" if "v < work T (root s)" "m \<le> ?n + R + 2" for m v
      proof -
        have "(R + 2) * v + (R + 2) \<le> (R + 2) * work T (root s)" using that(1) mult_le_mono2 [of "Suc v" "work T (root s)" "R + 2"] by simp
        then show ?thesis using that(2) less.prems(2) by linarith
      qed
      show ?thesis
      proof (cases "single_shot (q_delta q)")
        case True
        have "work T (root ?u) < work T (root s)" using u(4) w Cons by simp
        then obtain s' where s': "alarm_loop clk prog ?u = Some s'" "ran_due clk prog ?u s'"
          using less.hyps [OF _ k(1)] fuel u(1) by force
        have "alarm_loop clk prog s = alarm_loop clk prog ?u"
          using \<open>due (q_when q) (clk ?n)\<close> True by (subst alarm_loop.simps) (simp add: Cons timevalNow_def Let_def)
        then show ?thesis using s' ran_due_step [OF s'(2) Cons u(3) _ u(5)] True u(2) by auto
      next
        case False
        have d: "delta_ok (q_delta q)" "us (q_delta q) > 0" using q(1) False by (auto simp: elt_ok_def delta_ok_def nm_def us_def single_shot_def)
        obtain v where v: "catchup (clk (readings ?u)) (q_delta q) (q_when q) = Some v" using catchup_spec [OF q(2) now d] by blast
        have e: "elt_ok t0 (q\<lparr>q_when := v\<rparr>)" "us (q_when q) < us v" using next_elt_ok [OF assms(1) q(1) True False v] by auto
        let ?v = "?u\<lparr>readings := Suc (readings ?u), root := enqueue (q\<lparr>q_when := v\<rparr>) (root ?u)\<rparr>"
        have "work T (root ?v) < work T (root s)" using u(4) w e(2) Cons by (simp add: work_enqueue)
        moreover have "af_ok t0 ?v" using k k4 e(1) by (auto simp: af_ok_def intro!: enqueue_ok)
        ultimately obtain s' where s': "alarm_loop clk prog ?v = Some s'" "ran_due clk prog ?v s'"
          using less.hyps [of ?v] fuel u(1) by force
        have "alarm_loop clk prog s = alarm_loop clk prog ?v"
          using True False v by (subst alarm_loop.simps) (simp add: Cons timevalNow_def Let_def)
        then show ?thesis using s' ran_due_step [OF s'(2) Cons, of v] u by auto
      qed
    qed
  qed
qed

text \<open>
  The handler ends, and has then run what was due. Take callbacks that register no
  events and make at most \<open>R\<close> calls, and a clock that does not pass \<open>T\<close> during the readings that are
  needed for the events that can be due until then. Then the handler returns. At its last look at
  the clock no event in the queue was due; every event that was in the queue before and due by then
  has been run; and the periodic ones are in the queue again. The exception is an event that a
  callback removes.
\<close>

theorem af_alarm_live:
  assumes "clk_ok t0 clk" "prog_ok prog" "quiet R prog" "\<forall>n < N. us (clk n) \<le> T"
    "af_reach clk prog s" "root s \<noteq> []" "readings s + (R + 2) * work T (root s) < N"
  shows "\<exists>s' new n. onalarm clk prog s = Some s' \<and> ran s' = ran s @ new \<and> readings s \<le> n \<and> n < readings s' \<and>
    (\<forall>q \<in> set (root s'). us (clk n) + 10000 < us (q_when q)) \<and>
    (\<forall>q \<in> set (root s). us (q_when q) \<le> us (clk n) + 10000 \<longrightarrow> q_afid q \<in> set new \<or> unreg prog (q_afid q)) \<and>
    (\<forall>q \<in> set (root s). single_shot (q_delta q) \<or> q_afid q \<in> q_afid ` set (root s') \<or> unreg prog (q_afid q))"
proof -
  let ?h = "if block s then s else AFhold s"
  have h: "root ?h = root s" "readings ?h = readings s" "ran ?h = ran s" by (auto simp: AFhold_def)
  have "af_ok t0 ?h" using reach_ok [OF assms(5,1,2)] by (auto simp: af_ok_def AFhold_def)
  then obtain u where u: "alarm_loop clk prog ?h = Some u" "ran_due clk prog ?h u"
    using loop_total [OF assms(1-4), of ?h] assms(7) unfolding h by blast
  obtain s' where s': "onalarm clk prog s = Some s'" "root s' = root u" "ran s' = ran u" "readings u \<le> readings s'"
    using u(1) assms(6) h(1) by (cases "root u") (auto simp: onalarm_def Let_def signal_defs)
  obtain new where n: "ran u = ran s @ new" "\<forall>q \<in> set (root u). readings s < readings u \<and> us (clk (readings u - 1)) + 10000 < us (q_when q)"
    "\<forall>q \<in> set (root s). q \<in> set (root u) \<or> q_afid q \<in> set new \<or> unreg prog (q_afid q)"
    "\<forall>q \<in> set (root s). single_shot (q_delta q) \<or> q_afid q \<in> q_afid ` set (root u) \<or> unreg prog (q_afid q)"
    using u(2) unfolding ran_due_def h by blast
  let ?n = "if root u = [] then readings s else readings u - 1"
  have "readings s < readings u" using loop_reads [OF u(1)] assms(6) h by simp
  then have m: "readings s \<le> ?n" "?n < readings s'" using s'(4) by auto
  have d: "\<forall>q \<in> set (root u). us (clk ?n) + 10000 < us (q_when q)" using n(2) by auto
  then have "\<forall>q \<in> set (root s). us (q_when q) \<le> us (clk ?n) + 10000 \<longrightarrow> q_afid q \<in> set new \<or> unreg prog (q_afid q)"
    using n(3) by force
  then show ?thesis using s'(1) n(1,4) m d unfolding s'(2) [symmetric] s'(3) [symmetric] by blast
qed

section \<open>What goes wrong\<close>

text \<open>
  C39: Addition carries a full second only when it is exceeded. When an event is registered one
  microsecond before a whole second, the period has one microsecond and the clock is read
  again at the whole second, then the interval has a million microseconds, the system refuses it,
  and the event waits in the queue without a timer.
\<close>

theorem af_timer_lost:
  assumes "clk (readings s) = \<lparr>tv_sec = x, tv_usec = 999999\<rparr>" "clk (Suc (readings s)) = \<lparr>tv_sec = x + 1, tv_usec = 0\<rparr>"
    "root s = []" "itimer s = None" "d \<ge> 1"
  shows "case pmAFregister clk \<lparr>tv_sec = d, tv_usec = 1\<rparr> f True s of (r, s') \<Rightarrow> r = afid s + 1 \<and> map q_afid (root s') = [r] \<and> itimer s' = None"
  using assms by (simp add: pmAFregister_def timevalNow_def set_head_def AFsetitimer_def MIN_ITIMER_USEC_def tsub_def tsub_real_def tadd_def signal_defs Let_def)

lemma catchup_on_time:
  assumes "nm now" "delta_ok d" "us d > 0"
  shows "catchup now d now = Some (tadd now d)"
proof -
  let ?t = "tadd (tsub_real (tadd now d) now) d"
  have "wk ?t" using assms by (simp add: delta_ok_def nm_wk wk_tadd wk_tsub_real)
  moreover have "us ?t > 0" using assms(3) by simp
  ultimately have "tv_sec ?t \<ge> 0" using sec_us(2) by fastforce
  then show ?thesis by (subst catchup.simps) (simp add: Let_def)
qed

text \<open>
  C40: A callback cannot remove its own event. The event is not in the queue while the callback runs,
  so the removal finds nothing, and afterwards the event is scheduled again. The attempt also releases
  the signal that the handler holds while it works on the queue.
\<close>

theorem af_self_unregister:
  assumes "nm now" "root s = [q]" "q_when q = now" "delta_ok (q_delta q)" "us (q_delta q) > 10000"
    "prog (q_func q) (q_afid q) = [Unregister (q_afid q)]" "\<not> block s"
  shows "\<exists>s'. onalarm (\<lambda>_. now) prog s = Some s' \<and> ran s' = ran s @ [q_afid q] \<and> map q_afid (root s') = [q_afid q] \<and>
    held (AFhold s) \<and> \<not> held (callback (\<lambda>_. now) prog q ((AFhold s)\<lparr>root := []\<rparr>))"
proof -
  let ?w = "tadd now (q_delta q)" and ?clk = "\<lambda>_. now"
  have due: "due now now" "\<not> due ?w now"
    using assms(1,4,5) by (simp_all add: due_iff nm_wk wk_tadd delta_ok_def)
  have p: "\<not> single_shot (q_delta q)" "catchup now (q_delta q) now = Some ?w"
    using assms(1,4,5) by (auto simp: single_shot_def us_def catchup_on_time)
  have cb: "callback ?clk prog q u = u\<lparr>ran := ran u @ [q_afid q], held := False\<rparr>" if "root u = []" "\<not> block u" for u
    using assms(6) that by (simp add: callback_def pmAFunregister_def signal_defs Let_def)
  let ?s = "(AFhold s)\<lparr>ran := ran s @ [q_afid q], held := False, readings := readings s + 2, root := [q\<lparr>q_when := ?w\<rparr>]\<rparr>"
  have "alarm_loop ?clk prog (AFhold s) = alarm_loop ?clk prog ?s"
    using assms(2,3,7) due(1) p cb by (subst alarm_loop.simps) (simp add: timevalNow_def AFhold_def Let_def numeral_2_eq_2)
  also have "\<dots> = Some (?s\<lparr>readings := readings s + 3\<rparr>)"
    using due(2) by (subst alarm_loop.simps) (simp add: timevalNow_def numeral_3_eq_3)
  finally show ?thesis using assms(2,7) cb by (simp add: onalarm_def Let_def AFhold_def AFrelse_def AFrearm_def)
qed

section \<open>Examples\<close>

definition noon :: timeval where "noon = \<lparr>tv_sec = 1000, tv_usec = 500\<rparr>"
definition second :: timeval where "second = \<lparr>tv_sec = 1, tv_usec = 0\<rparr>"

text \<open>A clock that moves by a second after two readings.\<close>

definition tick :: clock where "tick n = (if n < 2 then noon else tadd noon second)"

lemma noon_ok: "nm noon" "wk noon" "delta_ok second" "us second = 1000000" "us noon = 1000000500"
  by (simp_all add: noon_def second_def nm_def wk_def delta_ok_def us_def)

lemma tick_ok: "clk_ok 0 tick" "clk_pos tick" "us (tick n) \<le> 1001000500"
  by (simp_all add: clk_ok_def clk_pos_def tick_def noon_def second_def tadd_def nm_def us_def)

lemma idle_ok: "prog_ok (\<lambda>_ _. [])" "quiet 0 (\<lambda>_ _. [])" "\<not> unreg (\<lambda>_ _. []) i"
  by (simp_all add: prog_ok_def quiet_def unreg_def)

definition one_event :: af where
  "one_event = do_call tick (Register second 0 True) af_init"

lemma one_event_reach: "af_reach tick prog one_event"
  unfolding one_event_def using noon_ok(3) by (intro af_reach.af_step af_reach.af_start) simp

lemma one_event_state: "root one_event = [\<lparr>q_afid = 0x8001, q_when = tadd noon second, q_delta = second, q_func = 0\<rparr>]" "readings one_event = 2" "ran one_event = []"
  by (simp_all add: one_event_def af_init_def pmAFregister_def timevalNow_def signal_defs Let_def tick_def)

lemma af_invariant_witness: "sorted (map (\<lambda>q. us (q_when q)) (root one_event)) \<and> root one_event \<noteq> []"
  using af_invariant [OF tick_ok(1) idle_ok(1) one_event_reach] one_event_state by simp

lemma af_never_stuck_witness: "root one_event \<noteq> [] \<and> (pending one_event \<or> (\<exists>t. itimer one_event = Some t))"
  using af_never_stuck [OF tick_ok(1,2) idle_ok(1) one_event_reach] one_event_state by auto

lemma af_alarm_live_witness:
  "\<exists>s'. onalarm tick (\<lambda>_ _. []) one_event = Some s' \<and> 0x8001 \<in> set (ran s') \<and> root s' \<noteq> []"
proof -
  have w: "readings one_event + (0 + 2) * work 1001000500 (root one_event) < 30000" "root one_event \<noteq> []" "\<forall>n < 30000. us (tick n) \<le> 1001000500"
    using tick_ok(3) by (simp_all add: one_event_state noon_ok work_def)
  obtain s' new n where s': "onalarm tick (\<lambda>_ _. []) one_event = Some s'" "ran s' = ran one_event @ new" "readings one_event \<le> n"
    "\<forall>q \<in> set (root one_event). us (q_when q) \<le> us (tick n) + 10000 \<longrightarrow> q_afid q \<in> set new"
    "\<forall>q \<in> set (root one_event). single_shot (q_delta q) \<or> q_afid q \<in> q_afid ` set (root s')"
    using af_alarm_live [OF tick_ok(1) idle_ok(1,2) w(3) one_event_reach w(2,1)] idle_ok(3) by blast
  have "us (tick n) = 1001000500" using s'(3) by (simp add: one_event_state tick_def noon_ok)
  moreover have "\<not> single_shot second" by (simp add: single_shot_def second_def)
  ultimately show ?thesis using s' by (auto simp: one_event_state noon_ok)
qed

lemma af_timer_lost_witness:
  "case pmAFregister (\<lambda>n. if n = 0 then \<lparr>tv_sec = 5, tv_usec = 999999\<rparr> else \<lparr>tv_sec = 6, tv_usec = 0\<rparr>) \<lparr>tv_sec = 1, tv_usec = 1\<rparr> 0 True af_init of
    (r, s') \<Rightarrow> r = 0x8001 \<and> map q_afid (root s') = [r] \<and> itimer s' = None"
  using af_timer_lost [of "\<lambda>n. if n = 0 then \<lparr>tv_sec = 5, tv_usec = 999999\<rparr> else \<lparr>tv_sec = 6, tv_usec = 0\<rparr>" af_init 5 1 0]
  by (simp add: af_init_def)

lemma af_self_unregister_witness:
  "\<exists>s'. onalarm (\<lambda>_. noon) (\<lambda>_ i. [Unregister i]) (af_init\<lparr>root := [\<lparr>q_afid = 0x8001, q_when = noon, q_delta = second, q_func = 0\<rparr>]\<rparr>) = Some s' \<and>
    ran s' = [0x8001] \<and> map q_afid (root s') = [0x8001]"
  using af_self_unregister [OF noon_ok(1), of "af_init\<lparr>root := [\<lparr>q_afid = 0x8001, q_when = noon, q_delta = second, q_func = 0\<rparr>]\<rparr>"
      "\<lparr>q_afid = 0x8001, q_when = noon, q_delta = second, q_func = 0\<rparr>" "\<lambda>_ i. [Unregister i]"] noon_ok(3,4)
  by (auto simp: af_init_def)

end
