(* ===== verification/Eventq.thy ===== *)
theory Eventq
  imports Prelude "HOL-Library.Sublist"
begin

text \<open>
  The event queues of agents, \<^verbatim>\<open>queues.c\<close> of the agent library. An agent appends events to bounded
  queues; each client that fetches gets the events that are there, and an event goes when as many
  fetches have seen it as there were clients when it came. A pointer to an event is its address.
  The decoder of an agent, which puts an event into the array for the client, is an argument that
  gives its result; a filter is the function it applies. Memory for tables is always there, as the
  process ends otherwise; memory for an event need not be.
\<close>

section \<open>State\<close>

type_synonym stamp = "int \<times> int"

record event =
  e_addr :: nat
  e_time :: stamp
  e_count :: int
  e_data :: "byte list"

definition e_size :: "event \<Rightarrow> int" where
  "e_size e = int (length (e_data e))"

text \<open>What the array of a queue holds: events, and how many have been missed.\<close>

datatype item = Rec "byte list" stamp | Missed int

record event_queue =
  eq_name :: string
  eq_maxmemory :: int
  eq_inuse :: bool
  eq_array :: "item list"
  eq_numclients :: int
  eq_count :: int
  eq_bytes :: int
  eq_qsize :: int
  eq_events :: "event list"

record event_clientq =
  cq_active :: bool
  cq_missed :: int
  cq_access :: int
  cq_last :: "nat option"
  cq_filter :: "(byte list \<Rightarrow> int) option"

record event_client =
  ec_context :: int
  ec_inuse :: bool
  ec_queues :: "event_clientq list"

record evq =
  queues :: "event_queue list"
  clients :: "event_client list"
  next_addr :: nat

definition PMDA_FETCH_NOVALUES :: int where "PMDA_FETCH_NOVALUES = 0"
definition PMDA_FETCH_STATIC :: int where "PMDA_FETCH_STATIC = 1"

definition no_clientq :: event_clientq where
  "no_clientq = \<lparr>cq_active = False, cq_missed = 0, cq_access = 0, cq_last = None, cq_filter = None\<rparr>"

definition queue_lookup :: "int \<Rightarrow> evq \<Rightarrow> event_queue option" where
  "queue_lookup handle s = (
     if handle \<ge> int (length (queues s)) \<or> handle < 0 then None
     else if eq_inuse (queues s ! nat handle) then Some (queues s ! nat handle) else None)"

fun find_client :: "int \<Rightarrow> event_client list \<Rightarrow> nat option" where
  "find_client context [] = None"
| "find_client context (c # cs) = (if ec_context c = context \<and> ec_inuse c then Some 0 else map_option Suc (find_client context cs))"

definition client_lookup :: "int \<Rightarrow> evq \<Rightarrow> nat option" where
  "client_lookup context s = find_client context (clients s)"

definition client_queue_lookup :: "int \<Rightarrow> int \<Rightarrow> bool \<Rightarrow> evq \<Rightarrow> nat option \<times> evq" where
  "client_queue_lookup context handle accessq s = (case (client_lookup context s, queue_lookup handle s) of
       (Some i, Some _) \<Rightarrow>
         let c = clients s ! i; n = length (ec_queues c) in
         if handle < int n then (Some i, s)
         else if \<not> accessq then (None, s)
         else (Some i, s\<lparr>clients := (clients s)[i := c\<lparr>ec_queues := ec_queues c @ replicate (nat handle + 1 - n) no_clientq\<rparr>]\<rparr>)
     | _ \<Rightarrow> (None, s))"

definition upd_queue :: "int \<Rightarrow> (event_queue \<Rightarrow> event_queue) \<Rightarrow> evq \<Rightarrow> evq" where
  "upd_queue handle f s = s\<lparr>queues := (queues s)[nat handle := f (queues s ! nat handle)]\<rparr>"

definition upd_clientq :: "nat \<Rightarrow> int \<Rightarrow> (event_clientq \<Rightarrow> event_clientq) \<Rightarrow> evq \<Rightarrow> evq" where
  "upd_clientq i handle f s = (let c = clients s ! i in
     s\<lparr>clients := (clients s)[i := c\<lparr>ec_queues := (ec_queues c)[nat handle := f (ec_queues c ! nat handle)]\<rparr>]\<rparr>)"

definition the_clientq :: "nat \<Rightarrow> int \<Rightarrow> evq \<Rightarrow> event_clientq" where
  "the_clientq i handle s = ec_queues (clients s ! i) ! nat handle"

definition client_iterate :: "(event_clientq \<Rightarrow> event_clientq) \<Rightarrow> int \<Rightarrow> evq \<Rightarrow> evq" where
  "client_iterate visit handle s = fold (\<lambda>i s.
     if \<not> ec_inuse (clients s ! i) then s
     else case client_queue_lookup (ec_context (clients s ! i)) handle False s of
         (Some j, s) \<Rightarrow> if cq_active (the_clientq j handle s) then upd_clientq j handle visit s else s
       | (None, s) \<Rightarrow> s) [0..<length (clients s)] s"

section \<open>Dropping events\<close>

definition queue_drop :: "nat \<Rightarrow> nat option \<Rightarrow> event_clientq \<Rightarrow> event_clientq" where
  "queue_drop addr next clientq = (if cq_last clientq = Some addr then clientq\<lparr>cq_last := next, cq_missed := cq_missed clientq + 1\<rparr> else clientq)"

definition first_addr :: "event list \<Rightarrow> nat option" where
  "first_addr es = (case es of [] \<Rightarrow> None | e # _ \<Rightarrow> Some (e_addr e))"

fun drop_loop :: "int \<Rightarrow> int \<Rightarrow> event list \<Rightarrow> evq \<Rightarrow> evq" where
  "drop_loop handle bytes [] s = s"
| "drop_loop handle bytes (e # es) s = (
     if bytes \<le> u64 (eq_maxmemory (queues s ! nat handle) - eq_qsize (queues s ! nat handle)) then s
     else drop_loop handle bytes es
       (upd_queue handle (\<lambda>q. q\<lparr>eq_events := es, eq_qsize := u64 (eq_qsize q - e_size e)\<rparr>)
         (client_iterate (queue_drop (e_addr e) (first_addr es)) handle s)))"

definition queue_drop_bytes :: "int \<Rightarrow> int \<Rightarrow> evq \<Rightarrow> evq" where
  "queue_drop_bytes handle bytes s = drop_loop handle bytes (eq_events (queues s ! nat handle)) s"

section \<open>Queues\<close>

fun find_queue :: "string \<Rightarrow> event_queue list \<Rightarrow> nat option" where
  "find_queue name [] = None"
| "find_queue name (q # qs) = (if eq_inuse q \<and> eq_name q = name then Some 0 else map_option Suc (find_queue name qs))"

fun free_slot :: "('a \<Rightarrow> bool) \<Rightarrow> 'a list \<Rightarrow> nat" where
  "free_slot used [] = 0"
| "free_slot used (x # xs) = (if used x then Suc (free_slot used xs) else 0)"

definition new_queue :: "string \<Rightarrow> int \<Rightarrow> int \<Rightarrow> event_queue" where
  "new_queue name maxmemory numclients = \<lparr>eq_name = name, eq_maxmemory = maxmemory, eq_inuse = True, eq_array = [],
     eq_numclients = numclients, eq_count = 0, eq_bytes = 0, eq_qsize = 0, eq_events = []\<rparr>"

definition pmdaEventNewActiveQueue :: "string \<Rightarrow> int \<Rightarrow> int \<Rightarrow> evq \<Rightarrow> int \<times> evq" where
  "pmdaEventNewActiveQueue name maxmemory numclients s = (
     if maxmemory \<le> 0 then (- EINVAL, s)
     else if find_queue name (queues s) \<noteq> None then (- EEXIST, s)
     else
       let i = free_slot eq_inuse (queues s) in
       if i = length (queues s) then
         let s = fold (\<lambda>k. queue_drop_bytes (int k) INT_MAX) [0..<i] s in
         (int i, s\<lparr>queues := map (\<lambda>q. q\<lparr>eq_events := []\<rparr>) (queues s) @ [new_queue name maxmemory numclients]\<rparr>)
       else (int i, s\<lparr>queues := (queues s)[i := new_queue name maxmemory numclients]\<rparr>))"

definition pmdaEventNewQueue :: "string \<Rightarrow> int \<Rightarrow> evq \<Rightarrow> int \<times> evq" where
  "pmdaEventNewQueue name maxmemory s = pmdaEventNewActiveQueue name maxmemory 0 s"

definition pmdaEventQueueHandle :: "string \<Rightarrow> evq \<Rightarrow> int" where
  "pmdaEventQueueHandle name s = (case find_queue name (queues s) of Some i \<Rightarrow> int i | None \<Rightarrow> - ESRCH)"

definition queue_value :: "(event_queue \<Rightarrow> int) \<Rightarrow> int \<Rightarrow> evq \<Rightarrow> int + int" where
  "queue_value field handle s = (case queue_lookup handle s of None \<Rightarrow> Inl (- EINVAL) | Some q \<Rightarrow> Inr (field q))"

definition pmdaEventQueueCounter :: "int \<Rightarrow> evq \<Rightarrow> int + int" where "pmdaEventQueueCounter = queue_value eq_count"
definition pmdaEventQueueClients :: "int \<Rightarrow> evq \<Rightarrow> int + int" where "pmdaEventQueueClients = queue_value eq_numclients"
definition pmdaEventQueueMemory :: "int \<Rightarrow> evq \<Rightarrow> int + int" where "pmdaEventQueueMemory = queue_value eq_qsize"
definition pmdaEventQueueBytes :: "int \<Rightarrow> evq \<Rightarrow> int + int" where "pmdaEventQueueBytes = queue_value eq_bytes"

definition pmdaEventQueueAppend :: "bool \<Rightarrow> int \<Rightarrow> byte list \<Rightarrow> stamp \<Rightarrow> evq \<Rightarrow> int \<times> evq" where
  "pmdaEventQueueAppend mem handle data tv s = (case queue_lookup handle s of
       None \<Rightarrow> (- EINVAL, s)
     | Some queue \<Rightarrow>
         let bytes = int (length data);
             done = upd_queue handle (\<lambda>q. q\<lparr>eq_bytes := u64 (eq_bytes q + bytes), eq_count := (eq_count q + 1) mod 2 ^ 32\<rparr>)
         in if bytes > eq_maxmemory queue then (0, done s)
            else let s = queue_drop_bytes handle bytes s in
              if eq_numclients queue = 0 then (0, done s)
              else if \<not> mem then (- ENOMEM, s)
              else
                let event = \<lparr>e_addr = next_addr s, e_time = tv, e_count = eq_numclients queue, e_data = data\<rparr>;
                    s = upd_queue handle (\<lambda>q. q\<lparr>eq_events := eq_events q @ [event], eq_qsize := u64 (eq_qsize q + bytes)\<rparr>) s
                in (0, done (s\<lparr>next_addr := Suc (next_addr s)\<rparr>)))"

section \<open>Fetching\<close>

definition queue_filter :: "event_clientq \<Rightarrow> byte list \<Rightarrow> int" where
  "queue_filter clientq data = (case cq_filter clientq of
       Some apply \<Rightarrow> apply data
     | None \<Rightarrow> if cq_access clientq = 0 then - PM_ERR_PERMISSION else 0)"

text \<open>
  The loop over the events gives the items for the array, the number of records, the status, the
  events that stay and the bytes that are freed.
\<close>

fun fetch_loop :: "(byte list \<Rightarrow> stamp \<Rightarrow> int) \<Rightarrow> event_clientq \<Rightarrow> event list \<Rightarrow> item list \<times> int \<times> int \<times> event list \<times> int" where
  "fetch_loop decode clientq [] = ([], 0, 0, [], 0)"
| "fetch_loop decode clientq (e # es) = (
     let culled = queue_filter clientq (e_data e) \<noteq> 0;
         sts = (if culled then 0 else decode (e_data e) (e_time e))
     in if sts < 0 then ([], 0, sts, e # es, 0)
        else case fetch_loop decode clientq es of (items, records, sts', kept, freed) \<Rightarrow>
          (if culled then items else Rec (e_data e) (e_time e) # items, sts + records, sts',
           if e_count e - 1 \<le> 0 then kept else e\<lparr>e_count := e_count e - 1\<rparr> # kept,
           if e_count e - 1 \<le> 0 then freed + e_size e else freed))"

definition before_last :: "nat option \<Rightarrow> event list \<Rightarrow> event list \<times> event list" where
  "before_last mark es = (case mark of None \<Rightarrow> ([], es) | Some a \<Rightarrow> (takeWhile (\<lambda>e. e_addr e \<noteq> a) es, dropWhile (\<lambda>e. e_addr e \<noteq> a) es))"

definition queue_fetch :: "(byte list \<Rightarrow> stamp \<Rightarrow> int) \<Rightarrow> int \<Rightarrow> nat \<Rightarrow> evq \<Rightarrow> int \<times> item list option \<times> evq" where
  "queue_fetch decode handle i s = (
     let s = (if cq_active (the_clientq i handle s) then s
              else upd_queue handle (\<lambda>q. q\<lparr>eq_numclients := (eq_numclients q + 1) mod 2 ^ 32\<rparr>) (upd_clientq i handle (\<lambda>c. c\<lparr>cq_active := True\<rparr>) s));
         clientq = the_clientq i handle s;
         queue = queues s ! nat handle
     in case before_last (cq_last clientq) (eq_events queue) of (seen, es) \<Rightarrow>
        case fetch_loop decode clientq es of (items, records, sts, kept, freed) \<Rightarrow>
        let missed = cq_missed clientq - 1;
            report = sts = 0 \<and> missed > 0;
            items = (if report then items @ [Missed missed] else items);
            records = (if report then records + 1 else records);
            s = upd_queue handle (\<lambda>q. q\<lparr>eq_array := items, eq_events := seen @ kept, eq_qsize := u64 (eq_qsize q - freed)\<rparr>) s;
            s = upd_clientq i handle (\<lambda>c. c\<lparr>cq_missed := (if sts = 0 then 0 else cq_missed c), cq_last := None\<rparr>) s
        in (sts, if records \<noteq> 0 then Some items else None, s))"

definition pmdaEventQueueRecords :: "(byte list \<Rightarrow> stamp \<Rightarrow> int) \<Rightarrow> int \<Rightarrow> int \<Rightarrow> evq \<Rightarrow> int \<times> item list option \<times> evq" where
  "pmdaEventQueueRecords decode handle context s = (case client_queue_lookup context handle True s of (clientq, s) \<Rightarrow>
     case (clientq, queue_lookup handle s) of
       (Some i, Some _) \<Rightarrow> (case queue_fetch decode handle i s of (sts, vbp, s) \<Rightarrow>
         (if sts \<noteq> 0 then sts else if vbp = None then PMDA_FETCH_NOVALUES else PMDA_FETCH_STATIC, vbp, s))
     | _ \<Rightarrow> (- EINVAL, None, s))"

section \<open>Clients\<close>

fun cleanup_loop :: "event list \<Rightarrow> event list \<times> int" where
  "cleanup_loop [] = ([], 0)"
| "cleanup_loop (e # es) = (case cleanup_loop es of (kept, freed) \<Rightarrow>
     if e_count e - 1 \<le> 0 then (kept, freed + e_size e) else (e\<lparr>e_count := e_count e - 1\<rparr> # kept, freed))"

definition queue_cleanup :: "event_clientq \<Rightarrow> int \<Rightarrow> evq \<Rightarrow> evq" where
  "queue_cleanup clientq handle s = (
     if queue_lookup handle s = None \<or> \<not> cq_active clientq then s
     else upd_queue handle (\<lambda>q.
       case (case cq_last clientq of None \<Rightarrow> (eq_events q, []) | Some a \<Rightarrow> before_last (Some a) (eq_events q)) of (seen, es) \<Rightarrow>
       case cleanup_loop es of (kept, freed) \<Rightarrow>
         q\<lparr>eq_events := seen @ kept, eq_qsize := u64 (eq_qsize q - freed), eq_numclients := (eq_numclients q - 1) mod 2 ^ 32\<rparr>) s)"

definition pmdaEventNewClient :: "int \<Rightarrow> evq \<Rightarrow> int \<times> evq" where
  "pmdaEventNewClient context s = (case client_lookup context s of
       Some i \<Rightarrow> (int i, s)
     | None \<Rightarrow>
         let i = free_slot ec_inuse (clients s); c = \<lparr>ec_context = context, ec_inuse = True, ec_queues = []\<rparr> in
         (int i, s\<lparr>clients := (if i = length (clients s) then clients s @ [c] else (clients s)[i := c])\<rparr>))"

definition pmdaEventEndClient :: "int \<Rightarrow> evq \<Rightarrow> evq" where
  "pmdaEventEndClient context s = (case client_lookup context s of
       None \<Rightarrow> s
     | Some i \<Rightarrow>
         let cqs = ec_queues (clients s ! i);
             s = fold (\<lambda>k. queue_cleanup (cqs ! k) (int k)) [0..<length cqs] s
         in s\<lparr>clients := (clients s)[i := \<lparr>ec_context = 0, ec_inuse = False, ec_queues = []\<rparr>]\<rparr>)"

definition pmdaEventClients :: "evq \<Rightarrow> int" where
  "pmdaEventClients s = int (length (filter ec_inuse (clients s)))"

definition pmdaEventSetFilter :: "int \<Rightarrow> int \<Rightarrow> (byte list \<Rightarrow> int) option \<Rightarrow> evq \<Rightarrow> int \<times> evq" where
  "pmdaEventSetFilter context handle flt s = (case client_queue_lookup context handle True s of
       (None, s) \<Rightarrow> (- EINVAL, s)
     | (Some i, s) \<Rightarrow> (0, upd_clientq i handle (\<lambda>c. c\<lparr>cq_filter := flt, cq_access := 1\<rparr>) s))"

definition pmdaEventSetAccess :: "int \<Rightarrow> int \<Rightarrow> int \<Rightarrow> evq \<Rightarrow> int \<times> evq" where
  "pmdaEventSetAccess context handle allow s = (case client_queue_lookup context handle True s of
       (None, s) \<Rightarrow> (- EINVAL, s)
     | (Some i, s) \<Rightarrow> (0, upd_clientq i handle (\<lambda>c. c\<lparr>cq_access := allow\<rparr>) s))"

section \<open>The invariant\<close>

definition volume :: "event list \<Rightarrow> int" where
  "volume es = (\<Sum>e\<leftarrow>es. e_size e)"

lemma volume_simps [simp]: "volume [] = 0" "volume (e # es) = e_size e + volume es" "volume (es @ es') = volume es + volume es'"
  by (simp_all add: volume_def)

lemma e_size_nonneg [simp]: "0 \<le> e_size e"
  by (simp add: e_size_def)

lemma volume_nonneg [simp]: "0 \<le> volume es"
  by (induction es) simp_all

definition queue_ok :: "event_queue \<Rightarrow> bool" where
  "queue_ok q \<longleftrightarrow> eq_qsize q = volume (eq_events q) \<and> volume (eq_events q) \<le> eq_maxmemory q \<and> eq_maxmemory q < INT_MAX"

definition clientq_ok :: "event_clientq \<Rightarrow> bool" where
  "clientq_ok c \<longleftrightarrow> cq_last c = None \<and> cq_missed c = 0"

definition clients_ok :: "event_client list \<Rightarrow> bool" where
  "clients_ok cs \<longleftrightarrow> (\<forall>c \<in> set cs. \<forall>q \<in> set (ec_queues c). clientq_ok q)"

definition evq_ok :: "evq \<Rightarrow> bool" where
  "evq_ok s \<longleftrightarrow> list_all queue_ok (queues s) \<and> clients_ok (clients s)"

lemma find_client_Some: "find_client x cs = Some i \<Longrightarrow> i < length cs"
  by (induction cs arbitrary: i) (auto split: if_splits)

lemma lookup_Some: "queue_lookup h s = Some q \<longleftrightarrow> 0 \<le> h \<and> nat h < length (queues s) \<and> eq_inuse q \<and> q = queues s ! nat h"
  by (auto simp: queue_lookup_def nat_less_iff)

lemma clients_ok_nth: "clients_ok cs \<Longrightarrow> i < length cs \<Longrightarrow> q \<in> set (ec_queues (cs ! i)) \<Longrightarrow> clientq_ok q"
  unfolding clients_ok_def by (meson nth_mem)

lemma clients_ok_update: "clients_ok cs \<Longrightarrow> (\<And>q. q \<in> set (ec_queues c) \<Longrightarrow> clientq_ok q) \<Longrightarrow> clients_ok (cs[i := c])"
  using set_update_subset_insert [of cs i c] by (fastforce simp: clients_ok_def)

lemma no_clientq_ok [simp]: "clientq_ok no_clientq"
  by (simp add: clientq_ok_def no_clientq_def)

lemma clientq_lookup:
  assumes "client_queue_lookup x h b s = (r, s')"
  shows "queues s' = queues s \<and> next_addr s' = next_addr s \<and> (clients_ok (clients s) \<longrightarrow> clients_ok (clients s')) \<and>
    (\<not> b \<longrightarrow> s' = s) \<and> (\<forall>i. r = Some i \<longrightarrow> 0 \<le> h \<and> nat h < length (queues s) \<and> i < length (clients s') \<and> nat h < length (ec_queues (clients s' ! i)))"
proof (cases "client_lookup x s")
  case (Some i)
  then have i: "i < length (clients s)" using find_client_Some by (simp add: client_lookup_def)
  show ?thesis
  proof (cases "queue_lookup h s")
    case (Some q)
    then have "0 \<le> h" "nat h < length (queues s)" by (auto simp: lookup_Some)
    moreover have "clients_ok ((clients s)[i := (clients s ! i)\<lparr>ec_queues := ec_queues (clients s ! i) @ replicate k no_clientq\<rparr>])"
      if "clients_ok (clients s)" for k
      using that i by (intro clients_ok_update) (auto dest: clients_ok_nth)
    ultimately show ?thesis using assms i Some \<open>client_lookup x s = Some i\<close>
      by (auto simp: client_queue_lookup_def Let_def split: if_splits)
  qed (use assms in \<open>auto simp: client_queue_lookup_def Some\<close>)
qed (use assms in \<open>auto simp: client_queue_lookup_def\<close>)

text \<open>No client has a last event between fetches, so that dropping an event changes no client.\<close>

lemma drop_unseen:
  assumes "clients_ok (clients s)"
  shows "client_iterate (queue_drop a n) h s = s"
proof -
  have one: "(if \<not> ec_inuse (clients s ! i) then s
     else case client_queue_lookup (ec_context (clients s ! i)) h False s of
         (Some j, s) \<Rightarrow> if cq_active (the_clientq j h s) then upd_clientq j h (queue_drop a n) s else s
       | (None, s) \<Rightarrow> s) = s" for i
  proof (cases "client_queue_lookup (ec_context (clients s ! i)) h False s")
    case (Pair r s')
    have "upd_clientq j h (queue_drop a n) s = s" if "r = Some j" for j
    proof -
      have "clientq_ok (ec_queues (clients s ! j) ! nat h)"
        using clientq_lookup [OF Pair] that assms by (auto intro: clients_ok_nth)
      then have "queue_drop a n (ec_queues (clients s ! j) ! nat h) = ec_queues (clients s ! j) ! nat h"
        by (simp add: queue_drop_def clientq_ok_def)
      then show ?thesis by (simp add: upd_clientq_def Let_def)
    qed
    then show ?thesis using clientq_lookup [OF Pair] Pair by (auto split: option.split)
  qed
  have "fold (\<lambda>i s. if \<not> ec_inuse (clients s ! i) then s
     else case client_queue_lookup (ec_context (clients s ! i)) h False s of
         (Some j, s) \<Rightarrow> if cq_active (the_clientq j h s) then upd_clientq j h (queue_drop a n) s else s
       | (None, s) \<Rightarrow> s) is s = s" for "is"
    by (induction "is") (simp_all add: one)
  then show ?thesis unfolding client_iterate_def .
qed

lemma u64_small: "0 \<le> x \<Longrightarrow> x < INT_MAX \<Longrightarrow> u64 x = x"
  by (simp add: INT_MAX_def)

text \<open>The events that are left when there has to be room.\<close>

fun room :: "int \<Rightarrow> int \<Rightarrow> event list \<Rightarrow> event list" where
  "room m b [] = []"
| "room m b (e # es) = (if b \<le> m - volume (e # es) then e # es else room m b es)"

lemma room_fits: "b \<le> m \<Longrightarrow> volume (room m b es) + b \<le> m"
  by (induction es) auto

lemma room_le: "volume (room m b es) \<le> volume es"
  by (induction es) (auto intro: add_increasing)

lemma room_all: "m < b \<Longrightarrow> room m b es = []"
proof (induction es)
  case (Cons e es)
  have "m - (e_size e + volume es) < b" using Cons.prems volume_nonneg [of es] e_size_nonneg [of e] by linarith
  then show ?case using Cons by simp
qed simp

lemma upd_queue_upd_queue: "upd_queue h f (upd_queue h g s) = upd_queue h (\<lambda>q. f (g q)) s"
  by (cases "nat h < length (queues s)") (simp_all add: upd_queue_def list_update_beyond)

lemma upd_queue_id: "f (queues s ! nat h) = queues s ! nat h \<Longrightarrow> upd_queue h f s = s"
  by (simp add: upd_queue_def)

lemma drop_loop_spec:
  assumes "nat h < length (queues s)" "clients_ok (clients s)" "eq_events (queues s ! nat h) = es" "queue_ok (queues s ! nat h)"
  shows "drop_loop h b es s = upd_queue h (\<lambda>q. q\<lparr>eq_events := room (eq_maxmemory q) b es, eq_qsize := volume (room (eq_maxmemory q) b es)\<rparr>) s"
  using assms
proof (induction es arbitrary: s)
  case Nil
  then show ?case by (simp add: queue_ok_def upd_queue_id)
next
  case (Cons e es)
  let ?q = "queues s ! nat h" and ?f = "\<lambda>q. q\<lparr>eq_events := es, eq_qsize := u64 (eq_qsize q - e_size e)\<rparr>"
  have q: "eq_qsize ?q = e_size e + volume es" "e_size e + volume es \<le> eq_maxmemory ?q" "eq_maxmemory ?q < INT_MAX"
    using Cons.prems(3,4) by (auto simp: queue_ok_def)
  have u: "u64 (eq_maxmemory ?q - eq_qsize ?q) = eq_maxmemory ?q - eq_qsize ?q" "u64 (eq_qsize ?q - e_size e) = eq_qsize ?q - e_size e"
    by (rule u64_small; use q volume_nonneg [of es] e_size_nonneg [of e] in linarith)+
  show ?case
  proof (cases "b \<le> eq_maxmemory ?q - (e_size e + volume es)")
    case True
    have "upd_queue h (\<lambda>q. q\<lparr>eq_events := room (eq_maxmemory q) b (e # es), eq_qsize := volume (room (eq_maxmemory q) b (e # es))\<rparr>) s = s"
      using True q(1) Cons.prems(3) by (intro upd_queue_id) simp
    then show ?thesis using True u(1) q(1) by simp
  next
    case False
    let ?s = "upd_queue h ?f s"
    have "queues ?s ! nat h = ?f ?q" using Cons.prems(1) by (simp add: upd_queue_def)
    then have "drop_loop h b es ?s = upd_queue h (\<lambda>q. q\<lparr>eq_events := room (eq_maxmemory q) b es, eq_qsize := volume (room (eq_maxmemory q) b es)\<rparr>) ?s"
      using Cons.prems(1,2) q u(2) by (intro Cons.IH) (auto simp: upd_queue_def queue_ok_def intro: order_trans [of _ "e_size e + volume es"])
    then show ?thesis using False u(1) q(1) Cons.prems(1,2)
      by (auto simp: drop_unseen upd_queue_upd_queue) (auto simp: upd_queue_def)
  qed
qed

lemma evq_ok_queue: "evq_ok s \<Longrightarrow> nat h < length (queues s) \<Longrightarrow> queue_ok (queues s ! nat h)"
  by (simp add: evq_ok_def list_all_length)

lemma list_all_update: "list_all P xs \<Longrightarrow> (i < length xs \<Longrightarrow> P x) \<Longrightarrow> list_all P (xs[i := x])"
  by (cases "i < length xs") (auto simp: list_all_length nth_list_update)

lemma evq_ok_upd_queue: "evq_ok s \<Longrightarrow> (nat h < length (queues s) \<Longrightarrow> queue_ok (f (queues s ! nat h))) \<Longrightarrow> evq_ok (upd_queue h f s)"
  by (simp add: evq_ok_def upd_queue_def list_all_update)

lemma evq_ok_upd_clientq:
  assumes "evq_ok s" "i < length (clients s)" "nat h < length (ec_queues (clients s ! i))" "clientq_ok (f (the_clientq i h s))"
  shows "evq_ok (upd_clientq i h f s)"
proof -
  have "clients_ok ((clients s)[i := (clients s ! i)\<lparr>ec_queues := (ec_queues (clients s ! i))[nat h := f (the_clientq i h s)]\<rparr>])"
  proof (rule clients_ok_update)
    fix q assume "q \<in> set (ec_queues ((clients s ! i)\<lparr>ec_queues := (ec_queues (clients s ! i))[nat h := f (the_clientq i h s)]\<rparr>))"
    then have "q = f (the_clientq i h s) \<or> q \<in> set (ec_queues (clients s ! i))"
      using set_update_subset_insert by fastforce
    then show "clientq_ok q" using assms by (auto simp: evq_ok_def dest: clients_ok_nth)
  qed (use assms in \<open>simp add: evq_ok_def\<close>)
  then show ?thesis using assms(1) by (simp add: evq_ok_def upd_clientq_def the_clientq_def Let_def)
qed

lemma drop_bytes_spec:
  assumes "evq_ok s" "nat h < length (queues s)"
  shows "queue_drop_bytes h b s = upd_queue h (\<lambda>q. q\<lparr>eq_events := room (eq_maxmemory q) b (eq_events (queues s ! nat h)),
      eq_qsize := volume (room (eq_maxmemory q) b (eq_events (queues s ! nat h)))\<rparr>) s \<and> evq_ok (queue_drop_bytes h b s)"
proof -
  let ?f = "\<lambda>q. q\<lparr>eq_events := room (eq_maxmemory q) b (eq_events (queues s ! nat h)), eq_qsize := volume (room (eq_maxmemory q) b (eq_events (queues s ! nat h)))\<rparr>"
  have q: "queue_ok (queues s ! nat h)" using assms by (rule evq_ok_queue)
  have d: "queue_drop_bytes h b s = upd_queue h ?f s"
    unfolding queue_drop_bytes_def using assms q by (intro drop_loop_spec) (auto simp: evq_ok_def)
  have "evq_ok (upd_queue h ?f s)"
    using assms(1) q room_le [of "eq_maxmemory (queues s ! nat h)" b "eq_events (queues s ! nat h)"]
    by (intro evq_ok_upd_queue) (auto simp: queue_ok_def)
  then show ?thesis using d by simp
qed

lemma drop_all_spec:
  assumes "evq_ok s" "n \<le> length (queues s)"
  shows "let s' = fold (\<lambda>k. queue_drop_bytes (int k) INT_MAX) [0..<n] s in
    evq_ok s' \<and> length (queues s') = length (queues s) \<and> (\<forall>k < n. eq_events (queues s' ! k) = [])"
  using assms(2)
proof (induction n)
  case (Suc n)
  let ?s = "fold (\<lambda>k. queue_drop_bytes (int k) INT_MAX) [0..<n] s"
  have IH: "evq_ok ?s" "length (queues ?s) = length (queues s)" "\<forall>k < n. eq_events (queues ?s ! k) = []" using Suc by (simp_all add: Let_def)
  have n: "nat (int n) < length (queues ?s)" using Suc.prems IH(2) by simp
  have "room (eq_maxmemory (queues ?s ! n)) INT_MAX es = []" for es
    using evq_ok_queue [OF IH(1) n] by (intro room_all) (simp add: queue_ok_def)
  then show ?case using drop_bytes_spec [OF IH(1) n, of INT_MAX] IH n
    by (auto simp: upd_queue_def nth_list_update less_Suc_eq)
qed (use assms(1) in simp)

lemma new_queue_ok: "evq_ok s \<Longrightarrow> m < INT_MAX \<Longrightarrow> evq_ok (snd (pmdaEventNewActiveQueue name m k s))"
proof -
  assume ok: "evq_ok s" and m: "m < INT_MAX"
  let ?n = "length (queues s)"
  let ?s = "fold (\<lambda>k. queue_drop_bytes (int k) INT_MAX) [0..<?n] s"
  have d: "evq_ok ?s" "length (queues ?s) = ?n" "\<forall>k < ?n. eq_events (queues ?s ! k) = []" using drop_all_spec [OF ok, of ?n] by (simp_all add: Let_def)
  have "queue_ok (new_queue name m k)" if "0 < m" using that m by (simp add: queue_ok_def new_queue_def)
  moreover have "list_all queue_ok (map (\<lambda>q. q\<lparr>eq_events := []\<rparr>) (queues ?s))"
    using d by (auto simp: evq_ok_def list_all_length queue_ok_def)
  moreover have "list_all queue_ok (queues s)" "clients_ok (clients s)" "clients_ok (clients ?s)" using ok d(1) by (simp_all add: evq_ok_def)
  ultimately show ?thesis
    by (auto simp: pmdaEventNewActiveQueue_def Let_def evq_ok_def intro!: list_all_update)
qed

lemma append_ok: "evq_ok s \<Longrightarrow> evq_ok (snd (pmdaEventQueueAppend mem h data tv s))"
proof (cases "queue_lookup h s")
  case (Some q)
  assume ok: "evq_ok s"
  have h: "nat h < length (queues s)" "q = queues s ! nat h" using Some by (auto simp: lookup_Some)
  note d = drop_bytes_spec [OF ok h(1), of "int (length data)"]
  have q: "queue_ok q" using evq_ok_queue [OF ok h(1)] h(2) by simp
  let ?r = "room (eq_maxmemory q) (int (length data)) (eq_events q)"
  have stat: "evq_ok (upd_queue h (\<lambda>q. q\<lparr>eq_bytes := u64 (eq_bytes q + k), eq_count := (eq_count q + 1) mod 2 ^ 32\<rparr>) u)" if "evq_ok u" for u k
    using that by (intro evq_ok_upd_queue) (auto dest!: evq_ok_queue [of u h] simp: queue_ok_def)
  have "evq_ok (upd_queue h (\<lambda>q. q\<lparr>eq_events := eq_events q @ [ev], eq_qsize := u64 (eq_qsize q + int (length data))\<rparr>) (queue_drop_bytes h (int (length data)) s))"
    if "int (length data) \<le> eq_maxmemory q" "e_data ev = data" for ev
  proof (rule evq_ok_upd_queue)
    have f: "volume ?r + int (length data) \<le> eq_maxmemory q" using that(1) by (rule room_fits)
    then have "u64 (volume ?r + int (length data)) = volume ?r + int (length data)"
      using q volume_nonneg [of ?r] by (intro u64_small) (auto simp: queue_ok_def)
    then show "queue_ok ((\<lambda>q. q\<lparr>eq_events := eq_events q @ [ev], eq_qsize := u64 (eq_qsize q + int (length data))\<rparr>) (queues (queue_drop_bytes h (int (length data)) s) ! nat h))"
      using d h q f that by (simp add: upd_queue_def queue_ok_def e_size_def)
  qed (use d in blast)
  then have "evq_ok (upd_queue h (\<lambda>q. q\<lparr>eq_events := eq_events q @ [ev], eq_qsize := u64 (eq_qsize q + int (length data))\<rparr>) (queue_drop_bytes h (int (length data)) s)\<lparr>next_addr := a\<rparr>)"
    if "int (length data) \<le> eq_maxmemory q" "e_data ev = data" for ev a
    using that by (simp add: evq_ok_def)
  then show ?thesis using Some stat ok d
    by (auto simp: pmdaEventQueueAppend_def Let_def not_less)
qed (simp add: pmdaEventQueueAppend_def)

lemma fetch_loop_spec:
  "fetch_loop decode c es = (items, records, sts, kept, freed) \<Longrightarrow> freed + volume kept = volume es \<and> 0 \<le> freed \<and> (\<forall>n. Missed n \<notin> set items)"
proof (induction es arbitrary: items records sts kept freed)
  case (Cons e es)
  obtain i r t k f where "fetch_loop decode c es = (i, r, t, k, f)" by (metis prod_cases5)
  with Cons.IH [OF this] Cons.prems show ?case by (auto simp: Let_def e_size_def split: if_splits)
qed auto

lemma fetch_loop_single:
  assumes "\<forall>e \<in> set es. e_count e \<le> 1 \<and> (queue_filter c (e_data e) = 0 \<longrightarrow> decode (e_data e) (e_time e) \<ge> 0)"
  shows "fetch_loop decode c es = (let acc = filter (\<lambda>e. queue_filter c (e_data e) = 0) es in
    (map (\<lambda>e. Rec (e_data e) (e_time e)) acc, \<Sum>e\<leftarrow>acc. decode (e_data e) (e_time e), 0, [], volume es))"
  using assms by (induction es) (auto simp: Let_def)

text \<open>One fetch, for a client that has no last event.\<close>

definition fetch_state :: "item list \<Rightarrow> event list \<Rightarrow> int \<Rightarrow> int \<Rightarrow> nat \<Rightarrow> evq \<Rightarrow> evq" where
  "fetch_state items kept freed h i s = upd_clientq i h (\<lambda>c. c\<lparr>cq_active := True\<rparr>) (upd_queue h
     (\<lambda>q. q\<lparr>eq_numclients := (if cq_active (the_clientq i h s) then eq_numclients q else (eq_numclients q + 1) mod 2 ^ 32),
        eq_array := items, eq_events := kept, eq_qsize := u64 (eq_qsize q - freed)\<rparr>) s)"

lemma queue_filter_active: "queue_filter (c\<lparr>cq_active := b\<rparr>) data = queue_filter c data"
  by (simp add: queue_filter_def)

lemma queue_fetch_spec:
  assumes "evq_ok s" "nat h < length (queues s)" "i < length (clients s)" "nat h < length (ec_queues (clients s ! i))"
    "fetch_loop decode (the_clientq i h s) (eq_events (queues s ! nat h)) = (items, records, sts, kept, freed)"
  shows "queue_fetch decode h i s = (sts, if records \<noteq> 0 then Some items else None, fetch_state items kept freed h i s)"
proof -
  let ?c = "the_clientq i h s"
  have c: "cq_last ?c = None" "cq_missed ?c = 0"
    using assms(1,3,4) clients_ok_nth [of "clients s" i ?c] by (auto simp: evq_ok_def the_clientq_def clientq_ok_def)
  have f: "fetch_loop decode (?c\<lparr>cq_active := b\<rparr>) es = fetch_loop decode ?c es" for b es
    by (induction es) (simp_all add: queue_filter_active Let_def)
  have e: "?c\<lparr>cq_active := True, cq_missed := 0, cq_last := None\<rparr> = ?c\<lparr>cq_active := True\<rparr>"
    "cq_active ?c \<Longrightarrow> ?c\<lparr>cq_active := True\<rparr> = ?c" "?c\<lparr>cq_missed := 0, cq_last := None\<rparr> = ?c" using c by (cases ?c; simp)+
  note e' = e(1,3) [unfolded the_clientq_def]
  show ?thesis
  proof (cases "cq_active ?c")
    case True
    then show ?thesis using assms(2-5) c
      by (simp add: queue_fetch_def before_last_def fetch_state_def Let_def)
        (simp add: upd_queue_def upd_clientq_def the_clientq_def Let_def e' e(2) [OF True, unfolded the_clientq_def])
  next
    case False
    have t: "the_clientq i h (upd_queue h g (upd_clientq i h k s)) = k ?c" "queues (upd_queue h g (upd_clientq i h k s)) ! nat h = g (queues s ! nat h)" for g k
      using assms(2-4) by (simp_all add: the_clientq_def upd_queue_def upd_clientq_def Let_def)
    show ?thesis using False assms(2-5) c
      by (simp add: queue_fetch_def before_last_def fetch_state_def Let_def t f)
        (simp add: upd_queue_def upd_clientq_def the_clientq_def Let_def e')
  qed
qed

lemma fetch_state_events: "nat h < length (queues s) \<Longrightarrow> eq_events (queues (fetch_state items kept freed h i s) ! nat h) = kept"
  by (simp add: fetch_state_def upd_clientq_def upd_queue_def Let_def)

lemma fetch_state_ok:
  assumes "evq_ok s" "nat h < length (queues s)" "i < length (clients s)" "nat h < length (ec_queues (clients s ! i))"
    "freed + volume kept = volume (eq_events (queues s ! nat h))" "0 \<le> freed"
  shows "evq_ok (fetch_state items kept freed h i s)"
  unfolding fetch_state_def
proof (rule evq_ok_upd_clientq)
  let ?q = "queues s ! nat h"
  have q: "queue_ok ?q" using assms(1,2) by (rule evq_ok_queue)
  then have "u64 (eq_qsize ?q - freed) = eq_qsize ?q - freed"
    by (intro u64_small; use assms(5,6) volume_nonneg [of kept] in \<open>unfold queue_ok_def, linarith\<close>)
  then show "evq_ok (upd_queue h (\<lambda>q. q\<lparr>eq_numclients := if cq_active (the_clientq i h s) then eq_numclients q else (eq_numclients q + 1) mod 2 ^ 32,
        eq_array := items, eq_events := kept, eq_qsize := u64 (eq_qsize q - freed)\<rparr>) s)"
    using q assms(1,5,6) by (intro evq_ok_upd_queue) (auto simp: queue_ok_def)
  have "clientq_ok (the_clientq i h s)" using assms(1,3,4) clients_ok_nth [of "clients s" i] by (auto simp: evq_ok_def the_clientq_def)
  then show "clientq_ok (the_clientq i h (upd_queue h g s)\<lparr>cq_active := True\<rparr>)" for g
    by (simp add: clientq_ok_def the_clientq_def upd_queue_def)
qed (use assms in \<open>simp_all add: upd_queue_def\<close>)

lemma records_cases:
  assumes "evq_ok s" "pmdaEventQueueRecords decode h x s = (r, vbp, s')"
  obtains "vbp = None" "evq_ok s'"
  | u i items records sts kept freed where "client_queue_lookup x h True s = (Some i, u)" "queues u = queues s" "evq_ok u" "nat h < length (queues s)"
      "i < length (clients u)" "nat h < length (ec_queues (clients u ! i))"
      "fetch_loop decode (the_clientq i h u) (eq_events (queues s ! nat h)) = (items, records, sts, kept, freed)"
      "vbp = (if records \<noteq> 0 then Some items else None)" "s' = fetch_state items kept freed h i u" "evq_ok s'"
      "r = (if sts \<noteq> 0 then sts else if vbp = None then PMDA_FETCH_NOVALUES else PMDA_FETCH_STATIC)"
proof (cases "client_queue_lookup x h True s")
  case (Pair ci u)
  note l = clientq_lookup [OF Pair]
  have u: "evq_ok u" using l assms(1) by (simp add: evq_ok_def)
  show thesis
  proof (cases "ci = None \<or> queue_lookup h u = None")
    case True
    then show thesis using assms(2) Pair u that(1) by (auto simp: pmdaEventQueueRecords_def split: option.splits)
  next
    case False
    then obtain i q where i: "ci = Some i" "queue_lookup h u = Some q" by auto
    have b: "nat h < length (queues u)" "i < length (clients u)" "nat h < length (ec_queues (clients u ! i))" using l i by auto
    obtain items records sts kept freed where f: "fetch_loop decode (the_clientq i h u) (eq_events (queues u ! nat h)) = (items, records, sts, kept, freed)"
      by (metis prod_cases5)
    note q = queue_fetch_spec [OF u b f]
    have "evq_ok (fetch_state items kept freed h i u)" using fetch_state_ok [OF u b] fetch_loop_spec [OF f] by blast
    then show thesis using assms(2) Pair i q f l b u
      by (intro that(2) [of i u items records sts kept freed]) (auto simp: pmdaEventQueueRecords_def)
  qed
qed

lemma cleanup_ok: "evq_ok s \<Longrightarrow> clientq_ok c \<Longrightarrow> evq_ok (queue_cleanup c h s) \<and> clients (queue_cleanup c h s) = clients s"
  using evq_ok_queue [of s h] u64_small [of "eq_qsize (queues s ! nat h)"] volume_nonneg [of "eq_events (queues s ! nat h)"]
  by (auto simp: queue_cleanup_def clientq_ok_def queue_ok_def intro!: evq_ok_upd_queue) (auto simp: upd_queue_def)

lemma cleanups_ok:
  "evq_ok s \<Longrightarrow> (\<forall>k \<in> set ks. clientq_ok (cqs ! k)) \<Longrightarrow> evq_ok (fold (\<lambda>k. queue_cleanup (cqs ! k) (int k)) ks s)"
proof (induction ks arbitrary: s)
  case (Cons k ks)
  then show ?case using cleanup_ok [of s "cqs ! k" "int k"] by simp
qed simp

lemma end_client_ok: "evq_ok s \<Longrightarrow> evq_ok (pmdaEventEndClient x s)"
proof (cases "client_lookup x s")
  case (Some i)
  assume ok: "evq_ok s"
  let ?cqs = "ec_queues (clients s ! i)"
  have "i < length (clients s)" using Some find_client_Some by (simp add: client_lookup_def)
  then have "\<forall>k \<in> set [0..<length ?cqs]. clientq_ok (?cqs ! k)" using ok clients_ok_nth [of "clients s" i] by (auto simp: evq_ok_def)
  then have "evq_ok (fold (\<lambda>k. queue_cleanup (?cqs ! k) (int k)) [0..<length ?cqs] s)" using cleanups_ok [OF ok] by blast
  then show ?thesis using Some by (auto simp: pmdaEventEndClient_def evq_ok_def Let_def intro!: clients_ok_update)
qed (simp add: pmdaEventEndClient_def)

lemma new_client_ok: "evq_ok s \<Longrightarrow> evq_ok (snd (pmdaEventNewClient x s))"
  by (auto simp: pmdaEventNewClient_def evq_ok_def Let_def intro!: clients_ok_update split: option.split) (auto simp: clients_ok_def)

lemma set_clientq_ok:
  assumes "evq_ok s" "\<And>c. clientq_ok c \<Longrightarrow> clientq_ok (f c)" "client_queue_lookup x h True s = (Some i, u)"
  shows "evq_ok (upd_clientq i h f u)"
proof -
  note l = clientq_lookup [OF assms(3)]
  have u: "evq_ok u" using l assms(1) by (simp add: evq_ok_def)
  then have "clientq_ok (the_clientq i h u)" using l clients_ok_nth [of "clients u" i] by (auto simp: evq_ok_def the_clientq_def)
  then show ?thesis using u l assms(2) by (intro evq_ok_upd_clientq) auto
qed

lemma lookup_fails_ok: "evq_ok s \<Longrightarrow> client_queue_lookup x h b s = (None, u) \<Longrightarrow> evq_ok u"
  using clientq_lookup [of x h b s None u] by (simp add: evq_ok_def)

lemma set_filter_ok: "evq_ok s \<Longrightarrow> evq_ok (snd (pmdaEventSetFilter x h flt s))"
  by (auto simp: pmdaEventSetFilter_def clientq_ok_def intro: set_clientq_ok lookup_fails_ok split: prod.split option.split)

lemma set_access_ok: "evq_ok s \<Longrightarrow> evq_ok (snd (pmdaEventSetAccess x h a s))"
  by (auto simp: pmdaEventSetAccess_def clientq_ok_def intro: set_clientq_ok lookup_fails_ok split: prod.split option.split)

section \<open>What holds in every run\<close>

inductive evq_reach :: "evq \<Rightarrow> bool" where
  evq_start: "evq_reach \<lparr>queues = [], clients = [], next_addr = 0\<rparr>"
| evq_new: "evq_reach s \<Longrightarrow> m < INT_MAX \<Longrightarrow> evq_reach (snd (pmdaEventNewActiveQueue name m k s))"
| evq_append: "evq_reach s \<Longrightarrow> evq_reach (snd (pmdaEventQueueAppend mem h data tv s))"
| evq_records: "evq_reach s \<Longrightarrow> evq_reach (snd (snd (pmdaEventQueueRecords decode h x s)))"
| evq_client: "evq_reach s \<Longrightarrow> evq_reach (snd (pmdaEventNewClient x s))"
| evq_end: "evq_reach s \<Longrightarrow> evq_reach (pmdaEventEndClient x s)"
| evq_filter: "evq_reach s \<Longrightarrow> evq_reach (snd (pmdaEventSetFilter x h flt s))"
| evq_access: "evq_reach s \<Longrightarrow> evq_reach (snd (pmdaEventSetAccess x h a s))"

lemma reach_evq_ok: "evq_reach s \<Longrightarrow> evq_ok s"
proof (induction rule: evq_reach.induct)
  case evq_start
  then show ?case by (simp add: evq_ok_def clients_ok_def)
next
  case (evq_records s decode h x)
  obtain r vbp s' where r: "pmdaEventQueueRecords decode h x s = (r, vbp, s')" by (metis prod_cases3)
  from records_cases [OF evq_records.IH r] have "evq_ok s'" by metis
  then show ?case using r by simp
qed (simp_all add: new_queue_ok append_ok new_client_ok end_client_ok set_filter_ok set_access_ok)

text \<open>
  C23: The memory of event queues is bounded. Whatever agents append and however clients come, fetch,
  filter and go, the size kept for each queue is the number of bytes of the events in it, and it does not
  exceed the limit the queue was made with. This is for limits below \<open>INT_MAX\<close>.
\<close>

theorem eventq_memory:
  assumes "evq_reach s" "q \<in> set (queues s)"
  shows "eq_qsize q = (\<Sum>e\<leftarrow>eq_events q. int (length (e_data e))) \<and> eq_qsize q \<le> eq_maxmemory q"
  using reach_evq_ok [OF assms(1)] assms(2) by (auto simp: evq_ok_def list_all_iff queue_ok_def volume_def e_size_def)

text \<open>
  C37: Lost events are never reported. The position of a client is forgotten after every fetch, so
  that an event that is dropped for lack of room is nobody's next event and is not counted. No
  fetch in any run gives a record of missed events.
\<close>

theorem eventq_missed:
  assumes "evq_reach s" "pmdaEventQueueRecords decode h x s = (r, Some items, s')"
  shows "Missed n \<notin> set items"
  using records_cases [OF reach_evq_ok [OF assms(1)] assms(2)]
proof cases
  case (2 u i items' records sts kept freed)
  then show ?thesis using fetch_loop_spec by (metis option.distinct(1) option.inject)
qed simp

section \<open>One client\<close>

type_synonym message = "byte list \<times> stamp"

definition msize :: "message \<Rightarrow> int" where "msize m = int (length (fst m))"

definition contents :: "event list \<Rightarrow> message list" where
  "contents es = map (\<lambda>e. (e_data e, e_time e)) es"

text \<open>The longest end of a list that fits into the memory.\<close>

fun latest :: "int \<Rightarrow> message list \<Rightarrow> message list" where
  "latest m [] = []"
| "latest m (x # xs) = (if (\<Sum>y\<leftarrow>x # xs. msize y) \<le> m then x # xs else latest m xs)"

lemma msize_nonneg [simp]: "0 \<le> msize x"
  by (simp add: msize_def)

lemma sum_contents: "(\<Sum>y\<leftarrow>contents es. msize y) = volume es"
  by (induction es) (simp_all add: contents_def msize_def e_size_def)

lemma room_latest: "msize x \<le> m \<Longrightarrow> contents (room m (msize x) es) @ [x] = latest m (contents es @ [x])"
proof (induction es)
  case (Cons e es)
  have "(\<Sum>y\<leftarrow>contents (e # es) @ [x]. msize y) = volume (e # es) + msize x" by (simp add: sum_contents)
  then show ?case using Cons by (simp add: contents_def)
qed (simp add: contents_def)

lemma latest_latest: "latest m (latest m xs @ [x]) = latest m (xs @ [x])"
proof (induction xs)
  case (Cons y ys)
  have "msize y + (\<Sum>y\<leftarrow>ys. msize y) \<le> m" if "msize y + ((\<Sum>y\<leftarrow>ys. msize y) + msize x) \<le> m" using that msize_nonneg [of x] by linarith
  then show ?case using Cons by auto
qed simp

definition appended :: "int \<Rightarrow> message list \<Rightarrow> evq \<Rightarrow> evq" where
  "appended h ms s = fold (\<lambda>(data, tv) s. snd (pmdaEventQueueAppend True h data tv s)) ms s"

definition one_client :: "int \<Rightarrow> int \<Rightarrow> message list \<Rightarrow> evq \<Rightarrow> bool" where
  "one_client h m ms s \<longleftrightarrow> evq_ok s \<and> (\<exists>q. queue_lookup h s = Some q \<and> eq_numclients q = 1 \<and> eq_maxmemory q = m \<and>
     (\<forall>e \<in> set (eq_events q). e_count e \<le> 1) \<and> contents (eq_events q) = latest m ms)"

lemma room_subset: "set (room m b es) \<subseteq> set es"
  by (induction es) auto

lemma append_one:
  assumes "one_client h m ms s"
  shows "one_client h m (ms @ filter (\<lambda>x. msize x \<le> m) [(data, tv)]) (snd (pmdaEventQueueAppend True h data tv s)) \<and>
    clients (snd (pmdaEventQueueAppend True h data tv s)) = clients s"
proof -
  obtain q where q: "queue_lookup h s = Some q" "eq_numclients q = 1" "eq_maxmemory q = m" "\<forall>e \<in> set (eq_events q). e_count e \<le> 1"
    "contents (eq_events q) = latest m ms" and ok: "evq_ok s" using assms by (auto simp: one_client_def)
  have h: "0 \<le> h" "nat h < length (queues s)" "queues s ! nat h = q" "eq_inuse q" using q(1) by (auto simp: lookup_Some)
  let ?b = "int (length data)" and ?a = "snd (pmdaEventQueueAppend True h data tv s)"
  have "evq_ok ?a" using ok by (rule append_ok)
  moreover have "clients ?a = clients s" using q(1) drop_bytes_spec [OF ok h(2), of ?b]
    by (auto simp: pmdaEventQueueAppend_def Let_def upd_queue_def)
  moreover have "\<exists>q'. queue_lookup h ?a = Some q' \<and> eq_numclients q' = 1 \<and> eq_maxmemory q' = m \<and> (\<forall>e \<in> set (eq_events q'). e_count e \<le> 1) \<and>
      contents (eq_events q') = latest m (ms @ filter (\<lambda>x. msize x \<le> m) [(data, tv)])"
  proof (cases "?b \<le> m")
    case True
    let ?r = "room m ?b (eq_events q)"
    let ?e = "\<lparr>e_addr = next_addr s, e_time = tv, e_count = 1, e_data = data\<rparr>"
    let ?q = "q\<lparr>eq_events := ?r @ [?e], eq_qsize := u64 (volume ?r + ?b), eq_bytes := u64 (eq_bytes q + ?b), eq_count := (eq_count q + 1) mod 2 ^ 32\<rparr>"
    have "queue_drop_bytes h ?b s = upd_queue h (\<lambda>_. q\<lparr>eq_events := ?r, eq_qsize := volume ?r\<rparr>) s"
      using drop_bytes_spec [OF ok h(2), of ?b] h(3) q(3) by (simp add: upd_queue_def)
    then have "queues ?a = (queues s)[nat h := ?q]"
      using q(1,2,3) h(2) True by (simp add: pmdaEventQueueAppend_def Let_def) (simp add: upd_queue_def)
    then have l: "queue_lookup h ?a = Some ?q" using h by (simp add: lookup_Some)
    have "contents ?r @ [(data, tv)] = latest m (ms @ [(data, tv)])"
      using room_latest [of "(data, tv)" m "eq_events q"] True q(5) latest_latest by (simp add: msize_def)
    then have "contents (eq_events ?q) = latest m (ms @ [(data, tv)])" by (simp add: contents_def)
    then show ?thesis using True q(2,3,4) room_subset [of m ?b "eq_events q"] unfolding l by (auto simp: msize_def)
  next
    case False
    let ?q = "q\<lparr>eq_bytes := u64 (eq_bytes q + ?b), eq_count := (eq_count q + 1) mod 2 ^ 32\<rparr>"
    have "queues ?a = (queues s)[nat h := ?q]"
      using q(1,3) h(2,3) False by (simp add: pmdaEventQueueAppend_def Let_def upd_queue_def)
    then have l: "queue_lookup h ?a = Some ?q" using h by (simp add: lookup_Some)
    show ?thesis using False q(2-5) unfolding l by (simp add: msize_def)
  qed
  ultimately show ?thesis by (simp add: one_client_def)
qed

lemma append_all:
  "one_client h m ms s \<Longrightarrow> one_client h m (ms @ filter (\<lambda>x. msize x \<le> m) xs) (appended h xs s) \<and> clients (appended h xs s) = clients s"
proof (induction xs arbitrary: ms s)
  case (Cons x xs)
  obtain d t where x: "x = (d, t)" by (rule prod.exhaust)
  have "ms @ filter (\<lambda>x. msize x \<le> m) (x # xs) = (ms @ filter (\<lambda>x. msize x \<le> m) [(d, t)]) @ filter (\<lambda>x. msize x \<le> m) xs" by (simp add: x)
  then show ?case using append_one [OF Cons.prems, of d t] Cons.IH [of "ms @ filter (\<lambda>x. msize x \<le> m) [(d, t)]" "snd (pmdaEventQueueAppend True h d t s)"]
    by (simp add: appended_def x)
qed (simp add: appended_def)

text \<open>
  C11: A single client gets the latest events, in order and once. When a queue is empty and has one active
  client, and then any events are appended, the next fetch of the client gives the longest end of
  the list of these events that fits into the memory of the queue, without events that are too large for
  it on their own, and of these the ones its filter accepts. After that the queue is empty again.
\<close>

theorem eventq_delivery:
  assumes "evq_reach s" "queue_lookup h s = Some q" "eq_numclients q = 1" "eq_events q = []"
    "client_lookup x s = Some i" "nat h < length (ec_queues (clients s ! i))" "cq_active (the_clientq i h s)" "\<forall>d t. decode d t > 0"
  shows "let got = filter (\<lambda>(d, t). queue_filter (the_clientq i h s) d = 0) (latest (eq_maxmemory q) (filter (\<lambda>m. msize m \<le> eq_maxmemory q) ms)) in
    \<exists>s'. pmdaEventQueueRecords decode h x (appended h ms s) =
      (if got = [] then (PMDA_FETCH_NOVALUES, None, s') else (PMDA_FETCH_STATIC, Some (map (\<lambda>(d, t). Rec d t) got), s')) \<and> eq_events (queues s' ! nat h) = []"
proof -
  let ?s = "appended h ms s" and ?c = "the_clientq i h s" and ?new = "latest (eq_maxmemory q) (filter (\<lambda>m. msize m \<le> eq_maxmemory q) ms)"
  have "one_client h (eq_maxmemory q) [] s"
    using assms(1-4) reach_evq_ok by (simp add: one_client_def contents_def)
  from append_all [OF this] obtain q' where q': "evq_ok ?s" "queue_lookup h ?s = Some q'" "\<forall>e \<in> set (eq_events q'). e_count e \<le> 1"
    "contents (eq_events q') = ?new" "clients ?s = clients s" by (auto simp: one_client_def)
  have h: "0 \<le> h" "nat h < length (queues ?s)" "queues ?s ! nat h = q'" using q'(2) by (auto simp: lookup_Some)
  have c: "the_clientq i h ?s = ?c" using q'(5) by (simp add: the_clientq_def)
  have i: "i < length (clients ?s)" "nat h < length (ec_queues (clients ?s ! i))" using assms(5,6) q'(5) find_client_Some by (auto simp: client_lookup_def)
  have l: "client_queue_lookup x h True ?s = (Some i, ?s)"
    using assms(5,6) q'(2,5) h(1) by (simp add: client_queue_lookup_def client_lookup_def Let_def nat_less_iff)
  let ?acc = "filter (\<lambda>e. queue_filter ?c (e_data e) = 0) (eq_events q')" and ?got = "filter (\<lambda>(d, t). queue_filter ?c d = 0) ?new"
  have got: "?got = contents ?acc" unfolding q'(4) [symmetric] contents_def by (simp add: filter_map comp_def)
  let ?items = "map (\<lambda>e. Rec (e_data e) (e_time e)) ?acc" and ?n = "\<Sum>e\<leftarrow>?acc. decode (e_data e) (e_time e)"
  have f: "fetch_loop decode ?c (eq_events q') = (?items, ?n, 0, [], volume (eq_events q'))"
    using fetch_loop_single [of "eq_events q'" ?c decode] q'(3) assms(8) by (simp add: Let_def less_imp_le)
  have n: "(\<Sum>e\<leftarrow>es. decode (e_data e) (e_time e)) \<ge> int (length es)" for es
  proof (induction es)
    case (Cons e es)
    have "0 < decode (e_data e) (e_time e)" using assms(8) by blast
    then show ?case using Cons by simp
  qed simp
  have z: "?n = 0 \<longleftrightarrow> ?acc = []" using n [of ?acc] by (cases ?acc) auto
  have g: "?got = [] \<longleftrightarrow> ?acc = []" "map (\<lambda>(d, t). Rec d t) ?got = ?items" unfolding got by (simp_all add: contents_def)
  have e: "eq_events (queues (fetch_state ?items [] k h i ?s) ! nat h) = []" for k using h(2) by (rule fetch_state_events)
  have "pmdaEventQueueRecords decode h x ?s = (if ?acc = [] then PMDA_FETCH_NOVALUES else PMDA_FETCH_STATIC,
      if ?acc = [] then None else Some ?items, fetch_state ?items [] (volume (eq_events q')) h i ?s)"
    using queue_fetch_spec [OF q'(1) h(2) i, of decode ?items ?n 0 "[]" "volume (eq_events q')"] f c h(3) l q'(2) z
    by (simp add: pmdaEventQueueRecords_def)
  then show ?thesis using e unfolding Let_def g by auto
qed

section \<open>Two clients\<close>

text \<open>
  C38: A client without access takes the events of others. When the events in a queue wait for one more fetch,
  a client that has neither access nor a filter fetches nothing, as it should, but its fetch
  is counted, all the events are removed, and the client they wait for never sees them.
\<close>

theorem eventq_stolen:
  assumes "evq_reach s" "queue_lookup h s = Some q" "\<forall>e \<in> set (eq_events q). e_count e \<le> 1" "client_lookup x s = Some i"
    "nat h < length (ec_queues (clients s ! i)) \<longrightarrow> cq_access (the_clientq i h s) = 0 \<and> cq_filter (the_clientq i h s) = None"
  shows "\<exists>s'. pmdaEventQueueRecords decode h x s = (PMDA_FETCH_NOVALUES, None, s') \<and> eq_events (queues s' ! nat h) = []"
proof -
  obtain r vbp s' where r: "pmdaEventQueueRecords decode h x s = (r, vbp, s')" by (metis prod_cases3)
  have h: "0 \<le> h" "nat h < length (queues s)" "queues s ! nat h = q" using assms(2) by (auto simp: lookup_Some)
  have i: "i < length (clients s)" using assms(4) find_client_Some by (simp add: client_lookup_def)
  obtain u where u: "client_queue_lookup x h True s = (Some i, u)" using assms(2,4)
    by (cases "h < int (length (ec_queues (clients s ! i)))") (simp_all add: client_queue_lookup_def Let_def)
  have c: "cq_access (the_clientq i h u) = 0" "cq_filter (the_clientq i h u) = None"
  proof (atomize(full), cases "nat h < length (ec_queues (clients s ! i))")
    case True
    then have "u = s" using u assms(2,4) h(1) by (simp add: client_queue_lookup_def Let_def nat_less_iff)
    then show "cq_access (the_clientq i h u) = 0 \<and> cq_filter (the_clientq i h u) = None" using True assms(5) by simp
  next
    case False
    then have "\<not> h < int (length (ec_queues (clients s ! i)))" using h(1) by (simp add: nat_less_iff)
    then have "the_clientq i h u = no_clientq" using u assms(2,4) i False
      by (auto simp: client_queue_lookup_def Let_def the_clientq_def nth_append)
    then show "cq_access (the_clientq i h u) = 0 \<and> cq_filter (the_clientq i h u) = None" by (simp add: no_clientq_def)
  qed
  then have deny: "queue_filter (the_clientq i h u) d \<noteq> 0" for d
    by (simp add: queue_filter_def PM_ERR_PERMISSION_def PM_ERR_BASE2_def)
  have f: "fetch_loop decode (the_clientq i h u) (eq_events q) = ([], 0, 0, [], volume (eq_events q))"
    using fetch_loop_single [of "eq_events q" "the_clientq i h u" decode] assms(3) deny by (simp add: Let_def)
  note l = clientq_lookup [OF u]
  have ok: "evq_ok u" using l reach_evq_ok [OF assms(1)] by (simp add: evq_ok_def)
  have b: "nat h < length (queues u)" "i < length (clients u)" "nat h < length (ec_queues (clients u ! i))" using l by auto
  have lk: "queue_lookup h u = Some q" using assms(2) l by (auto simp: lookup_Some)
  have "pmdaEventQueueRecords decode h x s = (PMDA_FETCH_NOVALUES, None, fetch_state [] [] (volume (eq_events q)) h i u)"
    using queue_fetch_spec [OF ok b, of decode "[]" 0 0 "[]" "volume (eq_events q)"] f l h(3) u lk
    by (simp add: pmdaEventQueueRecords_def)
  then show ?thesis using fetch_state_events [OF b(1)] by blast
qed

section \<open>Examples\<close>

text \<open>A queue with a client that has access and has fetched once, and a second client.\<close>

definition sample_evq :: evq where
  "sample_evq = (let s = \<lparr>queues = [], clients = [], next_addr = 0\<rparr>;
     s = snd (pmdaEventNewActiveQueue ''q'' 10 0 s);
     s = snd (pmdaEventNewClient 1 s);
     s = snd (pmdaEventSetAccess 1 0 1 s);
     s = snd (snd (pmdaEventQueueRecords (\<lambda>_ _. 1) 0 1 s))
   in snd (pmdaEventNewClient 2 s))"

lemma sample_evq_reach: "evq_reach sample_evq"
  unfolding sample_evq_def Let_def
  by (intro evq_reach.evq_client evq_reach.evq_records evq_reach.evq_access evq_reach.evq_new evq_reach.evq_start) (simp add: INT_MAX_def)

lemma sample_evq_eq:
  "sample_evq = \<lparr>queues = [\<lparr>eq_name = ''q'', eq_maxmemory = 10, eq_inuse = True, eq_array = [], eq_numclients = 1, eq_count = 0, eq_bytes = 0, eq_qsize = 0, eq_events = []\<rparr>],
     clients = [\<lparr>ec_context = 1, ec_inuse = True, ec_queues = [\<lparr>cq_active = True, cq_missed = 0, cq_access = 1, cq_last = None, cq_filter = None\<rparr>]\<rparr>,
       \<lparr>ec_context = 2, ec_inuse = True, ec_queues = []\<rparr>], next_addr = 0\<rparr>"
  by (simp add: sample_evq_def Let_def pmdaEventNewActiveQueue_def pmdaEventNewClient_def pmdaEventSetAccess_def pmdaEventQueueRecords_def
      client_queue_lookup_def client_lookup_def queue_lookup_def upd_clientq_def upd_queue_def the_clientq_def queue_fetch_def before_last_def
      no_clientq_def new_queue_def EINVAL_def)

lemma sample_evq_facts:
  "queue_lookup 0 sample_evq = Some (queues sample_evq ! 0)" "client_lookup 1 sample_evq = Some 0" "client_lookup 2 sample_evq = Some 1"
  by (simp_all add: sample_evq_eq queue_lookup_def client_lookup_def)

lemma eventq_delivery_witness:
  "\<exists>s'. pmdaEventQueueRecords (\<lambda>_ _. 1) 0 1 (appended 0 [([1, 2, 3, 4, 5], (0, 0)), ([6, 7, 8, 9, 10, 11], (0, 1)), ([12], (0, 2))] sample_evq) =
    (PMDA_FETCH_STATIC, Some [Rec [6, 7, 8, 9, 10, 11] (0, 1), Rec [12] (0, 2)], s') \<and> eq_events (queues s' ! 0) = []"
  using eventq_delivery [OF sample_evq_reach sample_evq_facts(1) _ _ sample_evq_facts(2), of "\<lambda>_ _. 1"
      "[([1, 2, 3, 4, 5], (0, 0)), ([6, 7, 8, 9, 10, 11], (0, 1)), ([12], (0, 2))]"]
  by (simp add: sample_evq_eq the_clientq_def queue_filter_def msize_def Let_def)

lemma eventq_memory_witness: "eq_qsize (queues sample_evq ! 0) = 0 \<and> eq_qsize (queues sample_evq ! 0) \<le> 10"
  using eventq_memory [OF sample_evq_reach, of "queues sample_evq ! 0"] by (simp add: sample_evq_eq)

definition waiting_evq :: evq where
  "waiting_evq = snd (pmdaEventQueueAppend True 0 [7] (0, 0) sample_evq)"

lemma waiting_evq_reach: "evq_reach waiting_evq"
  unfolding waiting_evq_def by (intro evq_reach.evq_append sample_evq_reach)

lemma waiting_evq_eq:
  "queue_lookup 0 waiting_evq = Some (queues waiting_evq ! 0)" "map e_count (eq_events (queues waiting_evq ! 0)) = [1]"
  "eq_events (queues waiting_evq ! 0) = [\<lparr>e_addr = 0, e_time = (0, 0), e_count = 1, e_data = [7]\<rparr>]" "clients waiting_evq = clients sample_evq"
  by (simp_all add: waiting_evq_def pmdaEventQueueAppend_def sample_evq_facts(1) Let_def queue_drop_bytes_def)
    (simp_all add: sample_evq_eq upd_queue_def queue_lookup_def)

lemma eventq_stolen_witness:
  "\<exists>s'. pmdaEventQueueRecords (\<lambda>_ _. 1) 0 2 waiting_evq = (PMDA_FETCH_NOVALUES, None, s') \<and> eq_events (queues s' ! 0) = [] \<and> eq_events (queues waiting_evq ! 0) \<noteq> []"
proof -
  have "client_lookup 2 waiting_evq = Some 1" "ec_queues (clients waiting_evq ! 1) = []" using waiting_evq_eq(4) by (simp_all add: client_lookup_def sample_evq_eq)
  then show ?thesis using eventq_stolen [OF waiting_evq_reach waiting_evq_eq(1), of 2 1 "\<lambda>_ _. 1"] waiting_evq_eq(3) by simp
qed

lemma eventq_missed_witness:
  "\<exists>items s'. pmdaEventQueueRecords (\<lambda>_ _. 1) 0 1 waiting_evq = (PMDA_FETCH_STATIC, Some items, s') \<and> items \<noteq> [] \<and> Missed 1 \<notin> set items"
proof -
  have "queue_lookup 0 waiting_evq \<noteq> None" "client_lookup 1 waiting_evq = Some 0" "ec_queues (clients waiting_evq ! 0) = [\<lparr>cq_active = True, cq_missed = 0, cq_access = 1, cq_last = None, cq_filter = None\<rparr>]"
    using waiting_evq_eq by (simp_all add: client_lookup_def sample_evq_eq)
  then obtain s' where s': "pmdaEventQueueRecords (\<lambda>_ _. 1) 0 1 waiting_evq = (PMDA_FETCH_STATIC, Some [Rec [7] (0, 0)], s')"
    using waiting_evq_eq(3) by (auto simp: pmdaEventQueueRecords_def client_queue_lookup_def queue_fetch_def before_last_def the_clientq_def queue_filter_def Let_def)
  show ?thesis using eventq_missed [OF waiting_evq_reach s'] s' by auto
qed

end
