(* ===== verification/Events.thy ===== *)
theory Events
  imports Pdu_Result
begin

text \<open>
  Packed event records. Agents pack them, \<^verbatim>\<open>events.c\<close> of the agent library, and clients check and
  unpack them, \<^verbatim>\<open>events.c\<close> of \<^verbatim>\<open>libpcp\<close>; on the wire they are converted by \<^verbatim>\<open>endian.c\<close>. A buffer grows by
  \<open>realloc\<close>, an argument that gives the bytes of a block of the new size, of which those behind the
  old end are seen, or nothing. A pointer into a buffer is an offset. Sizes are unbounded numbers,
  as a packed array cannot exceed the 24 bits of its length.
\<close>

section \<open>Packing\<close>

record evbuf =
  eb_mem :: "mem option"
  eb_bptr :: nat
  eb_berp :: "nat option"
  eb_blen :: nat
  eb_inuse :: bool

type_synonym grow = "nat \<Rightarrow> byte list option"

text \<open>After a failed \<open>realloc\<close> the base address is NULL, and the next use of the buffer is a fault.\<close>

function check_buf :: "grow \<Rightarrow> nat \<Rightarrow> evbuf \<Rightarrow> (int \<times> evbuf) option" where
  "check_buf grow need b = (
     if eb_mem b = None \<and> eb_blen b \<noteq> 0 then None
     else if eb_blen b = 0 \<or> eb_bptr b + need \<ge> eb_blen b - 1 then
       let n = (if eb_blen b = 0 then 512 else 2 * eb_blen b) in
       case grow n of
         None \<Rightarrow> Some (- ENOMEM, b\<lparr>eb_blen := n, eb_mem := None\<rparr>)
       | Some js \<Rightarrow>
           let old = (case eb_mem b of None \<Rightarrow> [] | Some m \<Rightarrow> m) in
           check_buf grow need (b\<lparr>eb_blen := n, eb_mem := Some (old @ drop (length old) js)\<rparr>)
     else Some (0, b))"
  by pat_completeness auto
termination by (relation "measure (\<lambda>(grow, need, b). eb_bptr b + need + 3 - eb_blen b)") (auto split: if_splits)

declare check_buf.simps [simp del]

definition new_buf :: evbuf where
  "new_buf = \<lparr>eb_mem = None, eb_bptr = 0, eb_berp = None, eb_blen = 0, eb_inuse = True\<rparr>"

definition with_buf :: "int \<Rightarrow> (evbuf \<Rightarrow> (int \<times> evbuf) option) \<Rightarrow> evbuf list \<Rightarrow> (int \<times> evbuf list) option" where
  "with_buf idx f bufs = (
     if idx < 0 \<or> idx \<ge> int (length bufs) \<or> \<not> eb_inuse (bufs ! nat idx) then Some (PM_ERR_NOCONTEXT, bufs)
     else do { (sts, b) \<leftarrow> f (bufs ! nat idx); Some (sts, bufs[nat idx := b]) })"

definition reset_buf :: "grow \<Rightarrow> evbuf \<Rightarrow> (int \<times> evbuf) option" where
  "reset_buf grow b = do {
     (sts, b) \<leftarrow> check_buf grow 8 b;
     if sts < 0 then Some (sts, b)
     else do {
       m \<leftarrow> eb_mem b;
       m \<leftarrow> st32 m 4 0;
       Some (0, b\<lparr>eb_mem := Some m, eb_bptr := 8\<rparr>)
     }
   }"

definition pmdaEventResetArray :: "grow \<Rightarrow> int \<Rightarrow> evbuf list \<Rightarrow> (int \<times> evbuf list) option" where
  "pmdaEventResetArray grow idx bufs = with_buf idx (reset_buf grow) bufs"

fun free_buf :: "evbuf list \<Rightarrow> nat" where
  "free_buf [] = 0"
| "free_buf (b # bs) = (if \<not> eb_inuse b then 0 else Suc (free_buf bs))"

definition pmdaEventNewArray :: "grow \<Rightarrow> bool \<Rightarrow> evbuf list \<Rightarrow> (int \<times> evbuf list) option" where
  "pmdaEventNewArray grow mem bufs = (
     let i = free_buf bufs in
     if i = length bufs \<and> \<not> mem then Some (- ENOMEM, [])
     else do {
       let bufs = (if i = length bufs then bufs @ [new_buf] else bufs[i := new_buf]);
       (_, bufs) \<leftarrow> pmdaEventResetArray grow (int i) bufs;
       Some (int i, bufs)
     })"

definition pmdaEventReleaseArray :: "int \<Rightarrow> evbuf list \<Rightarrow> (int \<times> evbuf list) option" where
  "pmdaEventReleaseArray idx bufs = with_buf idx (\<lambda>b. Some (0, b\<lparr>eb_inuse := False\<rparr>)) bufs"

text \<open>The header of a record; the time is that of the host, cut to 32 bits.\<close>

definition new_record :: "grow \<Rightarrow> int \<times> int \<Rightarrow> u32 \<Rightarrow> u32 \<Rightarrow> evbuf \<Rightarrow> (int \<times> evbuf) option" where
  "new_record grow tp nparams flags b = do {
     (sts, b) \<leftarrow> check_buf grow 16 b;
     if sts < 0 then Some (sts, b)
     else do {
       m \<leftarrow> eb_mem b;
       n \<leftarrow> ld32 m 4;
       m \<leftarrow> st32 m 4 (n + 1);
       m \<leftarrow> st32 m (eb_bptr b) (word_of_int (fst tp));
       m \<leftarrow> st32 m (eb_bptr b + 4) (word_of_int (snd tp));
       m \<leftarrow> st32 m (eb_bptr b + 12) nparams;
       m \<leftarrow> st32 m (eb_bptr b + 8) flags;
       Some (0, b\<lparr>eb_mem := Some m, eb_berp := Some (eb_bptr b), eb_bptr := eb_bptr b + 16\<rparr>)
     }
   }"

definition pmdaEventAddRecord :: "grow \<Rightarrow> int \<Rightarrow> int \<times> int \<Rightarrow> u32 \<Rightarrow> evbuf list \<Rightarrow> (int \<times> evbuf list) option" where
  "pmdaEventAddRecord grow idx tp flags bufs = with_buf idx (\<lambda>b.
     if flags AND PM_EVENT_FLAG_MISSED \<noteq> 0 then Some (PM_ERR_CONV, b) else new_record grow tp 0 flags b) bufs"

definition pmdaEventAddMissedRecord :: "grow \<Rightarrow> int \<Rightarrow> int \<times> int \<Rightarrow> u32 \<Rightarrow> evbuf list \<Rightarrow> (int \<times> evbuf list) option" where
  "pmdaEventAddMissedRecord grow idx tp missed bufs = with_buf idx (new_record grow tp missed PM_EVENT_FLAG_MISSED) bufs"

text \<open>
  A value: the eight bytes of the union for numbers, the characters of a string, or the bytes in
  a value block. A value that is not of the kind its type says is a fault.
\<close>

datatype atom = Number "byte list" | Text "byte list" | Aggregate "byte list"

definition param_src :: "int \<Rightarrow> atom \<Rightarrow> (int + byte list) option" where
  "param_src vtype avp = (
     if vtype \<in> {PM_TYPE_32, PM_TYPE_U32, PM_TYPE_FLOAT} then (case avp of Number bs \<Rightarrow> Some (Inr (take 4 bs)) | _ \<Rightarrow> None)
     else if vtype \<in> {PM_TYPE_64, PM_TYPE_U64, PM_TYPE_DOUBLE} then (case avp of Number bs \<Rightarrow> Some (Inr (take 8 bs)) | _ \<Rightarrow> None)
     else if vtype = PM_TYPE_STRING then (case avp of Text bs \<Rightarrow> Some (Inr bs) | _ \<Rightarrow> None)
     else if vtype = PM_TYPE_AGGREGATE then (case avp of Aggregate bs \<Rightarrow> Some (Inr bs) | _ \<Rightarrow> None)
     else Some (Inl PM_ERR_TYPE))"

text \<open>The type in the high eight bits and the length in the low 24 bits of a word.\<close>

definition typelen :: "int \<Rightarrow> nat \<Rightarrow> u32" where
  "typelen vtype len = push_bit 24 (word_of_int vtype) OR take_bit 24 (word_of_nat len)"

definition add_param :: "grow \<Rightarrow> u32 \<Rightarrow> int \<Rightarrow> atom \<Rightarrow> evbuf \<Rightarrow> (int \<times> evbuf) option" where
  "add_param grow pmid vtype avp b = do {
     src \<leftarrow> param_src vtype avp;
     case src of
       Inl sts \<Rightarrow> Some (sts, b)
     | Inr src \<Rightarrow> do {
         let vlen = length src;
         let need = 8 + PM_PDU_SIZE_BYTES vlen;
         (sts, b) \<leftarrow> check_buf grow need b;
         if sts < 0 then Some (sts, b)
         else do {
           m \<leftarrow> eb_mem b;
           m \<leftarrow> st32 m (eb_bptr b) pmid;
           m \<leftarrow> st32 m (eb_bptr b + 4) (typelen vtype (4 + vlen));
           m \<leftarrow> st m (eb_bptr b + 8) src;
           berp \<leftarrow> eb_berp b;
           n \<leftarrow> ld32 m (berp + 12);
           m \<leftarrow> st32 m (berp + 12) (n + 1);
           Some (0, b\<lparr>eb_mem := Some m, eb_bptr := eb_bptr b + need\<rparr>)
         }
       }
   }"

definition pmdaEventAddParam :: "grow \<Rightarrow> int \<Rightarrow> u32 \<Rightarrow> int \<Rightarrow> atom \<Rightarrow> evbuf list \<Rightarrow> (int \<times> evbuf list) option" where
  "pmdaEventAddParam grow idx pmid vtype avp bufs = with_buf idx (add_param grow pmid vtype avp) bufs"

definition get_addr :: "evbuf \<Rightarrow> mem option" where
  "get_addr b = do { m \<leftarrow> eb_mem b; st32 m 0 (typelen PM_TYPE_EVENT (eb_bptr b)) }"

text \<open>The address of the array is its bytes here, and NULL for a bad index.\<close>

definition pmdaEventGetAddr :: "int \<Rightarrow> evbuf list \<Rightarrow> mem option option" where
  "pmdaEventGetAddr idx bufs = (
     if idx < 0 \<or> idx \<ge> int (length bufs) \<or> \<not> eb_inuse (bufs ! nat idx) then Some None
     else do { m \<leftarrow> get_addr (bufs ! nat idx); Some (Some m) })"

section \<open>Checking\<close>

fun check_params :: "nat \<Rightarrow> nat \<Rightarrow> nat \<Rightarrow> mem \<Rightarrow> (int + nat) option" where
  "check_params 0 base valend m = Some (Inr base)"
| "check_params (Suc n) base valend m = (
     if base + 8 > valend then Some (Inl PM_ERR_TOOBIG)
     else do {
       tl \<leftarrow> ld32 m (base + 4);
       if base + 4 + PM_PDU_SIZE_BYTES (vb_vlen tl) > valend then Some (Inl PM_ERR_TOOBIG)
       else check_params n (base + 4 + PM_PDU_SIZE_BYTES (vb_vlen tl)) valend m
     })"

fun check_records :: "nat \<Rightarrow> nat \<Rightarrow> nat \<Rightarrow> mem \<Rightarrow> int option" where
  "check_records 0 base valend m = Some 0"
| "check_records (Suc n) base valend m = (
     if base + 16 > valend then Some PM_ERR_TOOBIG
     else do {
       flags \<leftarrow> ld32 m (base + 8);
       np \<leftarrow> ld32 m (base + 12);
       if flags AND PM_EVENT_FLAG_MISSED \<noteq> 0 \<and> flags \<noteq> PM_EVENT_FLAG_MISSED then Some PM_ERR_CONV
       else do {
         r \<leftarrow> check_params (event_nparams flags np) (base + 16) valend m;
         case r of Inl e \<Rightarrow> Some e | Inr base \<Rightarrow> check_records n base valend m
       }
     })"

definition pmCheckEventRecords :: "int \<Rightarrow> int \<Rightarrow> mem \<Rightarrow> int option" where
  "pmCheckEventRecords numval valfmt m = (
     if numval < 1 then Some numval
     else if valfmt \<noteq> PM_VAL_DPTR \<and> valfmt \<noteq> PM_VAL_SPTR then Some PM_ERR_CONV
     else do {
       w \<leftarrow> ld32 m 0;
       if vb_vtype w \<noteq> PM_TYPE_EVENT then Some PM_ERR_TYPE
       else if vb_vlen w < 8 then Some PM_ERR_TOOSMALL
       else do {
         n \<leftarrow> ld32 m 4;
         if sint n < 0 then Some PM_ERR_TOOSMALL
         else check_records (nat (sint n)) 8 (vb_vlen w) m
       }
     })"

section \<open>Unpacking\<close>

text \<open>
  The results of \<open>malloc\<close> in turn are an argument. The size of the value of a parameter is not
  given for values that are stored in the result itself.
\<close>

definition param_size :: "int \<Rightarrow> nat \<Rightarrow> int + int option" where
  "param_size vtype len = (
     if vtype \<in> {PM_TYPE_32, PM_TYPE_U32} then Inr None
     else if vtype \<in> {PM_TYPE_64, PM_TYPE_U64} then Inr (Some 8)
     else if vtype = PM_TYPE_FLOAT then Inr (Some 4)
     else if vtype = PM_TYPE_DOUBLE then Inr (Some 8)
     else if vtype \<in> {PM_TYPE_AGGREGATE, PM_TYPE_STRING, PM_TYPE_AGGREGATE_STATIC} then Inr (Some (int len - 4))
     else Inl PM_ERR_TYPE)"

definition one_value :: "u32 \<Rightarrow> mem pmvalue \<Rightarrow> mem pmValueSet" where
  "one_value pmid v = \<lparr>vs_pmid = pmid, vs_numval = 1, vs_valfmt = Some (case v of Lval _ \<Rightarrow> PM_VAL_INSITU | Pval _ \<Rightarrow> PM_VAL_DPTR),
     vs_vlist = [(PM_IN_NULL, v)]\<rparr>"

text \<open>
  When the memory for a value cannot be had, the result is freed with as many value sets as it should
  have, and those that are not there yet are wild pointers.
\<close>

fun unpack_params :: "(nat \<Rightarrow> bool) \<Rightarrow> nat \<Rightarrow> nat \<Rightarrow> mem \<Rightarrow> nat \<Rightarrow> (nat \<times> (int + nat \<times> mem pmValueSet list)) option" where
  "unpack_params avail 0 base m k = Some (k, Inr (base, []))"
| "unpack_params avail (Suc n) base m k = (
     if \<not> avail k then Some (k, Inl (- ENOMEM))
     else do {
       pmid \<leftarrow> ld32 m base;
       tl \<leftarrow> ld32 m (base + 4);
       let next = base + 4 + PM_PDU_SIZE_BYTES (vb_vlen tl);
       case param_size (vb_vtype tl) (vb_vlen tl) of
         Inl sts \<Rightarrow> Some (k, Inl sts)
       | Inr None \<Rightarrow> do {
           w \<leftarrow> ld32 m (base + 8);
           (k, r) \<leftarrow> unpack_params avail n next m (k + 1);
           Some (k, case r of Inl sts \<Rightarrow> Inl sts | Inr (base, vs) \<Rightarrow> Inr (base, one_value pmid (Lval w) # vs))
         }
       | Inr (Some vsize) \<Rightarrow>
           if \<not> avail (k + 1) then (if n = 0 then Some (k + 1, Inl (- ENOMEM)) else None)
           else if vsize < 0 then None
           else do {
             bs \<leftarrow> ld m (base + 8) (nat vsize);
             (k, r) \<leftarrow> unpack_params avail n next m (k + 2);
             Some (k, case r of Inl sts \<Rightarrow> Inl sts
               | Inr (base, vs) \<Rightarrow> Inr (base, one_value pmid (Pval (w2b (typelen (vb_vtype tl) (nat vsize + 4)) @ bs)) # vs))
           }
     })"

fun alloc_sets :: "(nat \<Rightarrow> bool) \<Rightarrow> nat \<Rightarrow> nat \<Rightarrow> bool" where
  "alloc_sets avail 0 k = True"
| "alloc_sets avail (Suc n) k = (avail k \<and> alloc_sets avail n (k + 1))"

definition event_extras :: "u32 \<times> u32 \<Rightarrow> u32 \<Rightarrow> u32 \<Rightarrow> mem pmValueSet list" where
  "event_extras anon flags np = (
     if flags = 0 then []
     else if flags AND PM_EVENT_FLAG_MISSED \<noteq> 0 then [one_value (fst anon) (Lval flags), one_value (snd anon) (Lval np)]
     else if sint np + 1 \<le> 0 then [] else [one_value (fst anon) (Lval flags)])"

definition event_numpmid :: "u32 \<Rightarrow> u32 \<Rightarrow> int" where
  "event_numpmid flags np = (
     if flags = 0 then sint np else if flags AND PM_EVENT_FLAG_MISSED \<noteq> 0 then 2 else s32 (sint np + 1))"

text \<open>
  The size of a result with a negative number of metrics is too small for its header, or negative
  itself, in which case the allocation fails.
\<close>

fun unpack_records :: "u32 \<times> u32 \<Rightarrow> (nat \<Rightarrow> bool) \<Rightarrow> nat \<Rightarrow> nat \<Rightarrow> mem \<Rightarrow> nat \<Rightarrow> (int + mem pmResult list) option" where
  "unpack_records anon avail 0 base m k = Some (Inr [])"
| "unpack_records anon avail (Suc n) base m k = do {
     sec \<leftarrow> ld32 m base;
     usec \<leftarrow> ld32 m (base + 4);
     flags \<leftarrow> ld32 m (base + 8);
     np \<leftarrow> ld32 m (base + 12);
     let numpmid = event_numpmid flags np;
     let extras = event_extras anon flags np;
     if \<not> avail k \<or> numpmid \<le> - 4 then Some (Inl (- ENOMEM))
     else if numpmid < 0 then None
     else if \<not> alloc_sets avail (length extras) (k + 1) then Some (Inl (- ENOMEM))
     else do {
       (k, r) \<leftarrow> unpack_params avail (nat numpmid - length extras) (base + 16) m (k + 1 + length extras);
       case r of
         Inl sts \<Rightarrow> Some (Inl sts)
       | Inr (base, vs) \<Rightarrow> do {
           rest \<leftarrow> unpack_records anon avail n base m k;
           Some (case rest of Inl sts \<Rightarrow> Inl sts
             | Inr rs \<Rightarrow> Inr (\<lparr>rs_sec = sint sec, rs_usec = sint usec, rs_vset = extras @ vs\<rparr> # rs))
         }
     }
   }"

text \<open>
  The metrics for flags and for missed events are registered at the first call: their identifiers, or the
  error, are an argument.
\<close>

definition pmUnpackEventRecords :: "int + u32 \<times> u32 \<Rightarrow> (nat \<Rightarrow> bool) \<Rightarrow> int \<Rightarrow> int \<Rightarrow> mem \<Rightarrow> (int + mem pmResult list) option" where
  "pmUnpackEventRecords anon avail numval valfmt m = (case anon of
       Inl sts \<Rightarrow> Some (Inl sts)
     | Inr anon \<Rightarrow> do {
         sts \<leftarrow> pmCheckEventRecords numval valfmt m;
         if sts < 0 then Some (Inl sts)
         else if numval < 1 then None
         else do {
           n \<leftarrow> ld32 m 4;
           if n = 0 then Some (Inr [])
           else if \<not> avail 0 then Some (Inl (- ENOMEM))
           else unpack_records anon avail (nat (sint n)) 8 m 1
         }
       })"

section \<open>The checker is safe\<close>

lemma check_params_safe:
  assumes "valend \<le> length m"
  shows "\<exists>r. check_params n base valend m = Some r"
proof (induction n arbitrary: base)
  case (Suc n)
  show ?case
  proof (cases "base + 8 > valend")
    case False
    then obtain tl where "ld32 m (base + 4) = Some tl" using assms ld32_None_iff [of m "base + 4"] by (cases "ld32 m (base + 4)") auto
    then show ?thesis using Suc False by simp
  qed simp
qed simp

lemma check_records_safe:
  assumes "valend \<le> length m"
  shows "\<exists>r. check_records n base valend m = Some r"
proof (induction n arbitrary: base)
  case (Suc n)
  show ?case
  proof (cases "base + 16 > valend")
    case False
    then obtain fl np where l: "ld32 m (base + 8) = Some fl" "ld32 m (base + 12) = Some np"
      using assms ld32_None_iff [of m "base + 8"] ld32_None_iff [of m "base + 12"] by (cases "ld32 m (base + 8)"; cases "ld32 m (base + 12)") auto
    obtain r where "check_params (event_nparams fl np) (base + 16) valend m = Some r" using check_params_safe [OF assms] by blast
    then show ?thesis using Suc False l by (cases r) auto
  qed simp
qed simp

text \<open>
  C24: The checker of packed event records stays inside the value. For any bytes, as long as there are
  as many as the length of the value says and at least a header, it reads only these bytes and
  returns a status.
\<close>

theorem events_check_safe:
  assumes "8 \<le> length m" "\<forall>w. ld32 m 0 = Some w \<longrightarrow> vb_vlen w \<le> length m"
  shows "\<exists>sts. pmCheckEventRecords numval valfmt m = Some sts"
proof -
  obtain w n where w: "ld32 m 0 = Some w" "ld32 m 4 = Some n" using assms(1) ld32_None_iff [of m 0] ld32_None_iff [of m 4]
    by (cases "ld32 m 0"; cases "ld32 m 4") auto
  then show ?thesis using check_records_safe [of "vb_vlen w" m "nat (sint n)" 8] assms(2) by (auto simp: pmCheckEventRecords_def)
qed

section \<open>What a buffer holds\<close>

definition packs :: "evbuf \<Rightarrow> event_record list \<Rightarrow> bool" where
  "packs b rs \<longleftrightarrow> (\<exists>m. eb_mem b = Some m \<and> length m = eb_blen b \<and> eb_blen b \<noteq> 0 \<and> eb_inuse b \<and>
     bytes_at m 4 (w2b (word_of_nat (length rs)) @ concat (map host_record rs)) \<and>
     eb_bptr b = 8 + length (concat (map host_record rs)) \<and>
     (rs \<noteq> [] \<longrightarrow> eb_berp b = Some (8 + length (concat (map host_record (butlast rs))))))"

definition grows :: "grow \<Rightarrow> bool" where
  "grows grow \<longleftrightarrow> (\<forall>n. \<exists>js. grow n = Some js \<and> length js = n)"

lemma bytes_at_extend: "bytes_at m a bs \<Longrightarrow> bytes_at (m @ xs) a bs"
  by (auto simp: bytes_at_def ld_def split: if_splits)

lemma check_buf_packs:
  assumes "grows grow"
  shows "packs b rs \<Longrightarrow> \<exists>b'. check_buf grow need b = Some (0, b') \<and> packs b' rs \<and> eb_bptr b' = eb_bptr b \<and> eb_berp b' = eb_berp b \<and>
    eb_bptr b + need + 1 < eb_blen b'"
proof (induction "eb_bptr b + need + 3 - eb_blen b" arbitrary: b rule: less_induct)
  case less
  obtain m where m: "eb_mem b = Some m" "length m = eb_blen b" "eb_blen b \<noteq> 0" using less.prems by (auto simp: packs_def)
  show ?case
  proof (cases "eb_bptr b + need \<ge> eb_blen b - 1")
    case True
    obtain js where js: "grow (2 * eb_blen b) = Some js" "length js = 2 * eb_blen b" using assms by (meson grows_def)
    let ?b = "b\<lparr>eb_blen := 2 * eb_blen b, eb_mem := Some (m @ drop (length m) js)\<rparr>"
    have p: "packs ?b rs" using less.prems m js by (auto simp: packs_def intro: bytes_at_extend)
    have e: "check_buf grow need b = check_buf grow need ?b" using m js True by (subst check_buf.simps) simp
    have "eb_bptr ?b + need + 3 - eb_blen ?b < eb_bptr b + need + 3 - eb_blen b" using True m(3) by simp
    from less.hyps [OF this p] show ?thesis unfolding e by simp
  next
    case False
    then have "check_buf grow need b = Some (0, b)" using m by (subst check_buf.simps) simp
    then show ?thesis using False less.prems by auto
  qed
qed

lemma new_buf_packs:
  assumes "grows grow"
  shows "\<exists>b. reset_buf grow new_buf = Some (0, b) \<and> packs b []"
proof -
  obtain js where js: "grow 512 = Some js" "length js = 512" using assms by (meson grows_def)
  let ?b = "new_buf\<lparr>eb_blen := 512, eb_mem := Some js\<rparr>"
  have "check_buf grow 8 new_buf = check_buf grow 8 ?b" using js by (subst check_buf.simps) (simp add: new_buf_def)
  also have "\<dots> = Some (0, ?b)" by (subst check_buf.simps) (simp add: new_buf_def)
  finally have "reset_buf grow new_buf = Some (0, ?b\<lparr>eb_mem := Some (upd js 4 (w2b 0)), eb_bptr := 8\<rparr>)"
    using js by (simp add: reset_buf_def st32_Some)
  moreover have "packs (?b\<lparr>eb_mem := Some (upd js 4 (w2b 0)), eb_bptr := 8\<rparr>) []" using js by (simp add: packs_def new_buf_def)
  ultimately show ?thesis by blast
qed

lemma new_record_packs:
  assumes "grows grow" "packs b rs"
  shows "\<exists>b'. new_record grow tp np fl b = Some (0, b') \<and>
    packs b' (rs @ [\<lparr>r_sec = word_of_int (fst tp), r_usec = word_of_int (snd tp), r_flags = fl, r_nparams = np, r_params = []\<rparr>])"
proof -
  obtain u where u: "check_buf grow 16 b = Some (0, u)" "packs u rs" "eb_bptr u + 16 + 1 < eb_blen u"
    using check_buf_packs [OF assms, of 16] by auto
  let ?body = "concat (map host_record rs)" and ?p = "eb_bptr u" and ?n = "word_of_nat (length rs) :: u32"
  obtain m where m: "eb_mem u = Some m" "length m = eb_blen u" "eb_inuse u" "bytes_at m 4 (w2b ?n)" "bytes_at m 8 ?body" "?p = 8 + length ?body"
    using u(2) by (auto simp: packs_def bytes_at_append)
  define m1 where "m1 = upd (upd (upd (upd (upd m 4 (w2b (1 + ?n))) ?p (w2b (word_of_int (fst tp)))) (?p + 4) (w2b (word_of_int (snd tp)))) (?p + 12) (w2b np)) (?p + 8) (w2b fl)"
  have len: "?p + 16 < length m" using u(3) m(2) by simp
  have n: "ld32 m 4 = Some ?n" using m(4) by (rule bytes_at_ld32)
  have "new_record grow tp np fl b = Some (0, u\<lparr>eb_mem := Some m1, eb_berp := Some ?p, eb_bptr := ?p + 16\<rparr>)"
    using u(1) m(1) n len by (simp add: new_record_def st32_Some m1_def add.commute [of ?n 1])
  moreover have "bytes_at m1 4 (w2b (1 + ?n))" "bytes_at m1 8 ?body" "bytes_at m1 ?p (w2b (word_of_int (fst tp)))" "bytes_at m1 (?p + 4) (w2b (word_of_int (snd tp)))"
    "bytes_at m1 (?p + 8) (w2b fl)" "bytes_at m1 (?p + 12) (w2b np)" "length m1 = length m"
    using m(4,5,6) len by (simp_all add: m1_def bytes_at_upd_other)
  then have "packs (u\<lparr>eb_mem := Some m1, eb_berp := Some ?p, eb_bptr := ?p + 16\<rparr>)
      (rs @ [\<lparr>r_sec = word_of_int (fst tp), r_usec = word_of_int (snd tp), r_flags = fl, r_nparams = np, r_params = []\<rparr>])"
    using m u(3) by (simp add: packs_def host_record_def bytes_at_append add.assoc)
  ultimately show ?thesis by blast
qed

definition param_rel :: "u32 \<times> int \<times> atom \<Rightarrow> event_param \<Rightarrow> bool" where
  "param_rel x p \<longleftrightarrow> (case x of (pmid, vtype, avp) \<Rightarrow> \<exists>src. param_src vtype avp = Some (Inr src) \<and> p_pmid p = pmid \<and>
     p_typelen p = typelen vtype (4 + length src) \<and> take (length src) (p_vbuf p) = src \<and> length (p_vbuf p) = PM_PDU_SIZE_BYTES (length src))"

lemma add_param_packs:
  assumes "grows grow" "packs b (rs @ [r])" "param_src vtype avp = Some (Inr src)"
  shows "\<exists>b' p. add_param grow pmid vtype avp b = Some (0, b') \<and> param_rel (pmid, vtype, avp) p \<and>
    packs b' (rs @ [r\<lparr>r_nparams := r_nparams r + 1, r_params := r_params r @ [p]\<rparr>])"
proof -
  let ?n = "PM_PDU_SIZE_BYTES (length src)"
  obtain u where u: "check_buf grow (8 + ?n) b = Some (0, u)" "packs u (rs @ [r])" "eb_bptr u + (8 + ?n) + 1 < eb_blen u"
    using check_buf_packs [OF assms(1,2), of "8 + ?n"] by auto
  let ?q = "eb_bptr u" and ?B = "concat (map host_record rs)" and ?P = "concat (map host_param (r_params r))" and ?c = "word_of_nat (length (rs @ [r])) :: u32"
  let ?e = "8 + length ?B"
  obtain m where m: "eb_mem u = Some m" "length m = eb_blen u" "eb_inuse u" "eb_berp u = Some ?e" "?q = ?e + 16 + length ?P"
    and at: "bytes_at m 4 (w2b ?c)" "bytes_at m 8 ?B" "bytes_at m ?e (w2b (r_sec r))" "bytes_at m (?e + 4) (w2b (r_usec r))" "bytes_at m (?e + 8) (w2b (r_flags r))"
      "bytes_at m (?e + 12) (w2b (r_nparams r))" "bytes_at m (?e + 16) ?P"
    using u(2) by (auto simp: packs_def bytes_at_append host_record_def add.assoc)
  have n: "length src \<le> ?n" by (rule PM_PDU_SIZE_BYTES_bounds)
  have len: "?q + 8 + ?n < length m" using u(3) m(2) by simp
  define m1 where "m1 = upd (upd (upd (upd m ?q (w2b pmid)) (?q + 4) (w2b (typelen vtype (4 + length src)))) (?q + 8) src) (?e + 12) (w2b (r_nparams r + 1))"
  have l1: "length m1 = length m" using len n m(5) by (simp add: m1_def)
  have "?q + 8 + length src + (?n - length src) \<le> length m1" using len n l1 by simp
  then obtain junk where j: "bytes_at m1 (?q + 8 + length src) junk" "length junk = ?n - length src" by (rule bytes_at_some)
  let ?p = "\<lparr>p_pmid = pmid, p_typelen = typelen vtype (4 + length src), p_vbuf = src @ junk\<rparr>"
  have "ld32 (upd (upd (upd m ?q (w2b pmid)) (?q + 4) (w2b (typelen vtype (4 + length src)))) (?q + 8) src) (?e + 12) = Some (r_nparams r)"
    using bytes_at_ld32 [OF at(6)] len n m(5) by (simp add: ld32_upd_frame)
  then have "add_param grow pmid vtype avp b = Some (0, u\<lparr>eb_mem := Some m1, eb_bptr := ?q + (8 + ?n)\<rparr>)"
    using assms(3) u(1) m(1,4,5) len n by (simp add: add_param_def st32_Some st_Some m1_def Let_def)
  moreover have "param_rel (pmid, vtype, avp) ?p" using assms(3) n j(2) by (simp add: param_rel_def)
  moreover have "packs (u\<lparr>eb_mem := Some m1, eb_bptr := ?q + (8 + ?n)\<rparr>) (rs @ [r\<lparr>r_nparams := r_nparams r + 1, r_params := r_params r @ [?p]\<rparr>])"
  proof -
    have "bytes_at m1 4 (w2b ?c)" "bytes_at m1 8 ?B" "bytes_at m1 ?e (w2b (r_sec r))" "bytes_at m1 (?e + 4) (w2b (r_usec r))" "bytes_at m1 (?e + 8) (w2b (r_flags r))"
      "bytes_at m1 (?e + 12) (w2b (r_nparams r + 1))" "bytes_at m1 (?e + 16) ?P" "bytes_at m1 ?q (w2b pmid)" "bytes_at m1 (?q + 4) (w2b (typelen vtype (4 + length src)))" "bytes_at m1 (?q + 8) src"
      using at len n m(5) by (simp_all add: m1_def bytes_at_upd_other)
    then show ?thesis using m u(3) l1 j n
      by (simp add: packs_def bytes_at_append host_record_def host_param_def add.assoc)
  qed
  ultimately show ?thesis by blast
qed

section \<open>An agent packs events\<close>

datatype ev = Ev "int \<times> int" u32 "(u32 \<times> int \<times> atom) list" | Lost "int \<times> int" u32

fun pack_params :: "grow \<Rightarrow> int \<Rightarrow> (u32 \<times> int \<times> atom) list \<Rightarrow> evbuf list \<Rightarrow> (int \<times> evbuf list) option" where
  "pack_params grow idx [] bufs = Some (0, bufs)"
| "pack_params grow idx ((pmid, vtype, avp) # ps) bufs = do {
     (sts, bufs) \<leftarrow> pmdaEventAddParam grow idx pmid vtype avp bufs;
     if sts < 0 then Some (sts, bufs) else pack_params grow idx ps bufs
   }"

fun pack_ev :: "grow \<Rightarrow> int \<Rightarrow> ev \<Rightarrow> evbuf list \<Rightarrow> (int \<times> evbuf list) option" where
  "pack_ev grow idx (Ev tp flags ps) bufs = do {
     (sts, bufs) \<leftarrow> pmdaEventAddRecord grow idx tp flags bufs;
     if sts < 0 then Some (sts, bufs) else pack_params grow idx ps bufs
   }"
| "pack_ev grow idx (Lost tp n) bufs = pmdaEventAddMissedRecord grow idx tp n bufs"

fun pack_evs :: "grow \<Rightarrow> int \<Rightarrow> ev list \<Rightarrow> evbuf list \<Rightarrow> (int \<times> evbuf list) option" where
  "pack_evs grow idx [] bufs = Some (0, bufs)"
| "pack_evs grow idx (e # es) bufs = do {
     (sts, bufs) \<leftarrow> pack_ev grow idx e bufs;
     if sts < 0 then Some (sts, bufs) else pack_evs grow idx es bufs
   }"

text \<open>Values that fit their types.\<close>

fun wf_atom :: "u32 \<times> int \<times> atom \<Rightarrow> bool" where
  "wf_atom (pmid, vtype, Number bs) \<longleftrightarrow> length bs = 8 \<and> vtype \<in> {PM_TYPE_32, PM_TYPE_U32, PM_TYPE_FLOAT, PM_TYPE_64, PM_TYPE_U64, PM_TYPE_DOUBLE}"
| "wf_atom (pmid, vtype, Text bs) \<longleftrightarrow> vtype = PM_TYPE_STRING"
| "wf_atom (pmid, vtype, Aggregate bs) \<longleftrightarrow> vtype = PM_TYPE_AGGREGATE"

fun wf_ev :: "ev \<Rightarrow> bool" where
  "wf_ev (Ev tp flags ps) \<longleftrightarrow> flags AND PM_EVENT_FLAG_MISSED = 0 \<and> list_all wf_atom ps"
| "wf_ev (Lost tp n) \<longleftrightarrow> True"

fun ev_rel :: "ev \<Rightarrow> event_record \<Rightarrow> bool" where
  "ev_rel (Ev tp flags ps) r \<longleftrightarrow> r_sec r = word_of_int (fst tp) \<and> r_usec r = word_of_int (snd tp) \<and> r_flags r = flags \<and>
     r_nparams r = word_of_nat (length ps) \<and> list_all2 param_rel ps (r_params r)"
| "ev_rel (Lost tp n) r \<longleftrightarrow> r_sec r = word_of_int (fst tp) \<and> r_usec r = word_of_int (snd tp) \<and> r_flags r = PM_EVENT_FLAG_MISSED \<and>
     r_nparams r = n \<and> r_params r = []"

lemma wf_atom_src: "wf_atom (pmid, vtype, avp) \<Longrightarrow> \<exists>src. param_src vtype avp = Some (Inr src)"
  by (cases avp) (auto simp: param_src_def PM_TYPE_defs)

definition holds :: "int \<Rightarrow> evbuf list \<Rightarrow> event_record list \<Rightarrow> bool" where
  "holds idx bufs rs \<longleftrightarrow> 0 \<le> idx \<and> idx < int (length bufs) \<and> packs (bufs ! nat idx) rs"

lemma with_buf_holds:
  assumes "holds idx bufs rs" "f (bufs ! nat idx) = Some (0, b)" "packs b rs'"
  shows "with_buf idx f bufs = Some (0, bufs[nat idx := b]) \<and> holds idx (bufs[nat idx := b]) rs'"
proof -
  have "eb_inuse (bufs ! nat idx)" using assms(1) by (auto simp: holds_def packs_def)
  then show ?thesis using assms by (auto simp: holds_def with_buf_def)
qed

lemma pack_params_holds:
  "grows grow \<Longrightarrow> list_all wf_atom ps \<Longrightarrow> holds idx bufs (rs @ [r]) \<Longrightarrow> r_nparams r = word_of_nat (length (r_params r)) \<Longrightarrow>
    \<exists>bufs' qs. pack_params grow idx ps bufs = Some (0, bufs') \<and> list_all2 param_rel ps qs \<and>
      holds idx bufs' (rs @ [r\<lparr>r_nparams := word_of_nat (length (r_params r) + length ps), r_params := r_params r @ qs\<rparr>])"
proof (induction ps arbitrary: bufs r)
  case Nil
  have e: "r\<lparr>r_nparams := word_of_nat (length (r_params r) + length []), r_params := r_params r @ []\<rparr> = r" using Nil(4) by (cases r) simp
  have "holds idx bufs (rs @ [r\<lparr>r_nparams := word_of_nat (length (r_params r) + length []), r_params := r_params r @ []\<rparr>])" unfolding e by (rule Nil(3))
  then show ?case by (intro exI [of _ bufs] exI [of _ "[]"]) simp
next
  case (Cons x ps)
  obtain pmid vtype avp where x: "x = (pmid, vtype, avp)" by (cases x)
  obtain src where src: "param_src vtype avp = Some (Inr src)" using wf_atom_src [of pmid vtype avp] Cons.prems(2) x by auto
  have "packs (bufs ! nat idx) (rs @ [r])" using Cons.prems(3) by (simp add: holds_def)
  from add_param_packs [OF Cons.prems(1) this src] obtain b p where b: "add_param grow pmid vtype avp (bufs ! nat idx) = Some (0, b)" "param_rel (pmid, vtype, avp) p"
    "packs b (rs @ [r\<lparr>r_nparams := r_nparams r + 1, r_params := r_params r @ [p]\<rparr>])" by blast
  let ?r = "r\<lparr>r_nparams := r_nparams r + 1, r_params := r_params r @ [p]\<rparr>"
  note w = with_buf_holds [of idx bufs "rs @ [r]" "add_param grow pmid vtype avp" b, OF Cons.prems(3) b(1,3)]
  have "r_nparams ?r = word_of_nat (length (r_params ?r))" using Cons.prems(4) by simp
  with Cons.IH [OF Cons.prems(1) _ _ this, of "bufs[nat idx := b]"] Cons.prems(2) w obtain bufs' qs where q:
    "pack_params grow idx ps (bufs[nat idx := b]) = Some (0, bufs')" "list_all2 param_rel ps qs"
    "holds idx bufs' (rs @ [?r\<lparr>r_nparams := word_of_nat (length (r_params ?r) + length ps), r_params := r_params ?r @ qs\<rparr>])" by auto
  show ?case using q w b(2) x by (intro exI [of _ bufs'] exI [of _ "p # qs"]) (simp add: pmdaEventAddParam_def add.assoc)
qed

lemma pack_ev_holds:
  assumes "grows grow" "wf_ev e" "holds idx bufs rs"
  shows "\<exists>bufs' r. pack_ev grow idx e bufs = Some (0, bufs') \<and> ev_rel e r \<and> holds idx bufs' (rs @ [r])"
proof (cases e)
  case (Ev tp fl ps)
  let ?r = "\<lparr>r_sec = word_of_int (fst tp), r_usec = word_of_int (snd tp), r_flags = fl, r_nparams = 0, r_params = []\<rparr>"
  have p: "packs (bufs ! nat idx) rs" using assms(3) by (simp add: holds_def)
  obtain b where b: "new_record grow tp 0 fl (bufs ! nat idx) = Some (0, b)" "packs b (rs @ [?r])" using new_record_packs [OF assms(1) p] by blast
  have f: "fl AND PM_EVENT_FLAG_MISSED = 0" "list_all wf_atom ps" using assms(2) Ev by auto
  note w = with_buf_holds [OF assms(3), of "\<lambda>b. if fl AND PM_EVENT_FLAG_MISSED \<noteq> 0 then Some (PM_ERR_CONV, b) else new_record grow tp 0 fl b" b, OF _ b(2)]
  have w': "pmdaEventAddRecord grow idx tp fl bufs = Some (0, bufs[nat idx := b])" "holds idx (bufs[nat idx := b]) (rs @ [?r])"
    using w b(1) f(1) by (simp_all add: pmdaEventAddRecord_def)
  from pack_params_holds [OF assms(1) f(2) w'(2)] obtain bufs' qs where "pack_params grow idx ps (bufs[nat idx := b]) = Some (0, bufs')" "list_all2 param_rel ps qs"
    "holds idx bufs' (rs @ [?r\<lparr>r_nparams := word_of_nat (length ps), r_params := qs\<rparr>])" by auto
  then show ?thesis using w'(1) Ev by (intro exI [of _ bufs'] exI [of _ "?r\<lparr>r_nparams := word_of_nat (length ps), r_params := qs\<rparr>"]) simp
next
  case (Lost tp n)
  have p: "packs (bufs ! nat idx) rs" using assms(3) by (simp add: holds_def)
  let ?r = "\<lparr>r_sec = word_of_int (fst tp), r_usec = word_of_int (snd tp), r_flags = PM_EVENT_FLAG_MISSED, r_nparams = n, r_params = []\<rparr>"
  obtain b where b: "new_record grow tp n PM_EVENT_FLAG_MISSED (bufs ! nat idx) = Some (0, b)" "packs b (rs @ [?r])"
    using new_record_packs [OF assms(1) p] by blast
  then show ?thesis using with_buf_holds [of idx bufs rs "new_record grow tp n PM_EVENT_FLAG_MISSED" b, OF assms(3) b] Lost
    by (intro exI [of _ "bufs[nat idx := b]"] exI [of _ ?r]) (simp add: pmdaEventAddMissedRecord_def)
qed

lemma pack_evs_holds:
  "grows grow \<Longrightarrow> list_all wf_ev es \<Longrightarrow> holds idx bufs rs \<Longrightarrow>
    \<exists>bufs' rs'. pack_evs grow idx es bufs = Some (0, bufs') \<and> list_all2 ev_rel es rs' \<and> holds idx bufs' (rs @ rs')"
proof (induction es arbitrary: bufs rs)
  case (Cons e es)
  obtain bufs1 r where 1: "pack_ev grow idx e bufs = Some (0, bufs1)" "ev_rel e r" "holds idx bufs1 (rs @ [r])"
    using pack_ev_holds [OF Cons.prems(1) _ Cons.prems(3), of e] Cons.prems(2) by auto
  obtain bufs2 rs' where "pack_evs grow idx es bufs1 = Some (0, bufs2)" "list_all2 ev_rel es rs'" "holds idx bufs2 ((rs @ [r]) @ rs')"
    using Cons.IH [OF Cons.prems(1) _ 1(3)] Cons.prems(2) by auto
  then show ?case using 1 by (intro exI [of _ bufs2] exI [of _ "r # rs'"]) simp
qed auto

section \<open>A client unpacks them\<close>

lemma typelen_facts:
  assumes "0 \<le> t" "t < 256" "n < 2 ^ 24"
  shows "vb_vtype (typelen t n) = t" "vb_vlen (typelen t n) = n"
proof -
  have a: "drop_bit 24 (push_bit 24 a OR take_bit 24 b) = take_bit 8 a" "take_bit 24 (push_bit 24 a OR take_bit 24 b) = take_bit 24 b" for a b :: u32
    by (rule bit_eqI; auto simp: bit_simps)+
  have "uint (take_bit 8 (word_of_int t :: u32)) = t" using assms(1,2) by (simp add: unsigned_take_bit_eq uint_word_of_int take_bit_int_eq_self)
  then show "vb_vtype (typelen t n) = t" by (simp only: vb_vtype_def typelen_def a)
  have "unat (take_bit 24 (word_of_nat n :: u32)) = n" using assms(3) by (simp add: unsigned_take_bit_eq unat_of_nat take_bit_nat_eq_self)
  then show "vb_vlen (typelen t n) = n" by (simp only: vb_vlen_def typelen_def a)
qed

lemma round_header: "PM_PDU_SIZE_BYTES (4 + n) = 4 + PM_PDU_SIZE_BYTES n"
  unfolding PM_PDU_SIZE_BYTES_def PM_PDU_SIZE_def by presburger

definition unpacked :: "u32 \<times> int \<times> atom \<Rightarrow> mem pmValueSet" where
  "unpacked x = (case x of (pmid, vtype, avp) \<Rightarrow> case param_src vtype avp of
     Some (Inr src) \<Rightarrow> one_value pmid (if vtype \<in> {PM_TYPE_32, PM_TYPE_U32} then Lval (b2w src) else Pval (w2b (typelen vtype (4 + length src)) @ src))
   | _ \<Rightarrow> one_value pmid (Lval 0))"

fun event_result :: "u32 \<times> u32 \<Rightarrow> ev \<Rightarrow> mem pmResult" where
  "event_result anon (Ev tp flags ps) = \<lparr>rs_sec = s32 (fst tp), rs_usec = s32 (snd tp),
     rs_vset = (if flags = 0 then [] else [one_value (fst anon) (Lval flags)]) @ map unpacked ps\<rparr>"
| "event_result anon (Lost tp n) = \<lparr>rs_sec = s32 (fst tp), rs_usec = s32 (snd tp),
     rs_vset = [one_value (fst anon) (Lval PM_EVENT_FLAG_MISSED), one_value (snd anon) (Lval n)]\<rparr>"

text \<open>What is known of a parameter that was packed and is short enough for its length field.\<close>

lemma param_facts:
  assumes "param_rel (pmid, vtype, avp) p" "wf_atom (pmid, vtype, avp)" "length (host_param p) < 2 ^ 24"
  obtains src where "param_src vtype avp = Some (Inr src)" "p_pmid p = pmid" "vb_vtype (p_typelen p) = vtype" "vb_vlen (p_typelen p) = 4 + length src"
    "take (length src) (p_vbuf p) = src" "length (p_vbuf p) = PM_PDU_SIZE_BYTES (length src)" "value_size vtype \<le> length src" "length src \<le> length (p_vbuf p)"
    "param_size vtype (4 + length src) = Inr (if vtype \<in> {PM_TYPE_32, PM_TYPE_U32} then None else Some (int (length src)))"
proof -
  obtain src where s: "param_src vtype avp = Some (Inr src)" "p_pmid p = pmid" "p_typelen p = typelen vtype (4 + length src)" "take (length src) (p_vbuf p) = src"
    "length (p_vbuf p) = PM_PDU_SIZE_BYTES (length src)" using assms(1) by (auto simp: param_rel_def)
  have n: "length src \<le> PM_PDU_SIZE_BYTES (length src)" by (rule PM_PDU_SIZE_BYTES_bounds)
  have "4 + length src < 2 ^ 24" using assms(3) s(5) n by (simp add: host_param_def)
  moreover have "0 \<le> vtype" "vtype < 256" using assms(2) by (cases avp; auto simp: PM_TYPE_defs)+
  ultimately have t: "vb_vtype (p_typelen p) = vtype" "vb_vlen (p_typelen p) = 4 + length src" using typelen_facts s(3) by simp_all
  have "value_size vtype \<le> length src" "param_size vtype (4 + length src) = Inr (if vtype \<in> {PM_TYPE_32, PM_TYPE_U32} then None else Some (int (length src)))"
    using assms(2) s(1) by (cases avp; auto simp: param_src_def value_size_def param_size_def PM_TYPE_defs)+
  then show thesis using that s t n by simp
qed

lemma check_params_spec:
  "list_all wf_param ps \<Longrightarrow> bytes_at m base (concat (map host_param ps)) \<Longrightarrow> base + length (concat (map host_param ps)) \<le> valend \<Longrightarrow>
    check_params (length ps) base valend m = Some (Inr (base + length (concat (map host_param ps))))"
proof (induction ps arbitrary: base)
  case (Cons p ps)
  have l: "length (host_param p) = 4 + PM_PDU_SIZE_BYTES (vb_vlen (p_typelen p))" "8 \<le> length (host_param p)"
    using Cons.prems(1) by (simp_all add: wf_param_def host_param_def)
  have "ld32 m (base + 4) = Some (p_typelen p)" using Cons.prems(2) by (simp add: bytes_at_append host_param_def bytes_at_ld32)
  moreover have "check_params (length ps) (base + length (host_param p)) valend m = Some (Inr (base + length (host_param p) + length (concat (map host_param ps))))"
    using Cons by (intro Cons.IH) (auto simp: bytes_at_append)
  ultimately show ?case using Cons.prems(3) l by (simp add: add.assoc)
qed simp

lemma check_records_spec:
  "list_all wf_record rs \<Longrightarrow> (\<forall>r \<in> set rs. r_flags r AND PM_EVENT_FLAG_MISSED \<noteq> 0 \<longrightarrow> r_flags r = PM_EVENT_FLAG_MISSED) \<Longrightarrow>
    bytes_at m base (concat (map host_record rs)) \<Longrightarrow> base + length (concat (map host_record rs)) \<le> valend \<Longrightarrow>
    check_records (length rs) base valend m = Some 0"
proof (induction rs arbitrary: base)
  case (Cons r rs)
  let ?P = "concat (map host_param (r_params r))"
  have r: "wf_record r" "length (host_record r) = 16 + length ?P" "base + 16 + length ?P \<le> valend" using Cons.prems by (auto simp: host_record_def)
  have l: "ld32 m (base + 8) = Some (r_flags r)" "ld32 m (base + 12) = Some (r_nparams r)" "bytes_at m (base + 16) ?P"
    using Cons.prems(3) by (simp_all add: bytes_at_append host_record_def bytes_at_ld32 add.assoc)
  have "check_params (event_nparams (r_flags r) (r_nparams r)) (base + 16) valend m = Some (Inr (base + 16 + length ?P))"
    using check_params_spec [OF _ l(3) r(3)] r(1) by (simp add: wf_record_def)
  moreover have "check_records (length rs) (base + 16 + length ?P) valend m = Some 0"
    using Cons r(2) by (intro Cons.IH) (auto simp: bytes_at_append add.assoc)
  ultimately show ?case using r(3) l Cons.prems(2) by auto
qed simp

lemma unpack_params_spec:
  "list_all2 param_rel xs ps \<Longrightarrow> list_all wf_atom xs \<Longrightarrow> \<forall>p \<in> set ps. length (host_param p) < 2 ^ 24 \<Longrightarrow> bytes_at m base (concat (map host_param ps)) \<Longrightarrow>
    \<exists>k'. unpack_params (\<lambda>_. True) (length ps) base m k = Some (k', Inr (base + length (concat (map host_param ps)), map unpacked xs))"
proof (induction xs ps arbitrary: base k rule: list_all2_induct)
  case (Cons x xs p ps)
  obtain pmid vtype avp where x: "x = (pmid, vtype, avp)" by (cases x)
  have "param_rel (pmid, vtype, avp) p" "wf_atom (pmid, vtype, avp)" "length (host_param p) < 2 ^ 24" using Cons.hyps(1) Cons.prems x by auto
  from param_facts [OF this] obtain src where f: "param_src vtype avp = Some (Inr src)" "p_pmid p = pmid" "vb_vtype (p_typelen p) = vtype" "vb_vlen (p_typelen p) = 4 + length src"
    "take (length src) (p_vbuf p) = src" "length (p_vbuf p) = PM_PDU_SIZE_BYTES (length src)" "value_size vtype \<le> length src" "length src \<le> length (p_vbuf p)"
    "param_size vtype (4 + length src) = Inr (if vtype \<in> {PM_TYPE_32, PM_TYPE_U32} then None else Some (int (length src)))" .
  have at: "ld32 m base = Some pmid" "ld32 m (base + 4) = Some (p_typelen p)" "bytes_at m (base + 8) (p_vbuf p)" "bytes_at m (base + length (host_param p)) (concat (map host_param ps))"
    using Cons.prems(3) f(2) by (simp_all add: bytes_at_append host_param_def [of p] bytes_at_ld32 add.assoc)
  have "p_vbuf p = src @ drop (length src) (p_vbuf p)" using f(5) by (metis append_take_drop_id)
  then have src: "bytes_at m (base + 8) src" using at(3) bytes_at_append by metis
  have nx: "base + 4 + PM_PDU_SIZE_BYTES (4 + length src) = base + length (host_param p)" using f(6) by (simp add: host_param_def round_header)
  have IH: "\<exists>k'. unpack_params (\<lambda>_. True) (length ps) (base + length (host_param p)) m k = Some (k', Inr (base + length (host_param p) + length (concat (map host_param ps)), map unpacked xs))" for k
    using Cons.IH [OF _ _ at(4)] Cons.prems by simp
  show ?case
  proof (cases "vtype \<in> {PM_TYPE_32, PM_TYPE_U32}")
    case True
    then have "length src = 4" using f(1,7) by (cases avp) (auto simp: param_src_def PM_TYPE_defs value_size_def)
    then have "ld32 m (base + 8) = Some (b2w src)" using src by (simp add: bytes_at_def ld32_def)
    then show ?thesis using IH [of "k + 1"] at f nx True by (auto simp: x unpacked_def Let_def add.assoc)
  next
    case False
    have "ld m (base + 8) (length src) = Some src" using src by (simp add: bytes_at_def)
    then show ?thesis using IH [of "k + 2"] at f nx False by (auto simp: x unpacked_def Let_def add.assoc add.commute)
  qed
qed simp

section \<open>From the agent to the client\<close>

definition value_bytes :: "u32 \<times> int \<times> atom \<Rightarrow> nat" where
  "value_bytes x = (case x of (pmid, vtype, avp) \<Rightarrow> case param_src vtype avp of Some (Inr src) \<Rightarrow> 8 + PM_PDU_SIZE_BYTES (length src) | _ \<Rightarrow> 0)"

fun event_bytes :: "ev \<Rightarrow> nat" where
  "event_bytes (Ev tp flags ps) = 16 + (\<Sum>p\<leftarrow>ps. value_bytes p)"
| "event_bytes (Lost tp n) = 16"

lemma length_params: "list_all2 param_rel xs ps \<Longrightarrow> length (concat (map host_param ps)) = (\<Sum>x\<leftarrow>xs. value_bytes x)"
  by (induction xs ps rule: list_all2_induct) (auto simp: param_rel_def value_bytes_def host_param_def)

lemma length_record: "ev_rel e r \<Longrightarrow> length (host_record r) = event_bytes e"
  by (cases e) (auto simp: host_record_def length_params)

lemma length_records: "list_all2 ev_rel es rs \<Longrightarrow> length (concat (map host_record rs)) = (\<Sum>e\<leftarrow>es. event_bytes e)"
  by (induction es rs rule: list_all2_induct) (auto simp: length_record)

lemma length_member: "x \<in> set xs \<Longrightarrow> length (f x) \<le> length (concat (map f xs))"
  by (induction xs) auto

lemma params_count: "length ps \<le> length (concat (map host_param ps))"
  by (induction ps) (auto simp: host_param_def)

text \<open>A packed record is well formed, and it is unpacked to the event.\<close>

lemma record_facts:
  assumes "ev_rel e r" "wf_ev e" "length (host_record r) < 2 ^ 24"
  shows "wf_record r" "r_flags r AND PM_EVENT_FLAG_MISSED \<noteq> 0 \<longrightarrow> r_flags r = PM_EVENT_FLAG_MISSED"
proof -
  have small: "length (host_param p) < 2 ^ 24" if "p \<in> set (r_params r)" for p
    using length_member [OF that, of host_param] assms(3) by (simp add: host_record_def)
  show "r_flags r AND PM_EVENT_FLAG_MISSED \<noteq> 0 \<longrightarrow> r_flags r = PM_EVENT_FLAG_MISSED" using assms(1,2) by (cases e) auto
  show "wf_record r"
  proof (cases e)
    case (Ev tp fl ps)
    have l: "list_all2 param_rel ps (r_params r)" "list_all wf_atom ps" using assms(1,2) Ev by auto
    have wf: "wf_param p" if "param_rel x p" "wf_atom x" "p \<in> set (r_params r)" for x p
    proof -
      obtain pmid vtype avp where x: "x = (pmid, vtype, avp)" by (cases x)
      from param_facts [OF that(1,2) [unfolded x] small [OF that(3)]] show ?thesis
        by (metis le_trans round_header wf_param_def)
    qed
    have "list_all wf_param (r_params r)" unfolding list_all_length using l wf by (metis list_all2_conv_all_nth list_all_length nth_mem)
    moreover have "length ps < 2 ^ 24"
    proof -
      have "length (r_params r) \<le> length (concat (map host_param (r_params r)))"
        by (rule params_count)
      then show ?thesis using assms(3) list_all2_lengthD [OF l(1)] by (simp add: host_record_def)
    qed
    ultimately show ?thesis using assms(1,2) Ev list_all2_lengthD [OF l(1)] by (simp add: wf_record_def event_nparams_def sint_length)
  next
    case (Lost tp n)
    then show ?thesis using assms(1) by (simp add: wf_record_def event_nparams_def PM_EVENT_FLAG_MISSED_def)
  qed
qed

lemma alloc_sets_True: "alloc_sets (\<lambda>_. True) n k"
  by (induction n arbitrary: k) simp_all

lemma sint_word_s32: "sint (word_of_int x :: u32) = s32 x"
  by (simp add: s32_def)

lemma unpack_record_spec:
  assumes "ev_rel e r" "wf_ev e" "length (host_record r) < 2 ^ 24" "bytes_at m base (host_record r)"
  shows "\<exists>k'. unpack_records anon (\<lambda>_. True) (Suc n) base m k =
    (case unpack_records anon (\<lambda>_. True) n (base + length (host_record r)) m k' of
       None \<Rightarrow> None | Some (Inl sts) \<Rightarrow> Some (Inl sts) | Some (Inr rs) \<Rightarrow> Some (Inr (event_result anon e # rs)))"
proof -
  let ?P = "concat (map host_param (r_params r))"
  have l: "ld32 m base = Some (r_sec r)" "ld32 m (base + 4) = Some (r_usec r)" "ld32 m (base + 8) = Some (r_flags r)" "ld32 m (base + 12) = Some (r_nparams r)"
    "bytes_at m (base + 16) ?P" "length (host_record r) = 16 + length ?P"
    using assms(4) by (simp_all add: host_record_def bytes_at_append bytes_at_ld32 add.assoc)
  have small: "\<forall>p \<in> set (r_params r). length (host_param p) < 2 ^ 24"
    using length_member [of _ "r_params r" host_param] assms(3) l(6) by fastforce
  show ?thesis
  proof (cases e)
    case (Ev tp fl ps)
    have r: "r_flags r = fl" "fl AND PM_EVENT_FLAG_MISSED = 0" "r_nparams r = word_of_nat (length ps)" "list_all2 param_rel ps (r_params r)" "list_all wf_atom ps"
      "r_sec r = word_of_int (fst tp)" "r_usec r = word_of_int (snd tp)" using assms(1,2) Ev by auto
    have "length (r_params r) \<le> length ?P" by (rule params_count)
    then have n: "length ps < 2 ^ 24" using assms(3) l(6) list_all2_lengthD [OF r(4)] by simp
    let ?x = "if fl = 0 then 0 else 1 :: nat"
    have x: "event_numpmid (r_flags r) (r_nparams r) = int (length ps + ?x)" "event_extras anon (r_flags r) (r_nparams r) = (if fl = 0 then [] else [one_value (fst anon) (Lval fl)])"
      using n r(1-3) by (simp_all add: event_numpmid_def event_extras_def sint_length is_int32_def)
    obtain k' where "unpack_params (\<lambda>_. True) (length (r_params r)) (base + 16) m (k + 1 + ?x) = Some (k', Inr (base + 16 + length ?P, map unpacked ps))"
      using unpack_params_spec [OF r(4,5) small l(5)] by blast
    then show ?thesis using l x r list_all2_lengthD [OF r(4)] Ev
      by (intro exI [of _ k']) (auto simp: Let_def alloc_sets_True sint_word_s32 add.assoc nat_add_distrib split: option.split sum.split)
  next
    case (Lost tp n)
    then have r: "r_flags r = PM_EVENT_FLAG_MISSED" "r_params r = []" "r_nparams r = n" "r_sec r = word_of_int (fst tp)" "r_usec r = word_of_int (snd tp)"
      using assms(1) by auto
    have x: "event_numpmid (r_flags r) (r_nparams r) = 2" "event_extras anon (r_flags r) (r_nparams r) = [one_value (fst anon) (Lval PM_EVENT_FLAG_MISSED), one_value (snd anon) (Lval n)]"
      using r by (simp_all add: event_numpmid_def event_extras_def PM_EVENT_FLAG_MISSED_def)
    show ?thesis using l x r Lost
      by (intro exI [of _ "k + 3"]) (auto simp: Let_def alloc_sets_True sint_word_s32 numeral_eq_Suc split: option.split sum.split)
  qed
qed

lemma unpack_records_spec:
  "list_all2 ev_rel es rs \<Longrightarrow> list_all wf_ev es \<Longrightarrow> length (concat (map host_record rs)) < 2 ^ 24 \<Longrightarrow> bytes_at m base (concat (map host_record rs)) \<Longrightarrow>
    unpack_records anon (\<lambda>_. True) (length rs) base m k = Some (Inr (map (event_result anon) es))"
proof (induction es rs arbitrary: base k rule: list_all2_induct)
  case (Cons e es r rs)
  have a: "wf_ev e" "length (host_record r) < 2 ^ 24" "bytes_at m base (host_record r)" using Cons.prems by (auto simp: bytes_at_append)
  obtain k' where k: "unpack_records anon (\<lambda>_. True) (Suc (length rs)) base m k =
    (case unpack_records anon (\<lambda>_. True) (length rs) (base + length (host_record r)) m k' of
       None \<Rightarrow> None | Some (Inl sts) \<Rightarrow> Some (Inl sts) | Some (Inr rs) \<Rightarrow> Some (Inr (event_result anon e # rs)))"
    using unpack_record_spec [OF Cons.hyps(1) a] by blast
  show ?case using Cons.IH [of "base + length (host_record r)" k'] Cons.prems k by (simp add: bytes_at_append del: unpack_records.simps)
qed simp

lemma free_buf_le: "free_buf bs \<le> length bs"
  by (induction bs) auto

lemma new_array_holds:
  assumes "grows grow"
  shows "\<exists>i bufs'. pmdaEventNewArray grow True bufs = Some (i, bufs') \<and> holds i bufs' []"
proof -
  let ?i = "free_buf bufs"
  let ?bs = "if ?i = length bufs then bufs @ [new_buf] else bufs[?i := new_buf]"
  have i: "?i < length ?bs" "?bs ! ?i = new_buf" using free_buf_le [of bufs] by auto
  obtain b where b: "reset_buf grow new_buf = Some (0, b)" "packs b []" using new_buf_packs [OF assms] by blast
  then have "pmdaEventResetArray grow (int ?i) ?bs = Some (0, ?bs[?i := b])"
    using i by (simp add: pmdaEventResetArray_def with_buf_def new_buf_def)
  then show ?thesis using b(2) i by (intro exI [of _ "int ?i"] exI [of _ "?bs[?i := b]"]) (simp add: pmdaEventNewArray_def Let_def holds_def)
qed

text \<open>The array that a buffer gives away.\<close>

lemma get_addr_packs:
  assumes "packs b rs"
  shows "\<exists>m. get_addr b = Some m \<and> bytes_at m 0 (host_block (Events (typelen PM_TYPE_EVENT (8 + length (concat (map host_record rs)))) rs))"
proof -
  obtain m where m: "eb_mem b = Some m" "bytes_at m 4 (w2b (word_of_nat (length rs)) @ concat (map host_record rs))" "eb_bptr b = 8 + length (concat (map host_record rs))"
    using assms by (auto simp: packs_def)
  have l: "4 \<le> length m" using m(2) by (auto dest: bytes_at_bound)
  show ?thesis using m l by (intro exI [of _ "upd m 0 (w2b (typelen PM_TYPE_EVENT (eb_bptr b)))"])
    (simp add: get_addr_def st32_Some bytes_at_append bytes_at_upd_other)
qed

lemma records_count: "length rs \<le> length (concat (map host_record rs))"
  by (induction rs) (auto simp: host_record_def)

lemma records_facts:
  assumes "list_all2 ev_rel es rs" "list_all wf_ev es" "length (concat (map host_record rs)) < 2 ^ 24"
  shows "list_all wf_record rs" "\<forall>r \<in> set rs. r_flags r AND PM_EVENT_FLAG_MISSED \<noteq> 0 \<longrightarrow> r_flags r = PM_EVENT_FLAG_MISSED"
proof -
  have "wf_record r \<and> (r_flags r AND PM_EVENT_FLAG_MISSED \<noteq> 0 \<longrightarrow> r_flags r = PM_EVENT_FLAG_MISSED)" if r: "r \<in> set rs" for r
  proof -
    obtain e where "ev_rel e r" "wf_ev e" using r assms(1,2) by (metis in_set_conv_nth list_all2_conv_all_nth list_all_length)
    moreover have "length (host_record r) < 2 ^ 24" using length_member [OF r, of host_record] assms(3) by linarith
    ultimately show ?thesis using record_facts by blast
  qed
  then show "list_all wf_record rs" "\<forall>r \<in> set rs. r_flags r AND PM_EVENT_FLAG_MISSED \<noteq> 0 \<longrightarrow> r_flags r = PM_EVENT_FLAG_MISSED"
    by (auto simp: list_all_iff)
qed

text \<open>
  C8: Events that an agent packs are what a client unpacks. A new array is made, and any sequence of
  events with parameters and records of missed events is added to it; if the sum of their sizes fits the
  length field of 24 bits, every call returns zero, the array survives the change to network byte order
  and back, the client's check accepts it, and unpacking gives one result for each event in order,
  with its time, its flags or its count of missed events, and its parameters with the same types and bytes.
\<close>

theorem events_roundtrip:
  assumes "grows grow" "list_all wf_ev evs" "8 + (\<Sum>e\<leftarrow>evs. event_bytes e) < 2 ^ 24"
  shows "\<exists>i bufs1 bufs2 m. pmdaEventNewArray grow True bufs = Some (i, bufs1) \<and> pack_evs grow i evs bufs1 = Some (0, bufs2) \<and>
    pmdaEventGetAddr i bufs2 = Some (Some m) \<and> do { n \<leftarrow> pm_htonpmValueBlock 0 m; pm_ntohpmValueBlock 0 n } = Some m \<and>
    pmCheckEventRecords 1 PM_VAL_DPTR m = Some 0 \<and>
    pmUnpackEventRecords (Inr anon) (\<lambda>_. True) 1 PM_VAL_DPTR m = Some (Inr (map (event_result anon) evs))"
proof -
  obtain i bufs1 where 1: "pmdaEventNewArray grow True bufs = Some (i, bufs1)" "holds i bufs1 []" using new_array_holds [OF assms(1)] by blast
  obtain bufs2 rs where 2: "pack_evs grow i evs bufs1 = Some (0, bufs2)" "list_all2 ev_rel evs rs" "holds i bufs2 rs"
    using pack_evs_holds [OF assms(1,2) 1(2)] by auto
  let ?len = "8 + length (concat (map host_record rs))"
  let ?w = "typelen PM_TYPE_EVENT ?len"
  have p: "packs (bufs2 ! nat i) rs" "0 \<le> i" "i < int (length bufs2)" using 2(3) by (simp_all add: holds_def)
  obtain m where m: "get_addr (bufs2 ! nat i) = Some m" "bytes_at m 0 (host_block (Events ?w rs))" using get_addr_packs [OF p(1)] by blast
  have 3: "pmdaEventGetAddr i bufs2 = Some (Some m)" using p m(1) by (auto simp: pmdaEventGetAddr_def packs_def)
  have small: "?len < 2 ^ 24" using assms(3) length_records [OF 2(2)] by simp
  then have w: "vb_vtype ?w = PM_TYPE_EVENT" "vb_vlen ?w = ?len" by (intro typelen_facts; simp add: PM_TYPE_defs)+
  have n: "length rs < 2 ^ 24" using records_count [of rs] small by linarith
  have f: "list_all wf_record rs" "\<forall>r \<in> set rs. r_flags r AND PM_EVENT_FLAG_MISSED \<noteq> 0 \<longrightarrow> r_flags r = PM_EVENT_FLAG_MISSED"
    using records_facts [OF 2(2) assms(2)] small by simp_all
  have "wf_block (Events ?w rs)" using w f(1) n by simp
  then have 4: "do { n \<leftarrow> pm_htonpmValueBlock 0 m; pm_ntohpmValueBlock 0 n } = Some m" using value_block_restored [OF m(2)] by simp
  have l: "ld32 m 0 = Some ?w" "ld32 m 4 = Some (word_of_nat (length rs))" "bytes_at m 8 (concat (map host_record rs))"
    using m(2) by (simp_all add: bytes_at_append bytes_at_ld32)
  have 5: "pmCheckEventRecords 1 PM_VAL_DPTR m = Some 0"
    using l w n check_records_spec [OF f l(3), of ?len] by (simp add: pmCheckEventRecords_def sint_length)
  have "sint (word_of_nat (length rs) :: u32) = int (length rs)" using n by (intro sint_length) simp
  then have z: "rs = [] \<or> (word_of_nat (length rs) :: u32) \<noteq> 0" by auto
  have "pmUnpackEventRecords (Inr anon) (\<lambda>_. True) 1 PM_VAL_DPTR m = Some (Inr (map (event_result anon) evs))"
    using 5 l n z unpack_records_spec [OF 2(2) assms(2) _ l(3), of anon 1] small list_all2_lengthD [OF 2(2)]
    by (cases "rs = []") (auto simp: pmUnpackEventRecords_def sint_length)
  then show ?thesis using 1 2 3 4 5 by blast
qed

definition zero_fill :: grow where
  "zero_fill n = Some (replicate n 0)"

definition sample_evs :: "ev list" where
  "sample_evs = [Ev (10, 20) 1 [(7, PM_TYPE_U32, Number [1, 2, 3, 4, 0, 0, 0, 0]), (8, PM_TYPE_STRING, Text [104, 105])], Lost (11, 0) 3]"

lemma grows_zero_fill: "grows zero_fill"
  by (simp add: grows_def zero_fill_def)

lemma sample_evs_facts: "list_all wf_ev sample_evs" "8 + (\<Sum>e\<leftarrow>sample_evs. event_bytes e) < 2 ^ 24"
  by (simp_all add: sample_evs_def PM_EVENT_FLAG_MISSED_def PM_TYPE_defs value_bytes_def param_src_def PM_PDU_SIZE_BYTES_def PM_PDU_SIZE_def)

theorem events_roundtrip_witness:
  "grows zero_fill \<and> list_all wf_ev sample_evs \<and> (\<exists>i bufs1 bufs2 m. pmdaEventNewArray zero_fill True [] = Some (i, bufs1) \<and> pack_evs zero_fill i sample_evs bufs1 = Some (0, bufs2) \<and>
    pmdaEventGetAddr i bufs2 = Some (Some m) \<and> do { n \<leftarrow> pm_htonpmValueBlock 0 m; pm_ntohpmValueBlock 0 n } = Some m \<and>
    pmCheckEventRecords 1 PM_VAL_DPTR m = Some 0 \<and>
    pmUnpackEventRecords (Inr (1, 2)) (\<lambda>_. True) 1 PM_VAL_DPTR m = Some (Inr (map (event_result (1, 2)) sample_evs)))"
  using events_roundtrip [OF grows_zero_fill sample_evs_facts, of "[]" "(1, 2)"] grows_zero_fill sample_evs_facts(1) by blast

theorem events_check_safe_witness:
  "pmCheckEventRecords 1 PM_VAL_DPTR [8, 0, 0, 9, 1, 0, 0, 0] = Some PM_ERR_TOOBIG \<and>
   (\<exists>sts. pmCheckEventRecords 1 PM_VAL_DPTR [8, 0, 0, 9, 1, 0, 0, 0] = Some sts)"
proof -
  have l: "ld32 [8, 0, 0, 9, 1, 0, 0, 0] 0 = Some 0x09000008" "ld32 [8, 0, 0, 9, 1, 0, 0, 0] 4 = Some 1" by code_simp+
  have w: "vb_vlen 0x09000008 = 8" "vb_vtype 0x09000008 = PM_TYPE_EVENT" by code_simp+
  have "pmCheckEventRecords 1 PM_VAL_DPTR [8, 0, 0, 9, 1, 0, 0, 0] = Some PM_ERR_TOOBIG" using l w by (simp add: pmCheckEventRecords_def)
  then show ?thesis using events_check_safe [of "[8, 0, 0, 9, 1, 0, 0, 0]" 1 PM_VAL_DPTR] l w by simp
qed

section \<open>A parameter shorter than its type\<close>

definition short_param :: "int \<Rightarrow> nat \<Rightarrow> mem" where
  "short_param t len = w2b (typelen PM_TYPE_EVENT 32) @ w2b 1 @ w2b 0 @ w2b 0 @ w2b 0 @ w2b 1 @ w2b 7 @ w2b (typelen t len)"

lemma short_param_loads:
  assumes "m = short_param t len"
  shows "ld32 m 0 = Some (typelen PM_TYPE_EVENT 32)" "ld32 m 4 = Some 1" "ld32 m 8 = Some 0" "ld32 m 12 = Some 0" "ld32 m 16 = Some 0" "ld32 m 20 = Some 1"
    "ld32 m 24 = Some 7" "ld32 m 28 = Some (typelen t len)" "length m = 32"
proof -
  have "bytes_at m 0 (short_param t len)" using assms by (simp add: bytes_at_def ld_def)
  then show "ld32 m 0 = Some (typelen PM_TYPE_EVENT 32)" "ld32 m 4 = Some 1" "ld32 m 8 = Some 0" "ld32 m 12 = Some 0" "ld32 m 16 = Some 0" "ld32 m 20 = Some 1"
    "ld32 m 24 = Some 7" "ld32 m 28 = Some (typelen t len)"
    unfolding short_param_def by (simp_all add: bytes_at_append bytes_at_ld32)
  show "length m = 32" using assms by (simp add: short_param_def)
qed

text \<open>
  C36: The check does not compare the length of a parameter with its type. An array of 32 bytes with
  one parameter that has a number for its type and no value, or a string whose length does not even count the header
  of the value, is accepted; unpacking it then copies bytes from behind the array, or a negative number of bytes.
\<close>

theorem events_unpack_overread:
  assumes "t \<in> {PM_TYPE_32, PM_TYPE_U32, PM_TYPE_64, PM_TYPE_U64, PM_TYPE_FLOAT, PM_TYPE_DOUBLE} \<and> len = 4 \<or> t \<in> {PM_TYPE_STRING, PM_TYPE_AGGREGATE} \<and> len = 0"
  shows "pmCheckEventRecords 1 PM_VAL_DPTR (short_param t len) = Some 0 \<and>
    pmUnpackEventRecords (Inr anon) (\<lambda>_. True) 1 PM_VAL_DPTR (short_param t len) = None"
proof -
  define m where "m = short_param t len"
  note l = short_param_loads [OF m_def]
  have t: "0 \<le> t" "t < 256" "len < 2 ^ 24" using assms by (auto simp: PM_TYPE_defs)
  have w: "vb_vtype (typelen PM_TYPE_EVENT 32) = PM_TYPE_EVENT" "vb_vlen (typelen PM_TYPE_EVENT 32) = 32" by (intro typelen_facts; simp add: PM_TYPE_defs)+
  note tl = typelen_facts [OF t]
  have np: "event_nparams 0 1 = 1" "event_numpmid 0 1 = 1" "event_extras anon 0 1 = []" by (simp_all add: event_nparams_def event_numpmid_def event_extras_def)
  have s: "PM_PDU_SIZE_BYTES len = len" "len \<le> 4" using assms by (auto simp: PM_PDU_SIZE_BYTES_def PM_PDU_SIZE_def)
  have "check_params (Suc 0) 24 32 m = Some (Inr (28 + len))" using l tl s by simp
  then have "check_records (Suc 0) 8 32 m = Some 0" using l np by simp
  then have c: "pmCheckEventRecords 1 PM_VAL_DPTR m = Some 0" using l w by (simp add: pmCheckEventRecords_def)
  have past: "ld32 m 32 = None" "ld m 32 8 = None" "ld m 32 4 = None" using l(9) by (simp_all add: ld32_None_iff ld_def)
  have "unpack_params (\<lambda>_. True) (Suc 0) 24 m 2 = None"
    using l(7,8) tl assms by (auto simp: param_size_def PM_TYPE_defs Let_def past)
  then have "unpack_records anon (\<lambda>_. True) (Suc 0) 8 m 1 = None" using l np by (simp add: Let_def numeral_2_eq_2)
  then show ?thesis using c l unfolding m_def [symmetric] by (simp add: pmUnpackEventRecords_def)
qed

theorem events_unpack_overread_witness:
  "pmCheckEventRecords 1 PM_VAL_DPTR (short_param PM_TYPE_U64 4) = Some 0 \<and>
   pmUnpackEventRecords (Inr (1, 2)) (\<lambda>_. True) 1 PM_VAL_DPTR (short_param PM_TYPE_U64 4) = None"
  using events_unpack_overread [of PM_TYPE_U64 4 "(1, 2)"] by simp

end
