(* ===== verification/Values.thy ===== *)
theory Values
  imports Events
begin

text \<open>
  Values of metrics: \<open>__pmStuffValue\<close> of \<^verbatim>\<open>stuffvalue.c\<close> puts an atomic value into the form that results
  have, and \<open>pmExtractValue\<close> of \<^verbatim>\<open>units.c\<close> takes it out and converts it to another type. Floating point
  numbers are their bits, with the formats of IEEE 754, rounding to the nearest and the treatment of
  NaN of x86 processors. A conversion to an integer type that cannot hold the truncated number is undefined
  in C, and so it is \<^const>\<open>None\<close>. The cast of an unsigned 64-bit number to floating point is taken to
  be supported by the compiler.
\<close>

section \<open>Floating point\<close>

text \<open>A number is a sign, a mantissa and an exponent of two.\<close>

datatype fp = NaN bool nat | Infinity bool | Finite bool nat int

definition fl_bias :: "nat \<Rightarrow> int" where
  "fl_bias eb = 2 ^ (eb - 1) - 1"

definition fl_bits :: "nat \<Rightarrow> nat \<Rightarrow> bool \<Rightarrow> nat \<Rightarrow> nat" where
  "fl_bits fb eb s x = (if s then 2 ^ (fb + eb) else 0) + x"

definition fl_decode :: "nat \<Rightarrow> nat \<Rightarrow> nat \<Rightarrow> fp" where
  "fl_decode fb eb w = (
     let f = w mod 2 ^ fb; e = w div 2 ^ fb mod 2 ^ eb; s = odd (w div 2 ^ (fb + eb)) in
     if e = 2 ^ eb - 1 then (if f = 0 then Infinity s else NaN s f)
     else if e = 0 then Finite s f (1 - fl_bias eb - int fb)
     else Finite s (2 ^ fb + f) (int e - fl_bias eb - int fb))"

fun nbits :: "nat \<Rightarrow> nat" where
  "nbits n = (if n = 0 then 0 else Suc (nbits (n div 2)))"

declare nbits.simps [simp del]

definition half_even :: "nat \<Rightarrow> nat \<Rightarrow> nat" where
  "half_even m d = (
     let q = m div 2 ^ d; r = m mod 2 ^ d in
     if 2 * r > 2 ^ d \<or> 2 * r = 2 ^ d \<and> odd q then q + 1 else q)"

text \<open>The bits of the number nearest to \<open>m * 2 ^ e\<close>; a mantissa that is rounded up to the next power of two carries into the exponent.\<close>

definition fl_round :: "nat \<Rightarrow> nat \<Rightarrow> bool \<Rightarrow> nat \<Rightarrow> int \<Rightarrow> nat" where
  "fl_round fb eb s m e = (
     let qmin = 1 - fl_bias eb - int fb;
         q = max (e + int (nbits m) - int fb - 1) qmin;
         m' = (if q \<le> e then m * 2 ^ nat (e - q) else half_even m (nat (q - e)))
     in fl_bits fb eb s (if m = 0 then 0 else min (nat (q - qmin) * 2 ^ fb + m') ((2 ^ eb - 1) * 2 ^ fb)))"

definition fl_of_int :: "nat \<Rightarrow> nat \<Rightarrow> int \<Rightarrow> nat" where
  "fl_of_int fb eb n = fl_round fb eb (n < 0) (nat \<bar>n\<bar>) 0"

text \<open>From one format to another; a NaN becomes quiet and keeps what fits of its payload.\<close>

definition fl_conv :: "nat \<Rightarrow> nat \<Rightarrow> nat \<Rightarrow> nat \<Rightarrow> nat \<Rightarrow> nat" where
  "fl_conv fb eb fb' eb' w = (case fl_decode fb eb w of
       NaN s f \<Rightarrow> fl_bits fb' eb' s ((2 ^ eb' - 1) * 2 ^ fb' + (2 ^ (fb' - 1) OR (f * 2 ^ fb' div 2 ^ fb)))
     | Infinity s \<Rightarrow> fl_bits fb' eb' s ((2 ^ eb' - 1) * 2 ^ fb')
     | Finite s m e \<Rightarrow> fl_round fb' eb' s m e)"

definition fl_int :: "bool \<Rightarrow> nat \<Rightarrow> int" where
  "fl_int s m = (if s then - int m else int m)"

fun fl_less :: "fp \<Rightarrow> fp \<Rightarrow> bool" where
  "fl_less (NaN _ _) _ = False"
| "fl_less _ (NaN _ _) = False"
| "fl_less (Infinity s) (Infinity s') \<longleftrightarrow> s \<and> \<not> s'"
| "fl_less (Infinity s) (Finite _ _ _) = s"
| "fl_less (Finite _ _ _) (Infinity s) = (\<not> s)"
| "fl_less (Finite s m e) (Finite s' m' e') \<longleftrightarrow>
     fl_int s m * 2 ^ nat (e - min e e') < fl_int s' m' * 2 ^ nat (e' - min e e')"

fun fl_is_nan :: "fp \<Rightarrow> bool" where
  "fl_is_nan (NaN _ _) = True"
| "fl_is_nan _ = False"

definition fl_ge :: "fp \<Rightarrow> fp \<Rightarrow> bool" where
  "fl_ge x y \<longleftrightarrow> \<not> fl_is_nan x \<and> \<not> fl_is_nan y \<and> \<not> fl_less x y"

fun fl_neg :: "fp \<Rightarrow> fp" where
  "fl_neg (NaN s f) = NaN (\<not> s) f"
| "fl_neg (Infinity s) = Infinity (\<not> s)"
| "fl_neg (Finite s m e) = Finite (\<not> s) m e"

definition fl_zero :: fp where
  "fl_zero = Finite False 0 0"

definition fl_ABS :: "fp \<Rightarrow> fp" where
  "fl_ABS x = (if fl_less x fl_zero then fl_neg x else x)"

text \<open>The cast to an integer type with a given range drops the fraction.\<close>

fun fl_trunc :: "fp \<Rightarrow> int option" where
  "fl_trunc (Finite s m e) = Some (fl_int s (if e \<ge> 0 then m * 2 ^ nat e else m div 2 ^ nat (- e)))"
| "fl_trunc _ = None"

definition fl_cast :: "int \<Rightarrow> int \<Rightarrow> fp \<Rightarrow> int option" where
  "fl_cast lo hi x = do { n \<leftarrow> fl_trunc x; if lo \<le> n \<and> n \<le> hi then Some n else None }"

section \<open>Atomic values\<close>

type_synonym qword = "64 word"

definition PM_TYPE_UNKNOWN :: int where "PM_TYPE_UNKNOWN = 255"
definition PM_ERR_TRUNC :: int where "PM_ERR_TRUNC = - PM_ERR_BASE2 - 18"
definition PM_ERR_SIGN :: int where "PM_ERR_SIGN = - PM_ERR_BASE2 - 19"

lemmas conv_errors = PM_ERR_TRUNC_def PM_ERR_SIGN_def PM_ERR_CONV_def PM_ERR_BASE2_def

text \<open>The union, with the member that was assigned last.\<close>

datatype pmAtomValue = A_l u32 | A_ul u32 | A_ll qword | A_ull qword | A_f u32 | A_d qword | A_cp mem | A_vbp mem

definition q2b :: "qword \<Rightarrow> byte list" where
  "q2b w = w2b (ucast w) @ w2b (ucast (drop_bit 32 w))"

definition b2q :: "byte list \<Rightarrow> qword" where
  "b2q bs = ucast (b2w (take 4 bs)) OR push_bit 32 (ucast (b2w (drop 4 bs)))"

definition ld64 :: "mem \<Rightarrow> nat \<Rightarrow> qword option" where
  "ld64 m a = do { bs \<leftarrow> ld m a 8; Some (b2q bs) }"

fun pm_strlen :: "mem \<Rightarrow> nat option" where
  "pm_strlen [] = None"
| "pm_strlen (c # cs) = (if c = 0 then Some 0 else do { n \<leftarrow> pm_strlen cs; Some (Suc n) })"

section \<open>Stuffing\<close>

text \<open>The bytes to be copied for a type, as they are read from the union; no bytes for a type whose value is not copied.\<close>

fun atom32 :: "pmAtomValue \<Rightarrow> u32 option" where
  "atom32 (A_l w) = Some w"
| "atom32 (A_ul w) = Some w"
| "atom32 (A_f w) = Some w"
| "atom32 _ = None"

fun atom64 :: "pmAtomValue \<Rightarrow> qword option" where
  "atom64 (A_ll w) = Some w"
| "atom64 (A_ull w) = Some w"
| "atom64 (A_d w) = Some w"
| "atom64 _ = None"

fun atom_cp :: "pmAtomValue \<Rightarrow> mem option" where
  "atom_cp (A_cp m) = Some m"
| "atom_cp _ = None"

fun atom_vbp :: "pmAtomValue \<Rightarrow> mem option" where
  "atom_vbp (A_vbp m) = Some m"
| "atom_vbp _ = None"

definition stuff_src :: "int \<Rightarrow> pmAtomValue \<Rightarrow> byte list option" where
  "stuff_src type avp = (
     if type = PM_TYPE_FLOAT then do { w \<leftarrow> atom32 avp; Some (w2b w) }
     else if type \<in> {PM_TYPE_64, PM_TYPE_U64, PM_TYPE_DOUBLE} then do { w \<leftarrow> atom64 avp; Some (q2b w) }
     else if type = PM_TYPE_AGGREGATE then do {
       m \<leftarrow> atom_vbp avp;
       w \<leftarrow> ld32 m 0;
       if vb_vlen w < 4 then None else ld m 4 (vb_vlen w - 4)
     }
     else do { m \<leftarrow> atom_cp avp; n \<leftarrow> pm_strlen m; Some (take (n + 1) m) })"

definition pmStuffValue :: "grow \<Rightarrow> pmAtomValue \<Rightarrow> int \<Rightarrow> (int \<times> mem pmvalue option) option" where
  "pmStuffValue malloc avp type = (
     if type \<in> {PM_TYPE_32, PM_TYPE_U32} then do { w \<leftarrow> atom32 avp; Some (PM_VAL_INSITU, Some (Lval w)) }
     else if type \<in> {PM_TYPE_AGGREGATE_STATIC, PM_TYPE_EVENT} then do { m \<leftarrow> atom_vbp avp; Some (PM_VAL_SPTR, Some (Pval m)) }
     else if type \<notin> {PM_TYPE_FLOAT, PM_TYPE_64, PM_TYPE_U64, PM_TYPE_DOUBLE, PM_TYPE_AGGREGATE, PM_TYPE_STRING} then Some (PM_ERR_TYPE, None)
     else do {
       src \<leftarrow> stuff_src type avp;
       let need = length src + 4;
       case malloc (if need < 8 then 8 else need) of
         None \<Rightarrow> Some (- ENOMEM, None)
       | Some js \<Rightarrow> Some (PM_VAL_DPTR, Some (Pval (w2b (typelen type need) @ src @ drop need js)))
     })"

section \<open>Extracting\<close>

definition from_32 :: "u32 \<Rightarrow> int \<Rightarrow> int + pmAtomValue" where
  "from_32 w otype = (
     if otype = PM_TYPE_32 then Inr (A_l w)
     else if otype = PM_TYPE_U32 then (if sint w < 0 then Inl PM_ERR_SIGN else Inr (A_ul w))
     else if otype = PM_TYPE_64 then Inr (A_ll (word_of_int (sint w)))
     else if otype = PM_TYPE_U64 then (if sint w < 0 then Inl PM_ERR_SIGN else Inr (A_ull (word_of_int (sint w))))
     else if otype = PM_TYPE_FLOAT then Inr (A_f (word_of_nat (fl_of_int 23 8 (sint w))))
     else if otype = PM_TYPE_DOUBLE then Inr (A_d (word_of_nat (fl_of_int 52 11 (sint w))))
     else Inl PM_ERR_CONV)"

definition from_u32 :: "u32 \<Rightarrow> int \<Rightarrow> int + pmAtomValue" where
  "from_u32 w otype = (
     if otype = PM_TYPE_32 then (if uint w > 0x7fffffff then Inl PM_ERR_TRUNC else Inr (A_l w))
     else if otype = PM_TYPE_U32 then Inr (A_ul w)
     else if otype = PM_TYPE_64 then Inr (A_ll (ucast w))
     else if otype = PM_TYPE_U64 then Inr (A_ull (ucast w))
     else if otype = PM_TYPE_FLOAT then Inr (A_f (word_of_nat (fl_of_int 23 8 (uint w))))
     else if otype = PM_TYPE_DOUBLE then Inr (A_d (word_of_nat (fl_of_int 52 11 (uint w))))
     else Inl PM_ERR_CONV)"

text \<open>Conversion from a floating point format: the limits are the constants of the code, rounded to this format.\<close>

definition from_fp :: "nat \<Rightarrow> nat \<Rightarrow> nat \<Rightarrow> int \<Rightarrow> pmAtomValue c_result" where
  "from_fp fb eb w otype = (
     let x = fl_decode fb eb w; lim = (\<lambda>n. fl_decode fb eb (fl_of_int fb eb n)) in
     if otype = PM_TYPE_32 then
       if fl_ge (fl_ABS x) (lim 0x7fffffff) then Some (Inl PM_ERR_TRUNC)
       else do { n \<leftarrow> fl_cast (- (2 ^ 31)) (2 ^ 31 - 1) x; Some (Inr (A_l (word_of_int n))) }
     else if otype = PM_TYPE_U32 then
       if fl_ge x (lim 0xffffffff) then Some (Inl PM_ERR_TRUNC)
       else if fl_less x fl_zero then Some (Inl PM_ERR_SIGN)
       else do { n \<leftarrow> fl_cast 0 (2 ^ 32 - 1) x; Some (Inr (A_ul (word_of_int n))) }
     else if otype = PM_TYPE_64 then
       if fl_ge x (lim 0x7fffffffffffffff) then Some (Inl PM_ERR_TRUNC)
       else do { n \<leftarrow> fl_cast (- (2 ^ 63)) (2 ^ 63 - 1) x; Some (Inr (A_ll (word_of_int n))) }
     else if otype = PM_TYPE_U64 then
       if fl_ge x (lim 0xffffffffffffffff) then Some (Inl PM_ERR_TRUNC)
       else if fl_less x fl_zero then Some (Inl PM_ERR_SIGN)
       else do { n \<leftarrow> fl_cast 0 (2 ^ 64 - 1) x; Some (Inr (A_ull (word_of_int n))) }
     else if otype = PM_TYPE_FLOAT then Some (Inr (A_f (word_of_nat (if fb = 23 then w else fl_conv fb eb 23 8 w))))
     else if otype = PM_TYPE_DOUBLE then Some (Inr (A_d (word_of_nat (if fb = 52 then w else fl_conv fb eb 52 11 w))))
     else Some (Inl PM_ERR_CONV))"

definition from_float :: "u32 \<Rightarrow> int \<Rightarrow> pmAtomValue c_result" where
  "from_float w otype = from_fp 23 8 (unat w) otype"

definition from_double :: "qword \<Rightarrow> int \<Rightarrow> pmAtomValue c_result" where
  "from_double w otype = from_fp 52 11 (unat w) otype"

definition from_64 :: "qword \<Rightarrow> int \<Rightarrow> int + pmAtomValue" where
  "from_64 src otype = (
     if otype = PM_TYPE_32 then (if sint src > 0x7fffffff then Inl PM_ERR_TRUNC else Inr (A_l (ucast src)))
     else if otype = PM_TYPE_U32 then
       (if sint src > 0xffffffff then Inl PM_ERR_TRUNC else if sint src < 0 then Inl PM_ERR_SIGN else Inr (A_ul (ucast src)))
     else if otype = PM_TYPE_64 then Inr (A_ll src)
     else if otype = PM_TYPE_U64 then (if sint src < 0 then Inl PM_ERR_SIGN else Inr (A_ull src))
     else if otype = PM_TYPE_FLOAT then Inr (A_f (word_of_nat (fl_of_int 23 8 (sint src))))
     else if otype = PM_TYPE_DOUBLE then Inr (A_d (word_of_nat (fl_of_int 52 11 (sint src))))
     else Inl PM_ERR_CONV)"

definition from_u64 :: "qword \<Rightarrow> int \<Rightarrow> int + pmAtomValue" where
  "from_u64 usrc otype = (
     if otype = PM_TYPE_32 then (if uint usrc > 0x7fffffff then Inl PM_ERR_TRUNC else Inr (A_l (ucast usrc)))
     else if otype = PM_TYPE_U32 then (if uint usrc > 0xffffffff then Inl PM_ERR_TRUNC else Inr (A_ul (ucast usrc)))
     else if otype = PM_TYPE_64 then (if uint usrc > 0x7fffffffffffffff then Inl PM_ERR_TRUNC else Inr (A_ll usrc))
     else if otype = PM_TYPE_U64 then Inr (A_ull usrc)
     else if otype = PM_TYPE_FLOAT then Inr (A_f (word_of_nat (fl_of_int 23 8 (uint usrc))))
     else if otype = PM_TYPE_DOUBLE then Inr (A_d (word_of_nat (fl_of_int 52 11 (uint usrc))))
     else Inl PM_ERR_CONV)"

definition extract_insitu :: "u32 \<Rightarrow> int \<Rightarrow> int \<Rightarrow> pmAtomValue c_result" where
  "extract_insitu av itype otype = (
     if itype \<in> {PM_TYPE_32, PM_TYPE_UNKNOWN} then Some (from_32 av otype)
     else if itype = PM_TYPE_U32 then Some (from_u32 av otype)
     else if itype = PM_TYPE_FLOAT then from_float av otype
     else Some (Inl PM_ERR_CONV))"

definition block_ok :: "u32 \<Rightarrow> nat \<Rightarrow> int \<Rightarrow> bool" where
  "block_ok w body type \<longleftrightarrow> vb_vlen w = 4 + body \<and> (vb_vtype w = type \<or> vb_vtype w = 0)"

text \<open>
  A string is copied with a terminator behind it. A block shorter than its header makes the length
  negative, and the process is stopped for lack of memory or copies a negative number of bytes.
\<close>

definition extract_string :: "mem \<Rightarrow> int \<Rightarrow> pmAtomValue c_result" where
  "extract_string m otype = do {
     w \<leftarrow> ld32 m 0;
     if vb_vtype w \<noteq> PM_TYPE_STRING \<and> vb_vtype w \<noteq> 0 then Some (Inl PM_ERR_CONV)
     else if otype \<noteq> PM_TYPE_STRING then Some (Inl PM_ERR_CONV)
     else if vb_vlen w < 4 then None
     else do { bs \<leftarrow> ld m 4 (vb_vlen w - 4); Some (Inr (A_cp (bs @ [0]))) }
   }"

definition extract_aggregate :: "mem \<Rightarrow> int \<Rightarrow> pmAtomValue c_result" where
  "extract_aggregate m otype = do {
     w \<leftarrow> ld32 m 0;
     if vb_vtype w \<noteq> PM_TYPE_AGGREGATE \<and> vb_vtype w \<noteq> 0 then Some (Inl PM_ERR_CONV)
     else if otype \<noteq> PM_TYPE_AGGREGATE then Some (Inl PM_ERR_CONV)
     else do { bs \<leftarrow> ld m 0 (vb_vlen w); Some (Inr (A_vbp bs)) }
   }"

definition extract_64 :: "mem \<Rightarrow> int \<Rightarrow> int \<Rightarrow> pmAtomValue c_result" where
  "extract_64 m itype otype = do {
     w \<leftarrow> ld32 m 0;
     if \<not> block_ok w 8 itype then Some (Inl PM_ERR_CONV)
     else do {
       src \<leftarrow> ld64 m 4;
       if itype = PM_TYPE_64 then Some (from_64 src otype)
       else if itype = PM_TYPE_U64 then Some (from_u64 src otype)
       else from_double src otype
     }
   }"

definition extract_float :: "mem \<Rightarrow> int \<Rightarrow> pmAtomValue c_result" where
  "extract_float m otype = do {
     w \<leftarrow> ld32 m 0;
     if \<not> block_ok w 4 PM_TYPE_FLOAT then Some (Inl PM_ERR_CONV)
     else do { src \<leftarrow> ld32 m 4; from_float src otype }
   }"

definition extract_block :: "mem \<Rightarrow> int \<Rightarrow> int \<Rightarrow> pmAtomValue c_result" where
  "extract_block m itype otype = (
     if itype \<in> {PM_TYPE_64, PM_TYPE_U64, PM_TYPE_DOUBLE} then extract_64 m itype otype
     else if itype = PM_TYPE_FLOAT then extract_float m otype
     else if itype = PM_TYPE_STRING then extract_string m otype
     else if itype = PM_TYPE_AGGREGATE then extract_aggregate m otype
     else Some (Inl PM_ERR_CONV))"

definition pmExtractValue :: "int \<Rightarrow> mem pmvalue \<Rightarrow> int \<Rightarrow> int \<Rightarrow> pmAtomValue c_result" where
  "pmExtractValue valfmt ival itype otype = (
     if valfmt = PM_VAL_INSITU then (case ival of Lval w \<Rightarrow> extract_insitu w itype otype | Pval _ \<Rightarrow> None)
     else if valfmt = PM_VAL_DPTR \<or> valfmt = PM_VAL_SPTR then (case ival of Pval m \<Rightarrow> extract_block m itype otype | Lval _ \<Rightarrow> None)
     else Some (Inl PM_ERR_CONV))"

section \<open>Exact conversions\<close>

lemma nbits_bounds: "n < 2 ^ nbits n" "n > 0 \<Longrightarrow> 2 ^ (nbits n - 1) \<le> n"
proof -
  have "n < 2 ^ nbits n \<and> (n > 0 \<longrightarrow> nbits n > 0 \<and> 2 ^ (nbits n - 1) \<le> n)"
  proof (induction n rule: less_induct)
    case (less n)
    show ?case
    proof (cases "n = 0")
      case False
      then have IH: "n div 2 < 2 ^ nbits (n div 2)" "n div 2 > 0 \<longrightarrow> nbits (n div 2) > 0 \<and> 2 ^ (nbits (n div 2) - 1) \<le> n div 2"
        using less.IH [of "n div 2"] by auto
      have e: "nbits n = Suc (nbits (n div 2))" using False by (subst nbits.simps) simp
      have "n < 2 ^ nbits n" using IH(1) unfolding e by simp
      moreover have "2 ^ (nbits n - 1) \<le> n"
      proof (cases "n div 2 = 0")
        case True
        then show ?thesis using False unfolding e True by (simp add: nbits.simps)
      next
        case pos: False
        then obtain k where "nbits (n div 2) = Suc k" "2 ^ k \<le> n div 2" using IH(2) by (cases "nbits (n div 2)") auto
        then show ?thesis unfolding e by simp
      qed
      ultimately show ?thesis using e by simp
    qed (simp add: nbits.simps)
  qed
  then show "n < 2 ^ nbits n" "n > 0 \<Longrightarrow> 2 ^ (nbits n - 1) \<le> n" by auto
qed

definition represents :: "fp \<Rightarrow> int \<Rightarrow> bool" where
  "represents x n \<longleftrightarrow> (\<exists>s m e. x = Finite s m e \<and> e \<le> 0 \<and> fl_int s m = n * 2 ^ nat (- e))"

lemma represents_zero: "represents fl_zero 0"
  by (auto simp: represents_def fl_zero_def fl_int_def)

lemma fl_int_neg: "fl_int (\<not> s) m = - fl_int s m"
  by (simp add: fl_int_def)

lemma represents_neg: "represents x n \<Longrightarrow> represents (fl_neg x) (- n)"
  by (auto simp: represents_def fl_int_neg)

lemma represents_trunc: "represents x n \<Longrightarrow> fl_trunc x = Some n"
proof -
  assume "represents x n"
  then obtain s m e where x: "x = Finite s m e" "e \<le> 0" "fl_int s m = n * 2 ^ nat (- e)" by (auto simp: represents_def)
  have "int m = (if s then - n else n) * 2 ^ nat (- e)" using x(3) by (auto simp: fl_int_def split: if_splits)
  then have "int (m div 2 ^ nat (- e)) = (if s then - n else n)" by (simp add: zdiv_int)
  then have "fl_int s (m div 2 ^ nat (- e)) = n" by (simp add: fl_int_def split: if_splits)
  then show ?thesis using x(1,2) by (cases "e = 0") auto
qed

lemma represents_less: "represents x n \<Longrightarrow> represents y k \<Longrightarrow> fl_less x y \<longleftrightarrow> n < k"
proof -
  assume "represents x n" "represents y k"
  then obtain s m e s' m' e' where x: "x = Finite s m e" "e \<le> 0" "fl_int s m = n * 2 ^ nat (- e)"
    and y: "y = Finite s' m' e'" "e' \<le> 0" "fl_int s' m' = k * 2 ^ nat (- e')" by (auto simp: represents_def)
  have p: "a * 2 ^ nat (- c) * 2 ^ nat (c - min e e') = a * 2 ^ nat (- min e e')" if "c \<le> 0" "min e e' \<le> c" for a c :: int
  proof -
    have "nat (- min e e') = nat (- c) + nat (c - min e e')" using that by linarith
    then show ?thesis by (simp only: power_add mult.assoc)
  qed
  have "fl_less x y \<longleftrightarrow> n * 2 ^ nat (- min e e') < k * 2 ^ nat (- min e e')"
    unfolding x(1) y(1) fl_less.simps x(3) y(3) using p [of e n] p [of e' k] x(2) y(2) by (simp only: min.cobounded1 min.cobounded2)
  then show ?thesis by simp
qed

lemma represents_nan: "represents x n \<Longrightarrow> \<not> fl_is_nan x"
  by (auto simp: represents_def)

lemma represents_ge: "represents x n \<Longrightarrow> represents y k \<Longrightarrow> fl_ge x y \<longleftrightarrow> k \<le> n"
  by (auto simp: fl_ge_def represents_nan represents_less)

lemma represents_ABS: "represents x n \<Longrightarrow> represents (fl_ABS x) \<bar>n\<bar>"
  using represents_less [OF _ represents_zero, of x n] represents_neg [of x n] by (auto simp: fl_ABS_def)

lemma represents_cast: "represents x n \<Longrightarrow> fl_cast lo hi x = (if lo \<le> n \<and> n \<le> hi then Some n else None)"
  by (simp add: fl_cast_def represents_trunc)

lemma fl_round_less: "fl_round fb eb s m e < 2 ^ (fb + eb + 1)"
proof -
  have "(2 ^ eb - 1) * 2 ^ fb < (2 :: nat) ^ (fb + eb)" by (simp add: power_add mult.commute diff_mult_distrib)
  then show ?thesis by (auto simp: fl_round_def Let_def fl_bits_def)
qed

lemma fl_decode_bits:
  assumes "E < 2 ^ eb - 1" "f < 2 ^ fb"
  shows "fl_decode fb eb (fl_bits fb eb s (E * 2 ^ fb + f)) =
    (if E = 0 then Finite s f (1 - fl_bias eb - int fb) else Finite s (2 ^ fb + f) (int E - fl_bias eb - int fb))"
proof -
  let ?w = "fl_bits fb eb s (E * 2 ^ fb + f)"
  have E: "E < 2 ^ eb" using assms(1) by linarith
  have "?w = ((if s then 2 ^ eb else 0) + E) * 2 ^ fb + f" by (simp add: fl_bits_def power_add algebra_simps)
  then have w: "?w mod 2 ^ fb = f" "?w div 2 ^ fb = (if s then 2 ^ eb else 0) + E" using assms(2) by simp_all
  have "?w div 2 ^ (fb + eb) = ((if s then 2 ^ eb else 0) + E) div 2 ^ eb" by (simp only: power_add div_mult2_eq w)
  also have "\<dots> = (if s then 1 else 0)" using E by (simp add: div_add_self1)
  finally have s: "odd (?w div 2 ^ (fb + eb)) = s" by simp
  have "((if s then 2 ^ eb else 0) + E) mod 2 ^ eb = E" using E by simp
  then show ?thesis using w s assms(1) by (simp add: fl_decode_def Let_def)
qed

text \<open>A number with no more bits than the mantissa is encoded without rounding.\<close>

lemma mantissa_shift:
  assumes "0 < m" "m < 2 ^ (fb + 1)"
  shows "1 \<le> nbits m" "nbits m \<le> fb + 1" "2 ^ fb \<le> m * 2 ^ (fb + 1 - nbits m)" "m * 2 ^ (fb + 1 - nbits m) < 2 ^ (fb + 1)"
proof -
  show L1: "1 \<le> nbits m" using assms(1) by (subst nbits.simps) simp
  have "(2 :: nat) ^ (nbits m - 1) < 2 ^ (fb + 1)" using nbits_bounds(2) [OF assms(1)] assms(2) by (rule le_less_trans)
  then have "nbits m - 1 < fb + 1" by (rule power_less_imp_less_exp [rotated]) simp
  then show L2: "nbits m \<le> fb + 1" by linarith
  have "fb = nbits m - 1 + (fb + 1 - nbits m)" using L1 L2 by linarith
  then have "2 ^ fb = 2 ^ (nbits m - 1) * (2 :: nat) ^ (fb + 1 - nbits m)" by (metis power_add)
  then show "2 ^ fb \<le> m * 2 ^ (fb + 1 - nbits m)" using nbits_bounds(2) [OF assms(1)] by simp
  have "fb + 1 = nbits m + (fb + 1 - nbits m)" using L2 by linarith
  then have "(2 :: nat) ^ (fb + 1) = 2 ^ nbits m * 2 ^ (fb + 1 - nbits m)" by (metis power_add)
  then show "m * 2 ^ (fb + 1 - nbits m) < 2 ^ (fb + 1)" using nbits_bounds(1) [of m] by simp
qed

lemma fl_round_exact:
  assumes "0 < m" "m < 2 ^ (fb + 1)" "2 * int fb < fl_bias eb" "0 < eb"
  defines "d \<equiv> fb + 1 - nbits m"
  shows "fl_decode fb eb (fl_round fb eb s m 0) = Finite s (m * 2 ^ d) (- int d)"
proof -
  note L = mantissa_shift [OF assms(1,2), folded d_def]
  define E where "E = nat (fl_bias eb + int fb - int d)"
  define f where "f = m * 2 ^ d - 2 ^ fb"
  have d: "int d \<le> int fb" "int d = int fb + 1 - int (nbits m)" using L(1,2) by (simp_all add: d_def)
  have E: "int E = fl_bias eb + int fb - int d" "0 < E" using assms(3) d(1) by (simp_all add: E_def)
  have f: "f < 2 ^ fb" "m * 2 ^ d = 2 ^ fb + f" using L(3,4) by (simp_all add: f_def)
  have "2 * fl_bias eb + 1 = 2 ^ eb - 1" using assms(4) by (cases eb) (auto simp: fl_bias_def)
  then have "int E < int (2 ^ eb - 1)" using E(1) assms(3) d(1) by (simp add: of_nat_diff)
  then have Eb: "E < 2 ^ eb - 1" by (simp only: of_nat_less_iff)
  have q: "max (0 + int (nbits m) - int fb - 1) (1 - fl_bias eb - int fb) = - int d" using d assms(3) by linarith
  have n: "nat (- int d - (1 - fl_bias eb - int fb)) = E - 1" "nat (0 - - int d) = d" using E by linarith+
  have "(E - 1) * 2 ^ fb + m * 2 ^ d = E * 2 ^ fb + f" using E(2) f(2) by (cases E) simp_all
  moreover have "E * 2 ^ fb + f \<le> (2 ^ eb - 1) * 2 ^ fb"
  proof -
    have "Suc E * 2 ^ fb \<le> (2 ^ eb - 1) * 2 ^ fb" using Eb by (intro mult_right_mono) simp_all
    then show ?thesis using f(1) by simp
  qed
  ultimately have "fl_round fb eb s m 0 = fl_bits fb eb s (E * 2 ^ fb + f)"
    using assms(1) unfolding fl_round_def Let_def q n by simp
  then show ?thesis using fl_decode_bits [OF Eb f(1), of s] E f(2) by simp
qed

lemma fl_exact:
  assumes "\<bar>n\<bar> < 2 ^ (fb + 1)" "2 * int fb < fl_bias eb" "0 < eb"
  shows "represents (fl_decode fb eb (fl_of_int fb eb n)) n"
proof (cases "n = 0")
  case True
  have "(1 :: nat) < 2 ^ eb" using assms(3) by (intro one_less_power) simp_all
  then show ?thesis using True assms(2) fl_decode_bits [of 0 eb 0 fb False]
    by (auto simp: fl_of_int_def fl_round_def Let_def represents_def fl_int_def)
next
  case False
  have "0 < nat \<bar>n\<bar>" "nat \<bar>n\<bar> < 2 ^ (fb + 1)" using assms(1) False by (auto simp: nat_less_iff)
  from fl_round_exact [OF this assms(2,3)] show ?thesis
    using False unfolding fl_of_int_def represents_def by (auto simp: fl_int_def)
qed

lemma double_exact:
  assumes "\<bar>n\<bar> < 2 ^ 53"
  shows "represents (fl_decode 52 11 (unat (word_of_nat (fl_of_int 52 11 n) :: qword))) n"
proof -
  have "fl_of_int 52 11 n < 2 ^ 64" using fl_round_less [of 52 11 "n < 0" "nat \<bar>n\<bar>" 0] by (simp add: fl_of_int_def)
  then have "unat (word_of_nat (fl_of_int 52 11 n) :: qword) = fl_of_int 52 11 n" by (simp add: unat_of_nat)
  then show ?thesis using fl_exact [of n 52 11] assms by (simp add: fl_bias_def)
qed

lemma double_limits:
  "represents (fl_decode 52 11 (fl_of_int 52 11 0x7fffffff)) 0x7fffffff" "represents (fl_decode 52 11 (fl_of_int 52 11 0xffffffff)) 0xffffffff"
  using fl_exact [of "0x7fffffff" 52 11] fl_exact [of "0xffffffff" 52 11] by (simp_all add: fl_bias_def)

lemma double_back:
  assumes "\<bar>n\<bar> < 2 ^ 53"
  shows "from_double (word_of_nat (fl_of_int 52 11 n)) PM_TYPE_32 = Some (if \<bar>n\<bar> < 0x7fffffff then Inr (A_l (word_of_int n)) else Inl PM_ERR_TRUNC)"
    and "from_double (word_of_nat (fl_of_int 52 11 n)) PM_TYPE_U32 =
      Some (if n < 0 then Inl PM_ERR_SIGN else if n < 0xffffffff then Inr (A_ul (word_of_int n)) else Inl PM_ERR_TRUNC)"
proof -
  note x = double_exact [OF assms]
  show "from_double (word_of_nat (fl_of_int 52 11 n)) PM_TYPE_32 = Some (if \<bar>n\<bar> < 0x7fffffff then Inr (A_l (word_of_int n)) else Inl PM_ERR_TRUNC)"
    using represents_ge [OF represents_ABS [OF x] double_limits(1)] represents_cast [OF x]
    by (auto simp: from_double_def from_fp_def Let_def)
  show "from_double (word_of_nat (fl_of_int 52 11 n)) PM_TYPE_U32 =
      Some (if n < 0 then Inl PM_ERR_SIGN else if n < 0xffffffff then Inr (A_ul (word_of_int n)) else Inl PM_ERR_TRUNC)"
    using represents_ge [OF x double_limits(2)] represents_less [OF x represents_zero] represents_cast [OF x]
    by (auto simp: from_double_def from_fp_def Let_def PM_TYPE_32_def PM_TYPE_U32_def)
qed

section \<open>Memory of a value\<close>

lemma b2q_q2b [simp]: "b2q (q2b w) = w"
proof -
  have "ucast (ucast w :: u32) OR push_bit 32 (ucast (ucast (drop_bit 32 w) :: u32)) = w" for w :: qword
    by (rule bit_word_eqI) (auto simp: bit_simps)
  then show ?thesis by (simp add: b2q_def q2b_def)
qed

lemma length_q2b [simp]: "length (q2b w) = 8"
  by (simp add: q2b_def)

lemma bytes_at_ld64: "bytes_at m a (q2b w) \<Longrightarrow> ld64 m a = Some w"
  by (simp add: bytes_at_def ld64_def)

fun atom_has_type :: "int \<Rightarrow> pmAtomValue \<Rightarrow> bool" where
  "atom_has_type t (A_l _) \<longleftrightarrow> t = PM_TYPE_32"
| "atom_has_type t (A_ul _) \<longleftrightarrow> t = PM_TYPE_U32"
| "atom_has_type t (A_ll _) \<longleftrightarrow> t = PM_TYPE_64"
| "atom_has_type t (A_ull _) \<longleftrightarrow> t = PM_TYPE_U64"
| "atom_has_type t (A_f _) \<longleftrightarrow> t = PM_TYPE_FLOAT"
| "atom_has_type t (A_d _) \<longleftrightarrow> t = PM_TYPE_DOUBLE"
| "atom_has_type t (A_cp m) \<longleftrightarrow> t = PM_TYPE_STRING \<and> (\<exists>n. pm_strlen m = Some n)"
| "atom_has_type t (A_vbp m) \<longleftrightarrow> t = PM_TYPE_AGGREGATE"

lemma pm_strlen_terminated: "\<exists>n. pm_strlen (m @ [0]) = Some n"
  by (induction m) auto

definition typed_result :: "int \<Rightarrow> int + pmAtomValue \<Rightarrow> bool" where
  "typed_result otype r \<longleftrightarrow> (case r of Inr v \<Rightarrow> atom_has_type otype v | Inl e \<Rightarrow> e \<in> {PM_ERR_CONV, PM_ERR_TRUNC, PM_ERR_SIGN})"

lemma typed_Inl [simp]: "typed_result otype (Inl e) \<longleftrightarrow> e = PM_ERR_CONV \<or> e = PM_ERR_TRUNC \<or> e = PM_ERR_SIGN"
  by (simp add: typed_result_def)

lemma typed_Inr [simp]: "typed_result otype (Inr v) \<longleftrightarrow> atom_has_type otype v"
  by (simp add: typed_result_def)

lemma typed_ints:
  "typed_result otype (from_32 w otype)" "typed_result otype (from_u32 w otype)" "typed_result otype (from_64 q otype)" "typed_result otype (from_u64 q otype)"
  by (simp_all add: from_32_def from_u32_def from_64_def from_u64_def)

lemma typed_fp: "from_fp fb eb w otype = Some r \<Longrightarrow> typed_result otype r"
  by (simp add: from_fp_def Let_def split: if_splits) (auto simp: bind_eq_Some_conv)

lemma typed_insitu: "extract_insitu w itype otype = Some r \<Longrightarrow> typed_result otype r"
  by (auto simp: extract_insitu_def from_float_def typed_ints split: if_splits dest: typed_fp)

lemma typed_64: "extract_64 m itype otype = Some r \<Longrightarrow> typed_result otype r"
  by (auto simp: extract_64_def from_double_def bind_eq_Some_conv typed_ints split: if_splits dest: typed_fp)

lemma typed_float: "extract_float m otype = Some r \<Longrightarrow> typed_result otype r"
  by (auto simp: extract_float_def from_float_def bind_eq_Some_conv split: if_splits dest: typed_fp)

lemma typed_string: "extract_string m otype = Some r \<Longrightarrow> typed_result otype r"
  by (auto simp: extract_string_def bind_eq_Some_conv pm_strlen_terminated split: if_splits)

lemma typed_aggregate: "extract_aggregate m otype = Some r \<Longrightarrow> typed_result otype r"
  by (auto simp: extract_aggregate_def bind_eq_Some_conv split: if_splits)

lemma typed_block:
  assumes "extract_block m itype otype = Some r"
  shows "typed_result otype r"
proof -
  consider "extract_64 m itype otype = Some r" | "extract_float m otype = Some r" | "extract_string m otype = Some r" | "extract_aggregate m otype = Some r" | "r = Inl PM_ERR_CONV"
    using assms unfolding extract_block_def by (metis option.inject)
  then show ?thesis by cases (fact typed_64 typed_float typed_string typed_aggregate | simp)+
qed

text \<open>
  Extraction respects types. When \<open>pmExtractValue\<close> succeeds, the member of the union that it has set is the one of the
  type asked for, and a string is terminated; when it fails, it returns one of three errors. This is for any value,
  format and types, whether they fit together or not.
\<close>

theorem values_typed:
  assumes "pmExtractValue valfmt ival itype otype = Some r"
  shows "case r of Inr v \<Rightarrow> atom_has_type otype v | Inl e \<Rightarrow> e \<in> {PM_ERR_CONV, PM_ERR_TRUNC, PM_ERR_SIGN}"
proof -
  have "typed_result otype r"
  proof (cases "valfmt = PM_VAL_INSITU")
    case True
    then obtain w where "extract_insitu w itype otype = Some r" using assms by (cases ival) (simp_all add: pmExtractValue_def)
    then show ?thesis by (rule typed_insitu)
  next
    case False
    show ?thesis
    proof (cases "valfmt = PM_VAL_DPTR \<or> valfmt = PM_VAL_SPTR")
      case True
      then obtain m where "extract_block m itype otype = Some r" using assms False by (cases ival) (simp_all add: pmExtractValue_def)
      then show ?thesis by (rule typed_block)
    next
      case neither: False
      then have "r = Inl PM_ERR_CONV" using assms False by (simp add: pmExtractValue_def)
      then show ?thesis by simp
    qed
  qed
  then show ?thesis by (simp only: typed_result_def)
qed

section \<open>Stuffing and extracting\<close>

definition copied_types :: "int set" where
  "copied_types = {PM_TYPE_FLOAT, PM_TYPE_64, PM_TYPE_U64, PM_TYPE_DOUBLE, PM_TYPE_AGGREGATE, PM_TYPE_STRING}"

lemma stuff_block:
  assumes "grows malloc" "type \<in> copied_types" "stuff_src type v = Some src" "length src + 4 < 2 ^ 24"
  obtains m w where "pmStuffValue malloc v type = Some (PM_VAL_DPTR, Some (Pval m))" "ld32 m 0 = Some w" "vb_vtype w = type" "vb_vlen w = 4 + length src"
    "bytes_at m 4 src" "ld m 0 (4 + length src) = Some (w2b w @ src)"
proof -
  obtain js where js: "malloc (if length src + 4 < 8 then 8 else length src + 4) = Some js" using assms(1) by (meson grows_def)
  let ?w = "typelen type (length src + 4)"
  let ?m = "w2b ?w @ src @ drop (length src + 4) js"
  have t: "0 \<le> type" "type < 256" using assms(2) by (auto simp: copied_types_def PM_TYPE_defs)
  have "type \<notin> {PM_TYPE_32, PM_TYPE_U32}" "type \<notin> {PM_TYPE_AGGREGATE_STATIC, PM_TYPE_EVENT}" using assms(2) by (auto simp: copied_types_def PM_TYPE_defs)
  then have "pmStuffValue malloc v type = Some (PM_VAL_DPTR, Some (Pval ?m))" using assms(2,3) js by (simp add: pmStuffValue_def copied_types_def Let_def)
  moreover have b: "bytes_at ?m 0 (w2b ?w @ src)" by (simp add: bytes_at_def ld_def)
  moreover have "ld32 ?m 0 = Some ?w" "bytes_at ?m 4 src" using b by (simp_all add: bytes_at_append bytes_at_ld32)
  moreover have "ld ?m 0 (4 + length src) = Some (w2b ?w @ src)" using b by (simp add: bytes_at_def)
  ultimately show thesis using that [of ?m ?w] typelen_facts [OF t assms(4)] by simp
qed

lemma pm_strlen_take:
  assumes "pm_strlen m = Some n"
  shows "n < length m" "takeWhile (\<lambda>c. c \<noteq> 0) (take (n + 1) m @ xs) = takeWhile (\<lambda>c. c \<noteq> 0) m"
  using assms by (induction m arbitrary: n) (auto split: if_splits simp: bind_eq_Some_conv)

fun atom_content :: "pmAtomValue \<Rightarrow> byte list" where
  "atom_content (A_l w) = w2b w"
| "atom_content (A_ul w) = w2b w"
| "atom_content (A_f w) = w2b w"
| "atom_content (A_ll w) = q2b w"
| "atom_content (A_ull w) = q2b w"
| "atom_content (A_d w) = q2b w"
| "atom_content (A_cp m) = takeWhile (\<lambda>c. c \<noteq> 0) m"
| "atom_content (A_vbp m) = (case ld32 m 0 of None \<Rightarrow> [] | Some w \<Rightarrow> take (vb_vlen w - 4) (drop 4 m))"

text \<open>Strings must fit the length of a block, and a block must have as many bytes as its header says.\<close>

fun atom_fits :: "pmAtomValue \<Rightarrow> bool" where
  "atom_fits (A_cp m) \<longleftrightarrow> (\<exists>n. pm_strlen m = Some n \<and> n + 5 < 2 ^ 24)"
| "atom_fits (A_vbp m) \<longleftrightarrow> (\<exists>w. ld32 m 0 = Some w \<and> 4 \<le> vb_vlen w \<and> vb_vlen w \<le> length m)"
| "atom_fits _ \<longleftrightarrow> True"

lemma vb_vlen_less: "vb_vlen w < 2 ^ 24"
proof -
  have "take_bit 24 (unat w) < 2 ^ 24" by (rule take_bit_nat_less_exp)
  then show ?thesis by (simp add: vb_vlen_def unsigned_take_bit_eq)
qed

lemma stuff_src_content:
  assumes "atom_has_type type v" "atom_fits v" "type \<in> copied_types"
  obtains src where "stuff_src type v = Some src" "length src + 4 < 2 ^ 24" "\<forall>xs. takeWhile (\<lambda>c. c \<noteq> 0) (src @ xs) = atom_content v \<or> type \<noteq> PM_TYPE_STRING"
    "type = PM_TYPE_STRING \<or> src = atom_content v"
proof (cases v)
  case (A_cp m)
  then obtain n where n: "pm_strlen m = Some n" "n + 5 < 2 ^ 24" using assms(2) by auto
  then show thesis using assms(1) A_cp pm_strlen_take [OF n(1)]
    by (intro that [of "take (n + 1) m"]) (auto simp: stuff_src_def PM_TYPE_defs)
next
  case (A_vbp m)
  then obtain w where w: "ld32 m 0 = Some w" "4 \<le> vb_vlen w" "vb_vlen w \<le> length m" using assms(2) by auto
  then show thesis using assms(1) A_vbp vb_vlen_less [of w]
    by (intro that [of "take (vb_vlen w - 4) (drop 4 m)"]) (auto simp: stuff_src_def PM_TYPE_defs ld_def)
qed (use assms that in \<open>auto simp: stuff_src_def copied_types_def PM_TYPE_defs\<close>)

lemma fl_conv_same:
  "from_float w PM_TYPE_FLOAT = Some (Inr (A_f w))" "from_double q PM_TYPE_DOUBLE = Some (Inr (A_d q))"
  by (simp_all add: from_float_def from_double_def from_fp_def Let_def PM_TYPE_defs)

lemma extract_same:
  assumes "ld32 m 0 = Some w" "vb_vtype w = type" "vb_vlen w = 4 + length (atom_content v)" "bytes_at m 4 (atom_content v)" "atom_has_type type v"
    "type \<in> copied_types" "type \<noteq> PM_TYPE_STRING" "type \<noteq> PM_TYPE_AGGREGATE"
  shows "extract_block m type type = Some (Inr v)"
  using assms by (cases v) (auto simp: extract_block_def extract_64_def extract_float_def block_ok_def bytes_at_ld64 bytes_at_ld32 fl_conv_same [unfolded PM_TYPE_defs]
      from_64_def from_u64_def copied_types_def PM_TYPE_defs)

text \<open>
  C19: A value that an agent stuffs is what a client extracts. While there is memory, for each type that can be extracted and each value of it,
  strings and aggregates below the 16 megabytes of a value block,
  \<open>__pmStuffValue\<close> gives a format and a value from which \<open>pmExtractValue\<close> gets a value of the same type with the same
  contents: the bits of a number, the characters of a string up to its terminator, or the bytes of an aggregate.
\<close>

theorem values_roundtrip:
  assumes "grows malloc" "atom_has_type type v" "atom_fits v"
  shows "\<exists>valfmt ival v'. pmStuffValue malloc v type = Some (valfmt, Some ival) \<and> pmExtractValue valfmt ival type type = Some (Inr v') \<and>
    atom_has_type type v' \<and> atom_content v' = atom_content v"
proof (cases "type \<in> {PM_TYPE_32, PM_TYPE_U32}")
  case True
  then show ?thesis using assms(2) by (cases v) (auto simp: pmStuffValue_def pmExtractValue_def extract_insitu_def from_32_def from_u32_def PM_TYPE_defs PM_TYPE_UNKNOWN_def)
next
  case False
  then have c: "type \<in> copied_types" using assms(2) by (cases v) (auto simp: copied_types_def)
  obtain src where src: "stuff_src type v = Some src" "length src + 4 < 2 ^ 24" "\<forall>xs. takeWhile (\<lambda>c. c \<noteq> 0) (src @ xs) = atom_content v \<or> type \<noteq> PM_TYPE_STRING"
    "type = PM_TYPE_STRING \<or> src = atom_content v" using stuff_src_content [OF assms(2,3) c] .
  obtain m w where m: "pmStuffValue malloc v type = Some (PM_VAL_DPTR, Some (Pval m))" "ld32 m 0 = Some w" "vb_vtype w = type" "vb_vlen w = 4 + length src"
    "bytes_at m 4 src" "ld m 0 (4 + length src) = Some (w2b w @ src)" using stuff_block [OF assms(1) c src(1,2)] .
  have x: "pmExtractValue PM_VAL_DPTR (Pval m) type type = extract_block m type type" by (simp add: pmExtractValue_def PM_VAL_DPTR_def PM_VAL_INSITU_def)
  have l: "ld m 4 (length src) = Some src" using m(5) by (simp add: bytes_at_def)
  consider "type = PM_TYPE_STRING" | "type = PM_TYPE_AGGREGATE" | "type \<noteq> PM_TYPE_STRING" "type \<noteq> PM_TYPE_AGGREGATE" by blast
  then have "\<exists>v'. extract_block m type type = Some (Inr v') \<and> atom_has_type type v' \<and> atom_content v' = atom_content v"
  proof cases
    case 1
    then have "extract_block m type type = Some (Inr (A_cp (src @ [0])))" using m l by (simp add: extract_block_def extract_string_def PM_TYPE_defs)
    then show ?thesis using 1 src(3) pm_strlen_terminated by auto
  next
    case 2
    then have "extract_block m type type = Some (Inr (A_vbp (w2b w @ src)))" using m by (simp add: extract_block_def extract_aggregate_def PM_TYPE_defs)
    moreover have "ld32 (w2b w @ src) 0 = Some w" by (rule bytes_at_ld32) (simp add: bytes_at_def ld_def)
    moreover have "src = atom_content v" using 2 src(4) by (simp add: PM_TYPE_defs)
    ultimately show ?thesis using 2 m(4) by simp
  next
    case 3
    then have "extract_block m type type = Some (Inr v)" using src(4) m assms(2) c extract_same by metis
    then show ?thesis using assms(2) by blast
  qed
  then show ?thesis using m(1) x by (intro exI [of _ PM_VAL_DPTR] exI [of _ "Pval m"]) simp
qed

section \<open>Conversions between numbers\<close>

definition int_types :: "int set" where
  "int_types = {PM_TYPE_32, PM_TYPE_U32, PM_TYPE_64, PM_TYPE_U64}"

fun int_value :: "pmAtomValue \<Rightarrow> int" where
  "int_value (A_l w) = sint w"
| "int_value (A_ul w) = uint w"
| "int_value (A_ll w) = sint w"
| "int_value (A_ull w) = uint w"
| "int_value _ = 0"

definition int_atom :: "int \<Rightarrow> int \<Rightarrow> pmAtomValue" where
  "int_atom type n = (if type = PM_TYPE_32 then A_l (word_of_int n) else if type = PM_TYPE_U32 then A_ul (word_of_int n)
     else if type = PM_TYPE_64 then A_ll (word_of_int n) else A_ull (word_of_int n))"

definition int_max :: "int \<Rightarrow> int" where
  "int_max type = (if type = PM_TYPE_32 then 2 ^ 31 - 1 else if type = PM_TYPE_U32 then 2 ^ 32 - 1 else if type = PM_TYPE_64 then 2 ^ 63 - 1 else 2 ^ 64 - 1)"

definition int_signed :: "int \<Rightarrow> bool" where
  "int_signed type \<longleftrightarrow> type = PM_TYPE_32 \<or> type = PM_TYPE_64"

definition convert :: "grow \<Rightarrow> pmAtomValue \<Rightarrow> int \<Rightarrow> int \<Rightarrow> pmAtomValue c_result" where
  "convert malloc v itype otype = do {
     (valfmt, ival) \<leftarrow> pmStuffValue malloc v itype;
     ival \<leftarrow> ival;
     pmExtractValue valfmt ival itype otype
   }"

lemma convert_32: "convert malloc (A_l w) PM_TYPE_32 otype = Some (from_32 w otype)" "convert malloc (A_ul w) PM_TYPE_U32 otype = Some (from_u32 w otype)"
  by (simp_all add: convert_def pmStuffValue_def pmExtractValue_def extract_insitu_def PM_TYPE_UNKNOWN_def PM_TYPE_defs)

lemma convert_64:
  assumes "grows malloc"
  shows "convert malloc (A_ll q) PM_TYPE_64 otype = Some (from_64 q otype)" "convert malloc (A_ull q) PM_TYPE_U64 otype = Some (from_u64 q otype)"
    "convert malloc (A_d q) PM_TYPE_DOUBLE otype = from_double q otype"
proof -
  have *: "convert malloc v t otype = extract_64 m t otype \<and> ld32 m 0 = Some w \<and> block_ok w 8 t \<and> ld64 m 4 = Some q" if "stuff_src t v = Some (q2b q)" "t \<in> {PM_TYPE_64, PM_TYPE_U64, PM_TYPE_DOUBLE}"
    "pmStuffValue malloc v t = Some (PM_VAL_DPTR, Some (Pval m))" "ld32 m 0 = Some w" "vb_vtype w = t" "vb_vlen w = 4 + length (q2b q)" "bytes_at m 4 (q2b q)" for t v m w
    using that by (auto simp: convert_def pmExtractValue_def extract_block_def block_ok_def bytes_at_ld64 PM_VAL_DPTR_def PM_VAL_INSITU_def)
  have **: "\<exists>m w. convert malloc v t otype = extract_64 m t otype \<and> ld32 m 0 = Some w \<and> block_ok w 8 t \<and> ld64 m 4 = Some q"
    if t: "stuff_src t v = Some (q2b q)" "t \<in> {PM_TYPE_64, PM_TYPE_U64, PM_TYPE_DOUBLE}" for t v
  proof -
    have c: "t \<in> copied_types" "length (q2b q) + 4 < 2 ^ 24" using t(2) by (auto simp: copied_types_def)
    show ?thesis by (rule stuff_block [OF assms c(1) t(1) c(2)]) (use * [OF t] in blast)
  qed
  show "convert malloc (A_ll q) PM_TYPE_64 otype = Some (from_64 q otype)" using ** [of PM_TYPE_64 "A_ll q"]
    by (auto simp: stuff_src_def extract_64_def PM_TYPE_defs)
  show "convert malloc (A_ull q) PM_TYPE_U64 otype = Some (from_u64 q otype)" using ** [of PM_TYPE_U64 "A_ull q"]
    by (auto simp: stuff_src_def extract_64_def PM_TYPE_defs)
  show "convert malloc (A_d q) PM_TYPE_DOUBLE otype = from_double q otype" using ** [of PM_TYPE_DOUBLE "A_d q"]
    by (auto simp: stuff_src_def extract_64_def PM_TYPE_defs)
qed

lemma ucast_sint: "(ucast (q :: qword) :: u32) = word_of_int (sint q)"
  by (rule bit_word_eqI) (simp add: bit_simps)

lemma int_atom_simps:
  "int_atom PM_TYPE_32 n = A_l (word_of_int n)" "int_atom PM_TYPE_U32 n = A_ul (word_of_int n)"
  "int_atom PM_TYPE_64 n = A_ll (word_of_int n)" "int_atom PM_TYPE_U64 n = A_ull (word_of_int n)"
  by (simp_all add: int_atom_def PM_TYPE_defs)

lemma int_max_simps:
  "int_max PM_TYPE_32 = 0x7fffffff" "int_max PM_TYPE_U32 = 0xffffffff" "int_max PM_TYPE_64 = 0x7fffffffffffffff" "int_max PM_TYPE_U64 = 0xffffffffffffffff"
  by (simp_all add: int_max_def PM_TYPE_defs)

lemma int_signed_simps: "int_signed PM_TYPE_32" "\<not> int_signed PM_TYPE_U32" "int_signed PM_TYPE_64" "\<not> int_signed PM_TYPE_U64"
  by (simp_all add: int_signed_def PM_TYPE_defs)

lemmas int_type_simps = int_atom_simps int_max_simps int_signed_simps

definition int_result :: "int \<Rightarrow> int \<Rightarrow> int + pmAtomValue" where
  "int_result otype n = (if n > int_max otype then Inl PM_ERR_TRUNC else if n < 0 \<and> \<not> int_signed otype then Inl PM_ERR_SIGN else Inr (int_atom otype n))"

lemma type_distinct:
  "PM_TYPE_U32 \<noteq> PM_TYPE_32" "PM_TYPE_64 \<noteq> PM_TYPE_32" "PM_TYPE_U64 \<noteq> PM_TYPE_32" "PM_TYPE_64 \<noteq> PM_TYPE_U32" "PM_TYPE_U64 \<noteq> PM_TYPE_U32" "PM_TYPE_U64 \<noteq> PM_TYPE_64"
  by (simp_all add: PM_TYPE_defs)

lemma from_ints:
  assumes "otype \<in> int_types"
  shows "from_32 w otype = int_result otype (sint w)" "from_u32 w otype = int_result otype (uint w)"
    "otype \<noteq> PM_TYPE_32 \<or> - (2 ^ 31) \<le> sint q \<Longrightarrow> from_64 q otype = int_result otype (sint q)" "from_u64 q otype = int_result otype (uint q)"
proof -
  have b: "sint w \<le> 0x7fffffff" "uint w \<le> 0xffffffff" "sint q \<le> 0x7fffffffffffffff" "uint q \<le> 0xffffffffffffffff" "0 \<le> uint w" "0 \<le> uint q"
    using sint_less [of w] uint_lt2p [of w] sint_less [of q] uint_lt2p [of q] by simp_all
  have c: "word_of_int (uint w) = (ucast w :: qword)" "word_of_int (uint q) = (ucast q :: u32)" by simp_all
  from assms consider "otype = PM_TYPE_32" | "otype = PM_TYPE_U32" | "otype = PM_TYPE_64" | "otype = PM_TYPE_U64" by (auto simp: int_types_def)
  note cs = this
  show "from_32 w otype = int_result otype (sint w)" by (rule cs) (use b in \<open>auto simp: from_32_def int_result_def int_type_simps type_distinct\<close>)
  show "from_u32 w otype = int_result otype (uint w)" by (rule cs) (use b in \<open>auto simp: from_u32_def int_result_def int_type_simps type_distinct c\<close>)
  show "from_64 q otype = int_result otype (sint q)" if "otype \<noteq> PM_TYPE_32 \<or> - (2 ^ 31) \<le> sint q"
    by (rule cs) (use b in \<open>auto simp: from_64_def int_result_def int_type_simps type_distinct ucast_sint\<close>)
  show "from_u64 q otype = int_result otype (uint q)" by (rule cs) (use b in \<open>auto simp: from_u64_def int_result_def int_type_simps type_distinct c\<close>)
qed

text \<open>
  Conversions between integer types keep the number or report an error. A stuffed number of one of the four
  types extracted as another is refused as truncated when it is too large, refused for its sign when it is negative and
  the type has none, and otherwise is the same number. Left out is a 64-bit number below the range of
  the signed 32-bit type.
\<close>

theorem values_integers:
  assumes "grows malloc" "atom_has_type itype v" "itype \<in> int_types" "otype \<in> int_types" "\<not> (itype = PM_TYPE_64 \<and> otype = PM_TYPE_32 \<and> int_value v < - (2 ^ 31))"
  shows "convert malloc v itype otype =
    Some (if int_value v > int_max otype then Inl PM_ERR_TRUNC else if int_value v < 0 \<and> \<not> int_signed otype then Inl PM_ERR_SIGN
      else Inr (int_atom otype (int_value v)))"
proof -
  have "convert malloc v itype otype = Some (int_result otype (int_value v))"
  proof (cases v)
    case (A_ll q)
    then have i: "itype = PM_TYPE_64" using assms(2) by simp
    moreover have "otype \<noteq> PM_TYPE_32 \<or> - (2 ^ 31) \<le> sint q" using assms(5) A_ll i by auto
    ultimately show ?thesis using A_ll convert_64 [OF assms(1)] from_ints [OF assms(4)] by simp
  qed (use assms(2,3) convert_32 convert_64 [OF assms(1)] from_ints [OF assms(4)] in \<open>auto simp: int_types_def PM_TYPE_defs\<close>)
  then show ?thesis by (simp only: int_result_def)
qed

text \<open>
  A 32-bit number survives a conversion to double precision and back, except at the ends of the range: there
  the way back reports a truncation, although the double is exact, for the largest number, its negation and the smallest
  number, and for the largest unsigned number.
\<close>

theorem values_double:
  assumes "grows malloc"
  shows "(\<exists>d. convert malloc (A_l w) PM_TYPE_32 PM_TYPE_DOUBLE = Some (Inr (A_d d)) \<and>
      convert malloc (A_d d) PM_TYPE_DOUBLE PM_TYPE_32 = Some (if \<bar>sint w\<bar> < 2 ^ 31 - 1 then Inr (A_l w) else Inl PM_ERR_TRUNC)) \<and>
    (\<exists>d. convert malloc (A_ul w) PM_TYPE_U32 PM_TYPE_DOUBLE = Some (Inr (A_d d)) \<and>
      convert malloc (A_d d) PM_TYPE_DOUBLE PM_TYPE_U32 = Some (if uint w < 2 ^ 32 - 1 then Inr (A_ul w) else Inl PM_ERR_TRUNC))"
proof -
  have w: "\<bar>sint w\<bar> < 2 ^ 53" "\<bar>uint w\<bar> < 2 ^ 53" using sint_less [of w] sint_greater_eq [of w] uint_lt2p [of w] by simp_all
  have d: "from_32 w PM_TYPE_DOUBLE = Inr (A_d (word_of_nat (fl_of_int 52 11 (sint w))))" "from_u32 w PM_TYPE_DOUBLE = Inr (A_d (word_of_nat (fl_of_int 52 11 (uint w))))"
    by (simp_all add: from_32_def from_u32_def PM_TYPE_defs)
  show ?thesis using d double_back(1) [OF w(1)] double_back(2) [OF w(2)] by (simp add: convert_32 convert_64 [OF assms])
qed

text \<open>
  Two conversions are not guarded. A 64-bit number below the range of the signed 32-bit type is extracted without an error as
  another number, and a double that is not a number is cast to any of the integer types, which is undefined.
\<close>

theorem values_unchecked:
  assumes "grows malloc" "sint q < - (2 ^ 31)" "fl_is_nan (fl_decode 52 11 (unat d))" "otype \<in> int_types"
  shows "(\<exists>w. convert malloc (A_ll q) PM_TYPE_64 PM_TYPE_32 = Some (Inr (A_l w)) \<and> sint w \<noteq> sint q) \<and>
    convert malloc (A_d d) PM_TYPE_DOUBLE otype = None"
proof -
  have "from_64 q PM_TYPE_32 = Inr (A_l (ucast q))" using assms(2) by (simp add: from_64_def)
  moreover have "sint (ucast q :: u32) \<noteq> sint q" using assms(2) sint_greater_eq [of "ucast q :: u32"] by simp
  moreover obtain s f where x: "fl_decode 52 11 (unat d) = NaN s f" using assms(3) by (cases "fl_decode 52 11 (unat d)") auto
  have "fl_ABS (NaN s f) = NaN s f" by (simp add: fl_ABS_def)
  then have "from_double d otype = None" using assms(4) x
    by (auto simp: from_double_def from_fp_def Let_def int_types_def fl_ge_def fl_cast_def PM_TYPE_defs)
  ultimately show ?thesis by (simp add: convert_64 [OF assms(1)])
qed

section \<open>Instances\<close>

theorem values_typed_witness:
  "pmExtractValue PM_VAL_INSITU (Lval 5) PM_TYPE_32 PM_TYPE_U64 = Some (Inr (A_ull 5)) \<and> atom_has_type PM_TYPE_U64 (A_ull 5)"
proof -
  have x: "pmExtractValue PM_VAL_INSITU (Lval 5) PM_TYPE_32 PM_TYPE_U64 = Some (Inr (A_ull 5))"
    by (simp add: pmExtractValue_def extract_insitu_def from_32_def PM_TYPE_defs)
  then show ?thesis using values_typed [OF x] by simp
qed

theorem values_roundtrip_witness:
  "grows zero_fill \<and> atom_has_type PM_TYPE_STRING (A_cp [104, 105, 0, 7]) \<and>
   (\<exists>valfmt ival v'. pmStuffValue zero_fill (A_cp [104, 105, 0, 7]) PM_TYPE_STRING = Some (valfmt, Some ival) \<and>
     pmExtractValue valfmt ival PM_TYPE_STRING PM_TYPE_STRING = Some (Inr v') \<and> atom_has_type PM_TYPE_STRING v' \<and> atom_content v' = [104, 105])"
  using values_roundtrip [OF grows_zero_fill, of PM_TYPE_STRING "A_cp [104, 105, 0, 7]"] grows_zero_fill by simp

theorem values_integers_witness:
  "convert zero_fill (A_l (- 3)) PM_TYPE_32 PM_TYPE_64 = Some (Inr (A_ll (- 3))) \<and>
   convert zero_fill (A_l (- 3)) PM_TYPE_32 PM_TYPE_U64 = Some (Inl PM_ERR_SIGN)"
  using values_integers [OF grows_zero_fill, of PM_TYPE_32 "A_l (- 3)" PM_TYPE_64] values_integers [OF grows_zero_fill, of PM_TYPE_32 "A_l (- 3)" PM_TYPE_U64]
  by (simp add: int_types_def int_type_simps type_distinct)

theorem values_double_witness:
  "grows zero_fill \<and> (\<exists>d. convert zero_fill (A_l 7) PM_TYPE_32 PM_TYPE_DOUBLE = Some (Inr (A_d d)) \<and>
     convert zero_fill (A_d d) PM_TYPE_DOUBLE PM_TYPE_32 = Some (Inr (A_l 7)))"
  using values_double [OF grows_zero_fill, of 7] grows_zero_fill by simp

theorem values_unchecked_witness:
  "(\<exists>w. convert zero_fill (A_ll (- 5000000000)) PM_TYPE_64 PM_TYPE_32 = Some (Inr (A_l w)) \<and> sint w \<noteq> - 5000000000) \<and>
   convert zero_fill (A_d 0x7ff8000000000000) PM_TYPE_DOUBLE PM_TYPE_U32 = None"
proof -
  have "fl_is_nan (fl_decode 52 11 (unat (0x7ff8000000000000 :: qword)))" by (simp add: fl_decode_def Let_def)
  moreover have "sint (- 5000000000 :: qword) = - 5000000000" by simp
  ultimately show ?thesis using values_unchecked [OF grows_zero_fill, of "- 5000000000" "0x7ff8000000000000" PM_TYPE_U32] by (simp add: int_types_def)
qed

end
