(* ===== verification/Andor.thy ===== *)
theory Andor
  imports Prelude
begin

text \<open>
  The conjunction and disjunction of the inference engine \<^verbatim>\<open>pmie\<close>: \<^verbatim>\<open>andor.c\<close>, the rotation of the ring of
  samples in \<^verbatim>\<open>dstruct.c\<close>, and the choice of the evaluator in \<^verbatim>\<open>eval.c\<close>. A node keeps a ring of samples, each with
  one truth value for each instance. The pointer of a sample is the bytes it points to, since the
  samples of a ring do not overlap. Other operators are leaves, whose evaluation is an argument. Time
  stamps are only compared and copied, and so their type is any linear order.
\<close>

section \<open>Nodes\<close>

type_synonym truth = byte

definition FALSE :: truth where "FALSE = 0"
definition TRUE :: truth where "TRUE = 1"
definition DUNNO :: truth where "DUNNO = 2"

record 't sample =
  s_ptr :: "truth list"
  s_stamp :: 't

text \<open>A metric has an instance domain or not, and a number of instances that the rule names.\<close>

record metric =
  m_null :: bool
  m_specinst :: nat

record 't node =
  valid :: int
  tspan :: nat
  smpls :: "'t sample list"
  metrics :: "metric list"

definition rotate_ring :: "'t node \<Rightarrow> 't node option" where
  "rotate_ring x = (case smpls x of [] \<Rightarrow> None | s # ss \<Rightarrow>
     Some (x\<lparr>smpls := s\<lparr>s_ptr := s_ptr (last (s # ss))\<rparr> # butlast (s # ss)\<rparr>))"

definition ROTATE :: "'t node \<Rightarrow> 't node option" where
  "ROTATE x = (if length (smpls x) > 1 then rotate_ring x else Some x)"

section \<open>Operators\<close>

definition m_OR :: "truth \<Rightarrow> truth \<Rightarrow> truth" where
  "m_OR x y = (if x = TRUE \<or> y = TRUE then TRUE else if x = FALSE \<and> y = FALSE then FALSE else DUNNO)"

definition m_OR1 :: "truth \<Rightarrow> truth" where
  "m_OR1 x = (if x = TRUE then TRUE else DUNNO)"

definition m_AND :: "truth \<Rightarrow> truth \<Rightarrow> truth" where
  "m_AND x y = (if x = TRUE \<and> y = TRUE then TRUE else if x = FALSE \<or> y = FALSE then FALSE else DUNNO)"

definition m_AND1 :: "truth \<Rightarrow> truth" where
  "m_AND1 x = (if x = FALSE then FALSE else DUNNO)"

text \<open>The first values and the stamp of the current sample are read, and those of the node are written, after which one more sample is valid.\<close>

definition get :: "nat \<Rightarrow> 't node \<Rightarrow> (truth list \<times> 't) option" where
  "get n x = (case smpls x of [] \<Rightarrow> None | s # ss \<Rightarrow> if n \<le> length (s_ptr s) then Some (take n (s_ptr s), s_stamp s) else None)"

definition put :: "truth list \<Rightarrow> 't \<Rightarrow> 't node \<Rightarrow> 't node option" where
  "put vs t x = (case smpls x of [] \<Rightarrow> None | s # ss \<Rightarrow>
     if length vs \<le> length (s_ptr s) then Some (x\<lparr>smpls := \<lparr>s_ptr = vs @ drop (length vs) (s_ptr s), s_stamp = t\<rparr> # ss, valid := valid x + 1\<rparr>) else None)"

definition later :: "'t :: linorder \<Rightarrow> 't \<Rightarrow> 't" where
  "later t1 t2 = (if t1 > t2 then t1 else t2)"


definition cnd_n_1 :: "(truth \<Rightarrow> truth \<Rightarrow> truth) \<Rightarrow> (truth \<Rightarrow> truth) \<Rightarrow> 't :: linorder node \<Rightarrow> 't node \<Rightarrow> 't node \<Rightarrow> 't node option" where
  "cnd_n_1 f f1 arg1 arg2 x = do {
     x \<leftarrow> ROTATE x;
     if valid arg1 \<noteq> 0 \<and> valid arg2 \<noteq> 0 \<and> tspan x > 0 then do {
       (v1, t1) \<leftarrow> get (tspan x) arg1;
       (v2, t2) \<leftarrow> get 1 arg2;
       put (map (\<lambda>v. f v (hd v2)) v1) (later t1 t2) x
     }
     else if valid arg1 \<noteq> 0 \<and> tspan x > 0 then do { (v1, t1) \<leftarrow> get (tspan x) arg1; put (map f1 v1) t1 x }
     else if valid arg2 \<noteq> 0 \<and> tspan x > 0 then do { (v2, t2) \<leftarrow> get 1 arg2; put (map f1 v2) t2 x }
     else Some (x\<lparr>valid := 0\<rparr>)
   }"



type_synonym 't cnd = "'t node \<Rightarrow> 't node \<Rightarrow> 't node \<Rightarrow> 't node option"

definition cndOr_n_1 :: "'t :: linorder cnd" where "cndOr_n_1 = cnd_n_1 m_OR m_OR1"
definition cndAnd_n_1 :: "'t :: linorder cnd" where "cndAnd_n_1 = cnd_n_1 m_AND m_AND1"

section \<open>Expressions\<close>







section \<open>Kleene logic\<close>








text \<open>Rings with at least one sample and the span that the node says.\<close>

definition wf_node :: "'t node \<Rightarrow> bool" where
  "wf_node x \<longleftrightarrow> smpls x \<noteq> [] \<and> list_all (\<lambda>s. length (s_ptr s) = tspan x) (smpls x) \<and> 0 \<le> valid x \<and> 0 < tspan x"




section \<open>Evaluation computes Kleene logic\<close>

lemma truth_simps [simp]: "TRUE \<noteq> FALSE" "FALSE \<noteq> TRUE" "DUNNO \<noteq> TRUE" "DUNNO \<noteq> FALSE"
  by (simp_all add: TRUE_def FALSE_def DUNNO_def)


text \<open>What the macros of an operator have in common, and what follows for the functions that apply them.\<close>

definition same_shape :: "'t node \<Rightarrow> 't node \<Rightarrow> bool" where
  "same_shape x' x \<longleftrightarrow> wf_node x' \<and> tspan x' = tspan x \<and> metrics x' = metrics x"


lemma ROTATE_wf: "wf_node x \<Longrightarrow> \<exists>x'. ROTATE x = Some x' \<and> same_shape x' x \<and> valid x' = valid x"
  by (cases "smpls x") (auto simp: ROTATE_def rotate_ring_def same_shape_def wf_node_def list_all_iff dest: in_set_butlastD)

lemma get_wf: "wf_node a \<Longrightarrow> n \<le> tspan a \<Longrightarrow> get n a = Some (take n (s_ptr (hd (smpls a))), s_stamp (hd (smpls a)))"
  by (cases "smpls a") (auto simp: get_def wf_node_def)


lemma wf_length: "wf_node x \<Longrightarrow> length (s_ptr (hd (smpls x))) = tspan x" "wf_node x \<Longrightarrow> 0 < tspan x"
  by (cases "smpls x"; auto simp: wf_node_def)+












lemma n_1_lone:
  assumes "wf_node x" "wf_node arg2" "valid arg1 = 0" "valid arg2 \<noteq> 0" "tspan arg2 = 1" "1 < tspan x"
  shows "\<exists>x'. cnd_n_1 f f1 arg1 arg2 x = Some x' \<and> valid x' \<noteq> 0 \<and> s_ptr (hd (smpls x')) = f1 (s_ptr (hd (smpls arg2)) ! 0) # tl (s_ptr (last (smpls x)))"
proof -
  obtain y where y: "ROTATE x = Some y" "same_shape y x" "valid y = valid x" using ROTATE_wf [OF assms(1)] by blast
  have h: "s_ptr (hd (smpls y)) = s_ptr (last (smpls x))" using y(1) assms(1)
    by (cases "smpls x") (auto simp: ROTATE_def rotate_ring_def wf_node_def split: if_splits)
  have y': "0 \<le> valid y" "tspan y = tspan x" "wf_node y" using y(2,3) assms(1) unfolding same_shape_def wf_node_def [of x] by linarith+
  obtain z zs where z: "smpls y = z # zs" using y'(3) by (cases "smpls y") (auto simp: wf_node_def)
  have p: "length (s_ptr z) = tspan x" using wf_length(1) [OF y'(3)] y'(2) z by simp
  have "length (s_ptr (hd (smpls arg2))) = 1" using wf_length(1) [OF assms(2)] assms(5) by simp
  then have "take 1 (s_ptr (hd (smpls arg2))) = [s_ptr (hd (smpls arg2)) ! 0]" by (cases "s_ptr (hd (smpls arg2))") auto
  then have g: "get 1 arg2 = Some ([s_ptr (hd (smpls arg2)) ! 0], s_stamp (hd (smpls arg2)))" using get_wf [OF assms(2), of 1] assms(5) by simp
  have "cnd_n_1 f f1 arg1 arg2 x = put [f1 (s_ptr (hd (smpls arg2)) ! 0)] (s_stamp (hd (smpls arg2))) y"
    using y(1) y'(2) g assms(3,4,6) by (simp add: cnd_n_1_def)
  then show ?thesis using z p y'(1) assms(6) h by (simp add: put_def drop_Suc)
qed

text \<open>
  When the scalar is the only valid argument, the sample is marked valid but only its first value is set: the
  values of the other instances are those of the oldest sample of the ring, whatever they were.
\<close>

theorem andor_lone_scalar:
  assumes "wf_node x" "wf_node arg2" "valid arg1 = 0" "valid arg2 \<noteq> 0" "tspan arg2 = 1" "1 < tspan x"
  shows "(\<exists>x'. cndOr_n_1 arg1 arg2 x = Some x' \<and> valid x' \<noteq> 0 \<and> tl (s_ptr (hd (smpls x'))) = tl (s_ptr (last (smpls x)))) \<and>
    (\<exists>x'. cndAnd_n_1 arg1 arg2 x = Some x' \<and> valid x' \<noteq> 0 \<and> tl (s_ptr (hd (smpls x'))) = tl (s_ptr (last (smpls x))))"
  using n_1_lone [OF assms, of m_OR m_OR1] n_1_lone [OF assms, of m_AND m_AND1] by (auto simp: cndOr_n_1_def cndAnd_n_1_def)

section \<open>Instances\<close>

definition sample_node :: "int \<Rightarrow> truth list list \<Rightarrow> metric list \<Rightarrow> nat node" where
  "sample_node v vss ms = \<lparr>valid = v, tspan = length (hd vss), smpls = map (\<lambda>vs. \<lparr>s_ptr = vs, s_stamp = 0\<rparr>) vss, metrics = ms\<rparr>"

definition all_instances :: metric where
  "all_instances = \<lparr>m_null = False, m_specinst = 0\<rparr>"



theorem andor_lone_scalar_witness:
  "\<exists>x'. cndAnd_n_1 (sample_node 0 [[TRUE, TRUE]] [all_instances]) (sample_node 1 [[FALSE]] []) (sample_node 1 [[TRUE, TRUE]] [all_instances]) = Some x' \<and>
    valid x' \<noteq> 0 \<and> tl (s_ptr (hd (smpls x'))) = [TRUE]"
  using andor_lone_scalar [of "sample_node 1 [[TRUE, TRUE]] [all_instances]" "sample_node 1 [[FALSE]] []" "sample_node 0 [[TRUE, TRUE]] [all_instances]"]
  by (simp add: sample_node_def wf_node_def)

end
