(* ===== verification/Pmns.thy ===== *)
theory Pmns
  imports Prelude "HOL-Library.Sublist"
begin

text \<open>
  The name space of the metrics: the tree of \<^verbatim>\<open>pmns.c\<close> with its hash table, the operations on a local name
  space, and \<^verbatim>\<open>tree.c\<close> of the agent library, which searches such trees. They are
  built by adding names, not by the loader, to whose trees names cannot be added. A node has its children in the order
  of the list; a pointer to a node is the path of positions that leads to it from the root. The
  parent of a node is given by its path, so that setting the parent pointers is no step of its
  own. Strings are without their terminators. Derived metrics are the list of names and identifiers that \<^verbatim>\<open>derive.c\<close> has
  registered. The context is not one for local agents, so that no agent is asked for names below a dynamic root, and
  the name space is not a remote one, which is asked for by PDUs. Memory is sufficient but for the nodes of the tree, of which an argument says how many can be had.
\<close>

section \<open>Identifiers\<close>

definition PM_ID_NULL :: u32 where "PM_ID_NULL = 0xffffffff"
definition PMID_MASK :: u32 where "PMID_MASK = 0x7fffffff"
definition MARK_BIT :: u32 where "MARK_BIT = 0x80000000"
definition DYNAMIC_PMID :: u32 where "DYNAMIC_PMID = 511"

definition PM_ERR_PMNS :: int where "PM_ERR_PMNS = - PM_ERR_BASE2 - 1"
definition PM_ERR_NAME :: int where "PM_ERR_NAME = - PM_ERR_BASE2 - 12"
definition PM_ERR_PMID :: int where "PM_ERR_PMID = - PM_ERR_BASE2 - 13"
definition PM_ERR_NONLEAF :: int where "PM_ERR_NONLEAF = - PM_ERR_BASE2 - 49"

lemmas pmns_errors = PM_ERR_PMNS_def PM_ERR_NAME_def PM_ERR_PMID_def PM_ERR_NONLEAF_def PM_ERR_BASE2_def

definition pmid_item :: "u32 \<Rightarrow> u32" where "pmid_item pmid = take_bit 10 pmid"
definition domain_of :: "u32 \<Rightarrow> u32" where "domain_of pmid = take_bit 9 (drop_bit 22 pmid)"

text \<open>The root of a dynamic subtree.\<close>

definition dynamic :: "u32 \<Rightarrow> bool" where
  "dynamic pmid \<longleftrightarrow> domain_of pmid = DYNAMIC_PMID \<and> pmid_item pmid = 0"

section \<open>The tree\<close>

datatype pmnsNode = PN (pn_name: string) (pn_pmid: u32) (pn_first: "pmnsNode list")

record pmnsTree =
  root :: pmnsNode
  htab :: "nat list list list"
  mark_state :: int

definition pmNewPMNS :: pmnsTree where
  "pmNewPMNS = \<lparr>root = PN ''root'' PM_ID_NULL [], htab = [], mark_state = - 1\<rparr>"

text \<open>The first component of a name, and what is behind its dot, if there is one.\<close>

definition not_dot :: "char \<Rightarrow> bool" where
  "not_dot c \<longleftrightarrow> c \<noteq> CHR ''.''"

definition component :: "string \<Rightarrow> string" where
  "component name = takeWhile not_dot name"

definition tail :: "string \<Rightarrow> string option" where
  "tail name = (case dropWhile not_dot name of [] \<Rightarrow> None | _ # cs \<Rightarrow> Some cs)"

lemma tail_length [termination_simp]: "tail name = Some rest \<Longrightarrow> length rest < length name"
  using length_dropWhile_le [of not_dot name] by (auto simp: tail_def split: list.splits)

text \<open>The new nodes for a name, the last of which is a leaf. When the memory is used up, those made so far stay in the tree.\<close>

function new_nodes :: "nat \<Rightarrow> u32 \<Rightarrow> string \<Rightarrow> int \<times> pmnsNode list" where
  "new_nodes mem pmid name = (case mem of
       0 \<Rightarrow> (- ENOMEM, [])
     | Suc mem \<Rightarrow> (case tail name of
           None \<Rightarrow> (0, [PN (component name) pmid []])
         | Some rest \<Rightarrow> (case new_nodes mem pmid rest of (sts, kids) \<Rightarrow> (sts, [PN (component name) PM_ID_NULL kids]))))"
  by pat_completeness auto
termination by (relation "measure (\<lambda>(mem, pmid, name). mem)") auto

declare new_nodes.simps [simp del]

fun find_kid :: "(pmnsNode \<Rightarrow> bool) \<Rightarrow> pmnsNode list \<Rightarrow> nat option" where
  "find_kid P [] = None"
| "find_kid P (np # nps) = (if P np then Some 0 else map_option Suc (find_kid P nps))"

function AddPMNSNode :: "nat \<Rightarrow> pmnsNode \<Rightarrow> u32 \<Rightarrow> string \<Rightarrow> int \<times> pmnsNode" where
  "AddPMNSNode mem (PN n p kids) pmid name = (case find_kid (\<lambda>np. pn_name np = component name) kids of
       None \<Rightarrow> (case new_nodes mem pmid name of (sts, nps) \<Rightarrow> (sts, PN n p (nps @ kids)))
     | Some i \<Rightarrow> (case tail name of
           None \<Rightarrow> (if pn_pmid (kids ! i) \<noteq> pmid then PM_ERR_PMID else 0, PN n p kids)
         | Some rest \<Rightarrow> (case AddPMNSNode mem (kids ! i) pmid rest of (sts, np) \<Rightarrow> (sts, PN n p (kids[i := np])))))"
  by pat_completeness auto
termination by (relation "measure (\<lambda>(mem, np, pmid, name). length name)") (auto simp: tail_length)

declare AddPMNSNode.simps [simp del]

definition pmAddPMNSNode :: "nat \<Rightarrow> pmnsTree \<Rightarrow> u32 \<Rightarrow> string \<Rightarrow> int \<times> pmnsTree" where
  "pmAddPMNSNode mem t pmid name = (case AddPMNSNode mem (root t) pmid name of (sts, r) \<Rightarrow> (sts, t\<lparr>root := r\<rparr>))"

section \<open>Pointers\<close>

fun node_at :: "pmnsNode \<Rightarrow> nat list \<Rightarrow> pmnsNode" where
  "node_at np [] = np"
| "node_at np (i # path) = node_at (pn_first np ! i) path"

fun node_names :: "pmnsNode \<Rightarrow> nat list \<Rightarrow> string list" where
  "node_names np [] = []"
| "node_names np (i # path) = pn_name (pn_first np ! i) # node_names (pn_first np ! i) path"

fun dotted :: "string list \<Rightarrow> string" where
  "dotted [] = []"
| "dotted [n] = n"
| "dotted (n # ns) = n @ CHR ''.'' # dotted ns"

definition backname :: "pmnsNode \<Rightarrow> nat list \<Rightarrow> string" where
  "backname r path = dotted (node_names r path)"

section \<open>The hash table\<close>

definition htab_size :: "nat \<Rightarrow> nat" where
  "htab_size numpmid = (
     let h = numpmid div 5;
         h = (if h mod 2 = 0 then h + 1 else h);
         h = (if h mod 3 = 0 then h + 2 else h)
     in if h mod 5 = 0 then h + 2 else h)"

definition chain :: "nat list list list \<Rightarrow> u32 \<Rightarrow> nat list list" where
  "chain h pmid = h ! (unat pmid mod length h)"

definition link_node :: "bool \<Rightarrow> pmnsNode \<Rightarrow> u32 \<Rightarrow> nat list \<Rightarrow> nat list list list \<Rightarrow> int \<times> nat list list list" where
  "link_node dupok r pmid path h = (
     if list_ex (\<lambda>xp. pn_pmid (node_at r xp) = pmid) (chain h pmid) \<and> \<not> dupok \<and> \<not> dynamic pmid then (PM_ERR_PMNS, h)
     else (0, h[unat pmid mod length h := path # chain h pmid]))"

text \<open>The children of a node from a given position on, each followed by what is below it.\<close>

fun backlink :: "bool \<Rightarrow> pmnsNode \<Rightarrow> nat list \<Rightarrow> nat \<Rightarrow> pmnsNode list \<Rightarrow> nat list list list \<Rightarrow> int \<times> nat list list list" where
  "backlink dupok r path i [] h = (0, h)"
| "backlink dupok r path i (PN n pmid kids # nps) h = (
     case (if pmid \<noteq> PM_ID_NULL then link_node dupok r pmid (path @ [i]) h else (0, h)) of (sts, h) \<Rightarrow>
       if sts \<noteq> 0 then (sts, h)
       else (case backlink dupok r (path @ [i]) 0 kids h of (sts, h) \<Rightarrow>
         if sts \<noteq> 0 then (sts, h) else backlink dupok r path (Suc i) nps h))"

definition set_mark :: "bool \<Rightarrow> u32 \<Rightarrow> u32" where
  "set_mark b pmid = (if b then pmid OR MARK_BIT else pmid AND NOT MARK_BIT)"

fun mark_path :: "bool \<Rightarrow> nat list \<Rightarrow> pmnsNode \<Rightarrow> pmnsNode" where
  "mark_path b [] (PN n pmid kids) = PN n (set_mark b pmid) kids"
| "mark_path b (i # path) (PN n pmid kids) = PN n (set_mark b pmid) (kids[i := mark_path b path (kids ! i)])"

definition mark_all :: "bool \<Rightarrow> pmnsTree \<Rightarrow> pmnsTree" where
  "mark_all b t = (
     if mark_state t = of_bool b then t
     else t\<lparr>mark_state := of_bool b, root := fold (mark_path b) (concat (htab t)) (root t)\<rparr>)"

definition mark_one :: "u32 \<Rightarrow> bool \<Rightarrow> pmnsTree \<Rightarrow> pmnsTree" where
  "mark_one pmid b t = (
     if mark_state t = of_bool b then t
     else t\<lparr>mark_state := - 1, root := (
       case find (\<lambda>np. pn_pmid (node_at (root t) np) AND PMID_MASK = pmid AND PMID_MASK) (chain (htab t) pmid) of
         None \<Rightarrow> root t | Some np \<Rightarrow> mark_path b np (root t))\<rparr>)"

definition pmFixPMNSHashTab :: "pmnsTree \<Rightarrow> nat \<Rightarrow> bool \<Rightarrow> int \<times> pmnsTree" where
  "pmFixPMNSHashTab t numpmid dupok = (
     case backlink dupok (root t) [] 0 (pn_first (root t)) (replicate (htab_size numpmid) []) of (sts, h) \<Rightarrow>
       if sts < 0 then (sts, t\<lparr>htab := h\<rparr>) else (0, mark_all False (t\<lparr>htab := h\<rparr>)))"

section \<open>Operations on a local name space\<close>

function locate :: "string \<Rightarrow> pmnsNode \<Rightarrow> nat list option" where
  "locate name (PN n p kids) = (case find_kid (\<lambda>np. pn_name np = component name \<and> pn_pmid np AND MARK_BIT = 0) kids of
       None \<Rightarrow> None
     | Some i \<Rightarrow> (case tail name of None \<Rightarrow> Some [i] | Some rest \<Rightarrow> map_option ((#) i) (locate rest (kids ! i))))"
  by pat_completeness auto
termination by (relation "measure (\<lambda>(name, np). length name)") (auto simp: tail_length)

declare locate.simps [simp del]

type_synonym derived = "(string \<times> u32) list"

definition dmgetpmid :: "derived \<Rightarrow> string \<Rightarrow> int + u32" where
  "dmgetpmid mlist name = (case find (\<lambda>m. fst m = name) mlist of None \<Rightarrow> Inl PM_ERR_NAME | Some m \<Rightarrow> Inr (snd m))"

definition dmgetname :: "derived \<Rightarrow> u32 \<Rightarrow> int + string" where
  "dmgetname mlist pmid = (case find (\<lambda>m. snd m = pmid) mlist of None \<Rightarrow> Inl PM_ERR_PMID | Some m \<Rightarrow> Inr (fst m))"

text \<open>The name before the last dot.\<close>

definition before_dot :: "string \<Rightarrow> string option" where
  "before_dot name = (case dropWhile not_dot (rev name) of [] \<Rightarrow> None | _ # cs \<Rightarrow> Some (rev cs))"

lemma before_dot_length [termination_simp]: "before_dot name = Some xname \<Longrightarrow> length xname < length name"
  using length_dropWhile_le [of not_dot "rev name"] by (auto simp: before_dot_def split: list.splits)

text \<open>A name that is not found may be below the root of a dynamic subtree; its identifier is used when the context is not a local one.\<close>

function dynamic_root :: "pmnsNode \<Rightarrow> string \<Rightarrow> u32" where
  "dynamic_root r name = (case before_dot name of
       None \<Rightarrow> PM_ID_NULL
     | Some xname \<Rightarrow> (case locate xname r of
           Some path \<Rightarrow> if pn_first (node_at r path) = [] \<and> dynamic (pn_pmid (node_at r path)) then pn_pmid (node_at r path) else dynamic_root r xname
         | None \<Rightarrow> dynamic_root r xname))"
  by pat_completeness auto
termination by (relation "measure (\<lambda>(r, name). length name)") (auto simp: before_dot_length)

declare dynamic_root.simps [simp del]

text \<open>For each name its identifier and the status, which is the last error if there is one.\<close>

definition lookup_one :: "pmnsNode \<Rightarrow> string \<Rightarrow> int \<times> u32 \<times> bool" where
  "lookup_one r name = (case locate name r of
       Some path \<Rightarrow> if pn_first (node_at r path) = [] then (0, pn_pmid (node_at r path), False) else (PM_ERR_NONLEAF, PM_ID_NULL, True)
     | None \<Rightarrow> let pmid = dynamic_root r name in (0, pmid, pmid = PM_ID_NULL))"

definition derive_one :: "derived \<Rightarrow> string \<times> u32 \<Rightarrow> u32 \<times> bool" where
  "derive_one mlist x = (if snd x = PM_ID_NULL then (case dmgetpmid mlist (fst x) of Inl _ \<Rightarrow> (PM_ID_NULL, True) | Inr pmid \<Rightarrow> (pmid, False)) else (snd x, False))"

definition pmLookupName :: "derived \<Rightarrow> pmnsTree \<Rightarrow> string list \<Rightarrow> int \<times> u32 list" where
  "pmLookupName mlist t namelist = (
     if namelist = [] then (PM_ERR_TOOSMALL, [])
     else let rs = map (lookup_one (root t)) namelist;
              numpmid = int (length namelist);
              nfail = int (length (filter (\<lambda>(sts, pmid, bad). bad) rs));
              sts = fold (\<lambda>(s, pmid, bad) sts. if s \<noteq> 0 then s else sts) rs 0;
              sts = (if sts = 0 then numpmid - nfail else sts);
              pmidlist = map (fst \<circ> snd) rs;
              ds = map (derive_one mlist) (zip namelist pmidlist);
              (sts, pmidlist) = (if sts < 0 \<or> nfail > 0
                 then (if list_ex snd ds then sts else numpmid, map fst ds)
                 else (sts, pmidlist))
          in (if sts = 0 \<and> numpmid = 1 then PM_ERR_NAME else sts, pmidlist))"

definition pmNameID :: "derived \<Rightarrow> pmnsTree \<Rightarrow> u32 \<Rightarrow> int + string" where
  "pmNameID mlist t pmid = (case find (\<lambda>np. pn_pmid (node_at (root t) np) = pmid) (chain (htab t) pmid) of
       Some np \<Rightarrow> if dynamic pmid then Inl PM_ERR_PMID else Inr (backname (root t) np)
     | None \<Rightarrow> dmgetname mlist pmid)"

definition pmNameAll :: "derived \<Rightarrow> pmnsTree \<Rightarrow> u32 \<Rightarrow> int + string list" where
  "pmNameAll mlist t pmid = (
     if dynamic pmid then Inl PM_ERR_PMID
     else let nps = filter (\<lambda>np. pn_pmid (node_at (root t) np) = pmid) (chain (htab t) pmid) in
       if nps \<noteq> [] then Inr (map (backname (root t)) nps)
       else (case dmgetname mlist pmid of Inl sts \<Rightarrow> Inl sts | Inr name \<Rightarrow> Inr [name]))"

definition PMNS_LEAF_STATUS :: int where "PMNS_LEAF_STATUS = 0"
definition PMNS_NONLEAF_STATUS :: int where "PMNS_NONLEAF_STATUS = 1"

text \<open>
  The children that derived metrics give to a name, each once as long as the names are met in the
  right order; a derived metric of that name itself ends the search. It must not come after one of its children.
\<close>

fun dm_loop :: "derived \<Rightarrow> string \<Rightarrow> (string \<times> int) list \<Rightarrow> (int \<times> (string \<times> int) list) option" where
  "dm_loop [] name children = Some (if children = [] then PM_ERR_NAME else int (length children), children)"
| "dm_loop ((mname, pmid) # mlist) name children = (
     let matchlen = length name in
     if name = [] \<or> take matchlen mname = name \<and> (length mname = matchlen \<or> mname ! matchlen = CHR ''.'') then
       if length mname = matchlen then (if children = [] then Some (0, []) else None)
       else let rest = drop (if matchlen > 0 then matchlen + 1 else 0) mname in
         if list_ex (\<lambda>(c, st). take (length c) rest = c \<and> length c < length rest \<and> rest ! length c = CHR ''.'') children then dm_loop mlist name children
         else dm_loop mlist name (children @ [(component rest, if tail rest = None then PMNS_LEAF_STATUS else PMNS_NONLEAF_STATUS)])
     else dm_loop mlist name children)"

definition dmchildren :: "derived \<Rightarrow> string \<Rightarrow> (int \<times> (string \<times> int) list) option" where
  "dmchildren mlist name = dm_loop mlist name []"

definition stitch_list :: "(string \<times> int) list \<Rightarrow> (string \<times> int) list \<Rightarrow> (string \<times> int) list" where
  "stitch_list offspring x_offspring = offspring @ filter (\<lambda>x. fst x \<notin> fst ` set offspring) x_offspring"

definition kid_status :: "pmnsNode \<Rightarrow> int" where
  "kid_status np = (if dynamic (pn_pmid np) then PMNS_NONLEAF_STATUS else if pn_first np = [] then PMNS_LEAF_STATUS else PMNS_NONLEAF_STATUS)"

definition local_children :: "pmnsNode \<Rightarrow> string \<Rightarrow> int \<times> (string \<times> int) list" where
  "local_children r name = (case (if name = [] then Some [] else locate name r) of
       None \<Rightarrow> (PM_ERR_NAME, [])
     | Some path \<Rightarrow> let kids = filter (\<lambda>np. pn_pmid np AND MARK_BIT = 0) (pn_first (node_at r path)) in
         (int (length kids), map (\<lambda>np. (pn_name np, kid_status np)) kids))"

definition pmGetChildrenStatus :: "derived \<Rightarrow> pmnsTree \<Rightarrow> string \<Rightarrow> (int \<times> (string \<times> int) list) option" where
  "pmGetChildrenStatus mlist t name = (case local_children (root t) name of (num, offspring) \<Rightarrow> do {
     (dm_num, dm_offspring) \<leftarrow> dmchildren mlist name;
     Some (if dm_num > 0 then (let l = stitch_list offspring dm_offspring in (int (length l), l))
           else if dm_num = 0 \<and> num < 0 then (0, offspring)
           else (num, offspring))
   })"

definition child_name :: "string \<Rightarrow> string \<Rightarrow> string" where
  "child_name name kid = (if name = [] then kid else name @ CHR ''.'' # kid)"

text \<open>The status and the names for which the function is called. The depth of the recursion is bounded by an argument.\<close>

fun TraversePMNS_local :: "nat \<Rightarrow> derived \<Rightarrow> pmnsTree \<Rightarrow> string \<Rightarrow> (int \<times> string list) option"
  and traverse_kids :: "nat \<Rightarrow> derived \<Rightarrow> pmnsTree \<Rightarrow> string \<Rightarrow> string list \<Rightarrow> (int \<times> string list) option" where
  "TraversePMNS_local 0 mlist t name = None"
| "TraversePMNS_local (Suc k) mlist t name = do {
     (nchildren, enfants) \<leftarrow> pmGetChildrenStatus mlist t name;
     if nchildren < 0 then Some (nchildren, [])
     else if nchildren > 0 then traverse_kids k mlist t name (map fst enfants)
     else Some (0, [name])
   }"
| "traverse_kids k mlist t name [] = Some (0, [])"
| "traverse_kids k mlist t name (kid # kids) = do {
     (sts, called) \<leftarrow> TraversePMNS_local k mlist t (child_name name kid);
     if sts < 0 then Some (sts, called)
     else do {
       (sts, called') \<leftarrow> traverse_kids k mlist t name kids;
       Some (sts, called @ called')
     }
   }"

text \<open>Trimming to the metrics of an archive, whose identifiers are given in the order of its hash table.\<close>

definition pmTrimNameSpace :: "bool \<Rightarrow> bool \<Rightarrow> u32 list \<Rightarrow> pmnsTree \<Rightarrow> pmnsTree" where
  "pmTrimNameSpace archive havePmLoadCall pmids t = (
     if \<not> archive then mark_all False t
     else if havePmLoadCall then fold (\<lambda>pmid. mark_one pmid False) pmids (mark_all True t)
     else t)"

section \<open>Trees of agents\<close>

definition NONLEAF :: "pmnsNode \<Rightarrow> bool" where
  "NONLEAF np \<longleftrightarrow> pn_pmid np = PM_ID_NULL"

fun pmdaTreeReindexHash :: "nat list \<Rightarrow> nat \<Rightarrow> pmnsNode list \<Rightarrow> nat list list list \<Rightarrow> nat list list list" where
  "pmdaTreeReindexHash path i [] h = h"
| "pmdaTreeReindexHash path i (PN n pmid kids # nps) h = (
     let h = (if pmid \<noteq> PM_ID_NULL then h[unat pmid mod length h := (path @ [i]) # chain h pmid] else h) in
     pmdaTreeReindexHash path (Suc i) nps (pmdaTreeReindexHash (path @ [i]) 0 kids h))"

definition pmdaTreeRebuildHash :: "pmnsTree \<Rightarrow> nat \<Rightarrow> pmnsTree" where
  "pmdaTreeRebuildHash t numpmid = t\<lparr>htab := pmdaTreeReindexHash [] 0 (pn_first (root t)) (replicate (htab_size numpmid) [])\<rparr>"

fun pmdaNodeCount :: "pmnsNode list \<Rightarrow> nat" where
  "pmdaNodeCount [] = 0"
| "pmdaNodeCount (PN n pmid kids # nps) = (if pmid \<noteq> PM_ID_NULL then 1 else pmdaNodeCount kids) + pmdaNodeCount nps"

definition pmdaTreeSize :: "pmnsTree \<Rightarrow> nat" where
  "pmdaTreeSize t = pmdaNodeCount (pn_first (root t))"

fun pmdaNodeLookup :: "nat \<Rightarrow> pmnsNode list \<Rightarrow> string \<Rightarrow> nat list option" where
  "pmdaNodeLookup i [] name = None"
| "pmdaNodeLookup i (PN n pmid kids # nps) name = (
     if take (length n) name = n \<and> length name = length n then Some [i]
     else if take (length n) name = n \<and> name ! length n = CHR ''.'' \<and> pmid = PM_ID_NULL then map_option ((#) i) (pmdaNodeLookup 0 kids (drop (length n + 1) name))
     else pmdaNodeLookup (Suc i) nps name)"

definition pmdaTreePMID :: "pmnsTree \<Rightarrow> string \<Rightarrow> int + u32" where
  "pmdaTreePMID t name = (case pmdaNodeLookup 0 (pn_first (root t)) name of
       None \<Rightarrow> Inl PM_ERR_NAME
     | Some np \<Rightarrow> if NONLEAF (node_at (root t) np) then Inl PM_ERR_NAME else Inr (pn_pmid (node_at (root t) np)))"

definition pmdaTreeName :: "pmnsTree \<Rightarrow> u32 \<Rightarrow> int + string list" where
  "pmdaTreeName t pmid = (let nps = filter (\<lambda>np. pn_pmid (node_at (root t) np) = pmid) (chain (htab t) pmid) in
     if nps = [] then Inl PM_ERR_PMID else Inr (map (backname (root t)) nps))"

definition pmdaNodeRelativeChildren :: "pmnsNode list \<Rightarrow> (string \<times> int) list" where
  "pmdaNodeRelativeChildren nps = map (\<lambda>np. (pn_name np, if NONLEAF np then PMNS_NONLEAF_STATUS else PMNS_LEAF_STATUS)) nps"

text \<open>The absolute names of all leaves below a list of nodes.\<close>

fun pmdaNodeChildrenGetList :: "pmnsNode \<Rightarrow> nat list \<Rightarrow> nat \<Rightarrow> pmnsNode list \<Rightarrow> (string \<times> int) list" where
  "pmdaNodeChildrenGetList r path i [] = []"
| "pmdaNodeChildrenGetList r path i (PN n pmid kids # nps) =
     (if pmid = PM_ID_NULL then pmdaNodeChildrenGetList r (path @ [i]) 0 kids else [(backname r (path @ [i]), PMNS_LEAF_STATUS)]) @
     pmdaNodeChildrenGetList r path (Suc i) nps"

definition pmdaNodeAbsoluteChildren :: "pmnsNode \<Rightarrow> nat list \<Rightarrow> (string \<times> int) list" where
  "pmdaNodeAbsoluteChildren r np = (
     if NONLEAF (node_at r np) then pmdaNodeChildrenGetList r np 0 (pn_first (node_at r np))
     else [(backname r np, PMNS_LEAF_STATUS)])"

definition pmdaTreeChildren :: "pmnsTree \<Rightarrow> string \<Rightarrow> bool \<Rightarrow> int + (string \<times> int) list" where
  "pmdaTreeChildren t name traverse = (case pmdaNodeLookup 0 (pn_first (root t)) name of
       None \<Rightarrow> Inl PM_ERR_NAME
     | Some np \<Rightarrow> Inr (if traverse then pmdaNodeAbsoluteChildren (root t) np else pmdaNodeRelativeChildren (pn_first (node_at (root t) np))))"

section \<open>Names and their components\<close>

definition no_dot :: "string \<Rightarrow> bool" where
  "no_dot n \<longleftrightarrow> list_all not_dot n"

function comps :: "string \<Rightarrow> string list" where
  "comps name = component name # (case tail name of None \<Rightarrow> [] | Some rest \<Rightarrow> comps rest)"
  by pat_completeness auto
termination by (relation "measure length") (auto simp: tail_length)

declare comps.simps [simp del]

lemma component_dotted:
  assumes "no_dot n"
  shows "component n = n" "tail n = None" "component (n @ CHR ''.'' # s) = n" "tail (n @ CHR ''.'' # s) = Some s"
proof -
  have "takeWhile not_dot n = n" "dropWhile not_dot n = []" using assms by (simp_all add: no_dot_def list_all_iff takeWhile_eq_all_conv)
  then show "component n = n" "tail n = None" by (simp_all only: component_def tail_def list.case)
  have n: "\<forall>c \<in> set n. not_dot c" using assms by (simp add: no_dot_def list_all_iff)
  then show "component (n @ CHR ''.'' # s) = n" "tail (n @ CHR ''.'' # s) = Some s"
    by (simp_all add: component_def tail_def takeWhile_append2 dropWhile_append2 not_dot_def)
qed

lemma no_dot_component: "no_dot (component name)"
  by (auto simp: no_dot_def component_def list_all_iff dest: set_takeWhileD)

lemma component_tail: "name = (case tail name of None \<Rightarrow> component name | Some rest \<Rightarrow> component name @ CHR ''.'' # rest)"
proof (cases "dropWhile not_dot name")
  case Nil
  then have "tail name = None" by (simp only: tail_def list.case)
  moreover have "component name = name" using takeWhile_dropWhile_id [of not_dot name] unfolding Nil component_def by simp
  ultimately show ?thesis by simp
next
  case (Cons c cs)
  then have "\<not> not_dot c" using hd_dropWhile [of not_dot name] by simp
  then show ?thesis using takeWhile_dropWhile_id [of not_dot name] Cons by (simp add: tail_def component_def not_dot_def)
qed

lemma comps_ne [simp]: "comps name \<noteq> []" "[] \<noteq> comps name"
  by (subst comps.simps, simp)+

lemma comps_no_dot: "list_all no_dot (comps name)"
proof (induction name rule: comps.induct)
  case (1 name)
  then show ?case by (subst comps.simps) (auto simp: no_dot_component split: option.split)
qed

lemma dotted_Cons: "ns \<noteq> [] \<Longrightarrow> dotted (n # ns) = n @ CHR ''.'' # dotted ns"
  by (cases ns) auto

lemma dotted_comps [simp]: "dotted (comps name) = name"
proof (induction name rule: comps.induct)
  case (1 name)
  then show ?case using component_tail [of name] by (subst comps.simps) (auto simp: dotted_Cons split: option.splits)
qed

lemma comps_dotted: "ns \<noteq> [] \<Longrightarrow> list_all no_dot ns \<Longrightarrow> comps (dotted ns) = ns"
proof (induction ns)
  case (Cons n ns)
  then show ?case by (cases "ns = []"; subst comps.simps) (simp_all add: dotted_Cons component_dotted)
qed simp

lemma comps_inject: "comps a = comps b \<longleftrightarrow> a = b"
  by (metis dotted_comps)

lemma comps_cases:
  obtains n where "comps name = [n]" "component name = n" "tail name = None"
  | n rest where "comps name = n # comps rest" "component name = n" "tail name = Some rest"
  by (cases "tail name") (auto simp: comps.simps [of name])

section \<open>Well-formed trees\<close>

text \<open>Siblings have different names, leaves have identifiers without a mark, and other nodes have a given one and a child.\<close>

fun wf_kids :: "pmnsNode list \<Rightarrow> bool" where
  "wf_kids [] \<longleftrightarrow> True"
| "wf_kids (PN n p kids # nps) \<longleftrightarrow> n \<notin> pn_name ` set nps \<and> no_dot n \<and>
     (if kids = [] then p AND MARK_BIT = 0 else p = PM_ID_NULL \<and> wf_kids kids) \<and> wf_kids nps"

fun leaves :: "pmnsNode list \<Rightarrow> (string list \<times> u32) list" where
  "leaves [] = []"
| "leaves (PN n p kids # nps) = (if kids = [] then [([n], p)] else map (\<lambda>(ns, q). (n # ns, q)) (leaves kids)) @ leaves nps"

lemma PM_ID_NULL_marked: "PM_ID_NULL AND MARK_BIT \<noteq> 0"
  by (simp add: PM_ID_NULL_def MARK_BIT_def)

lemma wf_append: "wf_kids (xs @ ys) \<longleftrightarrow> wf_kids xs \<and> wf_kids ys \<and> pn_name ` set xs \<inter> pn_name ` set ys = {}"
  by (induction xs rule: wf_kids.induct) auto

lemma leaves_append: "leaves (xs @ ys) = leaves xs @ leaves ys"
  by (induction xs rule: leaves.induct) auto

lemma leaves_ne: "wf_kids nps \<Longrightarrow> nps \<noteq> [] \<Longrightarrow> leaves nps \<noteq> []"
  by (induction nps rule: wf_kids.induct) auto

lemma leaves_name: "(ns, q) \<in> set (leaves nps) \<Longrightarrow> ns \<noteq> [] \<and> hd ns \<in> pn_name ` set nps"
  by (induction nps arbitrary: ns q rule: leaves.induct) (auto split: if_splits)

lemma find_kid_None: "find_kid P nps = None \<longleftrightarrow> (\<forall>np \<in> set nps. \<not> P np)"
  by (induction nps) auto

lemma find_kid_Some: "find_kid P nps = Some i \<Longrightarrow> i < length nps \<and> P (nps ! i) \<and> nps = take i nps @ nps ! i # drop (Suc i) nps"
  by (induction nps arbitrary: i) (auto split: if_splits)

section \<open>Adding names\<close>

lemma new_nodes_leaves:
  "length (comps name) \<le> mem \<Longrightarrow> pmid AND MARK_BIT = 0 \<Longrightarrow>
    \<exists>np. new_nodes mem pmid name = (0, [np]) \<and> pn_name np = component name \<and> wf_kids [np] \<and> leaves [np] = [(comps name, pmid)]"
proof (induction mem arbitrary: name)
  case (Suc mem)
  show ?case
  proof (cases name rule: comps_cases)
    case (1 n)
    then show ?thesis using Suc.prems no_dot_component [of name] by (simp add: new_nodes.simps)
  next
    case (2 n rest)
    then obtain np where "new_nodes mem pmid rest = (0, [np])" "wf_kids [np]" "leaves [np] = [(comps rest, pmid)]" using Suc.IH [of rest] Suc.prems by auto
    then show ?thesis using 2 no_dot_component [of name] by (simp add: new_nodes.simps)
  qed
qed (simp add: comps.simps)

text \<open>A name can be added when it is neither a prefix of a name nor has one as prefix.\<close>

definition free_for :: "string list \<Rightarrow> pmnsNode list \<Rightarrow> bool" where
  "free_for ns nps \<longleftrightarrow> (\<forall>(ms, q) \<in> set (leaves nps). \<not> prefix ms ns \<and> \<not> prefix ns ms)"

lemma free_for_append: "free_for ns (xs @ ys) \<longleftrightarrow> free_for ns xs \<and> free_for ns ys"
  by (auto simp: free_for_def leaves_append)

lemma free_for_single: "kids \<noteq> [] \<Longrightarrow> free_for (n # ns) [PN n p kids] \<longleftrightarrow> free_for ns kids"
  by (auto simp: free_for_def)

lemma add_leaf:
  assumes "wf_kids kids" "free_for (comps name) kids" "length (comps name) \<le> mem" "pmid AND MARK_BIT = 0"
  shows "\<exists>kids'. AddPMNSNode mem (PN m p kids) pmid name = (0, PN m p kids') \<and> wf_kids kids' \<and> kids' \<noteq> [] \<and>
    set (leaves kids') = insert (comps name, pmid) (set (leaves kids)) \<and> length (leaves kids') = Suc (length (leaves kids))"
  using assms
proof (induction name arbitrary: kids m p mem rule: comps.induct)
  case (1 name)
  show ?case
  proof (cases "find_kid (\<lambda>np. pn_name np = component name) kids")
    case None
    obtain np where np: "new_nodes mem pmid name = (0, [np])" "pn_name np = component name" "wf_kids [np]" "leaves [np] = [(comps name, pmid)]"
      using new_nodes_leaves [OF "1.prems"(3,4)] by blast
    have "pn_name np \<notin> pn_name ` set kids" using None np(2) by (auto simp: find_kid_None)
    then have "wf_kids ([np] @ kids)" using np(3) "1.prems"(1) by (auto simp: wf_append simp del: append.simps)
    then show ?thesis using None np leaves_append [of "[np]" kids] by (intro exI [of _ "[np] @ kids"]) (simp add: AddPMNSNode.simps)
  next
    case (Some i)
    obtain n q sub where k: "kids ! i = PN n q sub" by (cases "kids ! i")
    have n: "n = component name" and split: "kids = take i kids @ [PN n q sub] @ drop (Suc i) kids" and i: "i < length kids" using find_kid_Some [OF Some] k by auto
    have free: "free_for (comps name) [PN n q sub]" and wf: "wf_kids [PN n q sub]" using "1.prems"(1,2) split by (metis free_for_append, metis wf_append)
    have ne: "leaves [PN n q sub] \<noteq> []" using wf by (intro leaves_ne) auto
    show ?thesis
    proof (cases name rule: comps_cases)
      case (1 m)
      obtain ms r where "(ms, r) \<in> set (leaves [PN n q sub])" using ne by (metis list.set_intros(1) neq_Nil_conv surj_pair)
      then have "prefix (comps name) ms" using 1 n by (auto split: if_splits)
      then show ?thesis using free \<open>(ms, r) \<in> set (leaves [PN n q sub])\<close> by (auto simp: free_for_def)
    next
      case (2 m rest)
      have sub: "sub \<noteq> []" using free 2(1,2) n by (auto simp: free_for_def)
      then have "wf_kids sub" "free_for (comps rest) sub" "length (comps rest) \<le> mem" using wf free "1.prems"(3) 2 n by (auto simp: free_for_single)
      from "1.IH" [OF 2(3) this "1.prems"(4), of n q] obtain sub' where s: "AddPMNSNode mem (PN n q sub) pmid rest = (0, PN n q sub')" "wf_kids sub'" "sub' \<noteq> []"
        "set (leaves sub') = insert (comps rest, pmid) (set (leaves sub))" "length (leaves sub') = Suc (length (leaves sub))" by blast
      let ?kids = "kids[i := PN n q sub']"
      have u: "?kids = take i kids @ [PN n q sub'] @ drop (Suc i) kids" using upd_conv_take_nth_drop [OF i] by simp
      have "wf_kids (take i kids @ [PN n q sub] @ drop (Suc i) kids)" using "1.prems"(1) split by argo
      then have "wf_kids ?kids" using wf s(2,3) sub unfolding u by (auto simp: wf_append simp del: append.simps(2))
      moreover have "set (leaves ?kids) = insert (comps name, pmid) (set (leaves kids))"
      proof -
        have "set (leaves [PN n q sub']) = insert (comps name, pmid) (set (leaves [PN n q sub]))" using s(3,4) sub 2 n by force
        then show ?thesis unfolding u by (subst (2) split) (auto simp only: leaves_append set_append)
      qed
      moreover have "length (leaves ?kids) = Suc (length (leaves kids))"
      proof -
        have "length (leaves [PN n q sub']) = Suc (length (leaves [PN n q sub]))" using s(3,5) sub by simp
        then show ?thesis unfolding u by (subst (2) split) (simp only: leaves_append length_append)
      qed
      moreover have "AddPMNSNode mem (PN m p kids) pmid name = (0, PN m p ?kids)" for m p using Some s(1) k 2 by (simp add: AddPMNSNode.simps)
      ultimately show ?thesis using i by (intro exI [of _ ?kids]) auto
    qed
  qed
qed

fun add_names :: "nat \<Rightarrow> (string \<times> u32) list \<Rightarrow> pmnsTree \<Rightarrow> pmnsTree option" where
  "add_names mem [] t = Some t"
| "add_names mem ((name, pmid) # adds) t = (case pmAddPMNSNode mem t pmid name of (sts, t) \<Rightarrow> if sts = 0 then add_names mem adds t else None)"

text \<open>Names of metrics, none of which is the prefix of another, with identifiers that are neither marked nor those of dynamic subtrees.\<close>

definition name_space :: "(string \<times> u32) list \<Rightarrow> bool" where
  "name_space adds \<longleftrightarrow> distinct (map fst adds) \<and> (\<forall>(a, p) \<in> set adds. p AND MARK_BIT = 0 \<and> \<not> dynamic p) \<and>
     (\<forall>(a, p) \<in> set adds. \<forall>(b, q) \<in> set adds. prefix (comps a) (comps b) \<longrightarrow> a = b)"

definition paths_of :: "(string \<times> u32) list \<Rightarrow> (string list \<times> u32) set" where
  "paths_of adds = (\<lambda>(a, p). (comps a, p)) ` set adds"

lemma name_space_free:
  assumes "name_space (ds @ (a, q) # as)" "(b, r) \<in> set ds"
  shows "\<not> prefix (comps b) (comps a) \<and> \<not> prefix (comps a) (comps b)"
proof -
  have "b \<in> fst ` set ds" using assms(2) by force
  then have "a \<noteq> b" using assms(1) by (auto simp: name_space_def)
  moreover have "(b, r) \<in> set (ds @ (a, q) # as)" "(a, q) \<in> set (ds @ (a, q) # as)" using assms(2) by auto
  moreover have "\<forall>(x, p) \<in> set (ds @ (a, q) # as). \<forall>(y, q) \<in> set (ds @ (a, q) # as). prefix (comps x) (comps y) \<longrightarrow> x = y"
    using assms(1) unfolding name_space_def by blast
  ultimately show ?thesis by blast
qed

lemma add_names_leaves:
  "name_space (ds @ adds) \<Longrightarrow> \<forall>(a, p) \<in> set adds. length (comps a) \<le> mem \<Longrightarrow> wf_kids kids \<Longrightarrow> set (leaves kids) = paths_of ds \<Longrightarrow>
    \<exists>kids'. add_names mem adds (t\<lparr>root := PN m p kids\<rparr>) = Some (t\<lparr>root := PN m p kids'\<rparr>) \<and> wf_kids kids' \<and> set (leaves kids') = paths_of (ds @ adds) \<and>
      length (leaves kids') = length (leaves kids) + length adds"
proof (induction adds arbitrary: kids ds)
  case (Cons x adds)
  obtain a q where x: "x = (a, q)" by (cases x)
  have "free_for (comps a) kids" using name_space_free [of ds a q adds] Cons.prems(1,4) x by (auto simp: free_for_def paths_of_def)
  moreover have "length (comps a) \<le> mem" "q AND MARK_BIT = 0" using Cons.prems(1,2) x by (auto simp: name_space_def)
  ultimately obtain kids' where k: "AddPMNSNode mem (PN m p kids) q a = (0, PN m p kids')" "wf_kids kids'" "set (leaves kids') = insert (comps a, q) (set (leaves kids))"
    "length (leaves kids') = Suc (length (leaves kids))"
    using add_leaf [OF Cons.prems(3)] by blast
  have "name_space ((ds @ [x]) @ adds)" "set (leaves kids') = paths_of (ds @ [x])" using Cons.prems(1,4) k(3) x by (auto simp: paths_of_def)
  from Cons.IH [OF this(1) _ k(2) this(2)] Cons.prems(2) obtain kids'' where "add_names mem adds (t\<lparr>root := PN m p kids'\<rparr>) = Some (t\<lparr>root := PN m p kids''\<rparr>)" "wf_kids kids''"
    "set (leaves kids'') = paths_of ((ds @ [x]) @ adds)" "length (leaves kids'') = length (leaves kids') + length adds" by auto
  then show ?case using k(1,4) x by (auto simp: pmAddPMNSNode_def)
qed auto

section \<open>Pointers into a tree\<close>

fun valid_path :: "pmnsNode \<Rightarrow> nat list \<Rightarrow> bool" where
  "valid_path np [] \<longleftrightarrow> True"
| "valid_path np (i # path) \<longleftrightarrow> i < length (pn_first np) \<and> valid_path (pn_first np ! i) path"

fun tree_shape :: "pmnsNode \<Rightarrow> pmnsNode" where
  "tree_shape (PN n p kids) = PN n 0 (map tree_shape kids)"

lemma shape_sel [simp]: "pn_name (tree_shape np) = pn_name np" "pn_first (tree_shape np) = map tree_shape (pn_first np)"
  by (cases np; simp)+

lemma shape_valid: "valid_path (tree_shape np) path = valid_path np path"
  by (induction np path rule: valid_path.induct) auto

lemma shape_names: "valid_path np path \<Longrightarrow> node_names (tree_shape np) path = node_names np path"
  by (induction np path rule: node_names.induct) auto

lemma shape_at: "valid_path np path \<Longrightarrow> node_at (tree_shape np) path = tree_shape (node_at np path)"
  by (induction np path rule: node_at.induct) auto

lemma same_shape:
  assumes "tree_shape np = tree_shape np'"
  shows "valid_path np path = valid_path np' path" "valid_path np path \<Longrightarrow> node_names np path = node_names np' path"
    "valid_path np path \<Longrightarrow> pn_name (node_at np path) = pn_name (node_at np' path)"
    "valid_path np path \<Longrightarrow> length (pn_first (node_at np path)) = length (pn_first (node_at np' path))"
proof -
  show v: "valid_path np path = valid_path np' path" using shape_valid [of np path] shape_valid [of np' path] assms by simp
  show "node_names np path = node_names np' path" if "valid_path np path" using shape_names [of np path] shape_names [of np' path] assms v that by simp
  have "tree_shape (node_at np path) = tree_shape (node_at np' path)" if "valid_path np path" using shape_at [of np path] shape_at [of np' path] assms v that by simp
  then show "pn_name (node_at np path) = pn_name (node_at np' path)" "length (pn_first (node_at np path)) = length (pn_first (node_at np' path))" if "valid_path np path"
    using that by (metis shape_sel(1), metis length_map shape_sel(2))
qed

lemma mark_shape [simp]: "tree_shape (mark_path b path np) = tree_shape np"
proof (induction path arbitrary: np)
  case Nil
  then show ?case by (cases np) simp
next
  case (Cons i path)
  obtain n p kids where np: "np = PN n p kids" by (cases np)
  have "map tree_shape (kids[i := mark_path b path (kids ! i)]) = map tree_shape kids"
    by (cases "i < length kids") (auto simp: map_update Cons.IH list_update_same_conv list_update_beyond)
  then show ?case by (simp add: np)
qed

lemma mark_fold_shape [simp]: "tree_shape (fold (mark_path b) paths np) = tree_shape np"
  by (induction paths arbitrary: np) auto

lemma set_mark_idem [simp]: "set_mark b (set_mark b p) = set_mark b p"
  by (simp add: set_mark_def ac_simps)

lemma mark_pmid:
  "valid_path np q \<Longrightarrow> valid_path np path \<Longrightarrow> pn_pmid (node_at (mark_path b path np) q) = (if prefix q path then set_mark b (pn_pmid (node_at np q)) else pn_pmid (node_at np q))"
proof (induction path arbitrary: np q)
  case Nil
  then show ?case by (cases np; cases q) auto
next
  case (Cons i path)
  obtain n p kids where np: "np = PN n p kids" by (cases np)
  show ?case
  proof (cases q)
    case (Cons j q')
    then show ?thesis using Cons.prems Cons.IH [of "kids ! i" q'] np by (cases "i = j") auto
  qed (simp add: np)
qed

lemma mark_fold_pmid:
  "valid_path np q \<Longrightarrow> \<forall>p \<in> set paths. valid_path np p \<Longrightarrow>
    pn_pmid (node_at (fold (mark_path b) paths np) q) = (if \<exists>p \<in> set paths. prefix q p then set_mark b (pn_pmid (node_at np q)) else pn_pmid (node_at np q))"
proof (induction paths arbitrary: np)
  case (Cons path paths)
  have v: "valid_path (mark_path b path np) p = valid_path np p" for p by (rule same_shape) simp
  have "pn_pmid (node_at (fold (mark_path b) paths (mark_path b path np)) q) =
    (if \<exists>p \<in> set paths. prefix q p then set_mark b (pn_pmid (node_at (mark_path b path np) q)) else pn_pmid (node_at (mark_path b path np) q))"
    using Cons.prems by (intro Cons.IH) (simp_all add: v)
  then show ?case using Cons.prems by (auto simp: mark_pmid)
qed simp

lemma node_at_append: "node_at np (p @ q) = node_at (node_at np p) q"
  by (induction np p rule: node_at.induct) auto

lemma node_names_append: "node_names np (p @ q) = node_names np p @ node_names (node_at np p) q"
  by (induction np p rule: node_names.induct) auto

lemma valid_path_append: "valid_path np (p @ q) \<longleftrightarrow> valid_path np p \<and> valid_path (node_at np p) q"
  by (induction np p rule: valid_path.induct) auto

section \<open>The leaves of a tree\<close>

text \<open>Pointers to the leaves and their identifiers, in the order of the tree.\<close>

fun leaf_refs :: "nat list \<Rightarrow> nat \<Rightarrow> pmnsNode list \<Rightarrow> (nat list \<times> u32) list" where
  "leaf_refs path i [] = []"
| "leaf_refs path i (PN n p kids # nps) = (if kids = [] then [(path @ [i], p)] else leaf_refs (path @ [i]) 0 kids) @ leaf_refs path (Suc i) nps"

lemma drop_nth: "drop i xs = x # ys \<Longrightarrow> i < length xs \<and> xs ! i = x \<and> drop (Suc i) xs = ys"
  by (metis drop_Suc drop_all list.distinct(1) not_le nth_via_drop tl_drop list.sel(3))

lemma leaf_refs_sound:
  "valid_path r path \<Longrightarrow> drop i (pn_first (node_at r path)) = nps \<Longrightarrow> (q, p) \<in> set (leaf_refs path i nps) \<Longrightarrow>
    valid_path r q \<and> node_at r q = PN (last (node_names r q)) p [] \<and> q \<noteq> []"
proof (induction path i nps rule: leaf_refs.induct)
  case (2 path i n p' kids nps)
  let ?np = "node_at r path"
  have i: "i < length (pn_first ?np)" "pn_first ?np ! i = PN n p' kids" "drop (Suc i) (pn_first ?np) = nps" using drop_nth [OF "2.prems"(2)] by auto
  have v: "valid_path r (path @ [i])" "node_at r (path @ [i]) = PN n p' kids" "node_names r (path @ [i]) = node_names r path @ [n]"
    using "2.prems"(1) i by (simp_all add: valid_path_append node_at_append node_names_append)
  consider "kids = []" "q = path @ [i]" "p = p'" | "kids \<noteq> []" "(q, p) \<in> set (leaf_refs (path @ [i]) 0 kids)" | "(q, p) \<in> set (leaf_refs path (Suc i) nps)"
    using "2.prems"(3) by (auto split: if_splits)
  then show ?case
  proof cases
    case 1
    then show ?thesis using v by auto
  next
    case 2
    then show ?thesis using "2.IH"(1) [OF 2(1) v(1)] v(2) by auto
  next
    case 3
    then show ?thesis using "2.IH"(2) [OF "2.prems"(1) i(3) 3] by auto
  qed
qed simp

lemma leaf_refs_leaves:
  "valid_path r path \<Longrightarrow> drop i (pn_first (node_at r path)) = nps \<Longrightarrow>
    map (\<lambda>(q, p). (node_names r q, p)) (leaf_refs path i nps) = map (\<lambda>(ns, p). (node_names r path @ ns, p)) (leaves nps)"
proof (induction path i nps rule: leaf_refs.induct)
  case (2 path i n p kids nps)
  let ?np = "node_at r path"
  have i: "i < length (pn_first ?np)" "pn_first ?np ! i = PN n p kids" "drop (Suc i) (pn_first ?np) = nps" using drop_nth [OF "2.prems"(2)] by auto
  have v: "valid_path r (path @ [i])" "node_at r (path @ [i]) = PN n p kids" "node_names r (path @ [i]) = node_names r path @ [n]"
    using "2.prems"(1) i by (simp_all add: valid_path_append node_at_append node_names_append)
  have "map (\<lambda>(q, p). (node_names r q, p)) (leaf_refs (path @ [i]) 0 kids) = map (\<lambda>(ns, p). (node_names r path @ n # ns, p)) (leaves kids)" if "kids \<noteq> []"
    using "2.IH"(1) [OF that v(1)] v(2,3) by simp
  then show ?case using "2.IH"(2) [OF "2.prems"(1) i(3)] v(3) by (auto simp: case_prod_unfold comp_def)
qed simp

lemma prefix_step: "prefix (path @ [i, j]) q \<Longrightarrow> prefix (path @ [i]) q"
  by (auto simp: prefix_def)

lemma leaf_refs_distinct: "distinct (map fst (leaf_refs path i nps)) \<and> (\<forall>q \<in> fst ` set (leaf_refs path i nps). \<exists>j \<ge> i. prefix (path @ [j]) q)"
proof (induction path i nps rule: leaf_refs.induct)
  case (2 path i n p kids nps)
  let ?A = "if kids = [] then [(path @ [i], p)] else leaf_refs (path @ [i]) 0 kids" and ?B = "leaf_refs path (Suc i) nps"
  have a: "\<forall>q \<in> fst ` set ?A. prefix (path @ [i]) q"
  proof (cases "kids = []")
    case False
    then have "\<forall>q \<in> fst ` set (leaf_refs (path @ [i]) 0 kids). \<exists>j \<ge> 0. prefix ((path @ [i]) @ [j]) q" using "2.IH"(1) by blast
    then show ?thesis using False prefix_step by fastforce
  qed simp
  have b: "\<forall>q \<in> fst ` set ?B. \<exists>j \<ge> Suc i. prefix (path @ [j]) q" using "2.IH"(2) by blast
  have "\<not> prefix (path @ [i]) q" if "prefix (path @ [j]) q" "Suc i \<le> j" for q j
    using that by (auto simp: prefix_def)
  then have "fst ` set ?A \<inter> fst ` set ?B = {}" using a b by fastforce
  moreover have "distinct (map fst ?A)" "distinct (map fst ?B)" using "2.IH" by auto
  ultimately have "distinct (map fst (?A @ ?B))" by (simp only: map_append distinct_append set_map)
  moreover have "\<forall>q \<in> fst ` set (?A @ ?B). \<exists>j \<ge> i. prefix (path @ [j]) q"
    using a b by (simp only: set_append image_Un) (meson Suc_leD Un_iff order_refl)
  ultimately show ?case by simp
qed simp

lemma leaf_refs_complete:
  "valid_path r path \<Longrightarrow> drop i (pn_first (node_at r path)) = nps \<Longrightarrow> wf_kids nps \<Longrightarrow> valid_path r (path @ j # q) \<Longrightarrow> i \<le> j \<Longrightarrow>
    \<exists>(q', p) \<in> set (leaf_refs path i nps). prefix (path @ j # q) q'"
proof (induction path i nps arbitrary: j q rule: leaf_refs.induct)
  case (1 path i)
  then show ?case by (auto simp: valid_path_append)
next
  case (2 path i n p kids nps)
  let ?np = "node_at r path"
  have i: "i < length (pn_first ?np)" "pn_first ?np ! i = PN n p kids" "drop (Suc i) (pn_first ?np) = nps" using drop_nth [OF "2.prems"(2)] by auto
  have v: "valid_path r (path @ [i])" "node_at r (path @ [i]) = PN n p kids" using "2.prems"(1) i by (simp_all add: valid_path_append node_at_append)
  show ?case
  proof (cases "j = i")
    case False
    then have "Suc i \<le> j" using "2.prems"(5) by simp
    from "2.IH"(2) [OF "2.prems"(1) i(3) _ "2.prems"(4) this] "2.prems"(3) show ?thesis by auto
  next
    case j: True
    show ?thesis
    proof (cases "kids = []")
      case True
      then show ?thesis using "2.prems"(4) j i by (cases q) (auto simp: valid_path_append)
    next
      case False
      have w: "wf_kids kids" using "2.prems"(3) False by auto
      obtain k q' where "q = k # q' \<or> q = []" by (cases q) auto
      then have "\<exists>(q'', p) \<in> set (leaf_refs (path @ [i]) 0 kids). prefix (path @ j # q) q''"
      proof
        assume q: "q = k # q'"
        then show ?thesis using "2.IH"(1) [OF False v(1) _ w, of k q'] "2.prems"(4) v(2) j by simp
      next
        assume q: "q = []"
        have "valid_path r ((path @ [i]) @ [0])" using v False by (simp only: valid_path_append) simp
        then have "\<exists>(q'', p) \<in> set (leaf_refs (path @ [i]) 0 kids). prefix ((path @ [i]) @ [0]) q''" using "2.IH"(1) [OF False v(1) _ w, of 0 "[]"] v(2) by simp
        then show ?thesis using q j by (auto dest!: prefix_step)
      qed
      then show ?thesis using False by auto
    qed
  qed
qed

section \<open>The hash table holds the leaves\<close>

definition link1 :: "nat list \<times> u32 \<Rightarrow> nat list list list \<Rightarrow> nat list list list" where
  "link1 x h = h[unat (snd x) mod length h := fst x # chain h (snd x)]"

lemma unmarked_not_null: "p AND MARK_BIT = 0 \<Longrightarrow> p \<noteq> PM_ID_NULL"
  using PM_ID_NULL_marked by auto

lemma reindex_links: "wf_kids nps \<Longrightarrow> pmdaTreeReindexHash path i nps h = fold link1 (leaf_refs path i nps) h"
proof (induction path i nps arbitrary: h rule: leaf_refs.induct)
  case (2 path i n p kids nps)
  then show ?case by (cases "kids = []") (auto simp: link1_def unmarked_not_null Let_def)
qed simp

lemma backlink_links: "wf_kids nps \<Longrightarrow> backlink True r path i nps h = (0, fold link1 (leaf_refs path i nps) h)"
proof (induction path i nps arbitrary: h rule: leaf_refs.induct)
  case (2 path i n p kids nps)
  then show ?case by (cases "kids = []") (auto simp: link_node_def link1_def unmarked_not_null)
qed simp

lemma link1_length [simp]: "length (fold link1 refs h) = length h"
  by (induction refs arbitrary: h) (auto simp: link1_def)

lemma links_chain:
  assumes "0 < length h" "c < length h"
  shows "fold link1 refs h ! c = map fst (rev (filter (\<lambda>(q, p). unat p mod length h = c) refs)) @ h ! c"
  using assms
proof (induction refs arbitrary: h)
  case (Cons x refs)
  then show ?case by (cases "unat (snd x) mod length h = c") (auto simp: link1_def chain_def case_prod_unfold)
qed simp

lemma htab_size_pos: "0 < htab_size n"
  by (cases "n div 5 = 0") (auto simp: htab_size_def Let_def)

definition leaf_table :: "pmnsNode \<Rightarrow> nat \<Rightarrow> nat list list list" where
  "leaf_table r n = fold link1 (leaf_refs [] 0 (pn_first r)) (replicate (htab_size n) [])"

lemma leaf_table_chain:
  "chain (leaf_table r n) pmid = map fst (rev (filter (\<lambda>(q, p). unat p mod htab_size n = unat pmid mod htab_size n) (leaf_refs [] 0 (pn_first r))))"
  using links_chain [of "replicate (htab_size n) []" "unat pmid mod htab_size n" "leaf_refs [] 0 (pn_first r)"] htab_size_pos [of n]
  by (simp add: chain_def leaf_table_def)

lemma leaf_table_entries: "set (concat (leaf_table r n)) = fst ` set (leaf_refs [] 0 (pn_first r))"
proof -
  let ?R = "leaf_refs [] 0 (pn_first r)" and ?n = "htab_size n"
  have len: "length (leaf_table r n) = ?n" by (simp add: leaf_table_def)
  have c: "set (leaf_table r n ! c) = fst ` {x \<in> set ?R. unat (snd x) mod ?n = c}" if "c < ?n" for c
    using links_chain [of "replicate ?n []" c ?R] htab_size_pos [of n] that by (simp add: leaf_table_def case_prod_unfold)
  show ?thesis
  proof (intro equalityI subsetI)
    fix q
    assume "q \<in> set (concat (leaf_table r n))"
    then obtain d where "d < ?n" "q \<in> set (leaf_table r n ! d)" unfolding set_concat by (metis UN_E in_set_conv_nth len)
    then show "q \<in> fst ` set ?R" using c [of d] by auto
  next
    fix q
    assume "q \<in> fst ` set ?R"
    then obtain x where x: "x \<in> set ?R" "q = fst x" by auto
    have d: "unat (snd x) mod ?n < ?n" using htab_size_pos [of n] by simp
    then have "q \<in> set (leaf_table r n ! (unat (snd x) mod ?n))" using c [OF d] x by auto
    moreover have "leaf_table r n ! (unat (snd x) mod ?n) \<in> set (leaf_table r n)" using d len by (metis nth_mem)
    ultimately show "q \<in> set (concat (leaf_table r n))" unfolding set_concat by blast
  qed
qed

section \<open>Finding nodes\<close>

fun named :: "pmnsNode \<Rightarrow> bool" where
  "named (PN n p kids) \<longleftrightarrow> distinct (map pn_name kids) \<and> list_all (\<lambda>np. no_dot (pn_name np)) kids \<and> list_all named kids"

lemma wf_named: "wf_kids kids \<Longrightarrow> named (PN n p kids)"
proof (induction kids arbitrary: n p rule: wf_kids.induct)
  case (2 n' p' sub nps)
  have "named (PN n' p' sub)" using 2 by (cases "sub = []") auto
  then show ?case using 2 by auto
qed simp

lemma named_shape: "named (tree_shape np) = named np"
proof (induction np rule: named.induct)
  case (1 n p kids)
  have "map pn_name (map tree_shape kids) = map pn_name kids" by simp
  moreover have "list_all named (map tree_shape kids) = list_all named kids" using 1 by (auto simp: list_all_iff)
  ultimately show ?case by (simp add: list_all_iff comp_def)
qed

lemma named_same: "tree_shape np = tree_shape np' \<Longrightarrow> named np = named np'"
  using named_shape by metis

fun visible :: "pmnsNode \<Rightarrow> nat list \<Rightarrow> bool" where
  "visible np [] \<longleftrightarrow> True"
| "visible np (i # path) \<longleftrightarrow> pn_pmid (pn_first np ! i) AND MARK_BIT = 0 \<and> visible (pn_first np ! i) path"

lemma visible_iff: "visible np path \<longleftrightarrow> (\<forall>q. prefix q path \<and> q \<noteq> [] \<longrightarrow> pn_pmid (node_at np q) AND MARK_BIT = 0)"
proof (induction np path rule: visible.induct)
  case (2 np i path)
  have "(\<forall>q. prefix q (i # path) \<and> q \<noteq> [] \<longrightarrow> pn_pmid (node_at np q) AND MARK_BIT = 0) \<longleftrightarrow>
    pn_pmid (pn_first np ! i) AND MARK_BIT = 0 \<and> (\<forall>q. prefix q path \<and> q \<noteq> [] \<longrightarrow> pn_pmid (node_at (pn_first np ! i) q) AND MARK_BIT = 0)" (is "?L = ?R")
  proof
    assume L: ?L
    have "pn_pmid (node_at np [i]) AND MARK_BIT = 0" using L by (metis list.distinct(1) prefix_def append_Cons append_Nil)
    moreover have "pn_pmid (node_at np (i # q)) AND MARK_BIT = 0" if "prefix q path" for q using L that by (metis Cons_prefix_Cons list.distinct(1))
    ultimately show ?R by simp
  next
    assume R: ?R
    show ?L
    proof clarify
      fix q
      assume "prefix q (i # path)" "q \<noteq> []"
      then obtain q' where "q = i # q'" "prefix q' path" by (auto simp: prefix_Cons)
      then show "pn_pmid (node_at np q) AND MARK_BIT = 0" using R by (cases "q' = []") auto
    qed
  qed
  then show ?case using 2 by simp
qed simp

lemma find_kid_distinct:
  "distinct (map pn_name kids) \<Longrightarrow> find_kid (\<lambda>np. pn_name np = c \<and> Q np) kids = Some i \<longleftrightarrow> i < length kids \<and> pn_name (kids ! i) = c \<and> Q (kids ! i)"
proof (induction kids arbitrary: i)
  case (Cons k kids)
  then show ?case by (cases i) (auto, (metis nth_mem image_eqI)+)
qed simp

lemma locate_iff:
  "named r \<Longrightarrow> locate name r = Some path \<longleftrightarrow> valid_path r path \<and> node_names r path = comps name \<and> visible r path"
proof (induction name arbitrary: r path rule: comps.induct)
  case (1 name)
  obtain n p kids where r: "r = PN n p kids" by (cases r)
  have d: "distinct (map pn_name kids)" and sub: "i < length kids \<Longrightarrow> named (kids ! i)" for i using "1.prems" r by (auto simp: list_all_length)
  let ?Q = "\<lambda>i. i < length kids \<and> pn_name (kids ! i) = component name \<and> pn_pmid (kids ! i) AND MARK_BIT = 0"
  note f = find_kid_distinct [OF d, of "component name" "\<lambda>np. pn_pmid np AND MARK_BIT = 0"]
  have l: "locate name r = Some path \<longleftrightarrow> (\<exists>i. ?Q i \<and> (case tail name of None \<Rightarrow> path = [i] | Some rest \<Rightarrow> \<exists>q. path = i # q \<and> locate rest (kids ! i) = Some q))"
  proof (cases "find_kid (\<lambda>np. pn_name np = component name \<and> pn_pmid np AND MARK_BIT = 0) kids")
    case None
    then show ?thesis using f by (auto simp: r locate.simps)
  next
    case (Some a)
    then have "?Q i \<longleftrightarrow> i = a" for i using f [of i] by auto
    then show ?thesis using Some by (auto simp: r locate.simps split: option.split)
  qed
  show ?case
  proof (cases name rule: comps_cases)
    case (1 m)
    have "node_names r path = [component name] \<and> valid_path r path \<and> visible r path \<longleftrightarrow> (\<exists>i. ?Q i \<and> path = [i])"
      by (cases path rule: list.exhaust; cases "tl path") (auto simp: r)
    then show ?thesis using l 1 by auto
  next
    case (2 m rest)
    have IH: "locate rest (kids ! i) = Some q \<longleftrightarrow> valid_path (kids ! i) q \<and> node_names (kids ! i) q = comps rest \<and> visible (kids ! i) q" if "i < length kids" for i q
      using "1.IH" [OF 2(3) sub [OF that]] .
    have "locate name r = Some path \<longleftrightarrow> (\<exists>i q. ?Q i \<and> path = i # q \<and> valid_path (kids ! i) q \<and> node_names (kids ! i) q = comps rest \<and> visible (kids ! i) q)"
      using l 2(3) IH by auto
    then show ?thesis using 2 by (cases path) (auto simp: r)
  qed
qed

lemma names_unique: "named r \<Longrightarrow> valid_path r p \<Longrightarrow> valid_path r q \<Longrightarrow> node_names r p = node_names r q \<Longrightarrow> p = q"
proof (induction p arbitrary: r q)
  case Nil
  then show ?case by (cases q) auto
next
  case (Cons i p)
  obtain j q' where q: "q = j # q'" using Cons.prems(4) by (cases q) auto
  obtain n pm kids where r: "r = PN n pm kids" by (cases r)
  have "i = j" using Cons.prems q r by (auto simp: distinct_conv_nth)
  then show ?case using Cons.IH [of "kids ! i" q'] Cons.prems q r by (auto simp: list_all_length)
qed

section \<open>A loaded name space\<close>

lemma set_mark_clear: "set_mark False p AND MARK_BIT = 0" "p AND MARK_BIT = 0 \<Longrightarrow> set_mark False p = p"
proof -
  have "bit (set_mark False p AND MARK_BIT) n = bit (0 :: u32) n" for n by (simp add: set_mark_def bit_simps)
  then show "set_mark False p AND MARK_BIT = 0" by (rule bit_eqI)
  show "set_mark False p = p" if "p AND MARK_BIT = 0"
  proof (rule bit_eqI)
    fix n
    have "bit (p AND MARK_BIT) n = bit (0 :: u32) n" using that by simp
    then show "bit (set_mark False p) n = bit p n" using bit_imp_le_length [of p n] by (auto simp: set_mark_def bit_simps)
  qed
qed

lemma prefix_leaf: "valid_path r q' \<Longrightarrow> prefix q q' \<Longrightarrow> pn_first (node_at r q) = [] \<Longrightarrow> q' = q"
  by (auto simp: prefix_def valid_path_append neq_Nil_conv) (metis length_0_conv not_less_zero valid_path.simps(2) list.exhaust append_Nil2)

lemma leaf_refs_iff:
  assumes "wf_kids (pn_first r)"
  shows "(q, p) \<in> set (leaf_refs [] 0 (pn_first r)) \<longleftrightarrow> q \<noteq> [] \<and> valid_path r q \<and> pn_first (node_at r q) = [] \<and> pn_pmid (node_at r q) = p"
proof
  assume "(q, p) \<in> set (leaf_refs [] 0 (pn_first r))"
  then show "q \<noteq> [] \<and> valid_path r q \<and> pn_first (node_at r q) = [] \<and> pn_pmid (node_at r q) = p"
    using leaf_refs_sound [of r "[]" 0 "pn_first r" q p] by auto
next
  assume q: "q \<noteq> [] \<and> valid_path r q \<and> pn_first (node_at r q) = [] \<and> pn_pmid (node_at r q) = p"
  then obtain j q0 where j: "q = j # q0" by (cases q) auto
  obtain q' p' where q': "(q', p') \<in> set (leaf_refs [] 0 (pn_first r))" "prefix q q'"
    using leaf_refs_complete [of r "[]" 0 "pn_first r" j q0] assms q j by auto
  then have s: "valid_path r q'" "node_at r q' = PN (last (node_names r q')) p' []" using leaf_refs_sound [of r "[]" 0 "pn_first r" q' p'] by auto
  then have "q' = q" using prefix_leaf q'(2) q by blast
  then show "(q, p) \<in> set (leaf_refs [] 0 (pn_first r))" using q' s(2) q by auto
qed

lemma leaf_below:
  assumes "wf_kids (pn_first r)" "valid_path r q" "q \<noteq> []"
  obtains q' p where "(q', p) \<in> set (leaf_refs [] 0 (pn_first r))" "prefix q q'"
proof -
  obtain j q0 where "q = j # q0" using assms(3) by (cases q) auto
  then show thesis using leaf_refs_complete [of r "[]" 0 "pn_first r" j q0] assms(1,2) that by auto
qed

abbreviation refs_of :: "pmnsNode \<Rightarrow> (nat list \<times> u32) list" where
  "refs_of r \<equiv> leaf_refs [] 0 (pn_first r)"

text \<open>A tree with its hash table, in which some leaves and the nodes above them are not marked.\<close>

definition loaded :: "pmnsNode \<Rightarrow> nat \<Rightarrow> nat list set \<Rightarrow> pmnsTree \<Rightarrow> bool" where
  "loaded r n V t \<longleftrightarrow> wf_kids (pn_first r) \<and> tree_shape (root t) = tree_shape r \<and> htab t = leaf_table r n \<and>
     (\<forall>q. valid_path r q \<and> q \<noteq> [] \<longrightarrow> set_mark False (pn_pmid (node_at (root t) q)) = set_mark False (pn_pmid (node_at r q)) \<and>
        (pn_pmid (node_at (root t) q) AND MARK_BIT = 0 \<longleftrightarrow> (\<exists>q' \<in> V. prefix q q')))"

lemma loadedD:
  assumes "loaded r n V t"
  shows "wf_kids (pn_first r)" "tree_shape (root t) = tree_shape r" "htab t = leaf_table r n" "valid_path r q \<Longrightarrow> q \<noteq> [] \<Longrightarrow> set_mark False (pn_pmid (node_at (root t) q)) = set_mark False (pn_pmid (node_at r q))"
    "valid_path r q \<Longrightarrow> q \<noteq> [] \<Longrightarrow> pn_pmid (node_at (root t) q) AND MARK_BIT = 0 \<longleftrightarrow> (\<exists>q' \<in> V. prefix q q')"
  using assms unfolding loaded_def by blast+

lemma refs_valid: "(q, p) \<in> set (refs_of r) \<Longrightarrow> valid_path r q"
  using leaf_refs_sound [of r "[]" 0 "pn_first r" q p] by simp

lemma set_mark_marked: "set_mark True p AND MARK_BIT \<noteq> 0" "set_mark False (set_mark b p) = set_mark False p"
proof -
  have "bit (set_mark True p AND MARK_BIT) 31" by (simp add: set_mark_def MARK_BIT_def bit_simps)
  then show "set_mark True p AND MARK_BIT \<noteq> 0" by auto
  show "set_mark False (set_mark b p) = set_mark False p" by (rule bit_eqI) (auto simp: set_mark_def bit_simps)
qed

lemma mark_loaded:
  assumes "loaded r n V t" "\<forall>q \<in> set paths. valid_path r q" "root t' = fold (mark_path b) paths (root t)" "htab t' = htab t"
    "V' = (if b then V' else V \<union> set paths)" "b \<Longrightarrow> V' = {} \<and> fst ` set (refs_of r) \<subseteq> set paths"
  shows "loaded r n V' t'"
proof -
  note L = loadedD [OF assms(1)]
  have v: "valid_path (root t) q = valid_path r q" for q using same_shape(1) L(2) by blast
  have p: "pn_pmid (node_at (root t') q) = (if \<exists>p \<in> set paths. prefix q p then set_mark b (pn_pmid (node_at (root t) q)) else pn_pmid (node_at (root t) q))" if "valid_path r q" for q
    unfolding assms(3) using that assms(2) v by (intro mark_fold_pmid) auto
  have "set_mark False (pn_pmid (node_at (root t') q)) = set_mark False (pn_pmid (node_at r q)) \<and> (pn_pmid (node_at (root t') q) AND MARK_BIT = 0 \<longleftrightarrow> (\<exists>q' \<in> V'. prefix q q'))"
    if q: "valid_path r q" "q \<noteq> []" for q
  proof (cases b)
    case False
    then have "V' = V \<union> set paths" using assms(5) by simp
    then show ?thesis using p [OF q(1)] L(4,5) [OF q] False set_mark_clear(1) set_mark_marked(2) by auto
  next
    case True
    then have V: "V' = {}" "fst ` set (refs_of r) \<subseteq> set paths" using assms(6) by auto
    obtain q' pp where "(q', pp) \<in> set (refs_of r)" "prefix q q'" using leaf_below [OF L(1) q] .
    then have "\<exists>p \<in> set paths. prefix q p" using V(2) by force
    then show ?thesis using p [OF q(1)] L(4) [OF q] True V(1) set_mark_marked by simp
  qed
  then show ?thesis using L(1-3) assms(3,4) by (simp add: loaded_def)
qed

lemma fix_loaded:
  assumes "wf_kids kids" "root t = PN m PM_ID_NULL kids" "mark_state t = - 1"
  shows "\<exists>t'. pmFixPMNSHashTab t n True = (0, t') \<and> loaded (root t) n (fst ` set (refs_of (root t))) t' \<and> mark_state t' = 0"
proof -
  let ?r = "root t"
  let ?t = "t\<lparr>htab := leaf_table ?r n\<rparr>"
  have b: "backlink True ?r [] 0 (pn_first ?r) (replicate (htab_size n) []) = (0, leaf_table ?r n)"
    using backlink_links [of kids ?r "[]" 0] assms(1,2) by (simp add: leaf_table_def)
  let ?t' = "?t\<lparr>mark_state := 0, root := fold (mark_path False) (concat (leaf_table ?r n)) ?r\<rparr>"
  have e: "pmFixPMNSHashTab t n True = (0, ?t')" using assms(3) by (simp add: pmFixPMNSHashTab_def b mark_all_def)
  have ps: "set (concat (leaf_table ?r n)) = fst ` set (refs_of ?r)" by (rule leaf_table_entries)
  have v: "\<forall>q \<in> set (concat (leaf_table ?r n)). valid_path ?r q" unfolding ps using refs_valid by auto
  have "loaded ?r n (fst ` set (refs_of ?r)) ?t'" unfolding loaded_def
  proof (intro conjI allI impI)
    show "wf_kids (pn_first ?r)" using assms(1,2) by simp
    fix q
    assume q: "valid_path ?r q \<and> q \<noteq> []"
    then obtain q' p where "(q', p) \<in> set (refs_of ?r)" "prefix q q'" using leaf_below [of ?r q] assms(1,2) by auto
    then have ex: "\<exists>q' \<in> fst ` set (refs_of ?r). prefix q q'" by force
    have "pn_pmid (node_at (fold (mark_path False) (concat (leaf_table ?r n)) ?r) q) = set_mark False (pn_pmid (node_at ?r q))"
      using mark_fold_pmid [OF conjunct1 [OF q] v, of False] ex unfolding ps by (simp only: if_True)
    then have "pn_pmid (node_at (root ?t') q) = set_mark False (pn_pmid (node_at ?r q))" by simp
    then show "set_mark False (pn_pmid (node_at (root ?t') q)) = set_mark False (pn_pmid (node_at ?r q))"
      "(pn_pmid (node_at (root ?t') q) AND MARK_BIT = 0) = (\<exists>q' \<in> fst ` set (refs_of ?r). prefix q q')" using ex set_mark_clear(1) by simp_all
  qed simp_all
  then show ?thesis using e by auto
qed

lemma loaded_named: "loaded r n V t \<Longrightarrow> named (root t) \<and> named r"
proof -
  assume "loaded r n V t"
  note L = loadedD [OF this]
  have "named r" using wf_named [OF L(1)] by (cases r) simp
  then show ?thesis using named_same [OF L(2)] by simp
qed

lemma loaded_visible:
  assumes "loaded r n V t" "valid_path r q"
  shows "visible (root t) q \<longleftrightarrow> q = [] \<or> (\<exists>q' \<in> V. prefix q q')"
proof -
  have "valid_path r q0" if "prefix q0 q" for q0 using that assms(2) by (auto simp: prefix_def valid_path_append)
  then have "visible (root t) q \<longleftrightarrow> (\<forall>q0. prefix q0 q \<and> q0 \<noteq> [] \<longrightarrow> (\<exists>q' \<in> V. prefix q0 q'))" unfolding visible_iff using loadedD(5) [OF assms(1)] by auto
  then show ?thesis by (metis prefix_Nil prefix_order.order_refl prefix_order.order_trans)
qed

lemma loaded_locate:
  assumes "loaded r n V t"
  shows "locate name (root t) = Some q \<longleftrightarrow> valid_path r q \<and> node_names r q = comps name \<and> (\<exists>q' \<in> V. prefix q q')"
proof -
  have s: "tree_shape (root t) = tree_shape r" using loadedD [OF assms] by blast
  have v: "valid_path (root t) q = valid_path r q" "valid_path r q \<Longrightarrow> node_names (root t) q = node_names r q" using same_shape(1,2) [OF s] by blast+
  have "node_names r q = comps name \<Longrightarrow> q \<noteq> []" by (cases q) (use comps_ne(1) [of name] in auto)
  then show ?thesis using locate_iff [of "root t" name q] loaded_named [OF assms] loaded_visible [OF assms, of q] v by auto
qed

lemma loaded_leaf:
  assumes "loaded r n V t" "valid_path r q" "q \<noteq> []"
  shows "pn_first (node_at (root t) q) = [] \<longleftrightarrow> (q, pn_pmid (node_at r q)) \<in> set (refs_of r)"
    and "(q, p) \<in> set (refs_of r) \<Longrightarrow> set_mark False (pn_pmid (node_at (root t) q)) = p \<and> p AND MARK_BIT = 0"
proof -
  note L = loadedD [OF assms(1)]
  have "length (pn_first (node_at (root t) q)) = length (pn_first (node_at r q))" using same_shape(4) [OF L(2), of q] same_shape(1) [OF L(2), of q] assms(2) by simp
  then show "pn_first (node_at (root t) q) = [] \<longleftrightarrow> (q, pn_pmid (node_at r q)) \<in> set (refs_of r)"
    using leaf_refs_iff [OF L(1), of q "pn_pmid (node_at r q)"] assms(2,3) by auto
  show "set_mark False (pn_pmid (node_at (root t) q)) = p \<and> p AND MARK_BIT = 0" if q: "(q, p) \<in> set (refs_of r)"
  proof -
    have "(node_names r q, p) \<in> set (leaves (pn_first r))" using leaf_refs_leaves [of r "[]" 0 "pn_first r"] q by (force simp: set_eq_iff image_iff dest: arg_cong [where f = set])
    moreover have "(ns, p') \<in> set (leaves kids) \<Longrightarrow> wf_kids kids \<Longrightarrow> p' AND MARK_BIT = 0" for ns p' kids
      by (induction kids arbitrary: ns rule: leaves.induct) (auto split: if_splits)
    ultimately have "p AND MARK_BIT = 0" using L(1) by blast
    moreover have "pn_pmid (node_at r q) = p" using leaf_refs_iff [OF L(1)] q by blast
    ultimately show ?thesis using L(4) [OF assms(2,3)] set_mark_clear(2) by simp
  qed
qed

lemma refs_paths: "(\<lambda>(q, p). (node_names r q, p)) ` set (refs_of r) = set (leaves (pn_first r))"
proof -
  have "set (map (\<lambda>(q, p). (node_names r q, p)) (refs_of r)) = set (map (\<lambda>(ns, p). (node_names r [] @ ns, p)) (leaves (pn_first r)))"
    by (subst leaf_refs_leaves) simp_all
  then show ?thesis by simp
qed

text \<open>The tree as it is after names were added to a new one.\<close>

definition tree_for :: "(string \<times> u32) list \<Rightarrow> pmnsNode \<Rightarrow> bool" where
  "tree_for adds r \<longleftrightarrow> name_space adds \<and> wf_kids (pn_first r) \<and> set (leaves (pn_first r)) = paths_of adds \<and> length (leaves (pn_first r)) = length adds"

lemma tree_for_refs:
  assumes "tree_for adds r"
  shows "(name, p) \<in> set adds \<longleftrightarrow> (\<exists>q. (q, p) \<in> set (refs_of r) \<and> node_names r q = comps name)"
proof -
  have "(name, p) \<in> set adds \<longleftrightarrow> (comps name, p) \<in> paths_of adds" by (auto simp: paths_of_def comps_inject)
  also have "\<dots> \<longleftrightarrow> (comps name, p) \<in> (\<lambda>(q, p). (node_names r q, p)) ` set (refs_of r)" using assms refs_paths [of r] by (simp add: tree_for_def)
  finally show ?thesis by force
qed

lemma tree_for_ref_name:
  assumes "tree_for adds r" "(q, p) \<in> set (refs_of r)"
  obtains name where "(name, p) \<in> set adds" "node_names r q = comps name" "backname r q = name"
proof -
  have "(node_names r q, p) \<in> paths_of adds" using assms refs_paths [of r] by (force simp: tree_for_def)
  then show thesis using that by (auto simp: paths_of_def backname_def)
qed

lemma add_names_tree:
  assumes "name_space adds" "\<forall>(a, p) \<in> set adds. length (comps a) \<le> mem"
  shows "\<exists>t. add_names mem adds pmNewPMNS = Some t \<and> tree_for adds (root t) \<and> mark_state t = - 1 \<and> pn_pmid (root t) = PM_ID_NULL"
proof -
  have e: "pmNewPMNS = pmNewPMNS\<lparr>root := PN ''root'' PM_ID_NULL []\<rparr>" by (simp add: pmNewPMNS_def)
  obtain kids where "add_names mem adds (pmNewPMNS\<lparr>root := PN ''root'' PM_ID_NULL []\<rparr>) = Some (pmNewPMNS\<lparr>root := PN ''root'' PM_ID_NULL kids\<rparr>)"
    "wf_kids kids" "set (leaves kids) = paths_of adds" "length (leaves kids) = length adds"
    using add_names_leaves [where ds = "[]" and adds = adds and mem = mem and kids = "[]" and t = pmNewPMNS and m = "''root''" and p = PM_ID_NULL] assms by (auto simp: paths_of_def)
  then show ?thesis using assms(1) e by (intro exI [of _ "pmNewPMNS\<lparr>root := PN ''root'' PM_ID_NULL kids\<rparr>"]) (simp add: tree_for_def pmNewPMNS_def)
qed

lemma fix_tree:
  assumes "tree_for adds (root t)" "mark_state t = - 1" "pn_pmid (root t) = PM_ID_NULL"
  shows "\<exists>t'. pmFixPMNSHashTab t n True = (0, t') \<and> loaded (root t) n (fst ` set (refs_of (root t))) t' \<and> mark_state t' = 0"
proof -
  obtain m kids where "root t = PN m PM_ID_NULL kids" using assms(3) by (cases "root t") auto
  then show ?thesis using fix_loaded [of kids t m] assms by (simp add: tree_for_def)
qed

lemma prefix_names:
  assumes "valid_path r q'" "prefix ns (node_names r q')"
  obtains q where "prefix q q'" "node_names r q = ns"
  using assms
proof (induction q' arbitrary: r ns thesis)
  case Nil
  then show ?case by (metis node_names.simps(1) prefix_Nil prefix_order.order_refl)
next
  case (Cons i q')
  show ?case
  proof (cases ns)
    case Nil
    then show ?thesis using Cons.prems(1) [of "[]"] by simp
  next
    case ns: (Cons a ns')
    then have "a = pn_name (pn_first r ! i)" "prefix ns' (node_names (pn_first r ! i) q')" using Cons.prems(3) by auto
    then obtain q where "prefix q q'" "node_names (pn_first r ! i) q = ns'" using Cons.IH [of "pn_first r ! i" ns'] Cons.prems(2) by auto
    then show ?thesis using Cons.prems(1) [of "i # q"] ns \<open>a = _\<close> by simp
  qed
qed

lemma all_located:
  assumes "loaded r n (fst ` set (refs_of r)) t"
  shows "locate name (root t) = Some q \<longleftrightarrow> valid_path r q \<and> node_names r q = comps name"
proof -
  have "\<exists>q' \<in> fst ` set (refs_of r). prefix q q'" if "valid_path r q" "node_names r q = comps name"
    using leaf_below [OF loadedD(1) [OF assms] that(1)] comps_ne(2) [of name] that(2) by (metis fst_conv image_eqI node_names.simps(1))
  then show ?thesis using loaded_locate [OF assms] by blast
qed

section \<open>Names to identifiers\<close>

lemma lookup_found:
  assumes "tree_for adds r" "loaded r n V t" "(name, p) \<in> set adds" "(q, p) \<in> set (refs_of r)" "node_names r q = comps name" "q \<in> V"
  shows "locate name (root t) = Some q" "pn_first (node_at (root t) q) = []" "pn_pmid (node_at (root t) q) = p"
proof -
  have v: "valid_path r q" using refs_valid [OF assms(4)] .
  have ne: "q \<noteq> []" by (cases q) (use assms(5) comps_ne(1) [of name] in auto)
  show "locate name (root t) = Some q" using loaded_locate [OF assms(2)] v assms(5,6) by auto
  have "pn_pmid (node_at r q) = p" using leaf_refs_iff assms(1,4) by (auto simp: tree_for_def)
  then show "pn_first (node_at (root t) q) = []" using loaded_leaf(1) [OF assms(2) v ne] assms(4) by simp
  have "pn_pmid (node_at (root t) q) AND MARK_BIT = 0" using loadedD(5) [OF assms(2) v ne] assms(6) by auto
  then show "pn_pmid (node_at (root t) q) = p" using loaded_leaf(2) [OF assms(2) v ne assms(4)] set_mark_clear(2) by simp
qed

lemma locate_leaf:
  assumes "tree_for adds r" "loaded r n V t" "V \<subseteq> fst ` set (refs_of r)" "locate name (root t) = Some q" "pn_first (node_at (root t) q) = []"
  shows "(name, pn_pmid (node_at (root t) q)) \<in> set adds \<and> q \<in> V"
proof -
  obtain q' where q: "valid_path r q" "node_names r q = comps name" "q' \<in> V" "prefix q q'" using loaded_locate [OF assms(2)] assms(4) by auto
  have ne: "q \<noteq> []" by (cases q) (use q(2) comps_ne(1) [of name] in auto)
  have l: "(q, pn_pmid (node_at r q)) \<in> set (refs_of r)" using loaded_leaf(1) [OF assms(2) q(1) ne] assms(5) by simp
  then have "(name, pn_pmid (node_at r q)) \<in> set adds" using tree_for_refs [OF assms(1)] q(2) by blast
  moreover have "q' = q"
  proof -
    have "pn_first (node_at r q) = []" using l leaf_refs_iff assms(1) by (auto simp: tree_for_def)
    moreover have "valid_path r q'" using q(3) assms(3) refs_valid by force
    ultimately show ?thesis using prefix_leaf q(4) by blast
  qed
  ultimately show ?thesis using lookup_found(3) [OF assms(1,2) _ l q(2)] q(3) by simp
qed

lemma no_dynamic:
  assumes "tree_for adds r" "loaded r n V t" "V \<subseteq> fst ` set (refs_of r)"
  shows "dynamic_root (root t) name = PM_ID_NULL"
proof (induction name rule: length_induct)
  case (1 name)
  show ?case
  proof (cases "before_dot name")
    case (Some xname)
    have "\<not> dynamic (pn_pmid (node_at (root t) q))" if "locate xname (root t) = Some q" "pn_first (node_at (root t) q) = []" for q
      using locate_leaf [OF assms that] assms(1) by (auto simp: tree_for_def name_space_def)
    then show ?thesis using Some 1 before_dot_length [OF Some] by (subst dynamic_root.simps) (auto split: option.split)
  qed (subst dynamic_root.simps, simp)
qed

lemma lookup_single:
  "pmLookupName mlist t [name] = (case lookup_one (root t) name of (sts, pmid, bad) \<Rightarrow>
     let (sts', pmid') = (if sts < 0 \<or> bad then (case derive_one mlist (name, pmid) of (pmid', bad') \<Rightarrow> (if bad' then (if sts = 0 then (if bad then 0 else 1) else sts) else 1, pmid')) else (if sts = 0 then 1 else sts, pmid))
     in (if sts' = 0 then PM_ERR_NAME else sts', [pmid']))"
  by (cases "lookup_one (root t) name") (auto simp: pmLookupName_def Let_def case_prod_unfold)

text \<open>What a lookup gives for a set of names with their identifiers.\<close>

definition name_status :: "(string \<times> u32) list \<Rightarrow> string \<Rightarrow> int \<times> u32 list" where
  "name_status adds name = (case map_of adds name of
       Some p \<Rightarrow> (1, [p])
     | None \<Rightarrow> (if list_ex (\<lambda>b. prefix (comps name) (comps (fst b))) adds then PM_ERR_NONLEAF else PM_ERR_NAME, [PM_ID_NULL]))"

lemma locate_prefix:
  assumes "tree_for adds r" "loaded r n V t" "V \<subseteq> fst ` set (refs_of r)"
  shows "locate name (root t) \<noteq> None \<longleftrightarrow> (\<exists>(b, p) \<in> set adds. \<exists>q \<in> V. node_names r q = comps b \<and> prefix (comps name) (comps b))"
proof
  assume "locate name (root t) \<noteq> None"
  then obtain q q' where q: "node_names r q = comps name" "q' \<in> V" "prefix q q'" using loaded_locate [OF assms(2)] by blast
  obtain p where p: "(q', p) \<in> set (refs_of r)" using q(2) assms(3) by force
  obtain b where b: "(b, p) \<in> set adds" "node_names r q' = comps b" using tree_for_ref_name [OF assms(1) p] by blast
  have "prefix (node_names r q) (node_names r q')" using q(3) by (auto simp: prefix_def node_names_append)
  then show "\<exists>(b, p) \<in> set adds. \<exists>q \<in> V. node_names r q = comps b \<and> prefix (comps name) (comps b)" using q(1,2) b by force
next
  assume "\<exists>(b, p) \<in> set adds. \<exists>q \<in> V. node_names r q = comps b \<and> prefix (comps name) (comps b)"
  then obtain b p q' where b: "q' \<in> V" "node_names r q' = comps b" "prefix (comps name) (comps b)" by blast
  have v: "valid_path r q'" using b(1) assms(3) refs_valid by force
  then obtain q where "prefix q q'" "node_names r q = comps name" using prefix_names [OF v, of "comps name"] b(2,3) by metis
  moreover from this have "valid_path r q" using v by (auto simp: prefix_def valid_path_append)
  ultimately show "locate name (root t) \<noteq> None" using loaded_locate [OF assms(2)] b(1) by blast
qed

lemma lookup_loaded:
  assumes "tree_for adds r" "loaded r n V t" "V \<subseteq> fst ` set (refs_of r)"
    and shown: "\<And>a p. (a, p) \<in> set shown \<longleftrightarrow> (a, p) \<in> set adds \<and> (\<exists>q \<in> V. node_names r q = comps a)"
  shows "pmLookupName [] t [name] = name_status shown name"
proof (cases "map_of shown name")
  case (Some p)
  then have a: "(name, p) \<in> set adds" "\<exists>q \<in> V. node_names r q = comps name" using shown map_of_SomeD by fast+
  then obtain q q' where q: "(q, p) \<in> set (refs_of r)" "node_names r q = comps name" "q' \<in> V" "node_names r q' = comps name" using tree_for_refs [OF assms(1)] by blast
  have "valid_path r q'" "named r" using q(3) assms(3) refs_valid loaded_named [OF assms(2)] by force+
  then have "q' = q" using names_unique refs_valid [OF q(1)] q(2,4) by metis
  from lookup_found [OF assms(1,2) a(1) q(1,2)] q(3) this have "lookup_one (root t) name = (0, p, False)" by (force simp: lookup_one_def)
  then show ?thesis using Some by (simp add: lookup_single name_status_def)
next
  case None
  then have no: "(name, p) \<notin> set shown" for p by (force simp: map_of_eq_None_iff)
  have "list_ex (\<lambda>b. prefix (comps name) (comps (fst b))) shown \<longleftrightarrow> (\<exists>(b, p) \<in> set shown. prefix (comps name) (comps b))"
    unfolding list_ex_iff by (simp add: case_prod_unfold)
  also have "\<dots> \<longleftrightarrow> locate name (root t) \<noteq> None" unfolding locate_prefix [OF assms(1-3)] using shown by blast
  finally have ex: "list_ex (\<lambda>b. prefix (comps name) (comps (fst b))) shown \<longleftrightarrow> locate name (root t) \<noteq> None" .
  show ?thesis
  proof (cases "locate name (root t)")
    case (Some q)
    have "node_names r q = comps name" using loaded_locate [OF assms(2)] Some by blast
    then have "pn_first (node_at (root t) q) \<noteq> []" using locate_leaf [OF assms(1-3) Some] no shown by blast
    then have "lookup_one (root t) name = (PM_ERR_NONLEAF, PM_ID_NULL, True)" using Some by (simp add: lookup_one_def)
    then show ?thesis using None ex Some by (simp add: lookup_single name_status_def derive_one_def dmgetpmid_def PM_ERR_NONLEAF_def PM_ERR_BASE2_def)
  next
    case no_node: None
    then have "lookup_one (root t) name = (0, PM_ID_NULL, True)" using no_dynamic [OF assms(1-3)] by (simp add: lookup_one_def)
    then show ?thesis using None ex no_node by (simp add: lookup_single name_status_def derive_one_def dmgetpmid_def)
  qed
qed

lemma lookup_all:
  assumes "tree_for adds r" "loaded r n (fst ` set (refs_of r)) t"
  shows "pmLookupName [] t [name] = name_status adds name"
proof (rule lookup_loaded [OF assms order_refl])
  show "(a, p) \<in> set adds \<longleftrightarrow> (a, p) \<in> set adds \<and> (\<exists>q \<in> fst ` set (refs_of r). node_names r q = comps a)" for a p
    using tree_for_refs [OF assms(1), of a p] by force
qed

text \<open>A new tree to which names are added, with its hash table, as it is built for the names of an archive.\<close>

definition load_names :: "nat \<Rightarrow> nat \<Rightarrow> (string \<times> u32) list \<Rightarrow> pmnsTree option" where
  "load_names mem n adds = (case add_names mem adds pmNewPMNS of
       None \<Rightarrow> None
     | Some t \<Rightarrow> (case pmFixPMNSHashTab t n True of (sts, t') \<Rightarrow> if sts = 0 then Some t' else None))"

definition enough :: "nat \<Rightarrow> (string \<times> u32) list \<Rightarrow> bool" where
  "enough mem adds \<longleftrightarrow> list_all (\<lambda>a. length (comps (fst a)) \<le> mem) adds"

lemma load_names_tree:
  assumes "name_space adds" "enough mem adds"
  obtains t0 t where "add_names mem adds pmNewPMNS = Some t0" "load_names mem n adds = Some t" "tree_for adds (root t0)"
    "loaded (root t0) n (fst ` set (refs_of (root t0))) t" "mark_state t = 0"
proof -
  have "\<forall>(a, p) \<in> set adds. length (comps a) \<le> mem" using assms(2) by (auto simp: enough_def list_all_iff)
  from add_names_tree [OF assms(1) this] obtain t0 where t0: "add_names mem adds pmNewPMNS = Some t0" "tree_for adds (root t0)" "mark_state t0 = - 1" "pn_pmid (root t0) = PM_ID_NULL"
    by blast
  from fix_tree [OF t0(2-4), of n] obtain t where "pmFixPMNSHashTab t0 n True = (0, t)" "loaded (root t0) n (fst ` set (refs_of (root t0))) t" "mark_state t = 0" by blast
  then show thesis using that t0(1,2) by (simp add: load_names_def)
qed

text \<open>
  C7: The name space is a map from names to identifiers. Names of which none is the beginning of another, with
  identifiers that have no mark and are not those of dynamic subtrees, are added to a new tree in any order, and its hash table is
  built. While there is memory for the nodes this succeeds, and with no derived metrics \<open>pmLookupName\<close> then gives for any string its
  identifier if it was added, the error for inner nodes if it is the beginning of an added name, and otherwise the
  error for unknown names.
\<close>

theorem pmns_lookup:
  assumes "name_space adds" "enough mem adds"
  shows "\<exists>t. load_names mem n adds = Some t \<and> (\<forall>name. pmLookupName [] t [name] = name_status adds name)"
proof -
  obtain t0 t where "add_names mem adds pmNewPMNS = Some t0" and t: "load_names mem n adds = Some t" "tree_for adds (root t0)"
    "loaded (root t0) n (fst ` set (refs_of (root t0))) t" and "mark_state t = 0"
    by (rule load_names_tree [OF assms])
  then show ?thesis using lookup_all by blast
qed

section \<open>Trimming\<close>

text \<open>The leaf that represents an identifier: the first one of its chain.\<close>

definition first_leaf :: "pmnsNode \<Rightarrow> nat \<Rightarrow> u32 \<Rightarrow> nat list option" where
  "first_leaf r n pmid = find (\<lambda>q. pn_pmid (node_at r q) = pmid) (chain (leaf_table r n) pmid)"

lemma chain_refs: "q \<in> set (chain (leaf_table r n) pmid) \<Longrightarrow> \<exists>p. (q, p) \<in> set (refs_of r)"
  by (auto simp: leaf_table_chain)

lemma first_leaf_ref:
  assumes "wf_kids (pn_first r)" "first_leaf r n pmid = Some q"
  shows "(q, pmid) \<in> set (refs_of r)"
proof -
  have q: "q \<in> set (chain (leaf_table r n) pmid)" "pn_pmid (node_at r q) = pmid" using assms(2) by (auto simp: first_leaf_def find_Some_iff)
  then show ?thesis using chain_refs leaf_refs_iff [OF assms(1)] by blast
qed

lemma first_leaf_some:
  assumes "wf_kids (pn_first r)" "(q, pmid) \<in> set (refs_of r)"
  obtains q' where "first_leaf r n pmid = Some q'"
proof -
  have "q \<in> set (chain (leaf_table r n) pmid)" using assms(2) by (force simp: leaf_table_chain)
  moreover have "pn_pmid (node_at r q) = pmid" using leaf_refs_iff [OF assms(1)] assms(2) by blast
  ultimately show thesis using that by (cases "first_leaf r n pmid") (auto simp: first_leaf_def find_None_iff)
qed

lemma mask_mark: "p AND PMID_MASK = set_mark False p"
proof -
  have "PMID_MASK = NOT MARK_BIT" by (simp add: PMID_MASK_def MARK_BIT_def)
  then show ?thesis by (simp add: set_mark_def)
qed

lemma mark_one_loaded:
  assumes "loaded r n V t" "pmid AND MARK_BIT = 0" "mark_state t \<noteq> 0"
  shows "loaded r n (V \<union> set_option (first_leaf r n pmid)) (mark_one pmid False t) \<and> mark_state (mark_one pmid False t) \<noteq> 0"
proof -
  note L = loadedD [OF assms(1)]
  have "(pn_pmid (node_at (root t) q) AND PMID_MASK = pmid AND PMID_MASK) = (pn_pmid (node_at r q) = pmid)" if c: "q \<in> set (chain (htab t) pmid)" for q
  proof -
    obtain p where p: "(q, p) \<in> set (refs_of r)" using c chain_refs [of q r n pmid] L(3) by auto
    then have "q \<noteq> []" "pn_pmid (node_at r q) = p" using leaf_refs_iff [OF L(1)] by blast+
    then show ?thesis using loaded_leaf(2) [OF assms(1) refs_valid [OF p] _ p] set_mark_clear(2) assms(2) by (simp add: mask_mark)
  qed
  then have f: "find (\<lambda>q. pn_pmid (node_at (root t) q) AND PMID_MASK = pmid AND PMID_MASK) (chain (htab t) pmid) = first_leaf r n pmid"
    unfolding first_leaf_def L(3) by (rule find_cong [OF refl])
  show ?thesis
  proof (cases "first_leaf r n pmid")
    case None
    then show ?thesis using assms f L(1-5) by (simp add: mark_one_def loaded_def)
  next
    case (Some q)
    have "loaded r n (V \<union> {q}) (mark_one pmid False t)"
      by (rule mark_loaded [OF assms(1), of "[q]" _ False]) (use first_leaf_ref [OF L(1) Some] refs_valid assms(3) f Some in \<open>auto simp: mark_one_def\<close>)
    then show ?thesis using assms(3) Some by (simp add: mark_one_def)
  qed
qed

lemma mark_ones_loaded:
  "loaded r n V t \<Longrightarrow> list_all (\<lambda>pmid. pmid AND MARK_BIT = 0) pmids \<Longrightarrow> mark_state t \<noteq> 0 \<Longrightarrow>
    loaded r n (V \<union> (\<Union>pmid \<in> set pmids. set_option (first_leaf r n pmid))) (fold (\<lambda>pmid. mark_one pmid False) pmids t)"
proof (induction pmids arbitrary: V t)
  case (Cons pmid pmids)
  have l: "loaded r n (V \<union> set_option (first_leaf r n pmid)) (mark_one pmid False t)" "mark_state (mark_one pmid False t) \<noteq> 0" using mark_one_loaded [of r n V t pmid] Cons.prems by auto
  from Cons.IH [OF l(1) _ l(2)] Cons.prems(2) show ?case by (simp add: Un_assoc)
qed simp

lemma trim_loaded:
  assumes "loaded r n V t" "list_all (\<lambda>pmid. pmid AND MARK_BIT = 0) pmids" "mark_state t = 0"
  shows "loaded r n (\<Union>pmid \<in> set pmids. set_option (first_leaf r n pmid)) (pmTrimNameSpace True True pmids t)"
proof -
  let ?t = "mark_all True t"
  have ps: "set (concat (htab t)) = fst ` set (refs_of r)" using leaf_table_entries loadedD(3) [OF assms(1)] by metis
  have "loaded r n {} ?t"
  proof (rule mark_loaded [OF assms(1), of "concat (htab t)" _ True])
    show "\<forall>q \<in> set (concat (htab t)). valid_path r q" unfolding ps using refs_valid by auto
    show "root ?t = fold (mark_path True) (concat (htab t)) (root t)" "htab ?t = htab t" using assms(3) by (simp_all add: mark_all_def)
    show "{} = {} \<and> fst ` set (refs_of r) \<subseteq> set (concat (htab t))" unfolding ps by simp
  qed simp
  moreover have "mark_state ?t \<noteq> 0" using assms(3) by (simp add: mark_all_def)
  ultimately show ?thesis using mark_ones_loaded [of r n "{}" ?t pmids] assms(2) by (simp add: pmTrimNameSpace_def)
qed

text \<open>
  Trimming to an archive. If every metric has one name, then after \<open>pmTrimNameSpace\<close> in a context of an archive a lookup
  gives what it would give if only the names of the metrics in the archive had been loaded: the
  names of other metrics, and inner nodes that lead to no metric of the archive, are unknown.
\<close>

theorem pmns_trim:
  assumes "name_space adds" "enough mem adds" "distinct (map snd adds)" "list_all (\<lambda>pmid. pmid AND MARK_BIT = 0) pmids"
  shows "\<exists>t. load_names mem n adds = Some t \<and>
    (\<forall>name. pmLookupName [] (pmTrimNameSpace True True pmids t) [name] = name_status (filter (\<lambda>(a, p). p \<in> set pmids) adds) name)"
proof -
  obtain t0 t where "add_names mem adds pmNewPMNS = Some t0" and t: "load_names mem n adds = Some t" "tree_for adds (root t0)"
    "loaded (root t0) n (fst ` set (refs_of (root t0))) t" "mark_state t = 0"
    by (rule load_names_tree [OF assms(1,2)])
  let ?r = "root t0" and ?V = "\<Union>pmid \<in> set pmids. set_option (first_leaf (root t0) n pmid)"
  have wf: "wf_kids (pn_first ?r)" using t(2) by (simp add: tree_for_def)
  have V: "?V \<subseteq> fst ` set (refs_of ?r)" using first_leaf_ref [OF wf] by force
  have one: "b = a" if "(a, p) \<in> set adds" "(b, p) \<in> set adds" for a b p using assms(3) that by (metis distinct_map inj_onD prod.inject snd_conv)
  have "(a, p) \<in> set (filter (\<lambda>(a, p). p \<in> set pmids) adds) \<longleftrightarrow> (a, p) \<in> set adds \<and> (\<exists>q \<in> ?V. node_names ?r q = comps a)" for a p
  proof (intro iffI conjI)
    assume "(a, p) \<in> set (filter (\<lambda>(a, p). p \<in> set pmids) adds)"
    then have a: "(a, p) \<in> set adds" "p \<in> set pmids" by auto
    show "(a, p) \<in> set adds" by (rule a)
    obtain q where "(q, p) \<in> set (refs_of ?r)" using tree_for_refs [OF t(2)] a by blast
    then obtain q' where q': "first_leaf ?r n p = Some q'" using first_leaf_some [OF wf] by blast
    then obtain b where "(b, p) \<in> set adds" "node_names ?r q' = comps b" using tree_for_ref_name [OF t(2) first_leaf_ref [OF wf q']] by metis
    then have "node_names ?r q' = comps a" using one a(1) by metis
    then show "\<exists>q \<in> ?V. node_names ?r q = comps a" using q' a(2) by force
  next
    assume a: "(a, p) \<in> set adds \<and> (\<exists>q \<in> ?V. node_names ?r q = comps a)"
    then obtain q p' where q: "p' \<in> set pmids" "first_leaf ?r n p' = Some q" "node_names ?r q = comps a" by auto
    then have "(a, p') \<in> set adds" using tree_for_refs [OF t(2)] first_leaf_ref [OF wf] by blast
    then have "p' = p" using a assms(1) unfolding name_space_def by (metis eq_key_imp_eq_value)
    then show "(a, p) \<in> set (filter (\<lambda>(a, p). p \<in> set pmids) adds)" using a q(1) by auto
  qed
  from lookup_loaded [OF t(2) trim_loaded [OF t(3) assms(4) t(4)] V this] show ?thesis using t(1) by blast
qed

text \<open>
  A metric of the archive that has two names keeps only one of them. The marks are cleared for the first node
  of the chain that has the identifier, and the loop returns there, so one of the two names stays unknown.
\<close>

theorem pmns_trim_alias:
  assumes "name_space adds" "enough mem adds" "(a, p) \<in> set adds" "(b, p) \<in> set adds" "a \<noteq> b" "list_all (\<lambda>pmid. pmid AND MARK_BIT = 0) pmids"
  shows "\<exists>t. load_names mem n adds = Some t \<and>
    (fst (pmLookupName [] (pmTrimNameSpace True True pmids t) [a]) < 0 \<or> fst (pmLookupName [] (pmTrimNameSpace True True pmids t) [b]) < 0)"
proof -
  obtain t0 t where "add_names mem adds pmNewPMNS = Some t0" and t: "load_names mem n adds = Some t" "tree_for adds (root t0)"
    "loaded (root t0) n (fst ` set (refs_of (root t0))) t" "mark_state t = 0"
    by (rule load_names_tree [OF assms(1,2)])
  let ?r = "root t0" and ?V = "\<Union>pmid \<in> set pmids. set_option (first_leaf (root t0) n pmid)"
  have wf: "wf_kids (pn_first ?r)" using t(2) by (simp add: tree_for_def)
  have V: "?V \<subseteq> fst ` set (refs_of ?r)" using first_leaf_ref [OF wf] by force
  define vis where "vis = filter (\<lambda>(a, p). \<exists>q \<in> ?V. node_names ?r q = comps a) adds"
  have vis: "(c, p') \<in> set vis \<longleftrightarrow> (c, p') \<in> set adds \<and> (\<exists>q \<in> ?V. node_names ?r q = comps c)" for c p' by (auto simp: vis_def)
  have look: "pmLookupName [] (pmTrimNameSpace True True pmids t) [name] = name_status vis name" for name
    by (rule lookup_loaded [OF t(2) trim_loaded [OF t(3) assms(6) t(4)] V vis])
  have only: "first_leaf ?r n p = Some q" if q: "q \<in> ?V" "node_names ?r q = comps c" "(c, p) \<in> set adds" for q c
  proof -
    obtain p' where p': "first_leaf ?r n p' = Some q" using q(1) by auto
    then have "(c, p') \<in> set adds" using tree_for_refs [OF t(2)] first_leaf_ref [OF wf] q(2) by blast
    then show ?thesis using p' q(3) assms(1) unfolding name_space_def by (metis eq_key_imp_eq_value)
  qed
  have "(a, p') \<notin> set vis \<or> (b, p'') \<notin> set vis" for p' p''
    using only assms(3-5) comps_inject by (metis option.inject vis)
  then consider "map_of vis a = None" | "map_of vis b = None" by (meson map_of_SomeD not_None_eq)
  then show ?thesis using t(1) look by cases (auto simp: name_status_def pmns_errors)
qed

section \<open>Identifiers to names\<close>

lemma chain_filter:
  assumes "wf_kids (pn_first r)" "\<And>q p. (q, p) \<in> set (refs_of r) \<Longrightarrow> pn_pmid (node_at r' q) = p"
  shows "filter (\<lambda>q. pn_pmid (node_at r' q) = pmid) (chain (leaf_table r n) pmid) = map fst (rev (filter (\<lambda>(q, p). p = pmid) (refs_of r)))"
proof -
  have "filter (\<lambda>q. pn_pmid (node_at r' q) = pmid) (map fst (rev (filter (\<lambda>(q, p). unat p mod k = unat pmid mod k) xs))) = map fst (rev (filter (\<lambda>(q, p). p = pmid) xs))"
    if "\<And>q p. (q, p) \<in> set xs \<Longrightarrow> pn_pmid (node_at r' q) = p" for xs and k :: nat
    using that
  proof (induction xs)
    case (Cons x xs)
    have "pn_pmid (node_at r' (fst x)) = snd x" using Cons.prems [of "fst x" "snd x"] by simp
    moreover have "filter (\<lambda>q. pn_pmid (node_at r' q) = pmid) (map fst (rev (filter (\<lambda>(q, p). unat p mod k = unat pmid mod k) xs))) = map fst (rev (filter (\<lambda>(q, p). p = pmid) xs))"
      using Cons.IH Cons.prems by simp
    ultimately show ?case by (simp add: case_prod_unfold)
  qed simp
  then show ?thesis unfolding leaf_table_chain using assms(2) by blast
qed

lemma backname_inj:
  assumes "tree_for adds r"
  shows "inj_on (backname r) (fst ` set (refs_of r))"
proof (rule inj_onI)
  fix q q'
  assume q: "q \<in> fst ` set (refs_of r)" "q' \<in> fst ` set (refs_of r)" "backname r q = backname r q'"
  then obtain p p' where p: "(q, p) \<in> set (refs_of r)" "(q', p') \<in> set (refs_of r)" by auto
  have n: "named r" using assms wf_named [of "pn_first r"] by (cases r) (simp add: tree_for_def)
  have "node_names r q = node_names r q'" using tree_for_ref_name [OF assms p(1)] tree_for_ref_name [OF assms p(2)] q(3) by metis
  then show "q = q'" using names_unique [OF n] refs_valid p by metis
qed

definition named_by :: "pmnsNode \<Rightarrow> u32 \<Rightarrow> string list" where
  "named_by r pmid = map (backname r) (map fst (rev (filter (\<lambda>(q, p). p = pmid) (refs_of r))))"

lemma named_by_names:
  assumes "tree_for adds r"
  shows "set (named_by r pmid) = {name. (name, pmid) \<in> set adds}" "distinct (named_by r pmid)"
proof -
  have b: "\<exists>name. backname r q = name \<and> node_names r q = comps name \<and> (name, p) \<in> set adds" if "(q, p) \<in> set (refs_of r)" for q p
    using tree_for_ref_name [OF assms that] by metis
  show "set (named_by r pmid) = {name. (name, pmid) \<in> set adds}"
  proof (intro equalityI subsetI)
    fix name
    assume "name \<in> set (named_by r pmid)"
    then obtain q where "(q, pmid) \<in> set (refs_of r)" "name = backname r q" by (auto simp: named_by_def)
    then show "name \<in> {name. (name, pmid) \<in> set adds}" using b by blast
  next
    fix name
    assume "name \<in> {name. (name, pmid) \<in> set adds}"
    then obtain q where q: "(q, pmid) \<in> set (refs_of r)" "node_names r q = comps name" using tree_for_refs [OF assms] by blast
    then have "backname r q = name" using b comps_inject by metis
    then show "name \<in> set (named_by r pmid)" using q(1) by (force simp: named_by_def)
  qed
  have "inj_on (backname r) (fst ` set (refs_of r))" by (rule backname_inj [OF assms])
  moreover have "distinct (map fst (filter (\<lambda>(q, p). p = pmid) (refs_of r)))" using leaf_refs_distinct [of "[]" 0 "pn_first r"] distinct_map_filter by blast
  moreover have "fst ` set (filter (\<lambda>(q, p). p = pmid) (refs_of r)) \<subseteq> fst ` set (refs_of r)" by auto
  ultimately have "distinct (map (backname r) (map fst (filter (\<lambda>(q, p). p = pmid) (refs_of r))))"
    unfolding distinct_map [of "backname r"] using inj_on_subset by (metis set_map)
  then show "distinct (named_by r pmid)" by (simp add: named_by_def rev_map [symmetric])
qed

lemma loaded_backname: "loaded r n V t \<Longrightarrow> valid_path r q \<Longrightarrow> backname (root t) q = backname r q"
  using same_shape(2) loadedD(2) by (metis backname_def)

lemma loaded_pmid:
  assumes "loaded r n V t" "(q, p) \<in> set (refs_of r)" "q \<in> V"
  shows "pn_pmid (node_at (root t) q) = p"
proof -
  have q: "valid_path r q" "q \<noteq> []" using refs_valid [OF assms(2)] leaf_refs_iff [OF loadedD(1) [OF assms(1)]] assms(2) by blast+
  then have "pn_pmid (node_at (root t) q) AND MARK_BIT = 0" using loadedD(5) [OF assms(1)] assms(3) by auto
  then show ?thesis using loaded_leaf(2) [OF assms(1) q assms(2)] set_mark_clear(2) by simp
qed

lemma names_loaded:
  assumes "tree_for adds r" "loaded r n (fst ` set (refs_of r)) t"
  shows "map (backname (root t)) (filter (\<lambda>np. pn_pmid (node_at (root t) np) = pmid) (chain (htab t) pmid)) = named_by r pmid"
proof -
  have "filter (\<lambda>np. pn_pmid (node_at (root t) np) = pmid) (chain (htab t) pmid) = map fst (rev (filter (\<lambda>(q, p). p = pmid) (refs_of r)))"
    unfolding loadedD(3) [OF assms(2)] by (rule chain_filter) (use assms loaded_pmid [OF assms(2)] in \<open>force simp: tree_for_def\<close>)+
  moreover have "valid_path r q" if "q \<in> set (map fst (rev (filter (\<lambda>(q, p). p = pmid) (refs_of r))))" for q using that refs_valid by auto
  ultimately show ?thesis unfolding named_by_def using loaded_backname [OF assms(2)] by (metis (no_types, lifting) map_cong)
qed

lemma find_filter: "find P xs = (case filter P xs of [] \<Rightarrow> None | x # _ \<Rightarrow> Some x)"
  by (induction xs) auto

lemma named_by_dynamic: "tree_for adds r \<Longrightarrow> dynamic pmid \<Longrightarrow> named_by r pmid = []"
  using named_by_names(1) [of adds r pmid] by (cases "named_by r pmid") (auto simp: tree_for_def name_space_def)

lemma name_all_loaded:
  assumes "tree_for adds r" "loaded r n (fst ` set (refs_of r)) t"
  shows "pmNameAll [] t pmid = (if named_by r pmid = [] then Inl PM_ERR_PMID else Inr (named_by r pmid))"
    "pmNameID [] t pmid = (if named_by r pmid = [] then Inl PM_ERR_PMID else Inr (hd (named_by r pmid)))"
  unfolding pmNameAll_def pmNameID_def find_filter using names_loaded [OF assms, of pmid, symmetric] named_by_dynamic [OF assms(1), of pmid]
  by (auto simp: dmgetname_def Let_def split: list.split)

text \<open>
  C15: From identifiers back to names. After the names were loaded as above and without derived metrics, \<open>pmNameAll\<close> gives each of the names that were added with
  an identifier once and no other names, \<open>pmNameID\<close> gives the first of them, and each name that is given is looked up to that identifier;
  if there is no name, both give the error for unknown identifiers.
\<close>

theorem pmns_names:
  assumes "name_space adds" "enough mem adds"
  shows "\<exists>t. load_names mem n adds = Some t \<and> (\<forall>pmid.
    if pmid \<in> snd ` set adds then \<exists>names. pmNameAll [] t pmid = Inr names \<and> pmNameID [] t pmid = Inr (hd names) \<and>
      distinct names \<and> set names = {name. pmLookupName [] t [name] = (1, [pmid])} \<and> set names = {name. (name, pmid) \<in> set adds}
    else pmNameAll [] t pmid = Inl PM_ERR_PMID \<and> pmNameID [] t pmid = Inl PM_ERR_PMID)"
proof -
  obtain t0 t where "add_names mem adds pmNewPMNS = Some t0" and t: "load_names mem n adds = Some t" "tree_for adds (root t0)"
    "loaded (root t0) n (fst ` set (refs_of (root t0))) t" "mark_state t = 0"
    by (rule load_names_tree [OF assms])
  have look: "pmLookupName [] t [name] = name_status adds name" for name by (rule lookup_all [OF t(2,3)])
  have "name_status adds name = (1, [pmid]) \<longleftrightarrow> map_of adds name = Some pmid" for name pmid by (simp add: name_status_def pmns_errors split: option.split)
  with look have look: "pmLookupName [] t [name] = (1, [pmid]) \<longleftrightarrow> (name, pmid) \<in> set adds" for name pmid using assms(1) by (simp add: name_space_def)
  have e: "named_by (root t0) pmid = [] \<longleftrightarrow> pmid \<notin> snd ` set adds" for pmid using named_by_names(1) [OF t(2), of pmid] by (force simp: set_empty [symmetric] simp del: set_empty)
  have "if pmid \<in> snd ` set adds then \<exists>names. pmNameAll [] t pmid = Inr names \<and> pmNameID [] t pmid = Inr (hd names) \<and>
      distinct names \<and> set names = {name. pmLookupName [] t [name] = (1, [pmid])} \<and> set names = {name. (name, pmid) \<in> set adds}
    else pmNameAll [] t pmid = Inl PM_ERR_PMID \<and> pmNameID [] t pmid = Inl PM_ERR_PMID" for pmid
    unfolding name_all_loaded [OF t(2,3)] e look using named_by_names [OF t(2), of pmid] by auto
  then show ?thesis using t(1) by blast
qed

section \<open>Trees of agents and client name spaces\<close>

lemma name_match:
  assumes "no_dot n"
  shows "tail name = None \<Longrightarrow> take (length n) name = n \<and> length name = length n \<longleftrightarrow> component name = n"
    "tail name = None \<Longrightarrow> take (length n) name = n \<Longrightarrow> length name \<noteq> length n \<Longrightarrow> name ! length n \<noteq> CHR ''.''"
    "tail name = Some rest \<Longrightarrow> \<not> (take (length n) name = n \<and> length name = length n)"
    "tail name = Some rest \<Longrightarrow> take (length n) name = n \<and> name ! length n = CHR ''.'' \<longleftrightarrow> component name = n"
    "tail name = Some rest \<Longrightarrow> component name = n \<Longrightarrow> drop (length n + 1) name = rest"
proof -
  have e: "name = (case tail name of None \<Rightarrow> component name | Some rest \<Rightarrow> component name @ CHR ''.'' # rest)" by (rule component_tail)
  show "take (length n) name = n \<and> length name = length n \<longleftrightarrow> component name = n" if "tail name = None"
    using e that by auto
  show "name ! length n \<noteq> CHR ''.''" if h: "tail name = None" "take (length n) name = n" "length name \<noteq> length n"
  proof -
    have "length n < length name" using h(2,3) by (metis length_take min.cobounded1 nat_less_le)
    moreover have "no_dot name" using e h(1) no_dot_component [of name] by simp
    ultimately show ?thesis by (auto simp: no_dot_def not_dot_def list_all_length)
  qed
  show "\<not> (take (length n) name = n \<and> length name = length n)" if "tail name = Some rest"
    using component_dotted(2) [OF assms] that by force
  show "take (length n) name = n \<and> name ! length n = CHR ''.'' \<longleftrightarrow> component name = n" if h: "tail name = Some rest"
  proof
    assume t: "take (length n) name = n \<and> name ! length n = CHR ''.''"
    have "length n < length name" using t h component_dotted(2) [OF assms] by (metis length_take min.cobounded1 nat_less_le option.distinct(1) take_all_iff order_refl)
    then have "name = n @ CHR ''.'' # drop (Suc (length n)) name" using t by (metis id_take_nth_drop)
    then show "component name = n" using component_dotted(3) [OF assms] by metis
  next
    assume "component name = n"
    moreover have "name = component name @ CHR ''.'' # rest" using e h by simp
    ultimately show "take (length n) name = n \<and> name ! length n = CHR ''.''" by (metis append_eq_conv_conj nth_append_length)
  qed
  show "drop (length n + 1) name = rest" if h: "tail name = Some rest" "component name = n"
  proof -
    have "name = n @ CHR ''.'' # rest" using e h by simp
    then show ?thesis by simp
  qed
qed

lemma pmda_lookup_iff:
  "wf_kids nps \<Longrightarrow> pmdaNodeLookup i nps name = Some path \<longleftrightarrow>
    (\<exists>j q. path = (i + j) # q \<and> j < length nps \<and> valid_path (nps ! j) q \<and> pn_name (nps ! j) # node_names (nps ! j) q = comps name)"
proof (induction i nps name arbitrary: path rule: pmdaNodeLookup.induct)
  case (2 i n pmid kids nps name)
  have w: "no_dot n" "wf_kids nps" "n \<notin> pn_name ` set nps" using "2.prems" by auto
  have k: "pmid = PM_ID_NULL \<Longrightarrow> wf_kids kids" "pmid \<noteq> PM_ID_NULL \<Longrightarrow> kids = []" using "2.prems" PM_ID_NULL_marked by (auto split: if_splits)
  let ?at = "\<lambda>nps j q. j < length nps \<and> valid_path (nps ! j) q \<and> pn_name (nps ! j) # node_names (nps ! j) q = comps name"
  have split: "(\<exists>j q. path = (i + j) # q \<and> ?at (PN n pmid kids # nps) j q) \<longleftrightarrow>
    (\<exists>q. path = i # q \<and> valid_path (PN n pmid kids) q \<and> n # node_names (PN n pmid kids) q = comps name) \<or> (\<exists>j q. path = (Suc i + j) # q \<and> ?at nps j q)" (is "?L \<longleftrightarrow> ?A \<or> ?B")
    by (rule iffI; (elim exE conjE disjE)?) (simp add: nth_Cons split: nat.splits; force)+
  have "pn_name (nps ! j) \<noteq> n" if "j < length nps" for j using w(3) nth_mem [OF that] by force
  then have other: "\<not> ?B" if "component name = n" using that by (auto simp: comps.simps [of name])
  show ?case
  proof (cases name rule: comps_cases)
    case (1 m)
    note nm = name_match(1,2) [OF w(1) 1(3)]
    show ?thesis
    proof (cases "component name = n")
      case True
      have "valid_path (PN n pmid kids) q \<and> n # node_names (PN n pmid kids) q = comps name \<longleftrightarrow> q = []" for q using 1 True by (cases q) auto
      then show ?thesis using True nm(1) other [OF True] unfolding split by auto
    next
      case False
      then have "pmdaNodeLookup i (PN n pmid kids # nps) name = pmdaNodeLookup (Suc i) nps name" using nm by auto
      moreover have "\<not> ?A" using 1 False by auto
      moreover have "pmdaNodeLookup (Suc i) nps name = Some path \<longleftrightarrow> ?B" using "2.IH"(2) [OF _ _ w(2), of path] nm False by blast
      ultimately show ?thesis unfolding split by argo
    qed
  next
    case (2 m rest)
    note nm = name_match(3-5) [OF w(1) 2(3)]
    show ?thesis
    proof (cases "component name = n \<and> pmid = PM_ID_NULL")
      case True
      have "pmdaNodeLookup 0 kids rest = Some q \<longleftrightarrow> (\<exists>j q'. q = (0 + j) # q' \<and> j < length kids \<and> valid_path (kids ! j) q' \<and> pn_name (kids ! j) # node_names (kids ! j) q' = comps rest)" for q
        using "2.IH"(1) [of q] True nm k(1) by auto
      then have "pmdaNodeLookup 0 kids rest = Some q \<longleftrightarrow> valid_path (PN n pmid kids) q \<and> node_names (PN n pmid kids) q = comps rest" for q
        by (cases q) auto
      then have "pmdaNodeLookup i (PN n pmid kids # nps) name = Some path \<longleftrightarrow> ?A" using nm True 2 by auto
      then show ?thesis using other True unfolding split by blast
    next
      case False
      then have "pmdaNodeLookup i (PN n pmid kids # nps) name = pmdaNodeLookup (Suc i) nps name" using nm by auto
      moreover have "\<not> ?A" using 2 False k(2) by (auto simp: neq_Nil_conv) (metis comps_ne node_names.simps(1) valid_path.elims(2) list.size(3) not_less_zero pmnsNode.sel(3))
      moreover have "pmdaNodeLookup (Suc i) nps name = Some path \<longleftrightarrow> ?B" using "2.IH"(2) [OF _ _ w(2), of path] nm False by blast
      ultimately show ?thesis unfolding split by argo
    qed
  qed
qed simp

lemma wf_nth: "wf_kids nps \<Longrightarrow> i < length nps \<Longrightarrow> wf_kids [nps ! i]"
proof (induction nps arbitrary: i rule: wf_kids.induct)
  case (2 n p kids nps)
  then show ?case by (cases i) (simp_all split: if_splits)
qed simp

lemma wf_node: "wf_kids (pn_first r) \<Longrightarrow> valid_path r q \<Longrightarrow> q \<noteq> [] \<Longrightarrow> wf_kids [node_at r q]"
proof (induction q arbitrary: r)
  case (Cons i q)
  have "wf_kids [pn_first r ! i]" using wf_nth Cons.prems(1,2) by simp
  moreover from this have "wf_kids (pn_first (pn_first r ! i))" by (cases "pn_first r ! i") (auto split: if_splits)
  ultimately show ?case using Cons by (cases "q = []") auto
qed simp

lemma nonleaf_iff: "wf_kids [np] \<Longrightarrow> NONLEAF np \<longleftrightarrow> pn_first np \<noteq> []"
  using PM_ID_NULL_marked by (cases np) (auto simp: NONLEAF_def split: if_splits)

lemma pmda_lookup_path:
  assumes "wf_kids (pn_first r)"
  shows "pmdaNodeLookup 0 (pn_first r) name = Some q \<longleftrightarrow> valid_path r q \<and> node_names r q = comps name"
  unfolding pmda_lookup_iff [OF assms] using comps_ne(1) [of name] by (cases q) auto

lemma tree_pmid:
  assumes "tree_for adds (root t0)"
  shows "pmdaTreePMID t0 name = (case map_of adds name of Some p \<Rightarrow> Inr p | None \<Rightarrow> Inl PM_ERR_NAME)"
proof -
  let ?r = "root t0"
  have wf: "wf_kids (pn_first ?r)" using assms by (simp add: tree_for_def)
  have n: "named ?r" using wf_named [OF wf] by (cases ?r) simp
  have d: "map_of adds name = Some p \<longleftrightarrow> (name, p) \<in> set adds" for p using assms by (simp add: tree_for_def name_space_def)
  show ?thesis
  proof (cases "pmdaNodeLookup 0 (pn_first ?r) name")
    case None
    then have "(name, p) \<notin> set adds" for p using pmda_lookup_path [OF wf, of name] tree_for_refs [OF assms] refs_valid by (metis option.distinct(1))
    then show ?thesis using None d by (auto simp: pmdaTreePMID_def split: option.split)
  next
    case (Some q)
    then have q: "valid_path ?r q" "node_names ?r q = comps name" using pmda_lookup_path [OF wf] by blast+
    then have ne: "q \<noteq> []" using comps_ne by (metis node_names.simps(1))
    have "(name, p) \<in> set adds \<longleftrightarrow> (q, p) \<in> set (refs_of ?r)" for p
      unfolding tree_for_refs [OF assms] using names_unique [OF n _ q(1)] refs_valid q(2) by metis
    then have "map_of adds name = Some p \<longleftrightarrow> \<not> NONLEAF (node_at ?r q) \<and> pn_pmid (node_at ?r q) = p" for p
      using d leaf_refs_iff [OF wf] nonleaf_iff [OF wf_node [OF wf q(1) ne]] q(1) ne by blast
    then have "map_of adds name = (if NONLEAF (node_at ?r q) then None else Some (pn_pmid (node_at ?r q)))" by (cases "map_of adds name") auto
    then show ?thesis using Some by (simp add: pmdaTreePMID_def)
  qed
qed

lemma tree_size: "wf_kids nps \<Longrightarrow> pmdaNodeCount nps = length (leaves nps)"
  using PM_ID_NULL_marked by (induction nps rule: leaves.induct) (auto split: if_splits)

lemma tree_name:
  assumes "tree_for adds (root t0)"
  shows "pmdaTreeName (pmdaTreeRebuildHash t0 n) pmid = (if named_by (root t0) pmid = [] then Inl PM_ERR_PMID else Inr (named_by (root t0) pmid))"
proof -
  have wf: "wf_kids (pn_first (root t0))" using assms by (simp add: tree_for_def)
  have "pmdaTreeReindexHash [] 0 (pn_first (root t0)) (replicate (htab_size n) []) = leaf_table (root t0) n" using reindex_links [OF wf] by (simp add: leaf_table_def)
  moreover have "filter (\<lambda>np. pn_pmid (node_at (root t0) np) = pmid) (chain (leaf_table (root t0) n) pmid) = map fst (rev (filter (\<lambda>(q, p). p = pmid) (refs_of (root t0))))"
    by (rule chain_filter [OF wf]) (use leaf_refs_iff [OF wf] in blast)
  ultimately show ?thesis by (simp add: pmdaTreeName_def pmdaTreeRebuildHash_def named_by_def Let_def)
qed

text \<open>The children of a node, with all names loaded.\<close>

lemma loaded_kids:
  assumes "tree_for adds r" "loaded r n (fst ` set (refs_of r)) t" "valid_path r q" "i < length (pn_first (node_at r q))"
  shows "pn_name (pn_first (node_at (root t) q) ! i) = pn_name (pn_first (node_at r q) ! i)"
    "pn_pmid (pn_first (node_at (root t) q) ! i) AND MARK_BIT = 0"
    "kid_status (pn_first (node_at (root t) q) ! i) = (if NONLEAF (pn_first (node_at r q) ! i) then PMNS_NONLEAF_STATUS else PMNS_LEAF_STATUS)"
proof -
  note L = loadedD [OF assms(2)]
  let ?k = "node_at r (q @ [i])" and ?k' = "node_at (root t) (q @ [i])"
  have v: "valid_path r (q @ [i])" using assms(3,4) by (simp add: valid_path_append)
  have at: "pn_first (node_at r' q) ! i = node_at r' (q @ [i])" for r' by (simp add: node_at_append)
  show "pn_name (pn_first (node_at (root t) q) ! i) = pn_name (pn_first (node_at r q) ! i)" unfolding at using same_shape(1,3) [OF L(2)] v by blast
  obtain q' p where q': "(q', p) \<in> set (refs_of r)" "prefix (q @ [i]) q'" using leaf_below [OF L(1) v] by auto
  then show m: "pn_pmid (pn_first (node_at (root t) q) ! i) AND MARK_BIT = 0" unfolding at using L(5) [OF v] by force
  have leaf: "NONLEAF ?k \<longleftrightarrow> pn_first ?k' \<noteq> []"
    using nonleaf_iff [OF wf_node [OF L(1) v]] same_shape(1,4) [OF L(2), of "q @ [i]"] v by auto
  have "\<not> dynamic (pn_pmid ?k')" if "pn_first ?k' = []"
  proof -
    have k: "(q @ [i], pn_pmid ?k) \<in> set (refs_of r)" using that leaf leaf_refs_iff [OF L(1)] nonleaf_iff [OF wf_node [OF L(1) v]] v by simp
    then have "pn_pmid ?k' = pn_pmid ?k" using loaded_pmid [OF assms(2) k] by force
    moreover obtain a where "(a, pn_pmid ?k) \<in> set adds" using tree_for_ref_name [OF assms(1) k] by blast
    ultimately show ?thesis using assms(1) by (auto simp: tree_for_def name_space_def)
  qed
  then show "kid_status (pn_first (node_at (root t) q) ! i) = (if NONLEAF (pn_first (node_at r q) ! i) then PMNS_NONLEAF_STATUS else PMNS_LEAF_STATUS)"
    unfolding at using leaf by (auto simp: kid_status_def)
qed

lemma children_loaded:
  assumes "tree_for adds r" "loaded r n (fst ` set (refs_of r)) t" "valid_path r q" "(if name = [] then Some [] else locate name (root t)) = Some q"
  shows "pmGetChildrenStatus [] t name = Some (int (length (pn_first (node_at r q))), pmdaNodeRelativeChildren (pn_first (node_at r q)))"
proof -
  note L = loadedD [OF assms(2)]
  let ?kids = "pn_first (node_at r q)" and ?kids' = "pn_first (node_at (root t) q)"
  have len: "length ?kids' = length ?kids" using same_shape(1,4) [OF L(2)] assms(3) by blast
  have k: "pn_name (?kids' ! i) = pn_name (?kids ! i) \<and> pn_pmid (?kids' ! i) AND MARK_BIT = 0 \<and> kid_status (?kids' ! i) = (if NONLEAF (?kids ! i) then PMNS_NONLEAF_STATUS else PMNS_LEAF_STATUS)"
    if "i < length ?kids" for i using loaded_kids [OF assms(1-3) that] by blast
  then have "\<forall>np \<in> set ?kids'. pn_pmid np AND MARK_BIT = 0" using len by (metis in_set_conv_nth)
  then have "filter (\<lambda>np. pn_pmid np AND MARK_BIT = 0) ?kids' = ?kids'" by simp
  moreover have "map (\<lambda>np. (pn_name np, kid_status np)) ?kids' = pmdaNodeRelativeChildren ?kids"
    by (rule nth_equalityI) (use len k in \<open>simp_all add: pmdaNodeRelativeChildren_def\<close>)
  ultimately have "local_children (root t) name = (int (length ?kids), pmdaNodeRelativeChildren ?kids)" using assms(4) len by (simp only: local_children_def option.case Let_def)
  then show ?thesis by (simp add: pmGetChildrenStatus_def dmchildren_def pmns_errors)
qed

text \<open>
  C20: The library for agents and the client library agree. For the same names, loaded as above and without derived metrics, \<open>pmdaTreePMID\<close>, which searches the
  tree without a hash table and without marks, finds the identifiers that \<open>pmLookupName\<close> finds, \<open>pmdaTreeSize\<close> counts the names,
  \<open>pmdaTreeName\<close> on the table of \<open>pmdaTreeRebuildHash\<close> gives the names that \<open>pmNameAll\<close> gives, in the same order, and \<open>pmdaTreeChildren\<close> gives for each
  name that is not empty the children that \<open>pmGetChildrenStatus\<close> gives, with the same status.
\<close>

theorem pmda_tree_equiv:
  assumes "name_space adds" "enough mem adds"
  shows "\<exists>t0 t. add_names mem adds pmNewPMNS = Some t0 \<and> load_names mem n adds = Some t \<and> pmdaTreeSize t0 = length adds \<and>
    (\<forall>name. pmdaTreePMID t0 name = (case pmLookupName [] t [name] of (sts, pmids) \<Rightarrow> if sts = 1 then Inr (hd pmids) else Inl PM_ERR_NAME)) \<and>
    (\<forall>pmid. pmdaTreeName (pmdaTreeRebuildHash t0 n) pmid = pmNameAll [] t pmid) \<and>
    (\<forall>c name. pmGetChildrenStatus [] t (c # name) =
      Some (case pmdaTreeChildren t0 (c # name) False of Inl sts \<Rightarrow> (sts, []) | Inr kids \<Rightarrow> (int (length kids), kids)))"
proof -
  obtain t0 t where t0: "add_names mem adds pmNewPMNS = Some t0" and t: "load_names mem n adds = Some t" "tree_for adds (root t0)"
    "loaded (root t0) n (fst ` set (refs_of (root t0))) t" and "mark_state t = 0"
    by (rule load_names_tree [OF assms])
  let ?r = "root t0"
  have wf: "wf_kids (pn_first ?r)" using t(2) by (simp add: tree_for_def)
  have look: "pmLookupName [] t [name] = name_status adds name" for name by (rule lookup_all [OF t(2,3)])
  have size: "pmdaTreeSize t0 = length adds" using tree_size [OF wf] t(2) by (simp add: pmdaTreeSize_def tree_for_def)
  have pmid: "pmdaTreePMID t0 name = (case pmLookupName [] t [name] of (sts, pmids) \<Rightarrow> if sts = 1 then Inr (hd pmids) else Inl PM_ERR_NAME)" for name
    unfolding look tree_pmid [OF t(2)] by (simp add: name_status_def pmns_errors split: option.split)
  have kids: "pmGetChildrenStatus [] t name = Some (case pmdaTreeChildren t0 name False of Inl sts \<Rightarrow> (sts, []) | Inr kids \<Rightarrow> (int (length kids), kids))"
    if name: "name \<noteq> []" for name
  proof (cases "locate name (root t)")
    case None
    then have "pmdaNodeLookup 0 (pn_first ?r) name = None" using all_located [OF t(3)] pmda_lookup_path [OF wf, of name] by (metis not_None_eq)
    then show ?thesis using None name by (simp add: pmGetChildrenStatus_def local_children_def dmchildren_def pmdaTreeChildren_def pmns_errors)
  next
    case (Some q)
    then have q: "valid_path ?r q" "node_names ?r q = comps name" using loaded_locate [OF t(3)] by blast+
    then have "pmdaNodeLookup 0 (pn_first ?r) name = Some q" using pmda_lookup_path [OF wf] by blast
    then show ?thesis using children_loaded [OF t(2,3) q(1), of name] Some name by (simp add: pmdaTreeChildren_def pmdaNodeRelativeChildren_def)
  qed
  have "pmdaTreeName (pmdaTreeRebuildHash t0 n) pmid = pmNameAll [] t pmid" for pmid unfolding name_all_loaded [OF t(2,3)] tree_name [OF t(2)] by (rule refl)
  then show ?thesis using t0 t(1) size pmid kids by blast
qed

section \<open>Traversal\<close>

lemma dotted_snoc: "dotted (ns @ [k]) = (if ns = [] then k else dotted ns @ CHR ''.'' # k)"
proof (induction ns)
  case (Cons n ns)
  then show ?case by (cases "ns = []") (simp_all add: dotted_Cons)
qed simp

text \<open>The leaves at or below a node.\<close>

definition below :: "pmnsNode \<Rightarrow> nat list \<Rightarrow> (nat list \<times> u32) list" where
  "below r q = (if pn_first (node_at r q) = [] then [(q, pn_pmid (node_at r q))] else leaf_refs q 0 (pn_first (node_at r q)))"

definition no_empty_start :: "(string \<times> u32) list \<Rightarrow> bool" where
  "no_empty_start adds \<longleftrightarrow> list_all (\<lambda>a. hd (comps (fst a)) \<noteq> []) adds"

lemma backname_ne:
  assumes "tree_for adds r" "no_empty_start adds" "valid_path r q" "q \<noteq> []"
  shows "backname r q \<noteq> []" "comps (backname r q) = node_names r q"
proof -
  have wf: "wf_kids (pn_first r)" using assms(1) by (simp add: tree_for_def)
  obtain q' p where q': "(q', p) \<in> set (refs_of r)" "prefix q q'" using leaf_below [OF wf assms(3,4)] .
  obtain b where b: "(b, p) \<in> set adds" "node_names r q' = comps b" using tree_for_ref_name [OF assms(1) q'(1)] by blast
  have pre: "prefix (node_names r q) (comps b)" using q'(2) unfolding b(2) [symmetric] by (auto simp: prefix_def node_names_append)
  then have "list_all no_dot (node_names r q)" using comps_no_dot [of b] by (auto simp: prefix_def)
  moreover have ne: "node_names r q \<noteq> []" using assms(4) by (cases q) auto
  ultimately show e: "comps (backname r q) = node_names r q" unfolding backname_def by (intro comps_dotted)
  have "hd (node_names r q) = hd (comps b)" using pre ne by (auto simp: prefix_def)
  then have "hd (comps (backname r q)) \<noteq> []" using assms(2) b(1) e by (auto simp: no_empty_start_def list_all_iff)
  then show "backname r q \<noteq> []" by (auto simp: comps.simps [of "[]"] component_def)
qed

lemma traverse_loaded:
  assumes "tree_for adds r" "loaded r n (fst ` set (refs_of r)) t" "no_empty_start adds"
  shows "valid_path r q \<Longrightarrow> q \<noteq> [] \<or> pn_first r \<noteq> [] \<Longrightarrow> \<forall>q' \<in> fst ` set (refs_of r). prefix q q' \<longrightarrow> length q' < k + length q \<Longrightarrow>
    TraversePMNS_local k [] t (backname r q) = Some (0, map (backname r \<circ> fst) (below r q))"
proof (induction k arbitrary: q)
  case 0
  have "\<exists>q' \<in> fst ` set (refs_of r). prefix q q'"
  proof (cases "q = []")
    case True
    then show ?thesis using leaf_below [of r "[0]"] loadedD(1) [OF assms(2)] 0(2) by (metis fst_conv image_eqI length_greater_0_conv list.distinct(1) prefix_bot.bot_least valid_path.simps)
  next
    case False
    then show ?thesis using leaf_below [OF loadedD(1) [OF assms(2)] 0(1)] by (metis fst_conv image_eqI)
  qed
  then show ?case using 0(3) prefix_length_le by fastforce
next
  case (Suc k)
  let ?kids = "pn_first (node_at r q)" and ?name = "backname r q"
  have name: "?name = [] \<longleftrightarrow> q = []" using backname_ne(1) [OF assms(1,3) Suc.prems(1)] by (auto simp: backname_def)
  have "(if ?name = [] then Some [] else locate ?name (root t)) = Some q"
  proof (cases "q = []")
    case False
    then have "\<exists>q' \<in> fst ` set (refs_of r). prefix q q'" using leaf_below [OF loadedD(1) [OF assms(2)] Suc.prems(1)] by (metis fst_conv image_eqI)
    then show ?thesis using loaded_locate [OF assms(2)] Suc.prems(1) backname_ne [OF assms(1,3) Suc.prems(1) False] by simp
  qed (simp add: backname_def)
  note ch = children_loaded [OF assms(1,2) Suc.prems(1) this]
  have "traverse_kids k [] t ?name (map pn_name nps) = Some (0, map (backname r \<circ> fst) (leaf_refs q i nps))" if "drop i ?kids = nps" for i nps
    using that
  proof (induction nps arbitrary: i)
    case (Cons np nps)
    have d: "i < length ?kids" "?kids ! i = np" "drop (Suc i) ?kids = nps" using drop_nth [OF Cons.prems] by auto
    have v: "valid_path r (q @ [i])" using Suc.prems(1) d(1) by (simp add: valid_path_append)
    have at: "node_at r (q @ [i]) = np" using d(2) by (simp add: node_at_append)
    have "child_name ?name (pn_name np) = backname r (q @ [i])"
      using name d(2) by (cases "q = []") (auto simp: child_name_def backname_def node_names_append dotted_snoc)
    moreover have "\<forall>q' \<in> fst ` set (refs_of r). prefix (q @ [i]) q' \<longrightarrow> length q' < k + length (q @ [i])" using Suc.prems(3) append_prefixD by fastforce
    ultimately have "TraversePMNS_local k [] t (child_name ?name (pn_name np)) = Some (0, map (backname r \<circ> fst) (below r (q @ [i])))" using Suc.IH [OF v] by simp
    moreover have "leaf_refs q i (np # nps) = below r (q @ [i]) @ leaf_refs q (Suc i) nps" using at by (cases np) (simp add: below_def)
    ultimately show ?case using Cons.IH [OF d(3)] by simp
  qed simp
  from this [of 0 ?kids] show ?case using ch by (simp add: below_def pmdaNodeRelativeChildren_def comp_def)
qed

lemma length_names: "length (node_names r q) = length q"
  by (induction r q rule: node_names.induct) auto

lemma refs_backnames:
  assumes "tree_for adds r"
  shows "set (map (backname r) (map fst (refs_of r))) = fst ` set adds"
proof (rule equalityI)
  have "backname r q \<in> fst ` set adds" if q: "(q, p) \<in> set (refs_of r)" for q p
  proof -
    obtain name where "(name, p) \<in> set adds" "backname r q = name" using tree_for_ref_name [OF assms q] by blast
    then show ?thesis by force
  qed
  then show "set (map (backname r) (map fst (refs_of r))) \<subseteq> fst ` set adds" by auto
  show "fst ` set adds \<subseteq> set (map (backname r) (map fst (refs_of r)))"
  proof
    fix a
    assume "a \<in> fst ` set adds"
    then obtain p where "(a, p) \<in> set adds" by auto
    then obtain q where q: "(q, p) \<in> set (refs_of r)" "node_names r q = comps a" using tree_for_refs [OF assms] by blast
    then have "backname r q = a" by (simp add: backname_def)
    then show "a \<in> set (map (backname r) (map fst (refs_of r)))" using q(1) by force
  qed
qed

lemma absolute_children: "pmdaNodeChildrenGetList r path i nps = map (\<lambda>(q, p). (backname r q, PMNS_LEAF_STATUS)) (leaf_refs path i nps)" if "wf_kids nps"
  using that
proof (induction r path i nps rule: pmdaNodeChildrenGetList.induct)
  case (2 r path i n pmid kids nps)
  then show ?case using PM_ID_NULL_marked by (cases "kids = []") auto
qed simp

text \<open>
  The traversal of a name space ends and visits every metric once. On a name space that is not empty, in which no name starts with an empty
  component, \<open>TraversePMNS_local\<close> from the root succeeds within a depth of one more than the longest name, and
  calls the function for exactly the names that were added, for each of them once.
  \<open>pmdaTreeChildren\<close> with its flag set finds below each name the same metrics in the same order.
\<close>

theorem pmns_traverse:
  assumes "name_space adds" "enough mem adds" "no_empty_start adds" "adds \<noteq> []" "mem < k"
  shows "\<exists>t0 t called. add_names mem adds pmNewPMNS = Some t0 \<and> load_names mem n adds = Some t \<and>
    TraversePMNS_local k [] t [] = Some (0, called) \<and> distinct called \<and> set called = fst ` set adds \<and>
    (\<forall>c name kids. pmdaTreeChildren t0 (c # name) True = Inr kids \<longrightarrow> TraversePMNS_local k [] t (c # name) = Some (0, map fst kids))"
proof -
  obtain t0 t where t0: "add_names mem adds pmNewPMNS = Some t0" and t: "load_names mem n adds = Some t" "tree_for adds (root t0)"
    "loaded (root t0) n (fst ` set (refs_of (root t0))) t" and "mark_state t = 0"
    by (rule load_names_tree [OF assms(1,2)])
  let ?r = "root t0"
  have wf: "wf_kids (pn_first ?r)" using t(2) by (simp add: tree_for_def)
  have len: "length q \<le> mem" if q: "(q, p) \<in> set (refs_of ?r)" for q p
  proof -
    obtain b where "(b, p) \<in> set adds" "node_names ?r q = comps b" using tree_for_ref_name [OF t(2) q] by blast
    moreover have "length (node_names ?r q) = length q" by (rule length_names)
    ultimately show ?thesis using assms(2) by (force simp: enough_def list_all_iff)
  qed
  have deep: "\<forall>q' \<in> fst ` set (refs_of ?r). prefix q q' \<longrightarrow> length q' < k + length q" for q using len assms(5) by fastforce
  have some: "pn_first ?r \<noteq> []" using t(2) assms(4) by (auto simp: tree_for_def)
  have "TraversePMNS_local k [] t (backname ?r []) = Some (0, map (backname ?r \<circ> fst) (below ?r []))" by (rule traverse_loaded [OF t(2,3) assms(3) _ _ deep]) (use some in simp_all)
  then have root: "TraversePMNS_local k [] t [] = Some (0, map (backname ?r) (map fst (refs_of ?r)))" using some by (simp add: below_def backname_def)
  have d: "distinct (map (backname ?r) (map fst (refs_of ?r)))"
    unfolding distinct_map [of "backname ?r"] using backname_inj [OF t(2)] leaf_refs_distinct [of "[]" 0 "pn_first ?r"] by simp
  have s: "set (map (backname ?r) (map fst (refs_of ?r))) = fst ` set adds" by (rule refs_backnames [OF t(2)])
  have "TraversePMNS_local k [] t name = Some (0, map fst kids)" if h: "pmdaTreeChildren t0 name True = Inr kids" for name kids
  proof -
    obtain q where l: "pmdaNodeLookup 0 (pn_first ?r) name = Some q" "kids = pmdaNodeAbsoluteChildren ?r q" using h by (auto simp: pmdaTreeChildren_def split: option.splits)
    then have q: "valid_path ?r q" "node_names ?r q = comps name" using pmda_lookup_path [OF wf] by blast+
    then have ne: "q \<noteq> []" using comps_ne(2) by (metis node_names.simps(1))
    have b: "backname ?r q = name" using q(2) by (simp add: backname_def)
    have w: "wf_kids [node_at ?r q]" by (rule wf_node [OF wf q(1) ne])
    then have "wf_kids (pn_first (node_at ?r q))" by (cases "node_at ?r q") (auto split: if_splits)
    then have "map fst kids = map (backname ?r \<circ> fst) (below ?r q)"
      using l(2) nonleaf_iff [OF w] by (simp add: pmdaNodeAbsoluteChildren_def below_def absolute_children case_prod_unfold)
    then show ?thesis using traverse_loaded [OF t(2,3) assms(3) q(1) _ deep] ne b by simp
  qed
  then show ?thesis using t0 t(1) root d s by blast
qed

section \<open>Examples\<close>

definition sample_names :: "(string \<times> u32) list" where
  "sample_names = [(''hw.cpu'', 1), (''hw.mem'', 2), (''load'', 3)]"

definition alias_names :: "(string \<times> u32) list" where
  "alias_names = [(''hw.cpu'', 1), (''load'', 1)]"

lemma comps_sample: "comps ''hw.cpu'' = [''hw'', ''cpu'']" "comps ''hw.mem'' = [''hw'', ''mem'']" "comps ''load'' = [''load'']" "comps ''hw'' = [''hw'']"
  by (simp_all add: comps.simps component_def tail_def not_dot_def)

lemma sample_ok: "name_space sample_names" "enough 2 sample_names" "no_empty_start sample_names" "distinct (map snd sample_names)" "name_space alias_names" "enough 2 alias_names"
  by (simp_all add: name_space_def enough_def no_empty_start_def sample_names_def alias_names_def comps_sample MARK_BIT_def dynamic_def domain_of_def pmid_item_def DYNAMIC_PMID_def)

theorem pmns_lookup_witness:
  "\<exists>t. load_names 2 3 sample_names = Some t \<and> pmLookupName [] t [''hw.mem''] = (1, [2]) \<and> pmLookupName [] t [''hw''] = (PM_ERR_NONLEAF, [PM_ID_NULL])"
proof -
  have "name_status sample_names ''hw.mem'' = (1, [2])" "name_status sample_names ''hw'' = (PM_ERR_NONLEAF, [PM_ID_NULL])"
    by (simp_all add: name_status_def sample_names_def comps_sample)
  then show ?thesis using pmns_lookup [OF sample_ok(1,2), of 3] by metis
qed

theorem pmns_trim_witness:
  "\<exists>t. load_names 2 3 sample_names = Some t \<and> pmLookupName [] (pmTrimNameSpace True True [3] t) [''load''] = (1, [3]) \<and>
    pmLookupName [] (pmTrimNameSpace True True [3] t) [''hw.mem''] = (PM_ERR_NAME, [PM_ID_NULL])"
proof -
  let ?f = "filter (\<lambda>(a, p). p \<in> set [3]) sample_names"
  have "name_status ?f ''load'' = (1, [3])" "name_status ?f ''hw.mem'' = (PM_ERR_NAME, [PM_ID_NULL])"
    by (simp_all add: name_status_def sample_names_def comps_sample)
  moreover have "list_all (\<lambda>pmid. pmid AND MARK_BIT = 0) [3]" by (simp add: MARK_BIT_def)
  ultimately show ?thesis using pmns_trim [OF sample_ok(1,2,4), of "[3]" 3] by metis
qed

theorem pmns_trim_alias_witness:
  "\<exists>t. load_names 2 2 alias_names = Some t \<and>
    (fst (pmLookupName [] (pmTrimNameSpace True True [1] t) [''hw.cpu'']) < 0 \<or> fst (pmLookupName [] (pmTrimNameSpace True True [1] t) [''load'']) < 0)"
  by (rule pmns_trim_alias [OF sample_ok(5,6), of _ 1]) (simp_all add: alias_names_def MARK_BIT_def)

theorem pmns_names_witness:
  "\<exists>t names. load_names 2 2 alias_names = Some t \<and> pmNameAll [] t 1 = Inr names \<and> distinct names \<and> set names = {''hw.cpu'', ''load''}"
proof -
  have "1 \<in> snd ` set alias_names" "{name. (name, 1) \<in> set alias_names} = {''hw.cpu'', ''load''}" by (auto simp: alias_names_def)
  then show ?thesis using pmns_names [OF sample_ok(5,6), of 2] by metis
qed

theorem pmda_tree_equiv_witness:
  "\<exists>t0 t. add_names 2 sample_names pmNewPMNS = Some t0 \<and> load_names 2 3 sample_names = Some t \<and> pmdaTreeSize t0 = 3 \<and>
    pmdaTreeName (pmdaTreeRebuildHash t0 3) 2 = pmNameAll [] t 2"
proof -
  have "length sample_names = 3" by (simp add: sample_names_def)
  then show ?thesis using pmda_tree_equiv [OF sample_ok(1,2), of 3] by metis
qed

theorem pmns_traverse_witness:
  "\<exists>t called. load_names 2 3 sample_names = Some t \<and> TraversePMNS_local 3 [] t [] = Some (0, called) \<and> distinct called \<and> set called = {''hw.cpu'', ''hw.mem'', ''load''}"
proof -
  have "fst ` set sample_names = {''hw.cpu'', ''hw.mem'', ''load''}" "sample_names \<noteq> []" "(2 :: nat) < 3" by (auto simp: sample_names_def)
  then show ?thesis using pmns_traverse [OF sample_ok(1-3), of 3 3] by metis
qed

end
