(* ===== verification/Spec2Isabelle.thy ===== *)
theory Spec2Isabelle
  imports Prelude Endian Pdubuf Pdu Codec Pdu_Control Pdu_Pmns Pdu_Instance Profile Hash Pdu_Profile
    Pdu_Result Pdu_Lcontrol Optfetch Access Af Eventq Events Values Andor Pmns
begin

text \<open>
  A verification of the core of Performance Co-Pilot: the library \<^verbatim>\<open>src/src/libpcp/src\<close> with its protocol,
  the events and name space trees of the agent library \<^verbatim>\<open>src/src/libpcp_pmda/src\<close>, and the conditions of the
  inference engine \<^verbatim>\<open>src/src/pmie/src\<close>.

  \<^bold>\<open>The program.\<close> Performance Co-Pilot collects performance metrics. Clients, the collector daemon
  and its agents, and the archive loggers talk to each other in PDUs, messages of 32-bit words in
  network byte order behind a header with length, type and sender. \<^verbatim>\<open>libpcp\<close> implements the
  protocol for all of them: \<^verbatim>\<open>pdubuf.c\<close> keeps a pool of pinned and free buffers; \<^verbatim>\<open>pdu.c\<close> reads
  and writes PDUs in these buffers; \<^verbatim>\<open>endian.c\<close> converts byte orders; each \<^verbatim>\<open>p_*.c\<close> encodes and decodes
  one kind of PDU. A client keeps a profile of the instances it wants (\<^verbatim>\<open>profile.c\<close>), which it
  sends to the collector, and bundles its requests into fetches (\<^verbatim>\<open>optfetch.c\<close>); tables throughout the library are the hash tables of \<^verbatim>\<open>hash.c\<close>.
  The collector decides who may connect (\<^verbatim>\<open>access.c\<close>), loggers run their fetches on timers
  (\<^verbatim>\<open>AF.c\<close>), and agents queue events for each client (\<^verbatim>\<open>queues.c\<close>) and pack them into values
  (\<^verbatim>\<open>events.c\<close>), which clients unpack. Metrics have names in a tree (\<^verbatim>\<open>pmns.c\<close>, \<^verbatim>\<open>tree.c\<close>); their values are
  put into blocks by agents (\<^verbatim>\<open>stuffvalue.c\<close>) and extracted by clients (\<^verbatim>\<open>units.c\<close>), one of which, \<^verbatim>\<open>pmie\<close>, combines conditions
  on them (\<^verbatim>\<open>andor.c\<close>).

  \<^bold>\<open>Conventions.\<close> Definitions have the names of the C functions without leading underscores. A
  buffer is a list of bytes, and every load and store is checked: \<^const>\<open>None\<close> is an access outside the
  buffer, or any other fault of the C program. A call that can fail returns \<open>Inl\<close> with the error
  code or \<open>Inr\<close> with its result. The host is little-endian with 64-bit pointers. Lengths that the
  code keeps in an \<open>int\<close> wrap around at 32 bits (\<^const>\<open>s32\<close>), comparisons with a \<open>size_t\<close> are done
  modulo \<open>2 ^ 64\<close> (\<^const>\<open>u64\<close>). What the code gets from outside, the results of \<open>malloc\<close> and \<open>valloc\<close>,
  of \<open>recv\<close>, \<open>select\<close>, \<open>write\<close> and \<open>gettimeofday\<close>, is an argument of the definitions.

  \<^bold>\<open>The theories.\<close>

  \<^item> \<^verbatim>\<open>Prelude\<close>: words as bytes, checked buffers with their frame rules, the locale \<open>buffer_walk\<close> of
    loops that convert packed items in place, error codes and sizes of \<^verbatim>\<open>impl.h\<close>.
  \<^item> \<^verbatim>\<open>Endian\<close> (\<^verbatim>\<open>endian.c\<close>): conversion of units, credentials, value blocks and packed event arrays.
    Converting a block to network order and back restores the buffer.
  \<^item> \<^verbatim>\<open>Pdubuf\<close> (\<^verbatim>\<open>pdubuf.c\<close>): the pool as two lists, a tail pointer and the depth of the lock. Its
    invariant holds in every reachable state; a found buffer overlaps no pinned one. The locale
    \<open>buffer_pool\<close> is what the other components rely on.
  \<^item> \<^verbatim>\<open>Pdu\<close> (\<^verbatim>\<open>pdu.c\<close>): \<open>pduread\<close>, \<open>__pmGetPDU\<close>, \<open>__pmXmitPDU\<close>, ceilings and counters. A server stays inside
    its buffers whatever a peer sends; a PDU is reassembled from any fragmentation.
  \<^item> \<^verbatim>\<open>Codec\<close>: the locale \<open>pdu_codec\<close>, the contract of one kind of PDU, and what follows from it once and
    for all: what one process sends is what another decodes.
  \<^item> \<^verbatim>\<open>Pdu_Control\<close> (\<^verbatim>\<open>p_error.c\<close>, \<^verbatim>\<open>p_desc.c\<close>, \<^verbatim>\<open>p_creds.c\<close>, \<^verbatim>\<open>p_text.c\<close>, \<^verbatim>\<open>p_lrequest.c\<close>, \<^verbatim>\<open>p_lstatus.c\<close>,
    \<^verbatim>\<open>p_userauth.c\<close>), \<^verbatim>\<open>Pdu_Pmns\<close> (\<^verbatim>\<open>p_pmns.c\<close>), \<^verbatim>\<open>Pdu_Instance\<close> (\<^verbatim>\<open>p_fetch.c\<close>, \<^verbatim>\<open>p_instance.c\<close>),
    \<^verbatim>\<open>Pdu_Profile\<close> (\<^verbatim>\<open>p_profile.c\<close>), \<^verbatim>\<open>Pdu_Result\<close> (\<^verbatim>\<open>p_result.c\<close>), \<^verbatim>\<open>Pdu_Lcontrol\<close> (\<^verbatim>\<open>p_lcontrol.c\<close>):
    encoders and decoders, each interpreting \<open>pdu_codec\<close>. They show round trips, that decoders stay
    inside a PDU of any content, and the inputs for which they do not.
  \<^item> \<^verbatim>\<open>Profile\<close> (\<^verbatim>\<open>profile.c\<close>, and the current context of \<^verbatim>\<open>context.c\<close>): changes of the instance profile
    refine the documented updates of an abstract selection, by the locale \<open>selection_service\<close>, apart from the first
    deletion of instances from a domain that is selected by default.
  \<^item> \<^verbatim>\<open>Hash\<close> (\<^verbatim>\<open>hash.c\<close>): tables with chains and growth refine finite maps, by the locale \<open>keyed_store\<close>;
    walks visit every node once.
  \<^item> \<^verbatim>\<open>Optfetch\<close> (\<^verbatim>\<open>optfetch.c\<close>): requests for metrics are bundled into groups that are fetched together.
    The groups are lists of records with the addresses of the code as keys. Any use of the optimizer
    keeps them well formed and refines a multiset of requests, as long as the cost of a group of its own is
    finite when a request is added; a request goes where it costs least, and what was tried elsewhere is undone.
  \<^item> \<^verbatim>\<open>Access\<close> (\<^verbatim>\<open>access.c\<close>, and the addresses of \<^verbatim>\<open>auxconnect.c\<close>): the list of hosts and wildcards with
    denied operations and connection limits, and the clients that come and go. The list keeps its
    order; the most specific statement decides, and a connection limit counts only in the most specific
    match; counters are exact, apart from clients that come through the loopback address; a wildcard matches the network it names. The resolver is an
    argument.
  \<^item> \<^verbatim>\<open>Af\<close> (\<^verbatim>\<open>AF.c\<close>): the queue of timed events, the interval timer and its signal as a state, with a
    clock and callbacks as arguments. The queue stays ordered; the handler of the alarm ends and runs all that is due;
    a waiting event has a timer unless the clock is read at a whole second. Handlers run one at a time: that a
    callback which releases the signal lets another alarm in, and that the system restores the mask of
    signals when a handler returns, is not in the model.
  \<^item> \<^verbatim>\<open>Eventq\<close> (\<^verbatim>\<open>queues.c\<close>): queues of events with a limit of memory and the clients that read them.
    The limit is kept in every state; a single client gets the newest events that fit. What does not hold
    for several clients or for missed events is stated as such.
  \<^item> \<^verbatim>\<open>Events\<close> (both files \<^verbatim>\<open>events.c\<close>): the packer of agents and the checker and unpacker of clients.
    What is packed is unpacked, also after both conversions of \<^verbatim>\<open>Endian\<close>; the checker is safe for any bytes, the
    unpacker is not.
  \<^item> \<^verbatim>\<open>Values\<close> (\<^verbatim>\<open>stuffvalue.c\<close>, and \<open>pmExtractValue\<close> of \<^verbatim>\<open>units.c\<close>): values of all types, with floating point numbers as
    sign, exponent and fraction and their rounding written out. What is stuffed is extracted; extraction respects types; conversions are exact or refused,
    apart from those the code does not check.
  \<^item> \<^verbatim>\<open>Andor\<close> (\<^verbatim>\<open>andor.c\<close> of \<^verbatim>\<open>pmie\<close>, with the rings of samples and the choice of evaluators): conjunctions and disjunctions
    compute Kleene's three-valued logic, by the locale \<open>kleene_op\<close>, unless a scalar is the only valid argument.
  \<^item> \<^verbatim>\<open>Pmns\<close> (\<^verbatim>\<open>pmns.c\<close>, the names of \<^verbatim>\<open>derive.c\<close>, and \<^verbatim>\<open>tree.c\<close> of the agent library): the tree of names with its hash table and
    marks. Lookup is a map, names and identifiers are inverse to each other, the trees of agents agree
    with those of clients, trimming removes what is not in an archive, and the traversal ends.

  \<^bold>\<open>Bounds.\<close> Round trips hold for messages of up to \<open>INT_MAX - 2048\<close> bytes, or less where a decoder
  itself refuses more. Pinning a buffer whose count is \<open>INT_MAX\<close> is a fault. The costs of \<^verbatim>\<open>Optfetch\<close> wrap around at
  32 bits. The counters of \<^verbatim>\<open>Hash\<close> are natural numbers, for fewer than \<open>2 ^ 31\<close> additions to a table.
  The times of \<^verbatim>\<open>Af\<close> are below \<open>2 ^ 30\<close> seconds and periods below \<open>2 ^ 29\<close> seconds, where the proofs need it, and
  identifiers of events are unbounded numbers. Limits of \<^verbatim>\<open>Eventq\<close> are below \<open>INT_MAX\<close>, arrays of \<^verbatim>\<open>Events\<close> below \<open>2 ^ 24\<close>
  bytes, which is what their length field can hold. Loops are structural recursions over lists or counts, or recursive functions with a
  termination proof (\<open>pduread\<close>, \<open>__pmHashWalk\<close>, \<open>check_buf\<close>). The loops of the handler in \<^verbatim>\<open>Af\<close> depend on
  the clock and are partial functions; that they end is a theorem. The traversal of \<^verbatim>\<open>Pmns\<close> has its depth as an argument, and one more
  than the longest name is enough for it; no other fuel is used. Blocks of \<^verbatim>\<open>Values\<close> are below \<open>2 ^ 24\<close> bytes.

  \<^bold>\<open>Not modelled.\<close> Debug output. Threads: the library lock is its depth. The branches for 32-bit
  pointers and big-endian hosts. The rest of \<^verbatim>\<open>libpcp\<close> (the loader of the name space, archives and interpolation,
  contexts and connections, the expressions of derived metrics, printing and scaling of units, time zones, secure sockets), the
  daemons, agents, tools and language bindings, which are built on this core.
\<close>

end
